(* ===== verification/Mem_Prelude.thy ===== *)
theory Mem_Prelude
  imports Main "HOL-Library.Multiset" "HOL-Library.Word"
begin

text \<open>
  The prelude of the development: the integer types of \<open>src/mem.h\<close>, the log entry structures
  every component exchanges, and the generic lemmas on lists that the component theories share.
  Object numbers used as array indices are natural numbers; versions, memory operation counts and
  the objid field of a log entry are integers because the code uses \<open>-1\<close> as a mark in them.
\<close>

section \<open>Types of mem.h\<close>

type_synonym version_t = int
type_synonym memop_t = int
type_synonym objid_t = nat
type_synonym tid_t = nat
type_synonym addr_t = int
type_synonym val_t = "32 word"

text \<open>The entry of a \<open>memop\<close> log: the last read of a version of an object.\<close>

record wait_memop =
  wm_objid :: int
  wm_version :: version_t
  wm_memop :: memop_t

text \<open>The entry of a \<open>version\<close> log: the version an access must wait for.\<close>

record wait_version =
  wv_memop :: memop_t
  wv_version :: version_t

text \<open>The entry of the merged \<open>memop\<close> log that the replayer reads.\<close>

record replay_wait_memop =
  rwm_version :: version_t
  rwm_memop :: memop_t
  rwm_tid :: tid_t

section \<open>Collections of facts\<close>

named_theorems rec_simps \<open>definitions of the recording operations\<close>
named_theorems replay_simps \<open>definitions of the replay operations\<close>
named_theorems trace_simps \<open>how the trace functions grow with the trace\<close>

section \<open>Lists\<close>

lemma upt_snoc: "[0..<Suc n] = [0..<n] @ [n]"
  by simp

lemma filter_upt_cong_snoc:
  assumes "\<And>k. k < n \<Longrightarrow> P k = Q k"
  shows "filter P [0..<n] = filter Q [0..<n]"
  using assms by (intro filter_cong) auto

lemma concat_map_upt_cong:
  assumes "\<And>k. k < n \<Longrightarrow> f k = g k"
  shows "concat (map f [0..<n]) = concat (map g [0..<n])"
  using assms by (intro arg_cong [where f = concat] map_cong) auto

lemma take_snoc_le: "k \<le> length xs \<Longrightarrow> take k (xs @ ys) = take k xs"
  by simp

lemma filter_take_length_le: "length (filter P (take i xs)) \<le> length (filter P xs)"
  by (metis append_take_drop_id filter_append le_add1 length_append)

lemma filter_take_mono:
  "i \<le> j \<Longrightarrow> length (filter P (take i xs)) \<le> length (filter P (take j xs))"
  by (metis filter_take_length_le min.absorb1 take_take)

lemma filter_take_less:
  assumes "i < j" "j \<le> length xs" "P (xs ! i)"
  shows "length (filter P (take i xs)) < length (filter P (take j xs))"
proof -
  have "length (filter P (take (Suc i) xs)) = Suc (length (filter P (take i xs)))"
    using assms by (simp add: take_Suc_conv_app_nth)
  moreover have "length (filter P (take (Suc i) xs)) \<le> length (filter P (take j xs))"
    using assms(1) by (intro filter_take_mono) simp
  ultimately show ?thesis by simp
qed

text \<open>The elements of a filtered list and their positions in the list.\<close>

lemma filter_nth_take:
  assumes "i < length xs" "P (xs ! i)"
  shows "filter P xs ! length (filter P (take i xs)) = xs ! i"
    and "length (filter P (take i xs)) < length (filter P xs)"
proof -
  have "xs = take i xs @ xs ! i # drop (Suc i) xs"
    using assms(1) by (simp add: id_take_nth_drop)
  then have eq: "filter P xs = filter P (take i xs) @ xs ! i # filter P (drop (Suc i) xs)"
    by (metis assms(2) filter.simps(2) filter_append)
  show "filter P xs ! length (filter P (take i xs)) = xs ! i"
    by (subst eq) (simp add: nth_append)
  show "length (filter P (take i xs)) < length (filter P xs)"
    by (subst eq) simp
qed

lemma filter_index_ex:
  assumes "k < length (filter P xs)"
  obtains i where "i < length xs" "P (xs ! i)" "length (filter P (take i xs)) = k"
    "filter P xs ! k = xs ! i"
  using assms
proof (induction xs arbitrary: k thesis rule: rev_induct)
  case Nil
  then show ?case by simp
next
  case (snoc x xs)
  show ?case
  proof (cases "k < length (filter P xs)")
    case True
    then obtain i where "i < length xs" "P (xs ! i)" "length (filter P (take i xs)) = k"
      "filter P xs ! k = xs ! i"
      using snoc.IH by blast
    with True show ?thesis
      by (intro snoc.prems(1) [of i]) (auto simp: nth_append)
  next
    case False
    with snoc.prems(2) have "P x" "k = length (filter P xs)"
      by (auto split: if_splits)
    then show ?thesis
      by (intro snoc.prems(1) [of "length xs"]) auto
  qed
qed

lemma map_take_snoc: "k < length xs \<Longrightarrow> map f (take k xs) @ [f (xs ! k)] = map f (take (Suc k) xs)"
  by (simp add: take_Suc_conv_app_nth)

section \<open>Multisets\<close>

lemma filter_mset_sum:
  "filter_mset P (\<Sum>t\<in>A. f t) = (\<Sum>t\<in>A. filter_mset P (f t))"
  by (induction A rule: infinite_finite_induct) simp_all

lemma image_mset_sum:
  "image_mset g (\<Sum>t\<in>A. f t) = (\<Sum>t\<in>A. image_mset g (f t))"
  by (induction A rule: infinite_finite_induct) simp_all

section \<open>Sums over threads\<close>

lemma sum_lessThan_upd:
  fixes f g :: "nat \<Rightarrow> nat"
  assumes "t < n" "\<And>u. u \<noteq> t \<Longrightarrow> g u = f u"
  shows "(\<Sum>u<n. g u) + f t = (\<Sum>u<n. f u) + g t"
proof -
  have "(\<Sum>u\<in>{..<n} - {t}. g u) = (\<Sum>u\<in>{..<n} - {t}. f u)" using assms(2) by (intro sum.cong) auto
  then show ?thesis using assms(1) by (simp add: sum.remove [of "{..<n}" t])
qed

lemma sum_lessThan_dec:
  fixes f g :: "nat \<Rightarrow> nat"
  assumes "t < n" "\<And>u. u \<noteq> t \<Longrightarrow> g u = f u" "g t < f t"
  shows "(\<Sum>u<n. g u) < (\<Sum>u<n. f u)"
  using sum_lessThan_upd [of t n g f] assms by simp

end
