(* ===== verification/Mapped_Log.thy ===== *)
theory Mapped_Log
  imports Mem_Prelude
begin

text \<open>
  \<open>src/log.c\<close> and \<open>src/log.h\<close>: logs that are written and read through memory mappings. A log under
  construction maps the end of its file; when the mapping is full the file grows by
  \<open>LOG_BUFFER_SIZE\<close> and its last page and the new part are mapped anew. The theory models the file's
  bytes, the window that is mapped and the pointers into it, and shows that the entries written to a
  log are the entries read from it: the logs of the other theories are lists of entries.

  The address that \<open>mmap\<close> chooses for a window is a parameter \<open>mm\<close> of the definitions; the code relies
  on its being a multiple of the page size.
\<close>

section \<open>The program\<close>

type_synonym byte = "8 word"

definition LOG_BUFFER_SIZE :: nat where "LOG_BUFFER_SIZE = 4 * 1024"

definition PAGE_SIZE :: nat where "PAGE_SIZE = 4096"

text \<open>\<open>struct mapped_log\<close>, and behind its descriptor the bytes of the file and the offset of the mapped
  window.\<close>

record mapped_log =
  ml_start :: nat
  ml_buf :: nat
  ml_end :: nat
  ml_off :: nat
  ml_file :: "byte list"

definition mmap_aligned :: "(nat \<Rightarrow> nat \<Rightarrow> nat) \<Rightarrow> bool" where
  "mmap_aligned mm \<longleftrightarrow> (\<forall>len off. PAGE_SIZE dvd mm len off)"

definition new_mapped_log_path :: "(nat \<Rightarrow> nat \<Rightarrow> nat) \<Rightarrow> mapped_log" where
  "new_mapped_log_path mm =
     (let start = mm LOG_BUFFER_SIZE 0
      in \<lparr>ml_start = start, ml_buf = start, ml_end = start + LOG_BUFFER_SIZE, ml_off = 0,
          ml_file = replicate LOG_BUFFER_SIZE 0\<rparr>)"

text \<open>\<open>None\<close> is the failed assertion on the file's size.\<close>

definition enlarge_mapped_log :: "(nat \<Rightarrow> nat \<Rightarrow> nat) \<Rightarrow> mapped_log \<Rightarrow> mapped_log option" where
  "enlarge_mapped_log mm l =
     (let original_size = length (ml_file l)
      in if original_size mod LOG_BUFFER_SIZE \<noteq> 0 then None
         else let map_size = LOG_BUFFER_SIZE + PAGE_SIZE;
                  start = mm map_size (original_size - PAGE_SIZE);
                  page_offset = ml_buf l mod 4096
              in Some \<lparr>ml_start = start,
                       ml_buf = start + (if page_offset \<noteq> 0 then page_offset else PAGE_SIZE),
                       ml_end = start + map_size, ml_off = original_size - PAGE_SIZE,
                       ml_file = ml_file l @ replicate LOG_BUFFER_SIZE 0\<rparr>)"

text \<open>The pointer to the new entry, and the log with \<open>buf\<close> moved past it.\<close>

definition next_log_entry :: "(nat \<Rightarrow> nat \<Rightarrow> nat) \<Rightarrow> nat \<Rightarrow> mapped_log \<Rightarrow> (nat \<times> mapped_log) option" where
  "next_log_entry mm entry_size l =
     (case (if ml_buf l + entry_size > ml_end l then enlarge_mapped_log mm l else Some l) of
        None \<Rightarrow> None
      | Some l1 \<Rightarrow> Some (ml_buf l1, l1\<lparr>ml_buf := ml_buf l1 + entry_size\<rparr>))"

text \<open>Stores through a pointer into the window; \<open>None\<close> is an access outside it.\<close>

definition store_bytes :: "nat \<Rightarrow> byte list \<Rightarrow> mapped_log \<Rightarrow> mapped_log option" where
  "store_bytes p bs l =
     (if ml_start l \<le> p \<and> p + length bs \<le> ml_end l
      then let i = ml_off l + (p - ml_start l)
           in Some (l\<lparr>ml_file := take i (ml_file l) @ bs @ drop (i + length bs) (ml_file l)\<rparr>)
      else None)"

text \<open>The way all writers of logs use the two: one entry.\<close>

definition log_entry :: "(nat \<Rightarrow> nat \<Rightarrow> nat) \<Rightarrow> byte list \<Rightarrow> mapped_log \<Rightarrow> mapped_log option" where
  "log_entry mm bs l =
     (case next_log_entry mm (length bs) l of None \<Rightarrow> None | Some (p, l1) \<Rightarrow> store_bytes p bs l1)"

fun log_all :: "(nat \<Rightarrow> nat \<Rightarrow> nat) \<Rightarrow> byte list list \<Rightarrow> mapped_log \<Rightarrow> mapped_log option" where
  "log_all mm [] l = Some l"
| "log_all mm (b # bs) l = (case log_entry mm b l of None \<Rightarrow> None | Some l1 \<Rightarrow> log_all mm bs l1)"

text \<open>The file that is left: the unused end of the window is cut off.\<close>

definition truncate_log :: "mapped_log \<Rightarrow> byte list" where
  "truncate_log l = take (length (ml_file l) - (ml_end l - ml_buf l)) (ml_file l)"

text \<open>Reading. The outer \<open>None\<close> is the exit when the file is empty, which cannot be mapped; a file
  that cannot be opened gives an empty log and the code \<open>-1\<close>.\<close>

definition open_mapped_log_path :: "(nat \<Rightarrow> nat \<Rightarrow> nat) \<Rightarrow> byte list option \<Rightarrow> (int \<times> mapped_log) option" where
  "open_mapped_log_path mm file =
     (case file of
        None \<Rightarrow> Some (-1, \<lparr>ml_start = 0, ml_buf = 0, ml_end = 0, ml_off = 0, ml_file = []\<rparr>)
      | Some bs \<Rightarrow>
          if bs = [] then None
          else let start = mm (length bs) 0
               in Some (0, \<lparr>ml_start = start, ml_buf = start, ml_end = start + length bs, ml_off = 0, ml_file = bs\<rparr>))"

text \<open>The bytes of the next entry and the log moved past it, or a null pointer.\<close>

definition read_log_entry :: "nat \<Rightarrow> mapped_log \<Rightarrow> (byte list \<times> mapped_log) option" where
  "read_log_entry entry_size l =
     (if ml_buf l + entry_size > ml_end l then None
      else Some (take entry_size (drop (ml_off l + (ml_buf l - ml_start l)) (ml_file l)),
                 l\<lparr>ml_buf := ml_buf l + entry_size\<rparr>))"

definition log_end :: "mapped_log \<Rightarrow> bool" where
  "log_end l \<longleftrightarrow> ml_buf l \<ge> ml_end l"

text \<open>Reading entries until there is none; \<open>n\<close> bounds their number.\<close>

fun read_all :: "nat \<Rightarrow> nat \<Rightarrow> mapped_log \<Rightarrow> byte list list" where
  "read_all entry_size 0 l = []"
| "read_all entry_size (Suc n) l =
     (case read_log_entry entry_size l of None \<Rightarrow> [] | Some (b, l1) \<Rightarrow> b # read_all entry_size n l1)"

section \<open>Writing\<close>

text \<open>The window ends where the file ends, and the bytes before \<open>buf\<close> are the bytes written.\<close>

definition log_inv :: "byte list \<Rightarrow> mapped_log \<Rightarrow> bool" where
  "log_inv w l \<longleftrightarrow>
     ml_start l mod 4096 = 0 \<and> ml_off l mod 4096 = 0 \<and> ml_start l \<le> ml_buf l \<and> ml_buf l \<le> ml_end l \<and>
     ml_off l + (ml_end l - ml_start l) = length (ml_file l) \<and> length (ml_file l) mod 4096 = 0 \<and> 4096 \<le> length (ml_file l) \<and>
     length w = ml_off l + (ml_buf l - ml_start l) \<and> take (length w) (ml_file l) = w"

lemma log_invD:
  assumes "log_inv w l"
  shows "ml_start l mod 4096 = 0" "ml_off l mod 4096 = 0" "ml_start l \<le> ml_buf l" "ml_buf l \<le> ml_end l"
    "ml_off l + (ml_end l - ml_start l) = length (ml_file l)" "length (ml_file l) mod 4096 = 0" "4096 \<le> length (ml_file l)"
    "length w = ml_off l + (ml_buf l - ml_start l)" "take (length w) (ml_file l) = w"
  using assms unfolding log_inv_def by blast+

lemma new_log_inv: "mmap_aligned mm \<Longrightarrow> log_inv [] (new_mapped_log_path mm)"
  by (simp add: log_inv_def new_mapped_log_path_def mmap_aligned_def LOG_BUFFER_SIZE_def PAGE_SIZE_def Let_def dvd_eq_mod_eq_0)

lemma last_page:
  fixes a gap :: nat
  assumes "(a + gap) mod 4096 = 0" "gap < 4096"
  shows "a mod 4096 = (if gap = 0 then 0 else 4096 - gap)"
proof (cases "gap = 0")
  case False
  obtain q where q: "a + gap = 4096 * q" using assms(1) by (auto simp: mod_eq_0_iff_dvd)
  then obtain p where "q = Suc p" using False by (cases q) auto
  define c where "c = 4096 - gap"
  have "a = 4096 * p + c" "c < 4096" using \<open>q = Suc p\<close> q assms(2) False by (simp_all add: c_def)
  then have "a mod 4096 = c" by simp
  then show ?thesis using False by (simp add: c_def)
qed (use assms in simp)

text \<open>The new window continues the old one: \<open>buf\<close> points to the same byte of the file, and there is
  room for a page.\<close>

lemma enlarge_inv:
  assumes inv: "log_inv w l" and mm: "mmap_aligned mm" and sz: "ml_buf l + sz > ml_end l" "sz \<le> 4096"
  shows "\<exists>l1. enlarge_mapped_log mm l = Some l1 \<and> log_inv w l1 \<and> ml_buf l1 + sz \<le> ml_end l1"
proof -
  note d = log_invD [OF inv]
  define gap where "gap = ml_end l - ml_buf l"
  have gap: "gap < sz" "ml_end l = ml_buf l + gap" using sz(1) d(4) by (auto simp: gap_def)
  have lenw: "length w + gap = length (ml_file l)" using d(3,4,5,8) gap(2) by simp
  have "(ml_buf l + gap) mod 4096 = 0"
  proof -
    have "ml_end l = ml_start l + (length (ml_file l) - ml_off l)" using d(3,4,5) by simp
    moreover have "4096 dvd length (ml_file l) - ml_off l"
      using d(2,6) by (intro dvd_diff_nat) (simp_all add: mod_eq_0_iff_dvd)
    ultimately have "4096 dvd ml_end l" using d(1) by (simp add: mod_eq_0_iff_dvd)
    then show ?thesis using gap(2) by (simp add: mod_eq_0_iff_dvd)
  qed
  then have po: "ml_buf l mod 4096 = (if gap = 0 then 0 else 4096 - gap)"
    using gap(1) sz(2) last_page [of "ml_buf l" gap] by simp
  define n where "n = length (ml_file l)"
  define start where "start = mm (LOG_BUFFER_SIZE + PAGE_SIZE) (n - PAGE_SIZE)"
  define l1 where "l1 = \<lparr>ml_start = start, ml_buf = start + (4096 - gap), ml_end = start + 8192, ml_off = n - 4096,
      ml_file = ml_file l @ replicate 4096 0\<rparr>"
  have "start mod 4096 = 0" using mm by (simp add: mmap_aligned_def start_def PAGE_SIZE_def dvd_eq_mod_eq_0)
  moreover have "(n - 4096) mod 4096 = 0" using d(6,7) le_mod_geq [of 4096 n] by (simp add: n_def)
  ultimately have "log_inv w l1"
    using d(6,7,9) lenw gap(1) sz(2) by (auto simp: log_inv_def l1_def n_def)
  moreover have "enlarge_mapped_log mm l = Some l1"
    using d(6) po gap(1) sz(2)
    by (auto simp: enlarge_mapped_log_def Let_def l1_def start_def n_def LOG_BUFFER_SIZE_def PAGE_SIZE_def)
  ultimately show ?thesis using gap(1) sz(2) by (auto simp: l1_def)
qed

lemma store_inv:
  assumes inv: "log_inv w l" and room: "ml_buf l + length bs \<le> ml_end l"
  shows "\<exists>l1. store_bytes (ml_buf l) bs (l\<lparr>ml_buf := ml_buf l + length bs\<rparr>) = Some l1 \<and> log_inv (w @ bs) l1"
proof -
  note d = log_invD [OF inv]
  have i: "ml_off l + (ml_buf l - ml_start l) = length w" using d(8) by simp
  have len: "length w + length bs \<le> length (ml_file l)" using d(3,4,5,8) room by simp
  let ?f = "take (length w) (ml_file l) @ bs @ drop (length w + length bs) (ml_file l)"
  have "length ?f = length (ml_file l)" "take (length (w @ bs)) ?f = w @ bs" using len d(9) by simp_all
  then have "log_inv (w @ bs) (l\<lparr>ml_buf := ml_buf l + length bs, ml_file := ?f\<rparr>)"
    using d room by (simp add: log_inv_def)
  moreover have "store_bytes (ml_buf l) bs (l\<lparr>ml_buf := ml_buf l + length bs\<rparr>) =
      Some (l\<lparr>ml_buf := ml_buf l + length bs, ml_file := ?f\<rparr>)"
    using d(3) room i by (simp add: store_bytes_def Let_def)
  ultimately show ?thesis by blast
qed

lemma log_entry_inv:
  assumes inv: "log_inv w l" and mm: "mmap_aligned mm" and sz: "length bs \<le> 4096"
  shows "\<exists>l1. log_entry mm bs l = Some l1 \<and> log_inv (w @ bs) l1"
proof (cases "ml_buf l + length bs > ml_end l")
  case True
  from enlarge_inv [OF inv mm True sz] obtain l1 where l1: "enlarge_mapped_log mm l = Some l1" "log_inv w l1"
    "ml_buf l1 + length bs \<le> ml_end l1" by blast
  from store_inv [OF l1(2,3)] True l1(1) show ?thesis by (auto simp: log_entry_def next_log_entry_def)
next
  case False
  with store_inv [OF inv, of bs] show ?thesis by (auto simp: log_entry_def next_log_entry_def)
qed

lemma log_all_inv:
  assumes "log_inv w l" "mmap_aligned mm" "\<forall>b \<in> set bs. length b \<le> 4096"
  shows "\<exists>l1. log_all mm bs l = Some l1 \<and> log_inv (w @ concat bs) l1"
  using assms(1,3)
proof (induction bs arbitrary: w l)
  case (Cons b bs)
  from log_entry_inv [OF Cons.prems(1) assms(2), of b] Cons.prems(2)
  obtain l1 where l1: "log_entry mm b l = Some l1" "log_inv (w @ b) l1" by auto
  from Cons.IH [OF l1(2)] Cons.prems(2) l1(1) show ?case by simp
qed simp

lemma truncate_written:
  assumes "log_inv w l"
  shows "truncate_log l = w"
proof -
  note d = log_invD [OF assms]
  have "length (ml_file l) - (ml_end l - ml_buf l) = length w" using d(3,4,5,8) by simp
  then show ?thesis using d(9) by (simp add: truncate_log_def)
qed

section \<open>Reading\<close>

lemma read_all_file:
  assumes sz: "\<forall>b \<in> set bs. length b = sz" "0 < sz" and n: "length bs \<le> n"
    and l: "ml_off l = 0" "ml_start l \<le> ml_buf l" "ml_buf l + length (concat bs) = ml_end l"
      "drop (ml_buf l - ml_start l) (ml_file l) = concat bs"
  shows "read_all sz n l = bs"
  using sz(1) n l
proof (induction n arbitrary: bs l)
  case (Suc n)
  show ?case
  proof (cases bs)
    case Nil
    then show ?thesis using Suc.prems sz(2) by (simp add: read_log_entry_def)
  next
    case (Cons b bs')
    have b: "length b = sz" using Suc.prems(1) Cons by simp
    have e: "read_log_entry sz l = Some (b, l\<lparr>ml_buf := ml_buf l + sz\<rparr>)"
      using Suc.prems Cons b by (auto simp: read_log_entry_def)
    have "drop (ml_buf l + sz - ml_start l) (ml_file l) = drop sz (drop (ml_buf l - ml_start l) (ml_file l))"
      using Suc.prems(4) by (simp add: add.commute)
    also have "\<dots> = concat bs'" using Suc.prems(6) Cons b by simp
    finally have "read_all sz n (l\<lparr>ml_buf := ml_buf l + sz\<rparr>) = bs'"
      using Suc.prems Cons b by (intro Suc.IH) auto
    then show ?thesis using e Cons by simp
  qed
qed simp

text \<open>A file of entries, opened and read: the entries in order, and then a null pointer.\<close>

lemma read_back:
  assumes "\<forall>b \<in> set bs. length b = sz" "0 < sz" "bs \<noteq> []"
  shows "\<exists>r. open_mapped_log_path mm' (Some (concat bs)) = Some (0, r) \<and> read_all sz (Suc (length bs)) r = bs"
proof -
  have ne: "concat bs \<noteq> []" using assms by (cases bs) auto
  define r where "r = \<lparr>ml_start = mm' (length (concat bs)) 0, ml_buf = mm' (length (concat bs)) 0,
      ml_end = mm' (length (concat bs)) 0 + length (concat bs), ml_off = 0, ml_file = concat bs\<rparr>"
  have "open_mapped_log_path mm' (Some (concat bs)) = Some (0, r)"
    using ne by (auto simp: open_mapped_log_path_def r_def Let_def)
  moreover have "read_all sz (Suc (length bs)) r = bs"
    by (intro read_all_file [OF assms(1,2)]) (simp_all add: r_def)
  ultimately show ?thesis by blast
qed

section \<open>Properties\<close>

text \<open>A writer's window has room for every entry of up to a page after one enlargement, also when
  the write position stands exactly at the end of a page, and the write position then still means the
  same byte of the file.\<close>

lemma enlarge_keeps_position:
  assumes "mmap_aligned mm" "log_inv w l" "ml_end l < ml_buf l + sz" "sz \<le> 4096"
  shows "\<exists>l1. enlarge_mapped_log mm l = Some l1 \<and> log_inv w l1 \<and> ml_buf l1 + sz \<le> ml_end l1 \<and>
    length (ml_file l1) = length (ml_file l) + LOG_BUFFER_SIZE"
proof -
  obtain l1 where l1: "enlarge_mapped_log mm l = Some l1" "log_inv w l1" "ml_buf l1 + sz \<le> ml_end l1"
    using enlarge_inv [OF assms(2,1,3,4)] by blast
  moreover have "length (ml_file l1) = length (ml_file l) + LOG_BUFFER_SIZE"
    using l1(1) by (auto simp: enlarge_mapped_log_def Let_def split: if_splits)
  ultimately show ?thesis by blast
qed

end
