(* ===== verification/Log_Files.thy ===== *)
theory Log_Files
  imports Mapped_Log
begin

text \<open>
  The directory of logs: every thread keeps its logs in files named after the kind of log and the
  thread's number (\<open>logpath\<close> of \<open>src/log.h\<close>), and the threads write them at the same time. The theory
  models the file names and the directory, and shows that logs with different names or numbers are
  different files, so that each log holds what was written to it, in whatever order the threads write.
\<close>

section \<open>File names\<close>

definition MAX_PATH_LEN :: nat where "MAX_PATH_LEN = 256"
definition LOGDIR :: string where "LOGDIR = ''replay-log/''"

text \<open>The conversion \<open>%ld\<close> of \<open>snprintf\<close>.\<close>

definition digit :: "nat \<Rightarrow> char" where
  "digit d = char_of (48 + d)"

fun decimal :: "nat \<Rightarrow> string" where
  "decimal n = (if n < 10 then [digit n] else decimal (n div 10) @ [digit (n mod 10)])"

declare decimal.simps [simp del]

definition format_ld :: "int \<Rightarrow> string" where
  "format_ld i = (if i < 0 then CHR ''-'' # decimal (nat (- i)) else decimal (nat i))"

text \<open>\<open>None\<close> is the exit on a name that is too long.\<close>

definition logpath :: "string \<Rightarrow> int \<Rightarrow> string option" where
  "logpath name i =
     (let path = LOGDIR @ name @ ''-'' @ format_ld i in if MAX_PATH_LEN \<le> length path then None else Some path)"

section \<open>The directory\<close>

type_synonym log_dir = "string \<Rightarrow> mapped_log option"

text \<open>A new log replaces a file of the same name.\<close>

definition new_mapped_log :: "(nat \<Rightarrow> nat \<Rightarrow> nat) \<Rightarrow> string \<Rightarrow> int \<Rightarrow> log_dir \<Rightarrow> log_dir option" where
  "new_mapped_log mm name i dir = map_option (\<lambda>path. dir(path \<mapsto> new_mapped_log_path mm)) (logpath name i)"

text \<open>An entry that a thread writes to its log \<open>(name, i)\<close>.\<close>

definition dir_log :: "(nat \<Rightarrow> nat \<Rightarrow> nat) \<Rightarrow> string \<times> int \<Rightarrow> byte list \<Rightarrow> log_dir \<Rightarrow> log_dir option" where
  "dir_log mm k b dir =
     (case logpath (fst k) (snd k) of
        None \<Rightarrow> None
      | Some path \<Rightarrow>
          (case dir path of
             None \<Rightarrow> None
           | Some l \<Rightarrow> map_option (\<lambda>l1. dir(path \<mapsto> l1)) (log_entry mm b l)))"

text \<open>After the logs are closed by \<open>unmap_truncate_log\<close>, a file holds what is left of its log.\<close>

definition open_mapped_log ::
  "(nat \<Rightarrow> nat \<Rightarrow> nat) \<Rightarrow> string \<Rightarrow> int \<Rightarrow> log_dir \<Rightarrow> (int \<times> mapped_log) option" where
  "open_mapped_log mm name i dir =
     (case logpath name i of
        None \<Rightarrow> None
      | Some path \<Rightarrow> open_mapped_log_path mm (map_option truncate_log (dir path)))"

fun dir_new :: "(nat \<Rightarrow> nat \<Rightarrow> nat) \<Rightarrow> (string \<times> int) list \<Rightarrow> log_dir \<Rightarrow> log_dir option" where
  "dir_new mm [] dir = Some dir"
| "dir_new mm (k # ks) dir =
     (case new_mapped_log mm (fst k) (snd k) dir of None \<Rightarrow> None | Some dir1 \<Rightarrow> dir_new mm ks dir1)"

fun dir_log_all :: "(nat \<Rightarrow> nat \<Rightarrow> nat) \<Rightarrow> ((string \<times> int) \<times> byte list) list \<Rightarrow> log_dir \<Rightarrow> log_dir option" where
  "dir_log_all mm [] dir = Some dir"
| "dir_log_all mm (x # xs) dir =
     (case dir_log mm (fst x) (snd x) dir of None \<Rightarrow> None | Some dir1 \<Rightarrow> dir_log_all mm xs dir1)"

section \<open>Different logs are different files\<close>

lemma digit_inj: "i < 10 \<Longrightarrow> j < 10 \<Longrightarrow> digit i = digit j \<longleftrightarrow> i = j"
  unfolding digit_def by (simp add: char_of_eq_iff take_bit_nat_eq_self)

lemma digit_dash: "i < 10 \<Longrightarrow> digit i \<noteq> CHR ''-''"
  unfolding digit_def by (simp add: char_of_eq_iff take_bit_nat_eq_self)

lemma decimal_dash: "CHR ''-'' \<notin> set (decimal n)"
proof (induction n rule: decimal.induct)
  case (1 n)
  then show ?case using digit_dash [of n] digit_dash [of "n mod 10"] by (subst decimal.simps) auto
qed

lemma decimal_nonempty: "decimal n \<noteq> []"
  by (subst decimal.simps) simp

lemma decimal_inj: "decimal m = decimal n \<Longrightarrow> m = n"
proof (induction m arbitrary: n rule: decimal.induct)
  case (1 m)
  have ne: "decimal (k div 10) \<noteq> []" for k by (rule decimal_nonempty)
  show ?case
  proof (cases "m < 10")
    case True
    then have m: "decimal m = [digit m]" by (subst decimal.simps) simp
    then have "n < 10" using "1.prems" ne [of n] decimal.simps [of n] by (auto split: if_splits)
    then have "decimal n = [digit n]" by (subst decimal.simps) simp
    then show ?thesis using "1.prems" m True \<open>n < 10\<close> digit_inj by simp
  next
    case False
    then have m: "decimal m = decimal (m div 10) @ [digit (m mod 10)]" by (subst decimal.simps) simp
    then have "\<not> n < 10" using "1.prems" ne [of m] decimal.simps [of n] by (auto split: if_splits)
    then have n: "decimal n = decimal (n div 10) @ [digit (n mod 10)]" by (subst decimal.simps) simp
    have "decimal (m div 10) = decimal (n div 10)" "digit (m mod 10) = digit (n mod 10)" using m n "1.prems" by simp_all
    then have "m div 10 = n div 10" "m mod 10 = n mod 10" using "1.IH" [OF False] digit_inj by auto
    then show ?thesis by (metis div_mult_mod_eq)
  qed
qed

text \<open>The last dash of a path separates the name from a number that is not negative.\<close>

lemma dash_split:
  assumes "xs @ CHR ''-'' # ys = xs' @ CHR ''-'' # ys'" "CHR ''-'' \<notin> set ys" "CHR ''-'' \<notin> set ys'"
  shows "xs = xs' \<and> ys = ys'"
proof -
  have "takeWhile (\<lambda>c. c \<noteq> CHR ''-'') (rev (zs @ CHR ''-'' # us)) = rev us" if "CHR ''-'' \<notin> set us" for zs us
    using that by (simp, subst takeWhile_append2) auto
  then have "rev ys = rev ys'" using assms by metis
  then show ?thesis using assms(1) by simp
qed

lemma logpath_inj:
  assumes "logpath name i = Some path" "logpath name' j = Some path" "0 \<le> i" "0 \<le> j"
  shows "name = name' \<and> i = j"
proof -
  have "name @ CHR ''-'' # decimal (nat i) = name' @ CHR ''-'' # decimal (nat j)"
    using assms by (auto simp: logpath_def format_ld_def Let_def split: if_splits)
  from dash_split [OF this decimal_dash decimal_dash] decimal_inj [of "nat i" "nat j"] assms(3,4)
  show ?thesis by auto
qed

section \<open>Each log holds what was written to it\<close>

text \<open>The logs that the threads use: numbers that are not negative and names that are short enough.\<close>

definition log_keys_ok :: "(string \<times> int) set \<Rightarrow> bool" where
  "log_keys_ok K \<longleftrightarrow> (\<forall>k \<in> K. 0 \<le> snd k \<and> logpath (fst k) (snd k) \<noteq> None)"

definition path_of :: "string \<times> int \<Rightarrow> string" where
  "path_of k = the (logpath (fst k) (snd k))"

definition dir_inv :: "(string \<times> int) set \<Rightarrow> (string \<times> int \<Rightarrow> byte list) \<Rightarrow> log_dir \<Rightarrow> bool" where
  "dir_inv K w dir \<longleftrightarrow> (\<forall>k \<in> K. \<exists>l. dir (path_of k) = Some l \<and> log_inv (w k) l)"

definition entries_of :: "string \<times> int \<Rightarrow> ((string \<times> int) \<times> byte list) list \<Rightarrow> byte list list" where
  "entries_of k xs = map snd (filter (\<lambda>x. fst x = k) xs)"

lemma log_keys_path: "log_keys_ok K \<Longrightarrow> k \<in> K \<Longrightarrow> logpath (fst k) (snd k) = Some (path_of k)"
  by (auto simp: log_keys_ok_def path_of_def)

lemma path_of_inj:
  assumes "log_keys_ok K" "k \<in> K" "k' \<in> K" "path_of k = path_of k'"
  shows "k = k'"
  using logpath_inj [OF log_keys_path [OF assms(1,2)]] log_keys_path [OF assms(1,3)] assms
  by (auto simp: log_keys_ok_def prod_eq_iff)

lemma dir_new_ok:
  assumes "log_keys_ok K" "set ks \<subseteq> K"
  shows "\<exists>dir'. dir_new mm ks dir = Some dir' \<and>
    (\<forall>k \<in> set ks. dir' (path_of k) = Some (new_mapped_log_path mm)) \<and>
    (\<forall>p. p \<notin> path_of ` set ks \<longrightarrow> dir' p = dir p)"
  using assms(2)
proof (induction ks arbitrary: dir)
  case (Cons k ks)
  let ?d = "dir(path_of k \<mapsto> new_mapped_log_path mm)"
  have new: "new_mapped_log mm (fst k) (snd k) dir = Some ?d"
    using log_keys_path [OF assms(1)] Cons.prems by (simp add: new_mapped_log_def)
  have "set ks \<subseteq> K" using Cons.prems by simp
  from Cons.IH [OF this, of ?d] obtain dir' where d: "dir_new mm ks ?d = Some dir'"
    "\<forall>k' \<in> set ks. dir' (path_of k') = Some (new_mapped_log_path mm)" "\<forall>p. p \<notin> path_of ` set ks \<longrightarrow> dir' p = ?d p"
    by blast
  then have "dir' (path_of k) = Some (new_mapped_log_path mm)" by (cases "path_of k \<in> path_of ` set ks") auto
  moreover have "dir_new mm (k # ks) dir = Some dir'" by (simp add: new d(1))
  ultimately show ?case using d(2,3) by simp
qed simp

lemma dir_log_inv:
  assumes K: "log_keys_ok K" "k \<in> K" and inv: "dir_inv K w dir" and mm: "mmap_aligned mm" and b: "length b \<le> 4096"
  shows "\<exists>dir'. dir_log mm k b dir = Some dir' \<and> dir_inv K (w(k := w k @ b)) dir'"
proof -
  obtain l where l: "dir (path_of k) = Some l" "log_inv (w k) l" using inv K(2) unfolding dir_inv_def by blast
  obtain l1 where l1: "log_entry mm b l = Some l1" "log_inv (w k @ b) l1" using log_entry_inv [OF l(2) mm b] by blast
  have "dir_log mm k b dir = Some (dir(path_of k \<mapsto> l1))" using log_keys_path [OF K] l(1) l1(1) by (simp add: dir_log_def)
  moreover have "dir_inv K (w(k := w k @ b)) (dir(path_of k \<mapsto> l1))"
    unfolding dir_inv_def
  proof
    fix k' assume k': "k' \<in> K"
    then show "\<exists>l. (dir(path_of k \<mapsto> l1)) (path_of k') = Some l \<and> log_inv ((w(k := w k @ b)) k') l"
      using l1(2) path_of_inj [OF K k'] inv unfolding dir_inv_def by (cases "k' = k") auto
  qed
  ultimately show ?thesis by blast
qed

lemma dir_log_all_inv:
  assumes K: "log_keys_ok K" and mm: "mmap_aligned mm"
  shows "dir_inv K w dir \<Longrightarrow> \<forall>x \<in> set xs. fst x \<in> K \<and> length (snd x) \<le> 4096 \<Longrightarrow>
    \<exists>dir'. dir_log_all mm xs dir = Some dir' \<and> dir_inv K (\<lambda>k. w k @ concat (entries_of k xs)) dir'"
proof (induction xs arbitrary: w dir)
  case (Cons x xs)
  obtain dir1 where d: "dir_log mm (fst x) (snd x) dir = Some dir1" "dir_inv K (w(fst x := w (fst x) @ snd x)) dir1"
    using dir_log_inv [OF K _ Cons.prems(1) mm, of "fst x" "snd x"] Cons.prems(2) by auto
  have "(\<lambda>k. (w(fst x := w (fst x) @ snd x)) k @ concat (entries_of k xs)) = (\<lambda>k. w k @ concat (entries_of k (x # xs)))"
    by (auto simp: fun_eq_iff entries_of_def)
  with Cons.IH [OF d(2)] Cons.prems(2) d(1) show ?case by auto
qed (simp add: entries_of_def)

text \<open>The threads' logs do not get in each other's way. New logs are created for a set of names and
  thread numbers, entries are written to them in any order, each log with entries of one size up to a
  page, and the logs are closed. No write leaves its window, and every log to which something was
  written can then be opened under its name and number and yields its own entries, in the order they
  were written, and then the end.\<close>

lemma log_files_roundtrip:
  assumes "mmap_aligned mm" "log_keys_ok (set ks)"
    and x: "\<forall>x \<in> set xs. fst x \<in> set ks \<and> length (snd x) = sz (fst x)" "\<forall>k \<in> set ks. 0 < sz k \<and> sz k \<le> 4096"
  shows "\<exists>dir0 dir. dir_new mm ks Map.empty = Some dir0 \<and> dir_log_all mm xs dir0 = Some dir \<and>
    (\<forall>k \<in> set ks. entries_of k xs \<noteq> [] \<longrightarrow>
       (\<exists>r. open_mapped_log mm' (fst k) (snd k) dir = Some (0, r) \<and>
          read_all (sz k) (Suc (length (entries_of k xs))) r = entries_of k xs))"
proof -
  obtain dir0 where d0: "dir_new mm ks Map.empty = Some dir0"
    "\<forall>k \<in> set ks. dir0 (path_of k) = Some (new_mapped_log_path mm)"
    using dir_new_ok [OF assms(2) order_refl] by metis
  then have "dir_inv (set ks) (\<lambda>k. []) dir0" using new_log_inv [OF assms(1)] by (simp add: dir_inv_def)
  moreover have "\<forall>x \<in> set xs. fst x \<in> set ks \<and> length (snd x) \<le> 4096" using x by auto
  ultimately obtain dir where d: "dir_log_all mm xs dir0 = Some dir" "dir_inv (set ks) (\<lambda>k. concat (entries_of k xs)) dir"
    using dir_log_all_inv [OF assms(2,1)] by fastforce
  have "\<exists>r. open_mapped_log mm' (fst k) (snd k) dir = Some (0, r) \<and>
      read_all (sz k) (Suc (length (entries_of k xs))) r = entries_of k xs"
    if k: "k \<in> set ks" "entries_of k xs \<noteq> []" for k
  proof -
    obtain l where l: "dir (path_of k) = Some l" "log_inv (concat (entries_of k xs)) l"
      using d(2) k(1) unfolding dir_inv_def by blast
    have "\<forall>b \<in> set (entries_of k xs). length b = sz k" using x(1) by (auto simp: entries_of_def)
    from read_back [OF this _ k(2)] x(2) k(1) obtain r where
      "open_mapped_log_path mm' (Some (concat (entries_of k xs))) = Some (0, r)"
      "read_all (sz k) (Suc (length (entries_of k xs))) r = entries_of k xs" by auto
    then show ?thesis
      using log_keys_path [OF assms(2) k(1)] l(1) truncate_written [OF l(2)] by (auto simp: open_mapped_log_def)
  qed
  with d0(1) d(1) show ?thesis by blast
qed

end
