(* ===== verification/Log_Calls.thy ===== *)
theory Log_Calls
  imports Log_Files
begin

text \<open>
  \<open>src/log.c\<close> with its system calls. The other theories on logs describe runs in which the calls of
  the operating system succeed; here every call may be refused, and each function takes the exit or
  the return that the code takes then. The files, the descriptors and the number of calls made so far
  are the state of the operating system; which calls are refused, and where \<open>mmap\<close> puts a window, are
  parameters. The theory shows that a run without refused calls is a run of \<open>Mapped_Log\<close>, and
  what a refused call leaves of a log.
\<close>

section \<open>The operating system\<close>

record kernel =
  k_refuse :: "nat \<Rightarrow> bool"
  k_addr :: "nat \<Rightarrow> nat \<Rightarrow> nat"

record os =
  os_file :: "string \<Rightarrow> byte list option"
  os_fd :: "int \<Rightarrow> string option"
  os_calls :: nat

definition tick :: "os \<Rightarrow> os" where
  "tick s = s\<lparr>os_calls := Suc (os_calls s)\<rparr>"

text \<open>A call returns \<open>-1\<close> when it is refused or its documented conditions do not hold.\<close>

definition sys_call :: "kernel \<Rightarrow> bool \<Rightarrow> (os \<Rightarrow> int \<times> os) \<Rightarrow> os \<Rightarrow> int \<times> os" where
  "sys_call k ok f s = (if k_refuse k (os_calls s) \<or> \<not> ok then (-1, tick s) else f (tick s))"

definition fd_file :: "os \<Rightarrow> int \<Rightarrow> byte list option" where
  "fd_file s fd = (case os_fd s fd of None \<Rightarrow> None | Some path \<Rightarrow> os_file s path)"

definition set_fd_file :: "int \<Rightarrow> byte list \<Rightarrow> os \<Rightarrow> os" where
  "set_fd_file fd bs s =
     (case os_fd s fd of None \<Rightarrow> s | Some path \<Rightarrow> s\<lparr>os_file := (os_file s)(path \<mapsto> bs)\<rparr>)"

text \<open>\<open>open\<close> with \<open>O_RDWR|O_CREAT|O_TRUNC\<close> (\<open>creat\<close>) or \<open>O_RDONLY\<close>. The number of the call serves as
  a descriptor that is not in use.\<close>

definition sys_open :: "kernel \<Rightarrow> string \<Rightarrow> bool \<Rightarrow> os \<Rightarrow> int \<times> os" where
  "sys_open k path creat s =
     sys_call k (creat \<or> os_file s path \<noteq> None)
       (\<lambda>s1. (int (os_calls s),
          s1\<lparr>os_file := (if creat then (os_file s1)(path \<mapsto> []) else os_file s1),
             os_fd := (os_fd s1)(int (os_calls s) \<mapsto> path)\<rparr>)) s"

definition resize :: "nat \<Rightarrow> byte list \<Rightarrow> byte list" where
  "resize n bs = take n bs @ replicate (n - length bs) 0"

definition sys_ftruncate :: "kernel \<Rightarrow> int \<Rightarrow> int \<Rightarrow> os \<Rightarrow> int \<times> os" where
  "sys_ftruncate k fd len s =
     sys_call k (fd_file s fd \<noteq> None \<and> 0 \<le> len)
       (\<lambda>s1. (0, set_fd_file fd (resize (nat len) (the (fd_file s fd))) s1)) s"

text \<open>\<open>fstat\<close>, of which the programs use the size only.\<close>

definition sys_fstat :: "kernel \<Rightarrow> int \<Rightarrow> os \<Rightarrow> int \<times> os" where
  "sys_fstat k fd s =
     sys_call k (fd_file s fd \<noteq> None) (\<lambda>s1. (int (length (the (fd_file s fd))), s1)) s"

text \<open>\<open>mmap\<close> refuses an empty window and an offset inside a page; \<open>MAP_FAILED\<close> is \<open>-1\<close>.\<close>

definition sys_mmap :: "kernel \<Rightarrow> int \<Rightarrow> nat \<Rightarrow> int \<Rightarrow> os \<Rightarrow> int \<times> os" where
  "sys_mmap k fd len off s =
     sys_call k (fd_file s fd \<noteq> None \<and> 0 < len \<and> 0 \<le> off \<and> off mod int PAGE_SIZE = 0)
       (\<lambda>s1. (int (k_addr k len (nat off)), s1)) s"

definition sys_plain :: "kernel \<Rightarrow> os \<Rightarrow> int \<times> os" where
  "sys_plain k s = sys_call k True (\<lambda>s1. (0, s1)) s"

abbreviation sys_munmap :: "kernel \<Rightarrow> os \<Rightarrow> int \<times> os" where "sys_munmap \<equiv> sys_plain"
abbreviation sys_madvise :: "kernel \<Rightarrow> os \<Rightarrow> int \<times> os" where "sys_madvise \<equiv> sys_plain"

section \<open>Outcomes\<close>

text \<open>A function returns, or the program has exited with a message.\<close>

datatype 'a outcome = Exit string os | Ret 'a os

primrec os_bind :: "'a outcome \<Rightarrow> ('a \<Rightarrow> os \<Rightarrow> 'b outcome) \<Rightarrow> 'b outcome" where
  "os_bind (Exit msg s) f = Exit msg s"
| "os_bind (Ret x s) f = f x s"

text \<open>\<open>if (call == -1) { perror(msg); exit(1); }\<close>\<close>

definition perror_exit :: "string \<Rightarrow> int \<times> os \<Rightarrow> int outcome" where
  "perror_exit msg r = (if fst r = -1 then Exit msg (snd r) else Ret (fst r) (snd r))"

section \<open>The program\<close>

text \<open>\<open>struct mapped_log\<close> with its descriptor; \<open>lp_off\<close> is the offset of the window in the file.\<close>

record log_ptr =
  lp_start :: nat
  lp_buf :: nat
  lp_end :: nat
  lp_fd :: int
  lp_off :: nat

definition window :: "int \<Rightarrow> nat \<Rightarrow> nat \<Rightarrow> nat \<Rightarrow> log_ptr" where
  "window fd start len off = \<lparr>lp_start = start, lp_buf = start, lp_end = start + len, lp_fd = fd, lp_off = off\<rparr>"

definition new_mapped_log_path_os :: "kernel \<Rightarrow> string \<Rightarrow> os \<Rightarrow> log_ptr outcome" where
  "new_mapped_log_path_os k path s =
     os_bind (perror_exit ''creat in new_mapped_log'' (sys_open k path True s)) (\<lambda>fd s.
     os_bind (perror_exit ''ftruncate in new_mapped_log'' (sys_ftruncate k fd (int LOG_BUFFER_SIZE) s)) (\<lambda>_ s.
     os_bind (perror_exit ''mmap in new_mapped_log'' (sys_mmap k fd LOG_BUFFER_SIZE 0 s)) (\<lambda>start s.
     os_bind (perror_exit ''madvise in new_mapped_log'' (sys_madvise k s)) (\<lambda>_ s.
     Ret (window fd (nat start) LOG_BUFFER_SIZE 0) s))))"

definition logpath_os :: "string \<Rightarrow> int \<Rightarrow> os \<Rightarrow> string outcome" where
  "logpath_os name i s =
     (case logpath name i of None \<Rightarrow> Exit ''Path name too long'' s | Some path \<Rightarrow> Ret path s)"

definition new_mapped_log_os :: "kernel \<Rightarrow> string \<Rightarrow> int \<Rightarrow> os \<Rightarrow> log_ptr outcome" where
  "new_mapped_log_os k name i s = os_bind (logpath_os name i s) (new_mapped_log_path_os k)"

definition enlarge_mapped_log_os :: "kernel \<Rightarrow> log_ptr \<Rightarrow> os \<Rightarrow> log_ptr outcome" where
  "enlarge_mapped_log_os k l s =
     os_bind (perror_exit ''fstat in enlarge_mapped_log'' (sys_fstat k (lp_fd l) s)) (\<lambda>original_size s.
     if original_size mod int LOG_BUFFER_SIZE \<noteq> 0 then Exit ''assert'' s
     else
     os_bind (perror_exit ''munmap in enlarge_mapped_log'' (sys_munmap k s)) (\<lambda>_ s.
     os_bind (perror_exit ''ftruncate in enlarge_mapped_log''
       (sys_ftruncate k (lp_fd l) (original_size + int LOG_BUFFER_SIZE) s)) (\<lambda>_ s.
     let map_size = LOG_BUFFER_SIZE + PAGE_SIZE in
     os_bind (perror_exit ''mmap in enlarge_mapped_log''
       (sys_mmap k (lp_fd l) map_size (original_size - int PAGE_SIZE) s)) (\<lambda>start s.
     let page_offset = lp_buf l mod 4096;
         l1 = (window (lp_fd l) (nat start) map_size (nat (original_size - int PAGE_SIZE)))
                \<lparr>lp_buf := nat start + (if page_offset \<noteq> 0 then page_offset else PAGE_SIZE)\<rparr> in
     os_bind (perror_exit ''madvise in enlarge_mapped_log'' (sys_madvise k s)) (\<lambda>_ s.
     Ret l1 s)))))"

definition next_log_entry_os :: "kernel \<Rightarrow> nat \<Rightarrow> log_ptr \<Rightarrow> os \<Rightarrow> (nat \<times> log_ptr) outcome" where
  "next_log_entry_os k entry_size l s =
     os_bind (if lp_buf l + entry_size > lp_end l then enlarge_mapped_log_os k l s else Ret l s) (\<lambda>l s.
     Ret (lp_buf l, l\<lparr>lp_buf := lp_buf l + entry_size\<rparr>) s)"

text \<open>Stores and loads through a pointer into the window.\<close>

definition store_os :: "nat \<Rightarrow> byte list \<Rightarrow> log_ptr \<Rightarrow> os \<Rightarrow> unit outcome" where
  "store_os p bs l s =
     (case fd_file s (lp_fd l) of
        None \<Rightarrow> Exit ''Segmentation fault'' s
      | Some f \<Rightarrow>
          let i = lp_off l + (p - lp_start l)
          in if lp_start l \<le> p \<and> p + length bs \<le> lp_end l \<and> i + length bs \<le> length f
             then Ret () (set_fd_file (lp_fd l) (take i f @ bs @ drop (i + length bs) f) s)
             else Exit ''Segmentation fault'' s)"

definition log_entry_os :: "kernel \<Rightarrow> byte list \<Rightarrow> log_ptr \<Rightarrow> os \<Rightarrow> log_ptr outcome" where
  "log_entry_os k bs l s =
     os_bind (next_log_entry_os k (length bs) l s) (\<lambda>(p, l) s.
     os_bind (store_os p bs l s) (\<lambda>_ s. Ret l s))"

definition truncate_log_os :: "kernel \<Rightarrow> log_ptr \<Rightarrow> os \<Rightarrow> int outcome" where
  "truncate_log_os k l s =
     os_bind (perror_exit ''fstat in unmap log'' (sys_fstat k (lp_fd l) s)) (\<lambda>st_size s.
     case sys_ftruncate k (lp_fd l) (st_size - (int (lp_end l) - int (lp_buf l))) s of (ret, s) \<Rightarrow> Ret ret s)"

definition unmap_log_os :: "kernel \<Rightarrow> log_ptr \<Rightarrow> os \<Rightarrow> int outcome" where
  "unmap_log_os k l s = (case sys_munmap k s of (r, s) \<Rightarrow> if r = -1 then Ret (-1) s else Ret 0 s)"

definition unmap_truncate_log_os :: "kernel \<Rightarrow> log_ptr \<Rightarrow> os \<Rightarrow> int outcome" where
  "unmap_truncate_log_os k l s =
     os_bind (unmap_log_os k l s) (\<lambda>ret s. if ret \<noteq> 0 then Ret ret s else truncate_log_os k l s)"

definition open_mapped_log_path_os :: "kernel \<Rightarrow> string \<Rightarrow> os \<Rightarrow> (int \<times> log_ptr) outcome" where
  "open_mapped_log_path_os k path s =
     (case sys_open k path False s of (fd, s) \<Rightarrow>
        if fd = -1 then Ret (-1, \<lparr>lp_start = 0, lp_buf = 0, lp_end = 0, lp_fd = -1, lp_off = 0\<rparr>) s
        else
        os_bind (perror_exit ''fstat'' (sys_fstat k fd s)) (\<lambda>st_size s.
        os_bind (perror_exit ''mmap'' (sys_mmap k fd (nat st_size) 0 s)) (\<lambda>start s.
        os_bind (perror_exit ''madvise'' (sys_madvise k s)) (\<lambda>_ s.
        Ret (0, window fd (nat start) (nat st_size) 0) s))))"

definition open_mapped_log_os :: "kernel \<Rightarrow> string \<Rightarrow> int \<Rightarrow> os \<Rightarrow> (int \<times> log_ptr) outcome" where
  "open_mapped_log_os k name i s = os_bind (logpath_os name i s) (open_mapped_log_path_os k)"

text \<open>The pointer that is returned has the whole file as its window. The length is unsigned in the code; a
  negative number stands for one that \<open>ftruncate\<close> takes to be negative.\<close>

definition create_mapped_file_os :: "kernel \<Rightarrow> string \<Rightarrow> int \<Rightarrow> os \<Rightarrow> log_ptr outcome" where
  "create_mapped_file_os k path len s =
     os_bind (perror_exit ''open in create_mapped_file'' (sys_open k path True s)) (\<lambda>fd s.
     os_bind (perror_exit ''ftruncate in create_mapped_file'' (sys_ftruncate k fd len s)) (\<lambda>_ s.
     os_bind (perror_exit ''mmap in create_mapped_file'' (sys_mmap k fd (nat len) 0 s)) (\<lambda>start s.
     Ret (window fd (nat start) (nat len) 0) s)))"

text \<open>\<open>calloc_check\<close> of \<open>src/mem.c\<close>; allocation counts as a call, and cannot give a negative number of
  elements.\<close>

definition calloc_check :: "kernel \<Rightarrow> int \<Rightarrow> string \<Rightarrow> os \<Rightarrow> unit outcome" where
  "calloc_check k nmemb err_msg s =
     (case sys_call k (0 \<le> nmemb) (\<lambda>s1. (0, s1)) s of (p, s) \<Rightarrow>
        if p = -1 then Exit (''memory allocation failed: '' @ err_msg) s else Ret () s)"

text \<open>The logs of \<open>stdio\<close>: \<open>fopen\<close> with mode \<open>w\<close> (\<open>wr\<close>) makes the file empty, with mode \<open>r\<close> it needs
  the file.\<close>

definition handle_log_os :: "kernel \<Rightarrow> string \<Rightarrow> int \<Rightarrow> bool \<Rightarrow> os \<Rightarrow> int outcome" where
  "handle_log_os k name i wr s =
     os_bind (logpath_os name i s) (\<lambda>path s. perror_exit ''File open failed'' (sys_open k path wr s))"

definition new_log_os :: "kernel \<Rightarrow> string \<Rightarrow> int \<Rightarrow> os \<Rightarrow> int outcome" where
  "new_log_os k name i s = handle_log_os k name i True s"

definition open_log_os :: "kernel \<Rightarrow> string \<Rightarrow> int \<Rightarrow> os \<Rightarrow> int outcome" where
  "open_log_os k name i s = handle_log_os k name i False s"

section \<open>Reasoning about outcomes\<close>

text \<open>\<open>os_wp R E r\<close>: what \<open>R\<close> says of the result and the state holds when the function returns, and what
  \<open>E\<close> says of the message and the state holds when the program exits.\<close>

definition os_wp :: "('a \<Rightarrow> os \<Rightarrow> bool) \<Rightarrow> (string \<Rightarrow> os \<Rightarrow> bool) \<Rightarrow> 'a outcome \<Rightarrow> bool" where
  "os_wp R E r \<longleftrightarrow> (case r of Ret x s \<Rightarrow> R x s | Exit msg s \<Rightarrow> E msg s)"

lemma os_wp_simps [simp]:
  "os_wp R E (Ret x s) = R x s"
  "os_wp R E (Exit msg s) = E msg s"
  "os_wp R E (os_bind m f) = os_wp (\<lambda>x s. os_wp R E (f x s)) E m"
  "os_wp R E (if b then r else r') = ((b \<longrightarrow> os_wp R E r) \<and> (\<not> b \<longrightarrow> os_wp R E r'))"
  by (simp_all add: os_wp_def split: outcome.split)

lemma os_wp_mono:
  assumes "os_wp R E r" "\<And>x s. R x s \<Longrightarrow> R' x s" "\<And>m s. E m s \<Longrightarrow> E' m s"
  shows "os_wp R' E' r"
  using assms by (cases r) simp_all

lemma os_wpD: "os_wp R E r \<Longrightarrow> r = Ret x s \<Longrightarrow> R x s"
  by simp

lemma tick_simps [simp]:
  "os_file (tick s) = os_file s" "os_fd (tick s) = os_fd s" "os_calls (tick s) = Suc (os_calls s)"
  "fd_file (tick s) fd = fd_file s fd"
  by (simp_all add: tick_def fd_file_def split: option.split)

lemma set_fd_file_simps [simp]:
  "os_fd (set_fd_file fd bs s) = os_fd s" "os_calls (set_fd_file fd bs s) = os_calls s"
  by (simp_all add: set_fd_file_def split: option.split)

lemma fd_file_set [simp]: "fd_file s fd = Some f \<Longrightarrow> fd_file (set_fd_file fd bs s) fd = Some bs"
  by (simp add: fd_file_def set_fd_file_def split: option.splits)

text \<open>A call on an open file is refused, or does its work.\<close>

lemma sys_fstat_wp:
  "fd_file s fd = Some f \<Longrightarrow> os_wp R E (perror_exit msg (sys_fstat k fd s)) =
     ((k_refuse k (os_calls s) \<longrightarrow> E msg (tick s)) \<and> (\<not> k_refuse k (os_calls s) \<longrightarrow> R (int (length f)) (tick s)))"
  by (simp add: perror_exit_def sys_fstat_def sys_call_def)

lemma sys_ftruncate_wp:
  "fd_file s fd = Some f \<Longrightarrow> 0 \<le> n \<Longrightarrow> os_wp R E (perror_exit msg (sys_ftruncate k fd n s)) =
     ((k_refuse k (os_calls s) \<longrightarrow> E msg (tick s)) \<and> (\<not> k_refuse k (os_calls s) \<longrightarrow> R 0 (set_fd_file fd (resize (nat n) f) (tick s))))"
  by (simp add: perror_exit_def sys_ftruncate_def sys_call_def)

lemma sys_mmap_wp:
  "fd_file s fd = Some f \<Longrightarrow> 0 < len \<Longrightarrow> 0 \<le> off \<Longrightarrow> off mod int PAGE_SIZE = 0 \<Longrightarrow>
     os_wp R E (perror_exit msg (sys_mmap k fd len off s)) =
     ((k_refuse k (os_calls s) \<longrightarrow> E msg (tick s)) \<and> (\<not> k_refuse k (os_calls s) \<longrightarrow> R (int (k_addr k len (nat off))) (tick s)))"
  by (simp add: perror_exit_def sys_mmap_def sys_call_def)

lemma sys_plain_wp:
  "os_wp R E (perror_exit msg (sys_plain k s)) =
     ((k_refuse k (os_calls s) \<longrightarrow> E msg (tick s)) \<and> (\<not> k_refuse k (os_calls s) \<longrightarrow> R 0 (tick s)))"
  by (simp add: perror_exit_def sys_plain_def sys_call_def)

lemma sys_creat_wp:
  "os_wp R E (perror_exit msg (sys_open k path True s)) =
     ((k_refuse k (os_calls s) \<longrightarrow> E msg (tick s)) \<and> (\<not> k_refuse k (os_calls s) \<longrightarrow> R (int (os_calls s)) ((tick s)\<lparr>os_file := (os_file s)(path \<mapsto> []), os_fd := (os_fd s)(int (os_calls s) \<mapsto> path)\<rparr>)))"
  by (simp add: perror_exit_def sys_open_def sys_call_def)

lemmas sys_wp = sys_fstat_wp sys_ftruncate_wp sys_mmap_wp sys_plain_wp sys_creat_wp

text \<open>A call that was refused between two states.\<close>

definition refused :: "kernel \<Rightarrow> os \<Rightarrow> os \<Rightarrow> bool" where
  "refused k s s1 \<longleftrightarrow> (\<exists>n. os_calls s \<le> n \<and> n < os_calls s1 \<and> k_refuse k n)"

lemma refusedI [intro]: "k_refuse k n \<Longrightarrow> os_calls s \<le> n \<Longrightarrow> n < os_calls s1 \<Longrightarrow> refused k s s1"
  unfolding refused_def by blast

lemma refused_mono: "refused k s s1 \<Longrightarrow> os_calls s0 \<le> os_calls s \<Longrightarrow> refused k s0 s1"
  unfolding refused_def by (meson order_trans)

text \<open>Only the file \<open>path\<close> has changed, and calls have only been added.\<close>

definition only_file :: "string \<Rightarrow> os \<Rightarrow> os \<Rightarrow> bool" where
  "only_file path s s1 \<longleftrightarrow> os_calls s \<le> os_calls s1 \<and> (\<forall>q. q \<noteq> path \<longrightarrow> os_file s1 q = os_file s q)"

lemma only_file_refl [simp]: "only_file path s s"
  by (simp add: only_file_def)

lemma only_file_trans: "only_file path s s1 \<Longrightarrow> only_file path s1 s2 \<Longrightarrow> only_file path s s2"
  by (simp add: only_file_def)

section \<open>A log on the operating system\<close>

definition log_open :: "string \<Rightarrow> log_ptr \<Rightarrow> os \<Rightarrow> bool" where
  "log_open path l s \<longleftrightarrow> os_fd s (lp_fd l) = Some path \<and> os_file s path \<noteq> None"

definition log_view :: "log_ptr \<Rightarrow> os \<Rightarrow> mapped_log" where
  "log_view l s =
     \<lparr>ml_start = lp_start l, ml_buf = lp_buf l, ml_end = lp_end l, ml_off = lp_off l,
      ml_file = the (fd_file s (lp_fd l))\<rparr>"

text \<open>The bytes \<open>w\<close> have been written to the log behind \<open>l\<close>.\<close>

definition written :: "string \<Rightarrow> byte list \<Rightarrow> log_ptr \<Rightarrow> os \<Rightarrow> bool" where
  "written path w l s \<longleftrightarrow> log_open path l s \<and> log_inv w (log_view l s)"

definition file_begins :: "string \<Rightarrow> byte list \<Rightarrow> os \<Rightarrow> bool" where
  "file_begins path w s \<longleftrightarrow> (\<exists>f. os_file s path = Some f \<and> take (length w) f = w)"

lemma log_open_file: "log_open path l s \<Longrightarrow> os_file s path = Some (the (fd_file s (lp_fd l)))"
  by (auto simp: log_open_def fd_file_def)

lemma log_openD:
  assumes "log_open path l s"
  shows "\<exists>f. os_fd s (lp_fd l) = Some path \<and> os_file s path = Some f \<and> fd_file s (lp_fd l) = Some f"
  using assms by (auto simp: log_open_def fd_file_def)

lemma written_begins:
  assumes "written path w l s"
  shows "file_begins path w s"
  using assms log_invD(9) [of w "log_view l s"] log_open_file [of path l s]
  by (simp add: written_def log_view_def file_begins_def)

lemma buffer_pos [simp]: "0 < LOG_BUFFER_SIZE" "0 < PAGE_SIZE"
  by (simp_all add: LOG_BUFFER_SIZE_def PAGE_SIZE_def)

lemma resize_grow: "resize (length f + n) f = f @ replicate n 0"
  by (simp add: resize_def)

definition k_aligned :: "kernel \<Rightarrow> bool" where
  "k_aligned k \<longleftrightarrow> mmap_aligned (k_addr k)"

text \<open>Enlarging keeps what was written, also when it fails: the file has at most grown.\<close>

lemma enlarge_outcome:
  assumes w: "written path w l s" and k: "k_aligned k" and sz: "lp_buf l + sz > lp_end l" "sz \<le> 4096"
  shows "os_wp (\<lambda>l1 s1. written path w l1 s1 \<and> lp_buf l1 + sz \<le> lp_end l1 \<and> only_file path s s1)
    (\<lambda>msg s1. refused k s s1 \<and> file_begins path w s1 \<and> only_file path s s1) (enlarge_mapped_log_os k l s)"
proof -
  obtain f where f: "os_fd s (lp_fd l) = Some path" "os_file s path = Some f" "fd_file s (lp_fd l) = Some f"
    using log_openD w unfolding written_def by blast
  have inv: "log_inv w (log_view l s)" using w by (simp add: written_def)
  have mf: "ml_file (log_view l s) = f" using f(3) by (simp add: log_view_def)
  note d = log_invD [OF inv, unfolded mf]
  have len: "length f mod LOG_BUFFER_SIZE = 0" "PAGE_SIZE \<le> length f"
    using d(6,7) by (simp_all add: LOG_BUFFER_SIZE_def PAGE_SIZE_def)
  then have ilen: "int (length f) mod int LOG_BUFFER_SIZE = 0" by (simp flip: zmod_int)
  obtain l1 where l1: "enlarge_mapped_log (k_addr k) (log_view l s) = Some l1" "log_inv w l1" "ml_buf l1 + sz \<le> ml_end l1"
    using enlarge_inv [OF inv, of "k_addr k" sz] k sz by (auto simp: k_aligned_def log_view_def)
  have pg: "int (length f) mod int PAGE_SIZE = 0" using ilen by (simp add: LOG_BUFFER_SIZE_def PAGE_SIZE_def)
  have kept: "file_begins path w s1" if "os_file s1 path = Some (f @ g)" for s1 g
  proof -
    have "length w \<le> length f" using d(3,4,5,8) by simp
    then show ?thesis using that d(9) by (simp add: file_begins_def)
  qed
  define L where "L = (let a = k_addr k (LOG_BUFFER_SIZE + PAGE_SIZE) (length f - PAGE_SIZE); page_offset = lp_buf l mod 4096 in
    (window (lp_fd l) a (LOG_BUFFER_SIZE + PAGE_SIZE) (length f - PAGE_SIZE))
      \<lparr>lp_buf := a + (if page_offset \<noteq> 0 then page_offset else PAGE_SIZE)\<rparr>)"
  have room: "lp_buf L + sz \<le> lp_end L"
    using l1(1,3) mf len(1) unfolding enlarge_mapped_log_def L_def window_def Let_def by (auto simp: log_view_def)
  have new: "written path w L s1"
    if "os_fd s1 (lp_fd l) = Some path" "os_file s1 path = Some (f @ replicate LOG_BUFFER_SIZE 0)" for s1
  proof -
    have fd: "lp_fd L = lp_fd l" by (simp add: L_def window_def Let_def)
    have "log_view L s1 = l1"
      using that l1(1) mf len(1) unfolding enlarge_mapped_log_def L_def window_def Let_def
      by (auto simp: log_view_def fd_file_def)
    then show ?thesis using that l1(2) fd by (auto simp: written_def log_open_def log_view_def)
  qed
  have fd: "os_fd (set_fd_file (lp_fd l) bs s1) (lp_fd l) = Some path"
    "os_file (set_fd_file (lp_fd l) bs s1) = (os_file s1)(path \<mapsto> bs)" if "os_fd s1 (lp_fd l) = Some path" for bs s1
    using that by (simp_all add: set_fd_file_def)
  show ?thesis
    unfolding enlarge_mapped_log_os_def
    using new room kept [of _ "[]"] kept [of _ "replicate LOG_BUFFER_SIZE 0"] unfolding L_def Let_def
    by (auto simp: sys_wp f len ilen pg nat_diff_distrib nat_int_add resize_grow fd only_file_def window_def split del: if_split)
qed

text \<open>One entry. When the program exits in the middle of it, a call was refused, and the file still begins
  with all that was written before.\<close>

lemma store_outcome:
  assumes w: "written path w l s" and room: "lp_buf l + length bs \<le> lp_end l"
  shows "os_wp (\<lambda>_ s1. written path (w @ bs) (l\<lparr>lp_buf := lp_buf l + length bs\<rparr>) s1 \<and> only_file path s s1) (\<lambda>msg s1. False)
    (store_os (lp_buf l) bs (l\<lparr>lp_buf := lp_buf l + length bs\<rparr>) s)"
proof -
  obtain f where f: "os_fd s (lp_fd l) = Some path" "os_file s path = Some f" "fd_file s (lp_fd l) = Some f"
    using log_openD w unfolding written_def by blast
  have inv: "log_inv w (log_view l s)" using w by (simp add: written_def)
  have v: "log_view l s = \<lparr>ml_start = lp_start l, ml_buf = lp_buf l, ml_end = lp_end l, ml_off = lp_off l, ml_file = f\<rparr>"
    using f(3) by (simp add: log_view_def)
  note d = log_invD [OF inv, unfolded v, simplified]
  obtain l1 where l1: "store_bytes (lp_buf l) bs ((log_view l s)\<lparr>ml_buf := lp_buf l + length bs\<rparr>) = Some l1" "log_inv (w @ bs) l1"
    using store_inv [OF inv, of bs] room by (auto simp: v)
  have "lp_off l + (lp_buf l - lp_start l) + length bs \<le> length f" using d(3,4,5) room by simp
  then show ?thesis
    using l1 d(3) room f
    by (auto simp: store_os_def store_bytes_def Let_def v written_def log_open_def log_view_def set_fd_file_def fd_file_def only_file_def)
qed

lemma log_entry_outcome:
  assumes w: "written path w l s" and k: "k_aligned k" and sz: "length bs \<le> 4096"
  shows "os_wp (\<lambda>l1 s1. written path (w @ bs) l1 s1 \<and> only_file path s s1)
    (\<lambda>msg s1. refused k s s1 \<and> file_begins path w s1 \<and> only_file path s s1) (log_entry_os k bs l s)"
proof -
  have st: "os_wp (\<lambda>_ s2. written path (w @ bs) (l1\<lparr>lp_buf := lp_buf l1 + length bs\<rparr>) s2 \<and> only_file path s s2)
      (\<lambda>msg s2. refused k s s2 \<and> file_begins path w s2 \<and> only_file path s s2)
      (store_os (lp_buf l1) bs (l1\<lparr>lp_buf := lp_buf l1 + length bs\<rparr>) s1)"
    if "written path w l1 s1" "lp_buf l1 + length bs \<le> lp_end l1" "only_file path s s1" for l1 s1
    using store_outcome [OF that(1,2)] by (rule os_wp_mono) (use that(3) only_file_trans in blast)+
  show ?thesis
  proof (cases "lp_buf l + length bs > lp_end l")
    case True
    have "os_wp (\<lambda>l1 s1. os_wp (\<lambda>_ s2. written path (w @ bs) (l1\<lparr>lp_buf := lp_buf l1 + length bs\<rparr>) s2 \<and> only_file path s s2)
        (\<lambda>msg s2. refused k s s2 \<and> file_begins path w s2 \<and> only_file path s s2)
        (store_os (lp_buf l1) bs (l1\<lparr>lp_buf := lp_buf l1 + length bs\<rparr>) s1))
      (\<lambda>msg s1. refused k s s1 \<and> file_begins path w s1 \<and> only_file path s s1) (enlarge_mapped_log_os k l s)"
      using enlarge_outcome [OF w k True sz] by (rule os_wp_mono) (use st in auto)
    then show ?thesis using True by (simp add: log_entry_os_def next_log_entry_os_def)
  next
    case False
    then show ?thesis using st [OF w] by (simp add: log_entry_os_def next_log_entry_os_def)
  qed
qed

text \<open>A new log, and the end of one: \<open>unmap_truncate_log\<close> cuts the file to what was written exactly when
  it returns \<open>0\<close>; otherwise the file is left as it was, with the unused rest of the window.\<close>

lemma new_mapped_log_outcome:
  assumes "k_aligned k"
  shows "os_wp (\<lambda>l s1. written path [] l s1 \<and> only_file path s s1)
    (\<lambda>msg s1. refused k s s1 \<and> only_file path s s1) (new_mapped_log_path_os k path s)"
proof -
  have "written path [] (window fd (k_addr k LOG_BUFFER_SIZE 0) LOG_BUFFER_SIZE 0) s1"
    if "os_fd s1 fd = Some path" "os_file s1 path = Some (replicate LOG_BUFFER_SIZE 0)" for fd s1
  proof -
    have "log_view (window fd (k_addr k LOG_BUFFER_SIZE 0) LOG_BUFFER_SIZE 0) s1 = new_mapped_log_path (k_addr k)"
      using that by (simp add: log_view_def window_def new_mapped_log_path_def fd_file_def Let_def)
    then show ?thesis using that assms new_log_inv by (simp add: written_def log_open_def window_def k_aligned_def)
  qed
  then show ?thesis
    unfolding new_mapped_log_path_os_def
    by (auto simp: sys_wp fd_file_def set_fd_file_def resize_def only_file_def)
qed

lemma unmap_truncate_outcome:
  assumes "written path w l s"
  shows "os_wp (\<lambda>ret s1. only_file path s s1 \<and>
      (if ret = 0 then os_file s1 path = Some w else refused k s s1 \<and> os_file s1 path = os_file s path))
    (\<lambda>msg s1. refused k s s1 \<and> os_file s1 path = os_file s path \<and> only_file path s s1) (unmap_truncate_log_os k l s)"
proof -
  obtain f where f: "os_fd s (lp_fd l) = Some path" "os_file s path = Some f" "fd_file s (lp_fd l) = Some f"
    using log_openD assms unfolding written_def by blast
  have inv: "log_inv w (log_view l s)" using assms by (simp add: written_def)
  have v: "log_view l s = \<lparr>ml_start = lp_start l, ml_buf = lp_buf l, ml_end = lp_end l, ml_off = lp_off l, ml_file = f\<rparr>"
    using f(3) by (simp add: log_view_def)
  note d = log_invD [OF inv, unfolded v, simplified]
  have "int (length f) - (int (lp_end l) - int (lp_buf l)) = int (length w)" using d(3,4,5,8) by simp
  moreover have "resize (length w) f = w" using d(3,4,5,8,9) by (simp add: resize_def)
  ultimately show ?thesis
    unfolding unmap_truncate_log_os_def unmap_log_os_def truncate_log_os_def
    using f
    by (auto simp: sys_wp sys_plain_def sys_call_def sys_ftruncate_def set_fd_file_def only_file_def)
qed

end
