(* ===== verification/Kway_Merge.thy ===== *)
theory Kway_Merge
  imports Mem_Prelude "HOL-Library.Product_Lexorder"
begin

text \<open>
  The loop that \<open>merge_memop\<close> (\<open>src/merge-memop.cpp\<close>) and \<open>merge_commit\<close> (\<open>src/merge-commit.cpp\<close>)
  share: a \<open>std::priority_queue\<close> holds the next entry of every thread's log; the loop takes the
  least entry out, handles it, and puts the next entry of the same thread in. The C++ library does
  not say which of several least entries \<open>top()\<close> returns, so the choice is a parameter \<open>sel\<close> (the
  position of the entry in the queue's storage) with the one law the library promises: nothing in
  the queue is less.
\<close>

section \<open>The queue\<close>

type_synonym 'x que_ent = "tid_t \<times> 'x"

text \<open>\<open>top()\<close> followed by \<open>pop()\<close>. The position is cut to the queue's range so that the operation is
  total; the law below makes the cut irrelevant.\<close>

definition pq_pop :: "('e list \<Rightarrow> nat) \<Rightarrow> 'e list \<Rightarrow> 'e \<times> 'e list" where
  "pq_pop sel q = (let i = min (sel q) (length q - 1) in (q ! i, take i q @ drop (Suc i) q))"

text \<open>The next entry of a thread's log, if there is one, moves into the queue.\<close>

definition enqueue_next :: "tid_t \<Rightarrow> 'x que_ent list \<Rightarrow> 'x list list \<Rightarrow> 'x que_ent list \<times> 'x list list" where
  "enqueue_next t q logs =
     (if t < length logs \<and> logs ! t \<noteq> [] then (q @ [(t, hd (logs ! t))], logs[t := tl (logs ! t)])
      else (q, logs))"

definition queue_init :: "'x list list \<Rightarrow> 'x que_ent list \<times> 'x list list" where
  "queue_init logs = fold (\<lambda>t (q, l). enqueue_next t q l) [0..<length logs] ([], logs)"

lemma pq_pop_ex:
  assumes "q \<noteq> []"
  obtains i where "i < length q" "pq_pop sel q = (q ! i, take i q @ drop (Suc i) q)"
    "sel q < length q \<longrightarrow> i = sel q"
proof
  have "length q > 0" using assms by simp
  then show "min (sel q) (length q - 1) < length q" by linarith
  show "sel q < length q \<longrightarrow> min (sel q) (length q - 1) = sel q" by linarith
qed (simp add: pq_pop_def Let_def)

lemma pq_pop_length:
  assumes "q \<noteq> []" "pq_pop sel q = (e, q1)"
  shows "length q1 < length q"
proof -
  obtain i where "i < length q" "pq_pop sel q = (q ! i, take i q @ drop (Suc i) q)"
    using assms(1) by (rule pq_pop_ex)
  with assms(2) show ?thesis by auto
qed

lemma sum_list_update_tl:
  fixes logs :: "'x list list"
  assumes "t < length logs" "logs ! t \<noteq> []"
  shows "Suc (sum_list (map length (logs[t := tl (logs ! t)]))) = sum_list (map length logs)"
proof -
  have "sum_list (map length logs) \<ge> length (logs ! t)"
    using assms(1) by (intro member_le_sum_list) simp_all
  moreover have "sum_list (map length (logs[t := tl (logs ! t)])) =
      sum_list (map length logs) + (length (logs ! t) - 1) - length (logs ! t)"
    using assms(1) by (simp add: map_update sum_list_update)
  moreover have "length (logs ! t) > 0" using assms(2) by simp
  ultimately show ?thesis by linarith
qed

definition work_left :: "'x que_ent list \<times> 'x list list \<Rightarrow> nat" where
  "work_left ql = length (fst ql) + sum_list (map length (snd ql))"

lemma work_left_enqueue: "work_left (enqueue_next t q logs) = work_left (q, logs)"
  using sum_list_update_tl [of t logs] by (auto simp: work_left_def enqueue_next_def)

section \<open>The loop\<close>

text \<open>The body may stop the program (a failed assertion), which is \<open>None\<close>.\<close>

function pq_loop ::
  "('x que_ent list \<Rightarrow> nat) \<Rightarrow> ('x que_ent \<Rightarrow> 's \<Rightarrow> 's option) \<Rightarrow> 'x que_ent list \<Rightarrow> 'x list list \<Rightarrow> 's \<Rightarrow> 's option"
where
  "pq_loop sel body q logs s =
     (if q = [] then Some s
      else let (e, q1) = pq_pop sel q; (q2, logs2) = enqueue_next (fst e) q1 logs
           in (case body e s of None \<Rightarrow> None | Some s1 \<Rightarrow> pq_loop sel body q2 logs2 s1))"
  by pat_completeness auto
termination
proof (relation "measure (\<lambda>(sel, body, q, logs, s). work_left (q, logs))", goal_cases)
  case 1
  then show ?case by simp
next
  case (2 sel body q logs s ql e q1 el q2 logs2 s1)
  have "work_left (q2, logs2) = work_left (q1, logs)"
    using 2(4,5) work_left_enqueue [of "fst e" q1 logs] by simp
  moreover have "length q1 < length q"
    using 2(1,2,3) by (intro pq_pop_length [of q sel e]) simp_all
  ultimately show ?case by (simp add: work_left_def)
qed

declare pq_loop.simps [simp del]

text \<open>The entries in the order the loop handles them.\<close>

function kmerge :: "('x que_ent list \<Rightarrow> nat) \<Rightarrow> 'x que_ent list \<Rightarrow> 'x list list \<Rightarrow> 'x que_ent list" where
  "kmerge sel q logs =
     (if q = [] then []
      else let (e, q1) = pq_pop sel q; (q2, logs2) = enqueue_next (fst e) q1 logs
           in e # kmerge sel q2 logs2)"
  by pat_completeness auto
termination
proof (relation "measure (\<lambda>(sel, q, logs). work_left (q, logs))", goal_cases)
  case 1
  then show ?case by simp
next
  case (2 sel q logs ql e q1 el q2 logs2)
  have "work_left (q2, logs2) = work_left (q1, logs)"
    using 2(4,5) work_left_enqueue [of "fst e" q1 logs] by simp
  moreover have "length q1 < length q"
    using 2(1,2,3) by (intro pq_pop_length [of q sel e]) simp_all
  ultimately show ?case by (simp add: work_left_def)
qed

declare kmerge.simps [simp del]

fun fold_opt :: "('e \<Rightarrow> 's \<Rightarrow> 's option) \<Rightarrow> 'e list \<Rightarrow> 's \<Rightarrow> 's option" where
  "fold_opt f [] s = Some s"
| "fold_opt f (e # es) s = (case f e s of None \<Rightarrow> None | Some s1 \<Rightarrow> fold_opt f es s1)"

lemma pq_loop_kmerge: "pq_loop sel body q logs s = fold_opt body (kmerge sel q logs) s"
proof (induction sel body q logs s rule: pq_loop.induct)
  case (1 sel body q logs s)
  then show ?case
    by (auto simp: pq_loop.simps [of sel body q] kmerge.simps [of sel q] split: prod.splits option.splits)
qed

section \<open>What the loop handles\<close>

lemma pq_pop_mset:
  assumes "q \<noteq> []" "pq_pop sel q = (e, q1)"
  shows "mset q = add_mset e (mset q1)" "e \<in> set q" "set q = insert e (set q1)"
proof -
  obtain i where i: "i < length q" "pq_pop sel q = (q ! i, take i q @ drop (Suc i) q)"
    using assms(1) by (rule pq_pop_ex)
  then have "mset q = mset (take i q @ q ! i # drop (Suc i) q)"
    by (simp add: id_take_nth_drop [symmetric])
  with i(2) assms(2) show eq: "mset q = add_mset e (mset q1)" by simp
  show "set q = insert e (set q1)" using arg_cong [OF eq, of set_mset] by simp
  then show "e \<in> set q" by simp
qed

definition pending :: "'x que_ent list \<times> 'x list list \<Rightarrow> 'x que_ent multiset" where
  "pending ql = mset (fst ql) + (\<Sum>t<length (snd ql). mset (map (Pair t) (snd ql ! t)))"

lemma pending_enqueue: "pending (enqueue_next t q logs) = pending (q, logs)"
proof (cases "t < length logs \<and> logs ! t \<noteq> []")
  case True
  let ?l2 = "logs[t := tl (logs ! t)]"
  have "(\<Sum>u<length logs. mset (map (Pair u) (logs ! u))) =
      mset (map (Pair t) (logs ! t)) + (\<Sum>u\<in>{..<length logs} - {t}. mset (map (Pair u) (logs ! u)))"
    using True by (intro sum.remove) simp_all
  moreover have "(\<Sum>u<length ?l2. mset (map (Pair u) (?l2 ! u))) =
      mset (map (Pair t) (tl (logs ! t))) + (\<Sum>u\<in>{..<length logs} - {t}. mset (map (Pair u) (logs ! u)))"
    using True sum.remove [of "{..<length logs}" t "\<lambda>u. mset (map (Pair u) (?l2 ! u))"] by simp
  moreover have "mset (map (Pair t) (logs ! t)) = {#(t, hd (logs ! t))#} + mset (map (Pair t) (tl (logs ! t)))"
    using True by (cases "logs ! t") auto
  ultimately show ?thesis
    using True by (simp add: pending_def enqueue_next_def)
qed (auto simp: enqueue_next_def)

text \<open>Every log with entries left has one of them in the queue.\<close>

definition covers :: "'x que_ent list \<Rightarrow> 'x list list \<Rightarrow> bool" where
  "covers q logs \<longleftrightarrow> (\<forall>t < length logs. logs ! t \<noteq> [] \<longrightarrow> t \<in> fst ` set q)"

lemma covers_step:
  assumes "covers q logs" "q \<noteq> []" "pq_pop sel q = (e, q1)" "enqueue_next (fst e) q1 logs = (q2, logs2)"
  shows "covers q2 logs2"
  using assms(1,4) pq_pop_mset(3) [OF assms(2,3)]
  by (auto simp: covers_def enqueue_next_def nth_list_update split: if_splits)

lemma mset_kmerge: "covers q logs \<Longrightarrow> mset (kmerge sel q logs) = pending (q, logs)"
proof (induction sel q logs rule: kmerge.induct)
  case (1 sel q logs)
  show ?case
  proof (cases "q = []")
    case True
    with 1(2) have "\<forall>t < length logs. logs ! t = []" by (simp add: covers_def)
    with True show ?thesis by (simp add: kmerge.simps pending_def)
  next
    case False
    obtain e q1 where p: "pq_pop sel q = (e, q1)" by fastforce
    obtain q2 logs2 where n: "enqueue_next (fst e) q1 logs = (q2, logs2)" by fastforce
    have "mset (kmerge sel q2 logs2) = pending (q2, logs2)"
      using 1(1) [OF False p [symmetric] refl n [symmetric] refl] covers_step [OF 1(2) False p n] by simp
    also have "\<dots> = pending (q1, logs)" using pending_enqueue [of "fst e" q1 logs] n by simp
    finally show ?thesis
      using False p n pq_pop_mset(1) [OF False p] by (simp add: kmerge.simps [of sel q] pending_def)
  qed
qed

lemma queue_init_eq:
  "n \<le> length logs \<Longrightarrow> fold (\<lambda>t (q, l). enqueue_next t q l) [0..<n] ([], logs) =
     (concat (map (\<lambda>t. map (Pair t) (take 1 (logs ! t))) [0..<n]), map tl (take n logs) @ drop n logs)"
proof (induction n)
  case 0
  then show ?case by simp
next
  case (Suc n)
  have nth: "(map tl (take n logs) @ drop n logs) ! n = logs ! n"
    using Suc.prems by (simp add: nth_append)
  have upd: "(map tl (take n logs) @ drop n logs)[n := tl (logs ! n)] = map tl (take (Suc n) logs) @ drop (Suc n) logs"
    using Suc.prems
    by (simp add: list_update_append take_Suc_conv_app_nth drop_update_swap flip: Cons_nth_drop_Suc)
  show ?case
  proof (cases "logs ! n")
    case Nil
    then have "map tl (take n logs) @ drop n logs = map tl (take (Suc n) logs) @ drop (Suc n) logs"
      using upd nth by (metis list.sel(2) list_update_id)
    with Nil Suc nth show ?thesis by (simp add: enqueue_next_def)
  next
    case (Cons x xs)
    with Suc nth upd show ?thesis by (simp add: enqueue_next_def)
  qed
qed

lemma queue_init_covers:
  assumes "queue_init logs = (q, logs2)"
  shows "covers q logs2" "pending (q, logs2) = (\<Sum>t<length logs. mset (map (Pair t) (logs ! t)))"
proof -
  have q: "q = concat (map (\<lambda>t. map (Pair t) (take 1 (logs ! t))) [0..<length logs])" "logs2 = map tl logs"
    using assms queue_init_eq [of "length logs" logs] by (auto simp: queue_init_def)
  show "covers q logs2"
  proof (unfold covers_def, intro allI impI)
    fix t
    assume t: "t < length logs2" "logs2 ! t \<noteq> []"
    then obtain x xs where "logs ! t = x # xs" using q(2) by (cases "logs ! t") auto
    with t q show "t \<in> fst ` set q" by (force simp: image_iff)
  qed
  have "pending (fold (\<lambda>t (q, l). enqueue_next t q l) is ([], logs)) = pending ([], logs)" for "is"
    by (induction "is" rule: rev_induct) (auto simp: pending_enqueue split: prod.splits)
  then have "pending (q, logs2) = pending ([], logs)"
    using assms by (metis queue_init_def)
  then show "pending (q, logs2) = (\<Sum>t<length logs. mset (map (Pair t) (logs ! t)))"
    by (simp add: pending_def [of "([], logs)"])
qed

section \<open>The order of the result\<close>

text \<open>
  The law of the queue: \<open>operator>\<close> compares keys and \<open>top()\<close> returns an entry with a least key.
  Under it the loop handles the entries of key-sorted logs in the order of their keys.
\<close>

locale min_queue =
  fixes key :: "'x \<Rightarrow> 'k :: linorder"
    and gt :: "'x que_ent \<Rightarrow> 'x que_ent \<Rightarrow> bool"
    and sel :: "'x que_ent list \<Rightarrow> nat"
  assumes gt_key: "gt a b \<longleftrightarrow> key (snd b) < key (snd a)"
    and sel_less: "q \<noteq> [] \<Longrightarrow> sel q < length q"
    and sel_least: "q \<noteq> [] \<Longrightarrow> b \<in> set q \<Longrightarrow> \<not> gt (q ! sel q) b"
begin

definition ordered_logs :: "'x que_ent list \<Rightarrow> 'x list list \<Rightarrow> bool" where
  "ordered_logs q logs \<longleftrightarrow>
     (\<forall>t < length logs. sorted (map key (logs ! t))) \<and>
     (\<forall>t x. (t, x) \<in> set q \<longrightarrow> t < length logs \<longrightarrow> (\<forall>y \<in> set (logs ! t). key x \<le> key y))"

lemma pop_least:
  assumes "q \<noteq> []" "pq_pop sel q = (e, q1)" "b \<in> set q"
  shows "key (snd e) \<le> key (snd b)"
proof -
  obtain i where "i < length q" "pq_pop sel q = (q ! i, take i q @ drop (Suc i) q)"
    "sel q < length q \<longrightarrow> i = sel q"
    by (rule pq_pop_ex [OF assms(1), of sel])
  then have "e = q ! sel q" using assms(1,2) sel_less by simp
  then show ?thesis using sel_least [OF assms(1,3)] by (simp add: gt_key)
qed

lemma ordered_step:
  assumes "ordered_logs q logs" "q \<noteq> []" "pq_pop sel q = (e, q1)"
    "enqueue_next (fst e) q1 logs = (q2, logs2)"
  shows "ordered_logs q2 logs2"
proof (cases "fst e < length logs \<and> logs ! fst e \<noteq> []")
  case True
  then obtain y ys where y: "logs ! fst e = y # ys" by (cases "logs ! fst e") auto
  have q2: "q2 = q1 @ [(fst e, y)]" "logs2 = logs[fst e := ys]"
    using assms(4) True y by (auto simp: enqueue_next_def)
  have srt: "sorted (map key (y # ys))" using assms(1) True y by (auto simp: ordered_logs_def)
  show ?thesis
    using assms(1) True y srt pq_pop_mset(3) [OF assms(2,3)]
    by (auto simp: ordered_logs_def q2 nth_list_update)
next
  case False
  then show ?thesis
    using assms(1,4) pq_pop_mset(3) [OF assms(2,3)] by (auto simp: ordered_logs_def enqueue_next_def)
qed

lemma pending_ge:
  assumes "ordered_logs q logs" "covers q logs" "b \<in># pending (q, logs)"
  shows "\<exists>a \<in> set q. key (snd a) \<le> key (snd b)"
proof (cases "b \<in> set q")
  case True
  then show ?thesis by blast
next
  case False
  with assms(3) obtain t where t: "t < length logs" "b \<in> Pair t ` set (logs ! t)"
    by (auto simp: pending_def set_mset_sum)
  then obtain y where y: "b = (t, y)" "y \<in> set (logs ! t)" by blast
  then have "logs ! t \<noteq> []" by auto
  with assms(2) t(1) obtain x where "(t, x) \<in> set q" by (force simp: covers_def)
  with assms(1) t y show ?thesis by (force simp: ordered_logs_def)
qed

lemma sorted_kmerge:
  "ordered_logs q logs \<Longrightarrow> covers q logs \<Longrightarrow> sorted (map (key \<circ> snd) (kmerge sel q logs))"
proof (induction "work_left (q, logs)" arbitrary: q logs rule: less_induct)
  case less
  show ?case
  proof (cases "q = []")
    case True
    then show ?thesis by (simp add: kmerge.simps)
  next
    case False
    obtain e q1 where p: "pq_pop sel q = (e, q1)" by fastforce
    obtain q2 logs2 where n: "enqueue_next (fst e) q1 logs = (q2, logs2)" by fastforce
    have "work_left (q2, logs2) < work_left (q, logs)"
      using work_left_enqueue [of "fst e" q1 logs] n pq_pop_length [OF False p] by (simp add: work_left_def)
    moreover have o2: "ordered_logs q2 logs2" using ordered_step [OF less.prems(1) False p n] .
    moreover have c2: "covers q2 logs2" using covers_step [OF less.prems(2) False p n] .
    ultimately have srt: "sorted (map (key \<circ> snd) (kmerge sel q2 logs2))" by (rule less.hyps)
    have "pending (q2, logs2) = pending (q1, logs)" using pending_enqueue [of "fst e" q1 logs] n by simp
    also have "\<dots> \<subseteq># pending (q, logs)" using pq_pop_mset(1) [OF False p] by (simp add: pending_def)
    finally have sub: "pending (q2, logs2) \<subseteq># pending (q, logs)" .
    have "key (snd e) \<le> key (snd b)" if "b \<in> set (kmerge sel q2 logs2)" for b
    proof -
      have "b \<in># pending (q, logs)"
        using that mset_kmerge [OF c2, of sel] mset_subset_eqD [OF sub] by (metis set_mset_mset)
      then obtain a where "a \<in> set q" "key (snd a) \<le> key (snd b)"
        using pending_ge [OF less.prems] by blast
      then show ?thesis using pop_least [OF False p] by (meson order_trans)
    qed
    then show ?thesis using False p n srt by (simp add: kmerge.simps [of sel q])
  qed
qed

lemma queue_init_ordered:
  assumes "queue_init logs = (q, logs2)" "\<And>t. t < length logs \<Longrightarrow> sorted (map key (logs ! t))"
  shows "ordered_logs q logs2"
proof -
  have q: "q = concat (map (\<lambda>t. map (Pair t) (take 1 (logs ! t))) [0..<length logs])" "logs2 = map tl logs"
    using assms(1) queue_init_eq [of "length logs" logs] by (auto simp: queue_init_def)
  have "sorted (map key (tl (logs ! t)))" if "t < length logs" for t
    using assms(2) [OF that] by (cases "logs ! t") auto
  moreover have "key x \<le> key y" if "t < length logs" "x \<in> set (take 1 (logs ! t))" "y \<in> set (tl (logs ! t))" for t x y
    using assms(2) [OF that(1)] that(2,3) by (cases "logs ! t") auto
  ultimately show ?thesis by (auto simp: ordered_logs_def q)
qed

lemma merged_sorted:
  assumes "queue_init logs = (q, logs2)" "\<And>t. t < length logs \<Longrightarrow> sorted (map key (logs ! t))"
  shows "sorted (map (key \<circ> snd) (kmerge sel q logs2))"
    and "mset (kmerge sel q logs2) = (\<Sum>t<length logs. mset (map (Pair t) (logs ! t)))"
  using sorted_kmerge [OF queue_init_ordered [OF assms] queue_init_covers(1) [OF assms(1)]]
    mset_kmerge [OF queue_init_covers(1) [OF assms(1)]] queue_init_covers(2) [OF assms(1)]
  by simp_all

end

text \<open>One choice the library may make: the first of the least entries.\<close>

fun first_least :: "('e \<Rightarrow> 'e \<Rightarrow> bool) \<Rightarrow> 'e list \<Rightarrow> nat" where
  "first_least gt [] = 0"
| "first_least gt (a # as) =
     (if as = [] then 0 else if gt a (as ! first_least gt as) then Suc (first_least gt as) else 0)"

lemma first_least_min_queue:
  assumes "\<And>a b. gt a b \<longleftrightarrow> key (snd b) < (key (snd a) :: 'k :: linorder)"
  shows "min_queue key gt (first_least gt)"
proof
  show "gt a b \<longleftrightarrow> key (snd b) < key (snd a)" for a b by (rule assms)
  show len: "first_least gt q < length q" if "q \<noteq> []" for q
    using that by (induction q) auto
  show "\<not> gt (q ! first_least gt q) b" if "q \<noteq> []" "b \<in> set q" for q b
    using that
  proof (induction q)
    case (Cons a as)
    then show ?case using assms by (cases "as = []") (auto simp: not_less)
  qed simp
qed

lemma fold_opt_collect: "fold_opt (\<lambda>e acc. Some (acc @ [e])) es acc = Some (acc @ es)"
  by (induction es arbitrary: acc) simp_all

section \<open>Properties\<close>

text \<open>The merge loop handles every entry of every log exactly once, tagged with its thread, and
  the entries of logs sorted by key in the order of their keys, for any queue that pops a least
  entry; a body that collects the entries shows it.\<close>

lemma pq_loop_merges:
  assumes "min_queue key gt sel" "\<forall>t < length logs. sorted (map key (logs ! t))"
    "queue_init logs = (q, rest)"
  shows "\<exists>out. pq_loop sel (\<lambda>e acc. Some (acc @ [e])) q rest [] = Some out \<and>
    sorted (map (key \<circ> snd) out) \<and> mset out = (\<Sum>t<length logs. mset (map (Pair t) (logs ! t)))"
  using min_queue.merged_sorted [OF assms(1,3)] assms(2)
  by (simp add: pq_loop_kmerge fold_opt_collect)

end
