(* ===== verification/Reorder_Memop.thy ===== *)
theory Reorder_Memop
  imports Mem_Prelude
begin

text \<open>
  \<open>src/reorder-memop.cpp\<close>: one thread's \<open>memop\<close> log, in the order it was recorded, is sorted into
  one vector per object and written back object by object. The theory models the loading loop with
  its end mark and its range assertion, the output, and shows that the result is the stable sort of
  the entries by object.
\<close>

section \<open>The program\<close>

datatype reorder_error = Objid_assert | Past_end_of_log

text \<open>The loop of \<open>load_wait_memop_log\<close>. It stops at the end mark only; a log without one is read
  past its end.\<close>

fun load_wait_memop_log ::
  "nat \<Rightarrow> wait_memop list \<Rightarrow> wait_memop list list \<Rightarrow> nat \<Rightarrow> reorder_error + (wait_memop list list \<times> nat)"
where
  "load_wait_memop_log nobj [] all tot = Inl Past_end_of_log"
| "load_wait_memop_log nobj (w # ws) all tot =
     (if wm_objid w = -1 then Inr (all, tot)
      else if wm_memop w = -1 then load_wait_memop_log nobj ws all tot
      else if wm_objid w < 0 \<or> wm_objid w \<ge> int nobj then Inl Objid_assert
      else load_wait_memop_log nobj ws
             (all[nat (wm_objid w) := all ! nat (wm_objid w) @ [w]]) (Suc tot))"

text \<open>The file is created with room for \<open>tot\<close> entries and filled vector by vector.\<close>

definition write_out_memop_log :: "wait_memop list list \<Rightarrow> nat \<Rightarrow> wait_memop list" where
  "write_out_memop_log all tot = take tot (concat all)"

text \<open>\<open>main\<close>: no file is written for a log without entries.\<close>

definition reorder_main :: "nat \<Rightarrow> wait_memop list \<Rightarrow> reorder_error + wait_memop list option" where
  "reorder_main nobj log =
     (case load_wait_memop_log nobj log (replicate nobj []) 0 of
        Inl e \<Rightarrow> Inl e
      | Inr (all, tot) \<Rightarrow> Inr (if tot \<noteq> 0 then Some (write_out_memop_log all tot) else None))"

section \<open>The result\<close>

abbreviation memop_end :: wait_memop where
  "memop_end \<equiv> \<lparr>wm_objid = -1, wm_version = -1, wm_memop = -1\<rparr>"

definition entry_ok :: "nat \<Rightarrow> wait_memop \<Rightarrow> bool" where
  "entry_ok nobj w \<longleftrightarrow> 0 \<le> wm_objid w \<and> wm_objid w < int nobj \<and> 0 \<le> wm_memop w"

definition of_obj :: "nat \<Rightarrow> wait_memop list \<Rightarrow> wait_memop list" where
  "of_obj o' ws = filter (\<lambda>w. wm_objid w = int o') ws"

lemma load_wait_memop_log_ok:
  assumes "\<forall>w \<in> set ws. entry_ok nobj w" "length all = nobj"
  shows "load_wait_memop_log nobj (ws @ [memop_end]) all tot =
    Inr (map (\<lambda>o'. all ! o' @ of_obj o' ws) [0..<nobj], tot + length ws)"
  using assms
proof (induction ws arbitrary: all tot)
  case Nil
  then show ?case by (auto simp: of_obj_def intro: nth_equalityI)
next
  case (Cons w ws)
  let ?all = "all[nat (wm_objid w) := all ! nat (wm_objid w) @ [w]]"
  have w: "0 \<le> wm_objid w" "wm_objid w < int nobj" "0 \<le> wm_memop w"
    using Cons.prems(1) by (auto simp: entry_ok_def)
  have "load_wait_memop_log nobj (ws @ [memop_end]) ?all (Suc tot) =
      Inr (map (\<lambda>o'. ?all ! o' @ of_obj o' ws) [0..<nobj], Suc tot + length ws)"
    by (rule Cons.IH) (use Cons.prems in auto)
  moreover have "map (\<lambda>o'. ?all ! o' @ of_obj o' ws) [0..<nobj] = map (\<lambda>o'. all ! o' @ of_obj o' (w # ws)) [0..<nobj]"
    using w Cons.prems(2) by (auto simp: of_obj_def nth_list_update)
  ultimately show ?case using w by simp
qed

definition by_object :: "nat \<Rightarrow> wait_memop list \<Rightarrow> wait_memop list" where
  "by_object nobj ws = concat (map (\<lambda>o'. of_obj o' ws) [0..<nobj])"

lemma mset_by_object:
  assumes "\<forall>w \<in> set ws. entry_ok nobj w"
  shows "mset (by_object nobj ws) = mset ws"
proof -
  have "mset (by_object n ws) = mset (filter (\<lambda>w. wm_objid w < int n) ws)"
    if "\<forall>w \<in> set ws. 0 \<le> wm_objid w" for n
  proof (induction n)
    case 0
    have "filter (\<lambda>w. wm_objid w < 0) ws = []" using that by (simp add: filter_empty_conv not_less)
    then show ?case by (simp add: by_object_def)
  next
    case (Suc n)
    have "filter_mset (\<lambda>w. wm_objid w < int (Suc n)) (mset ws) =
        filter_mset (\<lambda>w. wm_objid w < int n) (mset ws) + filter_mset (\<lambda>w. wm_objid w = int n) (mset ws)"
      by (induction ws) auto
    with Suc show ?case by (simp add: by_object_def of_obj_def)
  qed
  moreover have "filter (\<lambda>w. wm_objid w < int nobj) ws = ws"
    using assms by (simp add: filter_id_conv entry_ok_def)
  ultimately show ?thesis using assms by (metis entry_ok_def)
qed

lemma length_by_object: "\<forall>w \<in> set ws. entry_ok nobj w \<Longrightarrow> length (by_object nobj ws) = length ws"
  using mset_by_object by (metis size_mset)

lemma reorder_main_eq:
  assumes "\<forall>w \<in> set ws. entry_ok nobj w"
  shows "reorder_main nobj (ws @ [memop_end]) = Inr (if ws = [] then None else Some (by_object nobj ws))"
proof -
  have "load_wait_memop_log nobj (ws @ [memop_end]) (replicate nobj []) 0 =
      Inr (map (\<lambda>o'. of_obj o' ws) [0..<nobj], length ws)"
    using load_wait_memop_log_ok [OF assms, of "replicate nobj []" 0]
    by (simp cong: map_cong)
  moreover have "take (length ws) (by_object nobj ws) = by_object nobj ws"
    using length_by_object [OF assms] by simp
  ultimately show ?thesis
    by (simp add: reorder_main_def write_out_memop_log_def by_object_def)
qed

lemma sorted_concat_objs:
  assumes "\<And>o'. sorted (map wm_version (of_obj o' ws))"
  shows "sorted_wrt (\<lambda>v w. wm_objid v < wm_objid w \<or> wm_objid v = wm_objid w \<and> wm_version v \<le> wm_version w)
    (by_object nobj ws)"
proof (induction nobj)
  case 0
  then show ?case by (simp add: by_object_def)
next
  case (Suc n)
  have "sorted_wrt (\<lambda>v w. wm_version v \<le> wm_version w) (of_obj n ws)"
    using assms [of n] by (simp add: sorted_wrt_map)
  then have "sorted_wrt (\<lambda>v w. wm_objid v < wm_objid w \<or> wm_objid v = wm_objid w \<and> wm_version v \<le> wm_version w)
      (of_obj n ws)"
    by (rule sorted_wrt_mono_rel [rotated]) (auto simp: of_obj_def)
  with Suc show ?case
    by (auto simp: by_object_def sorted_wrt_append of_obj_def)
qed

lemma of_obj_by_object:
  assumes "o' < nobj"
  shows "of_obj o' (by_object nobj ws) = of_obj o' ws"
proof -
  have "of_obj o' (by_object n ws) = (if o' < n then of_obj o' ws else [])" for n
  proof (induction n)
    case 0
    then show ?case by (simp add: by_object_def of_obj_def)
  next
    case (Suc n)
    have "of_obj o' (of_obj n ws) = (if o' = n then of_obj o' ws else [])"
      by (auto simp: of_obj_def filter_empty_conv)
    with Suc show ?case by (auto simp: by_object_def of_obj_def less_Suc_eq)
  qed
  with assms show ?thesis by simp
qed

lemma by_object_sorted: "sorted (map wm_objid (by_object nobj ws))"
proof (induction nobj)
  case 0
  then show ?case by (simp add: by_object_def)
next
  case (Suc n)
  have "map wm_objid (of_obj n ws) = replicate (length (of_obj n ws)) (int n)"
    by (rule replicate_eqI) (auto simp: of_obj_def)
  with Suc show ?case by (auto simp: by_object_def sorted_append of_obj_def)
qed

lemma load_bad_objid:
  assumes "\<forall>w \<in> set ws. entry_ok nobj w" "wm_objid b < -1 \<or> int nobj \<le> wm_objid b" "wm_memop b \<noteq> -1"
  shows "load_wait_memop_log nobj (ws @ b # rest) all tot = Inl Objid_assert"
  using assms by (induction ws arbitrary: all tot) (auto simp: entry_ok_def)

section \<open>Properties\<close>

text \<open>C28: \<open>reorder-memop\<close> is a stable sort by object: for a log of entries in range it succeeds, and
  what it writes holds the same entries, in the order of their objects, those of one object in the
  order they were recorded in.\<close>

theorem reorder_stable_sort:
  assumes "\<forall>w \<in> set ws. entry_ok nobj w" "ws \<noteq> []"
  shows "\<exists>out. reorder_main nobj (ws @ [memop_end]) = Inr (Some out) \<and> mset out = mset ws \<and>
    sorted (map wm_objid out) \<and> (\<forall>i < nobj. of_obj i out = of_obj i ws)"
proof (intro exI conjI)
  show "reorder_main nobj (ws @ [memop_end]) = Inr (Some (by_object nobj ws))"
    using assms by (simp add: reorder_main_eq)
  show "mset (by_object nobj ws) = mset ws" using assms(1) by (rule mset_by_object)
  show "sorted (map wm_objid (by_object nobj ws))" by (rule by_object_sorted)
qed (simp add: of_obj_by_object)

theorem reorder_stable_sort_witness:
  "\<exists>out. reorder_main 2 ([\<lparr>wm_objid = 1, wm_version = 2, wm_memop = 0\<rparr>, \<lparr>wm_objid = 0, wm_version = 4, wm_memop = 3\<rparr>] @
      [memop_end]) = Inr (Some out) \<and> sorted (map wm_objid out)"
  using reorder_stable_sort [of "[\<lparr>wm_objid = 1, wm_version = 2, wm_memop = 0\<rparr>, \<lparr>wm_objid = 0, wm_version = 4, wm_memop = 3\<rparr>]" 2]
  by (auto simp: entry_ok_def)

text \<open>An entry with an object out of range stops \<open>reorder-memop\<close> with its assertion, whatever
  valid entries come before it and whatever follows.\<close>

lemma reorder_bad_objid:
  assumes "\<forall>w \<in> set ws. entry_ok nobj w" "wm_objid b < -1 \<or> int nobj \<le> wm_objid b" "wm_memop b \<noteq> -1"
  shows "reorder_main nobj (ws @ b # rest) = Inl Objid_assert"
  using load_bad_objid [OF assms] by (simp add: reorder_main_def)

end
