(* ===== verification/Merge_Memop.thy ===== *)
theory Merge_Memop
  imports Kway_Merge Reorder_Memop
begin

text \<open>
  \<open>src/merge-memop.cpp\<close>: the sorted logs of all threads are merged into one log, ordered by object
  and version, with an index that gives for every object the position of its first entry and the
  number of its entries (\<open>-1\<close> and \<open>0\<close> when it has none). The second half is the reader of these
  two files, \<open>load_wait_reader_log\<close> of \<open>src/mem-replay.c\<close>, and the round trip through them.
\<close>

section \<open>The merge\<close>

text \<open>\<open>operator>\<close> of \<open>QueEnt\<close>.\<close>

definition que_gt :: "wait_memop que_ent \<Rightarrow> wait_memop que_ent \<Rightarrow> bool" where
  "que_gt a b =
     (if wm_objid (snd a) = wm_objid (snd b) then wm_version (snd a) > wm_version (snd b)
      else wm_objid (snd a) > wm_objid (snd b))"

text \<open>The two output buffers and the loop's counters.\<close>

record merge_state =
  ms_memop :: "replay_wait_memop list"
  ms_index :: "int list"
  prev_id :: int
  cnt :: int
  prev_cnt :: int

definition no_entries :: "int \<Rightarrow> int list" where
  "no_entries n = concat (replicate (nat n) [-1, 0])"

text \<open>The body of the loop; \<open>None\<close> is the failed assertion on an object's entry count.\<close>

definition merge_body :: "wait_memop que_ent \<Rightarrow> merge_state \<Rightarrow> merge_state option" where
  "merge_body qe s =
     (let objid = wm_objid (snd qe);
          mwm = \<lparr>rwm_version = wm_version (snd qe), rwm_memop = wm_memop (snd qe), rwm_tid = fst qe\<rparr>
      in if prev_id s \<noteq> objid
         then if prev_id s \<noteq> -1 \<and> \<not> cnt s - prev_cnt s > 0 then None
              else Some (s\<lparr>ms_index := ms_index s @ (if prev_id s \<noteq> -1 then [cnt s - prev_cnt s] else [])
                             @ no_entries (objid - (prev_id s + 1)) @ [cnt s],
                           prev_cnt := cnt s, prev_id := objid,
                           ms_memop := ms_memop s @ [mwm], cnt := cnt s + 1\<rparr>)
         else Some (s\<lparr>ms_memop := ms_memop s @ [mwm], cnt := cnt s + 1\<rparr>))"

definition merge_init :: merge_state where
  "merge_init = \<lparr>ms_memop = [], ms_index = [], prev_id = -1, cnt = 0, prev_cnt = 0\<rparr>"

text \<open>The conversion of an int to \<open>tid_t\<close>, an 8-bit signed integer.\<close>

definition to_tid_t :: "int \<Rightarrow> int" where
  "to_tid_t n = sint (word_of_int n :: 8 word)"

text \<open>A log that could not be opened (\<open>None\<close>) is marked empty and skipped.\<close>

definition log_entries :: "wait_memop list option \<Rightarrow> wait_memop list" where
  "log_entries l = (case l of None \<Rightarrow> [] | Some ws \<Rightarrow> ws)"

text \<open>
  \<open>merge_memop\<close> on the logs as they were opened; its parameter \<open>nthr\<close> is a \<open>tid_t\<close>. The outer \<open>None\<close>
  is a failed assertion; \<open>Some None\<close> is the early return that writes no files. The counters of the
  loop are C's 32-bit \<open>int\<close>, in whose range they are for fewer than \<open>2 ^ 31\<close> entries.
\<close>

definition merge_memop ::
  "(wait_memop que_ent list \<Rightarrow> nat) \<Rightarrow> nat \<Rightarrow> wait_memop list option list \<Rightarrow> int \<Rightarrow>
     (replay_wait_memop list \<times> int list) option option" where
  "merge_memop sel nobj log nthr =
     (let entries = map log_entries log
      in if int (length log) \<noteq> to_tid_t nthr then None
         else if sum_list (map length entries) = 0 then Some None
         else let (q, rest) = queue_init entries
              in case pq_loop sel merge_body q rest merge_init of
                   None \<Rightarrow> None
                 | Some s \<Rightarrow> Some (Some (ms_memop s,
                     ms_index s @ [cnt s - prev_cnt s] @ no_entries (int nobj - (prev_id s + 1)))))"

text \<open>\<open>main\<close> on the contents of the sorted logs; \<open>open_mapped_log\<close> exits (\<open>None\<close>) at a file of length zero,
  which cannot be mapped.\<close>

definition merge_main ::
  "(wait_memop que_ent list \<Rightarrow> nat) \<Rightarrow> nat \<Rightarrow> int \<Rightarrow> wait_memop list option list \<Rightarrow>
     (replay_wait_memop list \<times> int list) option option" where
  "merge_main sel nobj nthr log =
     (if Some [] \<in> set log then None else merge_memop sel nobj log (to_tid_t nthr))"

section \<open>Reading the merged log\<close>

text \<open>One object's part of the merged log: the entries from the log pointer on (a null pointer has
  none), the next entry to use, the number of entries (\<open>-1\<close> when the index says none) and the
  mutex. The two numbers are of type \<open>int\<close> in the code, and in its range for fewer than \<open>2 ^ 31\<close> entries
  (\<open>merged_in_range\<close>).\<close>

record replay_wait_memop_log =
  rl_log :: "replay_wait_memop list"
  rl_n :: int
  rl_size :: int
  rl_mutex :: bool

definition no_reader_log :: replay_wait_memop_log where
  "no_reader_log = \<lparr>rl_log = [], rl_n = 0, rl_size = -1, rl_mutex = False\<rparr>"

text \<open>The loop over the index; \<open>None\<close> when the index file is too short.\<close>

fun load_index :: "nat \<Rightarrow> int list \<Rightarrow> replay_wait_memop list \<Rightarrow> replay_wait_memop_log list option" where
  "load_index 0 index log_start = Some []"
| "load_index (Suc n) (i # c # index) log_start =
     (case load_index n index log_start of
        None \<Rightarrow> None
      | Some ls \<Rightarrow>
          Some ((if i = -1 then no_reader_log
                 else \<lparr>rl_log = drop (nat i) log_start, rl_n = 0, rl_size = c, rl_mutex = False\<rparr>) # ls))"
| "load_index (Suc n) index log_start = None"

definition load_wait_reader_log ::
  "nat \<Rightarrow> (replay_wait_memop list \<times> int list) option \<Rightarrow> replay_wait_memop_log list option" where
  "load_wait_reader_log nobj files =
     (case files of
        None \<Rightarrow> Some (replicate nobj no_reader_log)
      | Some (memop_log, index) \<Rightarrow> load_index nobj index memop_log)"

text \<open>The entries an object's log holds.\<close>

definition reader_entries :: "replay_wait_memop_log \<Rightarrow> replay_wait_memop list" where
  "reader_entries l = take (nat (rl_size l)) (rl_log l)"

section \<open>Thread numbers\<close>

lemma to_tid_t_eq: "to_tid_t n = signed_take_bit 7 n"
  by (simp add: to_tid_t_def sint_sbintrunc')

lemma to_tid_t_small: "-128 \<le> n \<Longrightarrow> n < 128 \<Longrightarrow> to_tid_t n = n"
  by (simp add: to_tid_t_eq signed_take_bit_int_eq_self)

lemma to_tid_t_bounds: "-128 \<le> to_tid_t n" "to_tid_t n < 128"
  using signed_take_bit_int_greater_eq_minus_exp [of 7 n] signed_take_bit_int_less_exp [of 7 n] by (simp_all add: to_tid_t_eq)

lemma to_tid_t_twice [simp]: "to_tid_t (to_tid_t n) = to_tid_t n"
  by (intro to_tid_t_small to_tid_t_bounds)

section \<open>The index\<close>

definition to_rwm :: "wait_memop que_ent \<Rightarrow> replay_wait_memop" where
  "to_rwm e = \<lparr>rwm_version = wm_version (snd e), rwm_memop = wm_memop (snd e), rwm_tid = fst e\<rparr>"

definition n_below :: "wait_memop que_ent list \<Rightarrow> int \<Rightarrow> nat" where
  "n_below es i = length (filter (\<lambda>e. wm_objid (snd e) < i) es)"

definition n_of :: "wait_memop que_ent list \<Rightarrow> int \<Rightarrow> nat" where
  "n_of es i = length (filter (\<lambda>e. wm_objid (snd e) = i) es)"

definition index_pair :: "wait_memop que_ent list \<Rightarrow> nat \<Rightarrow> int list" where
  "index_pair es i = (if n_of es (int i) = 0 then [-1, 0] else [int (n_below es (int i)), int (n_of es (int i))])"

definition index_of :: "wait_memop que_ent list \<Rightarrow> nat \<Rightarrow> int list" where
  "index_of es n = concat (map (index_pair es) [0..<n])"

definition objs_sorted :: "wait_memop que_ent list \<Rightarrow> bool" where
  "objs_sorted es \<longleftrightarrow> sorted (map (wm_objid \<circ> snd) es) \<and> (\<forall>e \<in> set es. 0 \<le> wm_objid (snd e))"

definition merge_inv :: "wait_memop que_ent list \<Rightarrow> merge_state \<Rightarrow> bool" where
  "merge_inv es s \<longleftrightarrow>
     ms_memop s = map to_rwm es \<and> cnt s = int (length es) \<and>
     (if es = [] then ms_index s = [] \<and> prev_id s = -1 \<and> prev_cnt s = 0
      else prev_id s = wm_objid (snd (last es)) \<and> prev_cnt s = int (n_below es (prev_id s)) \<and>
           ms_index s = index_of es (nat (prev_id s)) @ [prev_cnt s])"

lemma index_of_snoc_keep:
  assumes "wm_objid (snd e) \<ge> int n"
  shows "index_of (es @ [e]) n = index_of es n"
proof -
  have "index_pair (es @ [e]) i = index_pair es i" if "i < n" for i
    using that assms by (auto simp: index_pair_def n_of_def n_below_def)
  then show ?thesis unfolding index_of_def by (rule concat_map_upt_cong)
qed

lemma index_of_pad:
  assumes "n \<le> m" "\<And>i. n \<le> i \<Longrightarrow> i < m \<Longrightarrow> n_of es (int i) = 0"
  shows "index_of es m = index_of es n @ no_entries (int m - int n)"
  using assms
proof (induction m)
  case 0
  then show ?case by (simp add: index_of_def no_entries_def)
next
  case (Suc m)
  show ?case
  proof (cases "n \<le> m")
    case True
    then have "index_of es m = index_of es n @ no_entries (int m - int n)" using Suc by simp
    moreover have "nat (int (Suc m) - int n) = Suc (nat (int m - int n))" using True by simp
    moreover have "concat (replicate k [-1, 0]) @ [-1, 0] = concat (replicate (Suc k) [-1, 0 :: int])" for k
      by (induction k) auto
    ultimately show ?thesis
      using Suc.prems True by (simp add: index_of_def no_entries_def index_pair_def)
  next
    case False
    with Suc.prems(1) have "n = Suc m" by simp
    then show ?thesis by (simp add: no_entries_def)
  qed
qed

lemma n_below_all: "(\<And>e. e \<in> set es \<Longrightarrow> wm_objid (snd e) < i) \<Longrightarrow> n_below es i = length es"
  by (simp add: n_below_def filter_id_conv)

lemma n_of_none: "(\<And>e. e \<in> set es \<Longrightarrow> wm_objid (snd e) \<noteq> i) \<Longrightarrow> n_of es i = 0"
  by (simp add: n_of_def filter_empty_conv)

lemma n_below_Suc: "n_below es (i + 1) = n_below es i + n_of es i"
  by (induction es) (auto simp: n_below_def n_of_def)

lemma sorted_le_last:
  assumes "objs_sorted es" "e \<in> set es"
  shows "wm_objid (snd e) \<le> wm_objid (snd (last es))"
  using assms
proof (induction es rule: rev_induct)
  case (snoc x xs)
  then show ?case by (auto simp: objs_sorted_def sorted_append)
qed simp

text \<open>After an object's last entry the index holds the pairs of all objects up to it.\<close>

lemma merge_close_index:
  assumes "merge_inv es s" "objs_sorted es" "es \<noteq> []" "prev_id s < int n"
  shows "ms_index s @ [cnt s - prev_cnt s] @ no_entries (int n - (prev_id s + 1)) = index_of es n"
    and "cnt s - prev_cnt s > 0"
proof -
  let ?p = "prev_id s"
  have p: "?p = wm_objid (snd (last es))" and inv: "cnt s = int (length es)"
    "prev_cnt s = int (n_below es ?p)" "ms_index s = index_of es (nat ?p) @ [prev_cnt s]"
    using assms(1,3) by (auto simp: merge_inv_def)
  have p0: "0 \<le> ?p" using assms(2,3) p by (auto simp: objs_sorted_def)
  have le: "wm_objid (snd e) \<le> ?p" if "e \<in> set es" for e
    using sorted_le_last [OF assms(2) that] p by simp
  have "n_below es (?p + 1) = length es" using le by (intro n_below_all) force
  then have n: "n_below es ?p + n_of es ?p = length es" by (simp add: n_below_Suc)
  have "last es \<in> set (filter (\<lambda>e. wm_objid (snd e) = ?p) es)" using assms(3) p by simp
  then have pos: "n_of es ?p > 0" unfolding n_of_def by (metis length_pos_if_in_set)
  show "cnt s - prev_cnt s > 0" using inv n pos by linarith
  have "index_of es n = index_of es (Suc (nat ?p)) @ no_entries (int n - int (Suc (nat ?p)))"
    using assms(4) p0 le by (intro index_of_pad n_of_none) force+
  moreover have "index_of es (Suc (nat ?p)) = index_of es (nat ?p) @ [prev_cnt s, cnt s - prev_cnt s]"
    using inv n pos p0 by (simp add: index_of_def index_pair_def)
  ultimately show "ms_index s @ [cnt s - prev_cnt s] @ no_entries (int n - (?p + 1)) = index_of es n"
    using inv p0 by (simp add: algebra_simps)
qed

lemma merge_body_inv:
  assumes inv: "merge_inv es s" and srt: "objs_sorted (es @ [e])"
  shows "\<exists>s'. merge_body e s = Some s' \<and> merge_inv (es @ [e]) s'"
proof -
  let ?o = "wm_objid (snd e)"
  have srt0: "objs_sorted es" and o0: "0 \<le> ?o" using srt by (auto simp: objs_sorted_def sorted_append)
  have below: "n_below (es @ [e]) ?o = n_below es ?o" by (simp add: n_below_def)
  have keep: "index_of (es @ [e]) (nat ?o) = index_of es (nat ?o)"
    using o0 by (intro index_of_snoc_keep) simp
  show ?thesis
  proof (cases "es = []")
    case True
    have "index_of [] (nat ?o) = no_entries ?o"
      using index_of_pad [of 0 "nat ?o" "[]"] o0 by (simp add: index_of_def n_of_def)
    with True inv o0 keep show ?thesis
      by (simp add: merge_inv_def merge_body_def Let_def to_rwm_def n_below_def)
  next
    case False
    then have p: "prev_id s = wm_objid (snd (last es))" using inv by (simp add: merge_inv_def)
    have p0: "0 \<le> prev_id s" using srt0 p False by (auto simp: objs_sorted_def)
    have ple: "prev_id s \<le> ?o" using srt False p by (auto simp: objs_sorted_def sorted_append)
    show ?thesis
    proof (cases "prev_id s = ?o")
      case True
      with False inv below keep show ?thesis
        by (simp add: merge_inv_def merge_body_def Let_def to_rwm_def)
    next
      case neq: False
      have "prev_id s < int (nat ?o)" using ple neq o0 by simp
      note close = merge_close_index [OF inv srt0 False this]
      have "n_below es ?o = length es"
        using sorted_le_last [OF srt0] p ple neq by (intro n_below_all) force
      with close neq p0 o0 inv keep below show ?thesis
        by (simp add: merge_inv_def merge_body_def Let_def to_rwm_def)
    qed
  qed
qed

lemma merge_fold:
  assumes "merge_inv es s" "objs_sorted (es @ fs)"
  shows "\<exists>s'. fold_opt merge_body fs s = Some s' \<and> merge_inv (es @ fs) s'"
  using assms
proof (induction fs arbitrary: es s)
  case Nil
  then show ?case by simp
next
  case (Cons f fs)
  have "objs_sorted (es @ [f])" using Cons.prems(2) by (auto simp: objs_sorted_def sorted_append)
  then obtain s1 where "merge_body f s = Some s1" "merge_inv (es @ [f]) s1"
    using merge_body_inv [OF Cons.prems(1)] by blast
  with Cons.IH [of "es @ [f]" s1] Cons.prems(2) show ?case by simp
qed

section \<open>Round trip through the files\<close>

definition loaded :: "wait_memop que_ent list \<Rightarrow> nat \<Rightarrow> replay_wait_memop_log" where
  "loaded es i =
     (if n_of es (int i) = 0 then no_reader_log
      else \<lparr>rl_log = drop (n_below es (int i)) (map to_rwm es), rl_n = 0,
            rl_size = int (n_of es (int i)), rl_mutex = False\<rparr>)"

lemma load_index_of:
  "load_index n (concat (map (index_pair es) [k..<k + n])) (map to_rwm es) = Some (map (loaded es) [k..<k + n])"
proof (induction n arbitrary: k)
  case 0
  then show ?case by simp
next
  case (Suc n)
  have "[k..<k + Suc n] = k # [Suc k..<Suc k + n]" by (simp add: upt_conv_Cons)
  with Suc [of "Suc k"] show ?case by (simp add: index_pair_def loaded_def)
qed

lemma sorted_slice:
  assumes "sorted (map f xs)"
  shows "take (length (filter (\<lambda>x. f x = (k :: int)) xs)) (drop (length (filter (\<lambda>x. f x < k) xs)) xs) =
    filter (\<lambda>x. f x = k) xs"
  using assms
proof (induction xs)
  case Nil
  then show ?case by simp
next
  case (Cons x xs)
  consider "f x < k" | "f x = k" | "f x > k" by linarith
  then show ?case
  proof cases
    case 1
    then show ?thesis using Cons by simp
  next
    case 2
    then have "filter (\<lambda>x. f x < k) xs = []" using Cons.prems by (auto simp: filter_empty_conv)
    with 2 Cons show ?thesis by simp
  next
    case 3
    then have "filter (\<lambda>x. f x = k) xs = []" using Cons.prems by (auto simp: filter_empty_conv)
    with 3 show ?thesis by simp
  qed
qed

lemma loaded_entries:
  assumes "objs_sorted es"
  shows "reader_entries (loaded es i) = map to_rwm (filter (\<lambda>e. wm_objid (snd e) = int i) es)"
  using sorted_slice [of "wm_objid \<circ> snd" es "int i"] assms
  by (auto simp: reader_entries_def loaded_def no_reader_log_def n_of_def n_below_def objs_sorted_def
      drop_map take_map)

lemma loaded_size:
  assumes "objs_sorted es"
  shows "rl_n (loaded es i) = 0" "\<not> rl_mutex (loaded es i)"
    and "nat (rl_size (loaded es i)) = length (reader_entries (loaded es i))"
  using loaded_entries [OF assms, of i] by (auto simp: loaded_def no_reader_log_def n_of_def)

definition memop_key :: "wait_memop \<Rightarrow> int \<times> int" where
  "memop_key w = (wm_objid w, wm_version w)"

lemma que_gt_key: "que_gt a b \<longleftrightarrow> memop_key (snd b) < memop_key (snd a)"
  by (auto simp: que_gt_def memop_key_def less_prod_def)

interpretation memop_queue: min_queue memop_key que_gt "first_least que_gt"
  by (rule first_least_min_queue) (rule que_gt_key)

lemma by_object_keys:
  assumes "\<And>o'. sorted (map wm_version (of_obj o' ws))"
  shows "sorted (map memop_key (by_object nobj ws))"
proof -
  have "sorted_wrt (\<lambda>v w. memop_key v \<le> memop_key w) (by_object nobj ws)"
    using sorted_concat_objs [OF assms]
    by (rule sorted_wrt_mono_rel [rotated]) (auto simp: memop_key_def less_eq_prod_def)
  then show ?thesis by (simp add: sorted_wrt_map)
qed

lemma merged_objs_sorted:
  assumes "sorted (map (memop_key \<circ> snd) es)" "\<And>e. e \<in> set es \<Longrightarrow> 0 \<le> wm_objid (snd e)"
  shows "objs_sorted es"
proof -
  have "sorted_wrt (\<lambda>a b. memop_key (snd a) \<le> memop_key (snd b)) es" using assms(1) by (simp add: sorted_wrt_map)
  then have "sorted_wrt (\<lambda>a b. wm_objid (snd a) \<le> wm_objid (snd b)) es"
    by (rule sorted_wrt_mono_rel [rotated]) (auto simp: memop_key_def less_eq_prod_def)
  then show ?thesis using assms(2) by (simp add: objs_sorted_def sorted_wrt_map)
qed

lemma versions_sorted:
  assumes "sorted (map (memop_key \<circ> snd) es)"
  shows "sorted (map rwm_version (map to_rwm (filter (\<lambda>e. wm_objid (snd e) = i) es)))"
proof -
  have "sorted_wrt (\<lambda>a b. memop_key (snd a) \<le> memop_key (snd b)) es" using assms by (simp add: sorted_wrt_map)
  then have "sorted_wrt (\<lambda>a b. memop_key (snd a) \<le> memop_key (snd b)) (filter (\<lambda>e. wm_objid (snd e) = i) es)"
    by (rule sorted_wrt_filter)
  then have "sorted_wrt (\<lambda>a b. wm_version (snd a) \<le> wm_version (snd b)) (filter (\<lambda>e. wm_objid (snd e) = i) es)"
    by (rule sorted_wrt_mono_rel [rotated]) (auto simp: memop_key_def less_eq_prod_def)
  then show ?thesis by (simp add: sorted_wrt_map to_rwm_def)
qed

text \<open>The logs a replay loads from what the merge wrote: for every object the entries of all threads,
  in the order of versions.\<close>

definition reader_logs_for :: "nat \<Rightarrow> wait_memop list list \<Rightarrow> replay_wait_memop_log list \<Rightarrow> bool" where
  "reader_logs_for nobj logs ls \<longleftrightarrow>
     length ls = nobj \<and>
     (\<forall>i < nobj. rl_n (ls ! i) = 0 \<and> \<not> rl_mutex (ls ! i) \<and>
        nat (rl_size (ls ! i)) = length (reader_entries (ls ! i)) \<and>
        sorted (map rwm_version (reader_entries (ls ! i))) \<and>
        mset (reader_entries (ls ! i)) =
          (\<Sum>t<length logs. mset (map (\<lambda>w. to_rwm (t, w)) (of_obj i (logs ! t)))))"

text \<open>What the merge writes when there is an entry: the entries of all logs in order, and their index.\<close>

lemma merge_memop_eq:
  assumes q: "min_queue memop_key que_gt sel"
    and srt: "\<And>t. t < length log \<Longrightarrow> sorted (map memop_key (log_entries (log ! t)))"
    and ok: "\<And>t w. t < length log \<Longrightarrow> w \<in> set (log_entries (log ! t)) \<Longrightarrow> entry_ok nobj w"
    and len: "int (length log) = to_tid_t nthr" and some: "sum_list (map length (map log_entries log)) \<noteq> 0"
  obtains es where "merge_memop sel nobj log nthr = Some (Some (map to_rwm es, index_of es nobj))"
    and "sorted (map (memop_key \<circ> snd) es)" "objs_sorted es"
    and "mset es = (\<Sum>t<length log. mset (map (Pair t) (log_entries (log ! t))))"
proof -
  obtain q0 rest where init: "queue_init (map log_entries log) = (q0, rest)" by fastforce
  define es where "es = kmerge sel q0 rest"
  have es_sorted: "sorted (map (memop_key \<circ> snd) es)"
    and es_mset: "mset es = (\<Sum>t<length log. mset (map (Pair t) (log_entries (log ! t))))"
    using min_queue.merged_sorted [OF q init] srt by (simp_all add: es_def)
  have es_ok: "entry_ok nobj (snd e)" if "e \<in> set es" for e
  proof -
    have "e \<in># (\<Sum>t<length log. mset (map (Pair t) (log_entries (log ! t))))"
      using that es_mset by (metis set_mset_mset)
    then show ?thesis using ok by (auto simp: set_mset_sum)
  qed
  have objs: "objs_sorted es" using es_sorted es_ok by (intro merged_objs_sorted) (auto simp: entry_ok_def)
  have "merge_inv [] merge_init" by (simp add: merge_inv_def merge_init_def)
  then obtain s where s: "fold_opt merge_body es merge_init = Some s" "merge_inv es s"
    using merge_fold [of "[]" merge_init es] objs by auto
  obtain l where "l \<in> set log" "log_entries l \<noteq> []" using some by (auto simp: sum_list_eq_0_iff)
  then obtain t w where "t < length log" "w \<in> set (log_entries (log ! t))"
    by (metis in_set_conv_nth last_in_set)
  then have "(t, w) \<in># mset es" by (auto simp: es_mset set_mset_sum)
  then have ne: "es \<noteq> []" by auto
  have "prev_id s < int nobj" using s(2) ne es_ok [of "last es"] by (simp add: merge_inv_def entry_ok_def)
  note close = merge_close_index(1) [OF s(2) objs ne this]
  have "merge_memop sel nobj log nthr = Some (Some (map to_rwm es, index_of es nobj))"
    using some len init s close
    by (simp add: merge_memop_def pq_loop_kmerge es_def [symmetric] merge_inv_def)
  then show ?thesis using that es_sorted objs es_mset by blast
qed

lemma size_mset_sum: "size (\<Sum>t<n. M t) = (\<Sum>t<n. size (M t :: 'b multiset))" for n :: nat
  by (induction n) simp_all

lemma merge_memop_none:
  "int (length log) = to_tid_t nthr \<Longrightarrow> sum_list (map length (map log_entries log)) = 0 \<Longrightarrow> merge_memop sel nobj log nthr = Some None"
  by (simp add: merge_memop_def)

lemma length_index_of: "length (index_of es n) = 2 * n"
  by (induction n) (simp_all add: index_of_def index_pair_def)

lemma merge_load_ok:
  assumes q: "min_queue memop_key que_gt sel"
    and srt: "\<And>t. t < length log \<Longrightarrow> sorted (map memop_key (log_entries (log ! t)))"
    and ok: "\<And>t w. t < length log \<Longrightarrow> w \<in> set (log_entries (log ! t)) \<Longrightarrow> entry_ok nobj w"
    and len: "int (length log) = to_tid_t nthr"
  shows "\<exists>files ls. merge_memop sel nobj log nthr = Some files \<and>
    load_wait_reader_log nobj files = Some ls \<and> reader_logs_for nobj (map log_entries log) ls"
proof (cases "sum_list (map length (map log_entries log)) = 0")
  case True
  then have "\<forall>t < length log. log_entries (log ! t) = []" by (auto simp: sum_list_eq_0_iff)
  then have "reader_logs_for nobj (map log_entries log) (replicate nobj no_reader_log)"
    by (simp add: reader_logs_for_def no_reader_log_def reader_entries_def of_obj_def)
  with merge_memop_none [OF len True] show ?thesis by (simp add: load_wait_reader_log_def)
next
  case False
  obtain es where es: "merge_memop sel nobj log nthr = Some (Some (map to_rwm es, index_of es nobj))"
    "sorted (map (memop_key \<circ> snd) es)" "objs_sorted es"
    "mset es = (\<Sum>t<length log. mset (map (Pair t) (log_entries (log ! t))))"
    by (rule merge_memop_eq [OF q _ _ len False]) (use srt ok in blast)+
  have load: "load_index nobj (index_of es nobj) (map to_rwm es) = Some (map (loaded es) [0..<nobj])"
    using load_index_of [of nobj es 0] by (simp add: index_of_def)
  have flt: "mset (map to_rwm (filter (\<lambda>e. wm_objid (snd e) = int i) es)) =
      (\<Sum>t<length log. mset (map (\<lambda>w. to_rwm (t, w)) (of_obj i (log_entries (log ! t)))))" for i
    by (simp add: es(4) of_obj_def filter_mset_image_mset image_mset.compositionality o_def
        filter_mset_sum image_mset_sum)
  have "reader_logs_for nobj (map log_entries log) (map (loaded es) [0..<nobj])"
    unfolding reader_logs_for_def
    using loaded_size [OF es(3)] loaded_entries [OF es(3)] versions_sorted [OF es(2)] flt by simp
  with es(1) load show ?thesis by (auto simp: load_wait_reader_log_def)
qed

section \<open>Properties\<close>

lemma n_of_le: "n_of es i \<le> length es" "n_below es i \<le> length es"
  by (simp_all add: n_of_def n_below_def)

lemma index_of_bounds:
  assumes "length es < 2 ^ 31" "i \<in> set (index_of es nobj)"
  shows "-1 \<le> i \<and> i < 2 ^ 31"
proof -
  obtain o' where "o' < nobj" "i \<in> set (index_pair es o')" using assms(2) by (auto simp: index_of_def)
  then show ?thesis
    using assms(1) n_of_le [of es "int o'"] by (auto simp: index_pair_def split: if_splits)
qed

text \<open>What is written fits C's types: index and sizes an \<open>int\<close>, thread numbers a \<open>tid_t\<close>.\<close>

definition merged_in_range :: "(replay_wait_memop list \<times> int list) option \<Rightarrow> bool" where
  "merged_in_range files \<longleftrightarrow>
     (case files of
        None \<Rightarrow> True
      | Some (mwm, index) \<Rightarrow> (\<forall>r \<in> set mwm. rwm_tid r < 128) \<and> (\<forall>i \<in> set index. -1 \<le> i \<and> i < 2 ^ 31))"

lemma merge_in_range:
  assumes q: "min_queue memop_key que_gt sel"
    and srt: "\<And>t. t < length log \<Longrightarrow> sorted (map memop_key (log_entries (log ! t)))"
    and ok: "\<And>t w. t < length log \<Longrightarrow> w \<in> set (log_entries (log ! t)) \<Longrightarrow> entry_ok nobj w"
    and n: "length log < 128" and few: "(\<Sum>t<length log. length (log_entries (log ! t))) < 2 ^ 31"
    and m: "merge_memop sel nobj log (int (length log)) = Some files"
  shows "merged_in_range files"
proof (cases "sum_list (map length (map log_entries log)) = 0")
  case True
  then have "merge_memop sel nobj log (int (length log)) = Some None" using n by (intro merge_memop_none) (simp_all add: to_tid_t_small)
  then show ?thesis using m by (simp add: merged_in_range_def)
next
  case False
  have len: "int (length log) = to_tid_t (int (length log))" using n by (simp add: to_tid_t_small)
  obtain es where es: "merge_memop sel nobj log (int (length log)) = Some (Some (map to_rwm es, index_of es nobj))"
    "mset es = (\<Sum>t<length log. mset (map (Pair t) (log_entries (log ! t))))"
    by (rule merge_memop_eq [OF q _ _ len False]) (use srt ok in blast)+
  have "size (mset es) = (\<Sum>t<length log. length (log_entries (log ! t)))" unfolding es(2) by (simp add: size_mset_sum)
  then have "length es < 2 ^ 31" using few by simp
  moreover have "fst e < 128" if "e \<in> set es" for e
  proof -
    have "e \<in># (\<Sum>t<length log. mset (map (Pair t) (log_entries (log ! t))))" using that es(2) by (metis set_mset_mset)
    then show ?thesis using n by (auto simp: set_mset_sum)
  qed
  ultimately show ?thesis using m es(1) index_of_bounds [of es] by (auto simp: merged_in_range_def to_rwm_def)
qed

text \<open>C26: round trip through the two files: for up to 127 sorted logs with fewer than \<open>2 ^ 31\<close> entries, none
  of them of length zero and each either missing or sorted by object and version, \<open>merge-memop\<close> run with
  their number succeeds; what it writes is in the range of C's types; and the replayer's
  \<open>load_wait_reader_log\<close> finds, for every object, exactly the entries that the threads' logs hold for it,
  in the order of their versions, with the size the index says. The priority queue is any that pops a
  least entry.\<close>

theorem merge_load_roundtrip:
  assumes "min_queue memop_key que_gt sel" "length log < 128" "Some [] \<notin> set log"
    and "(\<Sum>t<length log. length (log_entries (log ! t))) < 2 ^ 31"
    and "\<forall>t < length log. sorted (map memop_key (log_entries (log ! t))) \<and>
      (\<forall>w \<in> set (log_entries (log ! t)). entry_ok nobj w)"
  shows "\<exists>files ls. merge_main sel nobj (int (length log)) log = Some files \<and> merged_in_range files \<and>
    load_wait_reader_log nobj files = Some ls \<and> reader_logs_for nobj (map log_entries log) ls"
proof -
  have len: "to_tid_t (int (length log)) = int (length log)" using assms(2) by (simp add: to_tid_t_small)
  have main: "merge_main sel nobj (int (length log)) log = merge_memop sel nobj log (int (length log))"
    using assms(3) by (simp add: merge_main_def len)
  from merge_load_ok [OF assms(1) _ _ len [symmetric], of nobj] merge_in_range [OF assms(1) _ _ assms(2,4), of nobj] assms(5)
  show ?thesis unfolding main by metis
qed

theorem merge_load_roundtrip_witness:
  "\<exists>files ls. merge_main (first_least que_gt) 2 2
      [Some [\<lparr>wm_objid = 0, wm_version = 2, wm_memop = 4\<rparr>, \<lparr>wm_objid = 1, wm_version = 0, wm_memop = 1\<rparr>], None] =
        Some files \<and> merged_in_range files \<and> load_wait_reader_log 2 files = Some ls"
proof -
  let ?log = "[Some [\<lparr>wm_objid = 0, wm_version = 2, wm_memop = 4\<rparr>, \<lparr>wm_objid = 1, wm_version = 0, wm_memop = 1\<rparr>], None]"
  have h: "length ?log < 128" "Some [] \<notin> set ?log" "(\<Sum>t<length ?log. length (log_entries (?log ! t))) < 2 ^ 31"
    by (simp_all add: log_entries_def)
  have "\<forall>t < length ?log. sorted (map memop_key (log_entries (?log ! t))) \<and>
      (\<forall>w \<in> set (log_entries (?log ! t)). entry_ok 2 w)" by code_simp
  from merge_load_roundtrip [OF memop_queue.min_queue_axioms h this] show ?thesis by auto
qed

text \<open>C39: \<open>merge-memop\<close> cannot process more than 127 threads: the thread count is cast to the 8-bit
  \<open>tid_t\<close>, and the assertion that compares it with the number of logs fails.\<close>

theorem merge_main_too_many_threads:
  assumes "128 \<le> nthr" "int (length log) = nthr"
  shows "merge_main sel nobj nthr log = None"
  using assms to_tid_t_bounds(2) [of nthr] by (simp add: merge_main_def merge_memop_def Let_def)

theorem merge_main_too_many_threads_witness:
  "merge_main (first_least que_gt) 4 128 (replicate 128 None) = None"
  by (rule merge_main_too_many_threads) simp_all

end
