(* ===== verification/Tls.thy ===== *)
theory Tls
  imports Log_Calls Merge_Memop
begin

text \<open>
  The emulation of thread-local storage (\<open>src/tls.h\<close>, \<open>src/tls.c\<close>): a key under which a thread has its
  number, and an array with an element per thread for every variable. The programs use \<open>__thread\<close>
  instead, as the other theories do, which have a function from threads to values for such a variable; the
  theory shows that the emulation would do the same, for up to 128 threads.
\<close>

text \<open>The constructor that creates the key, and the allocation of a variable; \<open>zero\<close> is the value of zeroed
  memory.\<close>

definition tls_init :: "kernel \<Rightarrow> os \<Rightarrow> unit outcome" where
  "tls_init k s = (case sys_plain k s of (r, s) \<Rightarrow> if r \<noteq> 0 then Exit ''thr_id key creation failed'' s else Ret () s)"

definition ALLOC_TLS_GLOBAL :: "kernel \<Rightarrow> int \<Rightarrow> string \<Rightarrow> 'a \<Rightarrow> os \<Rightarrow> 'a list outcome" where
  "ALLOC_TLS_GLOBAL k nthr var zero s = os_bind (calloc_check k nthr var s) (\<lambda>_ s. Ret (replicate (nat nthr) zero) s)"

text \<open>The number of a thread, read from its key and narrowed to \<open>tid_t\<close>, and the accesses to an element;
  \<open>None\<close> is an access outside the array.\<close>

definition TLS_tid :: "(tid_t \<Rightarrow> int) \<Rightarrow> tid_t \<Rightarrow> int" where
  "TLS_tid tid_key t = to_tid_t (tid_key t)"

definition TLS_load :: "(tid_t \<Rightarrow> int) \<Rightarrow> tid_t \<Rightarrow> 'a list \<Rightarrow> 'a option" where
  "TLS_load tid_key t var_tls =
     (let tid = TLS_tid tid_key t in if 0 \<le> tid \<and> tid < int (length var_tls) then Some (var_tls ! nat tid) else None)"

definition TLS_store :: "(tid_t \<Rightarrow> int) \<Rightarrow> tid_t \<Rightarrow> 'a \<Rightarrow> 'a list \<Rightarrow> 'a list option" where
  "TLS_store tid_key t v var_tls =
     (let tid = TLS_tid tid_key t in if 0 \<le> tid \<and> tid < int (length var_tls) then Some (var_tls[nat tid := v]) else None)"

section \<open>The emulation is thread-local storage\<close>

text \<open>The array as a variable of each thread.\<close>

definition tls_abs :: "'a list \<Rightarrow> tid_t \<Rightarrow> 'a" where
  "tls_abs var_tls t = var_tls ! t"

lemma TLS_tid_small: "tid_key t = int t \<Longrightarrow> t < 128 \<Longrightarrow> TLS_tid tid_key t = int t"
  by (simp add: TLS_tid_def to_tid_t_eq signed_take_bit_int_eq_self)

lemma tls_refines:
  assumes "\<forall>t < length var_tls. tid_key t = int t" "length var_tls \<le> 128" "t < length var_tls"
  shows "TLS_load tid_key t var_tls = Some (tls_abs var_tls t)"
    "\<exists>var'. TLS_store tid_key t v var_tls = Some var' \<and> length var' = length var_tls \<and>
       (\<forall>u < length var_tls. tls_abs var' u = ((tls_abs var_tls)(t := v)) u)"
  using assms TLS_tid_small [of tid_key t]
  by (simp_all add: TLS_load_def TLS_store_def tls_abs_def nth_list_update)

text \<open>A thread beyond the 128th gets a negative number, and its access is outside the array.\<close>

lemma tls_wraps:
  assumes "tid_key t = int t" "128 \<le> t" "t < 256"
  shows "TLS_load tid_key t var_tls = None"
proof -
  have "int t div 128 = 1" using assms(2,3) by (simp add: div_nat_eqI)
  then have "TLS_tid tid_key t < 0"
    using assms(1) by (simp add: TLS_tid_def to_tid_t_eq bit_iff_odd)
  then show ?thesis by (simp add: TLS_load_def)
qed

lemma ALLOC_zero:
  "ALLOC_TLS_GLOBAL k (int nthr) var zero s = Ret var_tls s1 \<Longrightarrow> t < nthr \<Longrightarrow> length var_tls = nthr \<and> tls_abs var_tls t = zero"
  by (auto simp: ALLOC_TLS_GLOBAL_def calloc_check_def tls_abs_def sys_call_def split: if_splits)

end
