(* ===== verification/Recorder.thy ===== *)
theory Recorder
  imports Mem_Prelude
begin

text \<open>
  The order recorder of \<open>src/mem-record.h\<close> and \<open>src/mem-record.c\<close>: the per-thread state, the two
  logs and the operations that write them. A thread's logs are lists of entries in file order. The
  second half states, for the sequence of accesses one thread makes, which entries the logs must
  hold, and the interface every recording implementation (one log update per access, or batches)
  has to meet.
\<close>

section \<open>State and operations of mem-record.c\<close>

text \<open>Information on a thread's last access to an object.\<close>

record last_objinfo =
  lo_version :: version_t
  lo_memop :: memop_t

text \<open>The thread-local state: \<open>g_last\<close>, \<open>memop\<close> and the two logs of the struct \<open>logs\<close>.\<close>

record thr_rec =
  g_last :: "last_objinfo list"
  memop :: memop_t
  log_version :: "wait_version list"
  log_memop :: "wait_memop list"

definition mem_init_thr :: "nat \<Rightarrow> thr_rec" where
  "mem_init_thr nobj =
     \<lparr>g_last = replicate nobj \<lparr>lo_version = 0, lo_memop = -1\<rparr>,
      memop = 0, log_version = [], log_memop = []\<rparr>"

definition log_wait_version :: "version_t \<Rightarrow> 'z thr_rec_scheme \<Rightarrow> 'z thr_rec_scheme" where
  "log_wait_version current_version r =
     r\<lparr>log_version := log_version r @ [\<lparr>wv_memop = memop r, wv_version = current_version\<rparr>]\<rparr>"

definition log_other_wait_memop ::
  "objid_t \<Rightarrow> last_objinfo \<Rightarrow> 'z thr_rec_scheme \<Rightarrow> 'z thr_rec_scheme" where
  "log_other_wait_memop objid lastobj r =
     r\<lparr>log_memop := log_memop r @
         [\<lparr>wm_objid = int objid, wm_version = lo_version lastobj, wm_memop = lo_memop lastobj\<rparr>]\<rparr>"

definition mark_log_end :: "'z thr_rec_scheme \<Rightarrow> 'z thr_rec_scheme" where
  "mark_log_end r =
     r\<lparr>log_version := log_version r @ [\<lparr>wv_memop = -1, wv_version = -1\<rparr>],
       log_memop := log_memop r @ [\<lparr>wm_objid = -1, wm_version = -1, wm_memop = -1\<rparr>]\<rparr>"

definition log_order ::
  "objid_t \<Rightarrow> version_t \<Rightarrow> last_objinfo \<Rightarrow> 'z thr_rec_scheme \<Rightarrow> 'z thr_rec_scheme" where
  "log_order objid current_version lastobj r =
     (let r1 = log_wait_version current_version r
      in if lo_memop lastobj \<ge> 0 then log_other_wait_memop objid lastobj r1 else r1)"

text \<open>One turn of the loop of \<open>mem_finish_thr\<close>, and the function after its hook
  \<open>before_finish_thr\<close> has run.\<close>

definition finish_obj :: "objid_t \<Rightarrow> 'z thr_rec_scheme \<Rightarrow> 'z thr_rec_scheme" where
  "finish_obj i r =
     (if lo_memop (g_last r ! i) \<ge> 0 then log_other_wait_memop i (g_last r ! i) r else r)"

definition mem_finish_thr ::
  "nat \<Rightarrow> ('z thr_rec_scheme \<Rightarrow> 'z thr_rec_scheme) \<Rightarrow> 'z thr_rec_scheme \<Rightarrow> 'z thr_rec_scheme" where
  "mem_finish_thr nobj before_finish_thr r =
     mark_log_end (fold finish_obj [0..<nobj] (before_finish_thr r))"

text \<open>The default, weak \<open>before_finish_thr\<close> does nothing.\<close>

definition before_finish_thr_default :: "'z thr_rec_scheme \<Rightarrow> 'z thr_rec_scheme" where
  "before_finish_thr_default r = r"

lemmas rec_defs [rec_simps] =
  mem_init_thr_def log_wait_version_def log_other_wait_memop_def mark_log_end_def log_order_def
  finish_obj_def mem_finish_thr_def before_finish_thr_default_def

section \<open>What one thread's logs must hold\<close>

text \<open>An access of a thread: whether it writes, the object, and the version it found there.\<close>

record tacc =
  ta_write :: bool
  ta_obj :: objid_t
  ta_ver :: version_t

text \<open>The position of the last access to an object.\<close>

definition last_on :: "objid_t \<Rightarrow> tacc list \<Rightarrow> nat option" where
  "last_on o' xs =
     (let is = filter (\<lambda>i. ta_obj (xs ! i) = o') [0..<length xs]
      in if is = [] then None else Some (last is))"

text \<open>
  What one thread can see: the versions of an object never go back, and grow past a version the
  thread has itself written.
\<close>

definition mono_accs :: "nat \<Rightarrow> tacc list \<Rightarrow> bool" where
  "mono_accs nobj xs \<longleftrightarrow>
     (\<forall>i < length xs. ta_obj (xs ! i) < nobj \<and> 0 \<le> ta_ver (xs ! i)) \<and>
     (\<forall>j < length xs. \<forall>i < j. ta_obj (xs ! i) = ta_obj (xs ! j) \<longrightarrow>
        ta_ver (xs ! i) \<le> ta_ver (xs ! j) \<and>
        (ta_write (xs ! i) \<longrightarrow> ta_ver (xs ! i) < ta_ver (xs ! j)))"

text \<open>An access is logged unless the thread's previous access to the object was a read of the same
  version (or there was none and the version is the initial one).\<close>

definition logged :: "tacc list \<Rightarrow> nat \<Rightarrow> bool" where
  "logged xs k \<longleftrightarrow>
     (case last_on (ta_obj (xs ! k)) (take k xs) of
        None \<Rightarrow> ta_ver (xs ! k) \<noteq> 0
      | Some p \<Rightarrow> ta_write (xs ! p) \<or> ta_ver (xs ! p) \<noteq> ta_ver (xs ! k))"

definition version_entry :: "tacc list \<Rightarrow> nat \<Rightarrow> wait_version" where
  "version_entry xs k = \<lparr>wv_memop = int k, wv_version = ta_ver (xs ! k)\<rparr>"

definition version_spec :: "tacc list \<Rightarrow> wait_version list" where
  "version_spec xs = map (version_entry xs) (filter (logged xs) [0..<length xs])"

text \<open>The entry for the read at position \<open>p\<close>; nothing when there is no read.\<close>

definition read_entry :: "tacc list \<Rightarrow> nat option \<Rightarrow> wait_memop list" where
  "read_entry xs q =
     (case q of None \<Rightarrow> []
      | Some p \<Rightarrow> if ta_write (xs ! p) then []
          else [\<lparr>wm_objid = int (ta_obj (xs ! p)), wm_version = ta_ver (xs ! p), wm_memop = int p\<rparr>])"

definition memop_at :: "tacc list \<Rightarrow> nat \<Rightarrow> wait_memop list" where
  "memop_at xs k =
     (if logged xs k then read_entry xs (last_on (ta_obj (xs ! k)) (take k xs)) else [])"

definition memop_spec :: "tacc list \<Rightarrow> wait_memop list" where
  "memop_spec xs = concat (map (memop_at xs) [0..<length xs])"

text \<open>The entries that \<open>mem_finish_thr\<close> adds.\<close>

definition memop_finish_spec :: "nat \<Rightarrow> tacc list \<Rightarrow> wait_memop list" where
  "memop_finish_spec nobj xs = concat (map (\<lambda>o'. read_entry xs (last_on o' xs)) [0..<nobj])"

lemma last_on_snoc [simp]:
  "last_on o' (xs @ [x]) = (if ta_obj x = o' then Some (length xs) else last_on o' xs)"
proof -
  have "filter (\<lambda>i. ta_obj ((xs @ [x]) ! i) = o') [0..<length xs] =
      filter (\<lambda>i. ta_obj (xs ! i) = o') [0..<length xs]"
    by (rule filter_upt_cong_snoc) (simp add: nth_append)
  then show ?thesis
    by (auto simp: last_on_def Let_def)
qed

lemma last_on_Nil [simp]: "last_on o' [] = None"
  by (simp add: last_on_def)

lemma last_on_None: "last_on o' xs = None \<longleftrightarrow> (\<forall>i < length xs. ta_obj (xs ! i) \<noteq> o')"
  by (induction xs rule: rev_induct) (auto simp: nth_append less_Suc_eq)

lemma last_on_Some:
  "last_on o' xs = Some p \<longleftrightarrow>
     p < length xs \<and> ta_obj (xs ! p) = o' \<and> (\<forall>i. p < i \<and> i < length xs \<longrightarrow> ta_obj (xs ! i) \<noteq> o')"
proof (induction xs rule: rev_induct)
  case Nil
  then show ?case by simp
next
  case (snoc x xs)
  then show ?case
    by (auto simp: nth_append less_Suc_eq split: if_splits)
qed

lemma last_on_SomeD:
  assumes "last_on o' xs = Some p"
  shows "p < length xs" "ta_obj (xs ! p) = o'"
  using assms by (simp_all add: last_on_Some)

lemma logged_snoc_old: "k < length xs \<Longrightarrow> logged (xs @ [x]) k = logged xs k"
  by (auto simp: logged_def nth_append dest: last_on_SomeD split: option.splits)

lemma logged_snoc_new:
  "logged (xs @ [x]) (length xs) =
     (case last_on (ta_obj x) xs of None \<Rightarrow> ta_ver x \<noteq> 0
      | Some p \<Rightarrow> ta_write (xs ! p) \<or> ta_ver (xs ! p) \<noteq> ta_ver x)"
  by (auto simp: logged_def nth_append dest: last_on_SomeD split: option.splits)

lemma version_spec_snoc:
  "version_spec (xs @ [x]) =
     version_spec xs @ (if logged (xs @ [x]) (length xs)
       then [\<lparr>wv_memop = int (length xs), wv_version = ta_ver x\<rparr>] else [])"
proof -
  have "filter (logged (xs @ [x])) [0..<length xs] = filter (logged xs) [0..<length xs]"
    by (rule filter_upt_cong_snoc) (simp add: logged_snoc_old)
  then show ?thesis
    by (auto simp: version_spec_def version_entry_def nth_append)
qed

lemma read_entry_snoc:
  assumes "\<And>p. q = Some p \<Longrightarrow> p < length xs"
  shows "read_entry (xs @ [x]) q = read_entry xs q"
  using assms by (auto simp: read_entry_def nth_append split: option.splits)

lemma memop_at_snoc: "k < length xs \<Longrightarrow> memop_at (xs @ [x]) k = memop_at xs k"
  by (auto simp: memop_at_def logged_snoc_old nth_append intro!: read_entry_snoc dest: last_on_SomeD)

lemma memop_spec_snoc:
  "memop_spec (xs @ [x]) =
     memop_spec xs @ (if logged (xs @ [x]) (length xs) then read_entry xs (last_on (ta_obj x) xs) else [])"
proof -
  have "concat (map (memop_at (xs @ [x])) [0..<length xs]) = memop_spec xs"
    unfolding memop_spec_def by (rule concat_map_upt_cong) (rule memop_at_snoc)
  moreover have "read_entry (xs @ [x]) (last_on (ta_obj x) xs) = read_entry xs (last_on (ta_obj x) xs)"
    by (rule read_entry_snoc) (rule last_on_SomeD)
  ultimately show ?thesis
    by (simp add: memop_spec_def memop_at_def)
qed

lemma mono_accs_prefix: "mono_accs nobj (xs @ [x]) \<Longrightarrow> mono_accs nobj xs"
  by (auto simp: mono_accs_def nth_append less_Suc_eq)

lemma mono_accs_snocD:
  assumes "mono_accs nobj (xs @ [x])"
  shows "ta_obj x < nobj" "0 \<le> ta_ver x"
    and "last_on (ta_obj x) xs = Some p \<Longrightarrow> ta_ver (xs ! p) \<le> ta_ver x"
    and "last_on (ta_obj x) xs = Some p \<Longrightarrow> ta_write (xs ! p) \<Longrightarrow> ta_ver (xs ! p) < ta_ver x"
  using assms by (auto simp: mono_accs_def nth_append less_Suc_eq last_on_Some)

section \<open>The contract of an order recorder\<close>

text \<open>
  The state after a sequence of accesses: the counter, both logs, and for every object what
  \<open>g_last\<close> holds. After a write the recorded version is stale (one implementation updates it, the
  other does not), but never past the version written.
\<close>

definition last_ok :: "tacc list \<Rightarrow> objid_t \<Rightarrow> last_objinfo \<Rightarrow> bool" where
  "last_ok xs o' l =
     (case last_on o' xs of
        None \<Rightarrow> lo_version l = 0 \<and> lo_memop l = -1
      | Some p \<Rightarrow> if ta_write (xs ! p) then lo_version l \<le> ta_ver (xs ! p) \<and> lo_memop l = -1
          else lo_version l = ta_ver (xs ! p) \<and> lo_memop l = int p)"

definition rec_rel :: "nat \<Rightarrow> tacc list \<Rightarrow> 'z thr_rec_scheme \<Rightarrow> bool" where
  "rec_rel nobj xs r \<longleftrightarrow>
     memop r = int (length xs) \<and> log_version r = version_spec xs \<and> log_memop r = memop_spec xs \<and>
     length (g_last r) = nobj \<and> (\<forall>o' < nobj. last_ok xs o' (g_last r ! o'))"

lemma rec_rel_init: "rec_rel nobj [] (mem_init_thr nobj)"
  by (simp add: rec_rel_def rec_simps version_spec_def memop_spec_def last_ok_def)

lemma last_ok_snoc_other:
  "ta_obj x \<noteq> o' \<Longrightarrow> last_ok (xs @ [x]) o' l = last_ok xs o' l"
  by (auto simp: last_ok_def nth_append dest: last_on_SomeD split: option.splits)

text \<open>The comparison with \<open>g_last\<close> that both implementations make decides whether to log.\<close>

lemma last_version_logged:
  assumes "last_ok xs (ta_obj x) l" "mono_accs nobj (xs @ [x])"
  shows "lo_version l \<noteq> ta_ver x \<longleftrightarrow> logged (xs @ [x]) (length xs)"
  using assms(1) mono_accs_snocD [OF assms(2)]
  by (fastforce simp: last_ok_def logged_snoc_new split: option.splits if_splits)

lemma last_read_entry:
  assumes "last_ok xs o' l"
  shows "read_entry xs (last_on o' xs) =
    (if lo_memop l \<ge> 0 then [\<lparr>wm_objid = int o', wm_version = lo_version l, wm_memop = lo_memop l\<rparr>] else [])"
  using assms by (auto simp: last_ok_def read_entry_def dest: last_on_SomeD split: option.splits if_splits)

text \<open>
  An access recorded at once: \<open>log_order\<close> when the version changed, then new information in
  \<open>g_last\<close>, then the count. Any such update keeps the relation.
\<close>

lemma rec_rel_step:
  assumes rel: "rec_rel nobj xs r" and mono: "mono_accs nobj (xs @ [x])"
    and l: "l = g_last r ! ta_obj x"
    and r1: "r1 = (if lo_version l \<noteq> ta_ver x then log_order (ta_obj x) (ta_ver x) l r else r)"
    and l': "last_ok (xs @ [x]) (ta_obj x) l'"
  shows "rec_rel nobj (xs @ [x]) (r1\<lparr>g_last := (g_last r)[ta_obj x := l'], memop := memop r + 1\<rparr>)"
proof -
  have o': "ta_obj x < nobj" using mono_accs_snocD [OF mono] by simp
  have lok: "last_ok xs (ta_obj x) l" using rel o' l by (simp add: rec_rel_def)
  note lg = last_version_logged [OF lok mono] and re = last_read_entry [OF lok]
  have v: "log_version r1 = version_spec (xs @ [x])"
    using rel lg r1 by (simp add: rec_rel_def version_spec_snoc log_order_def log_wait_version_def
      log_other_wait_memop_def Let_def)
  have m: "log_memop r1 = memop_spec (xs @ [x])"
    using rel lg r1 re by (simp add: rec_rel_def memop_spec_snoc log_order_def log_wait_version_def
      log_other_wait_memop_def Let_def)
  have g: "last_ok (xs @ [x]) i ((g_last r)[ta_obj x := l'] ! i)" if "i < nobj" for i
    using that rel l' o' by (cases "i = ta_obj x") (auto simp: rec_rel_def last_ok_snoc_other)
  show ?thesis using v m g rel by (simp add: rec_rel_def)
qed

lemma finish_obj_simps:
  "log_version (finish_obj i r) = log_version r"
  "g_last (finish_obj i r) = g_last r"
  "memop (finish_obj i r) = memop r"
  by (simp_all add: finish_obj_def log_other_wait_memop_def)

lemma finish_obj_memop:
  "last_ok xs i (g_last r ! i) \<Longrightarrow>
     log_memop (finish_obj i r) = log_memop r @ read_entry xs (last_on i xs)"
  by (simp add: finish_obj_def log_other_wait_memop_def last_read_entry)

lemma fold_finish_obj:
  assumes "\<forall>o' < n. last_ok xs o' (g_last r ! o')"
  shows "log_version (fold finish_obj [0..<n] r) = log_version r"
    and "g_last (fold finish_obj [0..<n] r) = g_last r"
    and "log_memop (fold finish_obj [0..<n] r) = log_memop r @ memop_finish_spec n xs"
  using assms
proof (induction n)
  case 0
  { case 1 then show ?case by simp }
  { case 2 then show ?case by simp }
  { case 3 then show ?case by (simp add: memop_finish_spec_def) }
next
  case (Suc n)
  { case 1 then show ?case using Suc by (simp add: finish_obj_simps) }
  { case 2 then show ?case using Suc by (simp add: finish_obj_simps) }
  { case 3 then show ?case using Suc finish_obj_memop [of xs n "fold finish_obj [0..<n] r"]
      by (simp add: memop_finish_spec_def) }
qed

lemma mem_finish_logs:
  assumes "rec_rel nobj xs r"
  shows "log_version (mem_finish_thr nobj before_finish_thr_default r) =
      version_spec xs @ [\<lparr>wv_memop = -1, wv_version = -1\<rparr>]"
    and "log_memop (mem_finish_thr nobj before_finish_thr_default r) =
      memop_spec xs @ memop_finish_spec nobj xs @ [\<lparr>wm_objid = -1, wm_version = -1, wm_memop = -1\<rparr>]"
  using assms fold_finish_obj [of nobj xs r]
  by (simp_all add: rec_rel_def mem_finish_thr_def mark_log_end_def before_finish_thr_default_def)

text \<open>
  The interface: \<open>rec_acc\<close> records one access, \<open>rec_view\<close> is the recorder's state once pending work
  is done, \<open>rec_finish\<close> is what \<open>mem_finish_thr\<close> leaves.
\<close>

locale order_recorder =
  fixes rec_init :: "nat \<Rightarrow> 's"
    and rec_acc :: "tacc \<Rightarrow> 's \<Rightarrow> 's"
    and rec_inv :: "'s \<Rightarrow> bool"
    and rec_view :: "'s \<Rightarrow> thr_rec"
    and rec_finish :: "nat \<Rightarrow> 's \<Rightarrow> thr_rec"
  assumes inv_init: "rec_inv (rec_init n)"
    and view_init: "rec_view (rec_init n) = mem_init_thr n"
    and inv_acc: "rec_inv s \<Longrightarrow> rec_inv (rec_acc x s)"
    and view_acc: "rec_inv s \<Longrightarrow> rec_rel n xs (rec_view s) \<Longrightarrow> mono_accs n (xs @ [x]) \<Longrightarrow>
      rec_rel n (xs @ [x]) (rec_view (rec_acc x s))"
    and view_finish: "rec_inv s \<Longrightarrow>
      rec_finish n s = mem_finish_thr n before_finish_thr_default (rec_view s)"
begin

lemma run_inv: "rec_inv (fold rec_acc xs (rec_init n))"
  by (induction xs rule: rev_induct) (auto simp: inv_init inv_acc)

lemma run_rel: "mono_accs n xs \<Longrightarrow> rec_rel n xs (rec_view (fold rec_acc xs (rec_init n)))"
proof (induction xs rule: rev_induct)
  case Nil
  then show ?case by (simp add: view_init rec_rel_init)
next
  case (snoc x xs)
  then show ?case using mono_accs_prefix view_acc [OF run_inv] by simp
qed

lemma run_logs:
  assumes "mono_accs n xs"
  shows "log_version (rec_finish n (fold rec_acc xs (rec_init n))) =
      version_spec xs @ [\<lparr>wv_memop = -1, wv_version = -1\<rparr>]"
    and "log_memop (rec_finish n (fold rec_acc xs (rec_init n))) =
      memop_spec xs @ memop_finish_spec n xs @ [\<lparr>wm_objid = -1, wm_version = -1, wm_memop = -1\<rparr>]"
  using mem_finish_logs [OF run_rel [OF assms]] by (simp_all add: view_finish run_inv)

end

end
