(* ===== verification/Trace.thy ===== *)
theory Trace
  imports Recorder
begin

text \<open>
  A recorded run, as the sequence of memory accesses in the order in which they took effect. The
  trace determines the version every access finds, its number in its thread (\<open>memop\<close>), and the
  memory; it is what the recorder's logs are about and what a replay has to reproduce. The objects
  of addresses are given by \<open>calc_objid\<close>, which the test program supplies.
\<close>

section \<open>Accesses of a run\<close>

record event =
  ev_tid :: tid_t
  ev_write :: bool
  ev_addr :: addr_t
  ev_val :: val_t

type_synonym mem = "addr_t \<Rightarrow> val_t"

definition writes_to :: "(addr_t \<Rightarrow> objid_t) \<Rightarrow> objid_t \<Rightarrow> event \<Rightarrow> bool" where
  "writes_to cid o' e \<longleftrightarrow> ev_write e \<and> cid (ev_addr e) = o'"

definition nwrites :: "(addr_t \<Rightarrow> objid_t) \<Rightarrow> objid_t \<Rightarrow> event list \<Rightarrow> nat" where
  "nwrites cid o' es = length (filter (writes_to cid o') es)"

definition thr_evs :: "tid_t \<Rightarrow> event list \<Rightarrow> event list" where
  "thr_evs t es = filter (\<lambda>e. ev_tid e = t) es"

definition thr_cnt :: "tid_t \<Rightarrow> event list \<Rightarrow> nat" where
  "thr_cnt t es = length (thr_evs t es)"

text \<open>Object, version found and number in its thread of the access at position \<open>i\<close>.\<close>

definition ev_obj :: "(addr_t \<Rightarrow> objid_t) \<Rightarrow> event list \<Rightarrow> nat \<Rightarrow> objid_t" where
  "ev_obj cid es i = cid (ev_addr (es ! i))"

definition ev_ver :: "(addr_t \<Rightarrow> objid_t) \<Rightarrow> event list \<Rightarrow> nat \<Rightarrow> version_t" where
  "ev_ver cid es i = 2 * int (nwrites cid (ev_obj cid es i) (take i es))"

definition ev_memop :: "event list \<Rightarrow> nat \<Rightarrow> nat" where
  "ev_memop es i = thr_cnt (ev_tid (es ! i)) (take i es)"

definition mem_upd :: "event \<Rightarrow> mem \<Rightarrow> mem" where
  "mem_upd e m = (if ev_write e then m(ev_addr e := ev_val e) else m)"

definition mem_after :: "mem \<Rightarrow> event list \<Rightarrow> mem" where
  "mem_after m es = fold mem_upd es m"

text \<open>Every read returns what the writes before it left.\<close>

definition reads_ok :: "mem \<Rightarrow> event list \<Rightarrow> bool" where
  "reads_ok m0 es \<longleftrightarrow>
     (\<forall>i < length es. \<not> ev_write (es ! i) \<longrightarrow> ev_val (es ! i) = mem_after m0 (take i es) (ev_addr (es ! i)))"

text \<open>The accesses of one thread as its recorder sees them.\<close>

definition thr_pos :: "tid_t \<Rightarrow> event list \<Rightarrow> nat list" where
  "thr_pos t es = filter (\<lambda>i. ev_tid (es ! i) = t) [0..<length es]"

definition tacc_of :: "(addr_t \<Rightarrow> objid_t) \<Rightarrow> event list \<Rightarrow> nat \<Rightarrow> tacc" where
  "tacc_of cid es i =
     \<lparr>ta_write = ev_write (es ! i), ta_obj = ev_obj cid es i, ta_ver = ev_ver cid es i\<rparr>"

definition taccs :: "(addr_t \<Rightarrow> objid_t) \<Rightarrow> tid_t \<Rightarrow> event list \<Rightarrow> tacc list" where
  "taccs cid t es = map (tacc_of cid es) (thr_pos t es)"

section \<open>How they grow\<close>

lemma nwrites_snoc [trace_simps]:
  "nwrites cid o' (es @ [e]) = nwrites cid o' es + (if writes_to cid o' e then 1 else 0)"
  by (simp add: nwrites_def)

lemma nwrites_Nil [trace_simps]: "nwrites cid o' [] = 0"
  by (simp add: nwrites_def)

lemma thr_evs_snoc [trace_simps]:
  "thr_evs t (es @ [e]) = thr_evs t es @ (if ev_tid e = t then [e] else [])"
  by (simp add: thr_evs_def)

lemma thr_cnt_snoc [trace_simps]: "thr_cnt t (es @ [e]) = thr_cnt t es + (if ev_tid e = t then 1 else 0)"
  by (simp add: thr_cnt_def thr_evs_snoc)

lemma mem_after_snoc [trace_simps]: "mem_after m (es @ [e]) = mem_upd e (mem_after m es)"
  by (simp add: mem_after_def)

lemma mem_after_Nil [trace_simps]: "mem_after m [] = m"
  by (simp add: mem_after_def)

lemma reads_ok_snoc [trace_simps]:
  "reads_ok m0 (es @ [e]) \<longleftrightarrow>
     reads_ok m0 es \<and> (\<not> ev_write e \<longrightarrow> ev_val e = mem_after m0 es (ev_addr e))"
  by (auto simp: reads_ok_def nth_append less_Suc_eq)

lemma ev_snoc_old:
  "i < length es \<Longrightarrow> ev_obj cid (es @ [e]) i = ev_obj cid es i"
  "i < length es \<Longrightarrow> ev_ver cid (es @ [e]) i = ev_ver cid es i"
  "i < length es \<Longrightarrow> ev_memop (es @ [e]) i = ev_memop es i"
  by (simp_all add: ev_obj_def ev_ver_def ev_memop_def nth_append)

lemma taccs_snoc [trace_simps]:
  "taccs cid t (es @ [e]) = taccs cid t es @ (if ev_tid e = t
     then [\<lparr>ta_write = ev_write e, ta_obj = cid (ev_addr e), ta_ver = 2 * int (nwrites cid (cid (ev_addr e)) es)\<rparr>]
     else [])"
proof -
  have "thr_pos t (es @ [e]) = thr_pos t es @ (if ev_tid e = t then [length es] else [])"
    using filter_upt_cong_snoc [of "length es" "\<lambda>i. ev_tid ((es @ [e]) ! i) = t" "\<lambda>i. ev_tid (es ! i) = t"]
    by (simp add: thr_pos_def nth_append)
  moreover have "map (tacc_of cid (es @ [e])) (thr_pos t es) = taccs cid t es"
    by (auto simp: taccs_def tacc_of_def thr_pos_def ev_snoc_old nth_append)
  moreover have "tacc_of cid (es @ [e]) (length es) =
      \<lparr>ta_write = ev_write e, ta_obj = cid (ev_addr e), ta_ver = 2 * int (nwrites cid (cid (ev_addr e)) es)\<rparr>"
    by (simp add: tacc_of_def ev_obj_def ev_ver_def)
  ultimately show ?thesis
    by (simp add: taccs_def [of cid t "es @ [e]"])
qed

lemma taccs_Nil [trace_simps]: "taccs cid t [] = []"
  by (simp add: taccs_def thr_pos_def)

section \<open>Positions of a thread's accesses\<close>

lemma length_taccs: "length (taccs cid t es) = thr_cnt t es"
  by (induction es rule: rev_induct) (simp_all add: trace_simps thr_cnt_def thr_evs_def)

lemma ev_memop_less: "i < length es \<Longrightarrow> ev_memop es i < thr_cnt (ev_tid (es ! i)) es"
  unfolding ev_memop_def thr_cnt_def thr_evs_def by (rule filter_nth_take(2)) auto

lemma thr_evs_nth: "i < length es \<Longrightarrow> thr_evs (ev_tid (es ! i)) es ! ev_memop es i = es ! i"
  unfolding ev_memop_def thr_cnt_def thr_evs_def by (rule filter_nth_take(1)) auto

lemma taccs_nth:
  "i < length es \<Longrightarrow> taccs cid (ev_tid (es ! i)) es ! ev_memop es i = tacc_of cid es i"
proof (induction es rule: rev_induct)
  case Nil
  then show ?case by simp
next
  case (snoc e es)
  show ?case
  proof (cases "i < length es")
    case True
    then have "ev_memop es i < length (taccs cid (ev_tid (es ! i)) es)"
      by (simp add: length_taccs ev_memop_less)
    with True show ?thesis
      using snoc.IH by (simp add: taccs_snoc ev_snoc_old nth_append tacc_of_def)
  next
    case False
    with snoc.prems have "i = length es" by simp
    then show ?thesis
      by (simp add: taccs_snoc ev_memop_def tacc_of_def ev_obj_def ev_ver_def length_taccs [of cid, symmetric]
          nth_append_length)
  qed
qed

lemma thr_pos_ex:
  assumes "k < thr_cnt t es"
  obtains i where "i < length es" "ev_tid (es ! i) = t" "ev_memop es i = k" "thr_evs t es ! k = es ! i"
proof -
  obtain i where "i < length es" "ev_tid (es ! i) = t"
    "length (filter (\<lambda>e. ev_tid e = t) (take i es)) = k" "filter (\<lambda>e. ev_tid e = t) es ! k = es ! i"
    using filter_index_ex [of k "\<lambda>e. ev_tid e = t" es] assms by (auto simp: thr_cnt_def thr_evs_def)
  with that show ?thesis by (simp add: ev_memop_def thr_cnt_def thr_evs_def)
qed

lemma ev_memop_mono:
  assumes "i < j" "j < length es" "ev_tid (es ! i) = ev_tid (es ! j)"
  shows "ev_memop es i < ev_memop es j"
  using filter_take_less [of i j es "\<lambda>e. ev_tid e = ev_tid (es ! j)"] assms
  by (simp add: ev_memop_def thr_cnt_def thr_evs_def)

lemma ev_memop_less_iff:
  assumes "i < length es" "j < length es" "ev_tid (es ! i) = ev_tid (es ! j)"
  shows "ev_memop es i < ev_memop es j \<longleftrightarrow> i < j"
  using ev_memop_mono [of i j es] ev_memop_mono [of j i es] assms
  by (metis less_asym linorder_neqE_nat)

lemma ev_memop_inj:
  assumes "i < length es" "j < length es" "ev_tid (es ! i) = ev_tid (es ! j)" "ev_memop es i = ev_memop es j"
  shows "i = j"
  using ev_memop_less_iff [of i es j] ev_memop_less_iff [of j es i] assms by (metis less_irrefl linorder_neqE_nat)

section \<open>Versions\<close>

lemma ev_ver_mono:
  assumes "i \<le> j" "ev_obj cid es i = ev_obj cid es j"
  shows "ev_ver cid es i \<le> ev_ver cid es j"
  using filter_take_mono [OF assms(1)] assms(2) by (simp add: ev_ver_def nwrites_def)

lemma ev_ver_strict:
  assumes "i < j" "j < length es" "ev_write (es ! i)" "ev_obj cid es i = ev_obj cid es j"
  shows "ev_ver cid es i < ev_ver cid es j"
  using filter_take_less [of i j es "writes_to cid (ev_obj cid es j)"] assms
  by (simp add: ev_ver_def nwrites_def writes_to_def ev_obj_def)

text \<open>An access at a version no lower than that of a write comes after it, and one at a version no
  higher comes before it or is the write itself.\<close>

lemma ver_less_pos:
  assumes "i < length es" "j < length es" "ev_obj cid es i = ev_obj cid es j"
    and "ev_ver cid es i < ev_ver cid es j"
  shows "i < j"
  using ev_ver_mono [of j i cid es] assms by (metis leD not_le)

lemma ver_le_write_pos:
  assumes "i < length es" "j < length es" "ev_obj cid es i = ev_obj cid es j"
    and "ev_ver cid es i \<le> ev_ver cid es j" "ev_write (es ! j)"
  shows "i \<le> j"
  using ev_ver_strict [of j i es cid] assms by (metis leD not_le)

lemma write_ver_inj:
  assumes "i < length es" "j < length es" "ev_obj cid es i = ev_obj cid es j"
    and "ev_write (es ! i)" "ev_write (es ! j)" "ev_ver cid es i = ev_ver cid es j"
  shows "i = j"
  using ver_le_write_pos [of i es j cid] ver_le_write_pos [of j es i cid] assms by simp

lemma ev_ver_even: "even (ev_ver cid es i)" and ev_ver_nonneg: "0 \<le> ev_ver cid es i"
  by (simp_all add: ev_ver_def)

text \<open>Every version below the final one has its write.\<close>

lemma write_at_version:
  assumes "n < nwrites cid o' es"
  obtains j where "j < length es" "ev_write (es ! j)" "ev_obj cid es j = o'" "ev_ver cid es j = 2 * int n"
proof -
  obtain j where "j < length es" "writes_to cid o' (es ! j)"
    "length (filter (writes_to cid o') (take j es)) = n"
    using filter_index_ex [of n "writes_to cid o'" es] assms by (auto simp: nwrites_def)
  with that [of j] show ?thesis
    by (auto simp: ev_ver_def ev_obj_def nwrites_def writes_to_def)
qed

lemma ev_ver_le_total:
  "ev_ver cid es i \<le> 2 * int (nwrites cid (ev_obj cid es i) es)"
  by (simp add: ev_ver_def nwrites_def filter_take_length_le)

lemma write_ver_less_total:
  assumes "i < length es" "ev_write (es ! i)"
  shows "ev_ver cid es i + 2 \<le> 2 * int (nwrites cid (ev_obj cid es i) es)"
  using filter_nth_take(2) [of i es "writes_to cid (ev_obj cid es i)"] assms
  by (simp add: ev_ver_def nwrites_def writes_to_def ev_obj_def)

text \<open>The accesses of one thread are as the recorder's contract wants them.\<close>

lemma taccs_mono:
  assumes "\<And>i. i < length es \<Longrightarrow> ev_obj cid es i < nobj"
  shows "mono_accs nobj (taccs cid t es)"
proof -
  have pos: "\<exists>i < length es. ev_tid (es ! i) = t \<and> ev_memop es i = k \<and> taccs cid t es ! k = tacc_of cid es i"
    if k: "k < length (taccs cid t es)" for k
  proof -
    from k have "k < thr_cnt t es" by (simp add: length_taccs)
    then obtain i where i: "i < length es" "ev_tid (es ! i) = t" "ev_memop es i = k"
      by (rule thr_pos_ex)
    with taccs_nth [of i es cid] show ?thesis by auto
  qed
  have range: "ta_obj (taccs cid t es ! k) < nobj \<and> 0 \<le> ta_ver (taccs cid t es ! k)"
    if k: "k < length (taccs cid t es)" for k
    using pos [OF k] assms by (auto simp: tacc_of_def ev_ver_nonneg)
  have mono: "ta_ver (taccs cid t es ! k) \<le> ta_ver (taccs cid t es ! l) \<and>
      (ta_write (taccs cid t es ! k) \<longrightarrow> ta_ver (taccs cid t es ! k) < ta_ver (taccs cid t es ! l))"
    if kl: "k < l" "l < length (taccs cid t es)" "ta_obj (taccs cid t es ! k) = ta_obj (taccs cid t es ! l)" for k l
  proof -
    obtain i where i: "i < length es" "ev_tid (es ! i) = t" "ev_memop es i = k" "taccs cid t es ! k = tacc_of cid es i"
      using pos [of k] kl by auto
    obtain j where j: "j < length es" "ev_tid (es ! j) = t" "ev_memop es j = l" "taccs cid t es ! l = tacc_of cid es j"
      using pos [of l] kl by auto
    have "i < j" using ev_memop_less_iff [of i es j] i j kl(1) by simp
    moreover have "ev_obj cid es i = ev_obj cid es j" using kl(3) i(4) j(4) by (simp add: tacc_of_def)
    ultimately show ?thesis
      using ev_ver_mono [of i j cid es] ev_ver_strict [of i j es cid] j(1) i(4) j(4)
      by (simp add: tacc_of_def)
  qed
  show ?thesis unfolding mono_accs_def using range mono by blast
qed

end
