(* ===== verification/Test_Program.thy ===== *)
theory Test_Program
  imports Trace
begin

text \<open>
  The program whose memory accesses are recorded and replayed. Its threads are deterministic but
  for the values their reads return, so a thread is a function from the values of the accesses it
  has made to its next access. \<open>tp_cid\<close> is the function \<open>calc_objid\<close> that the program supplies
  (\<open>src/mem.h\<close>). The theory says when a trace is a complete run of the program.
\<close>

datatype action = Read addr_t | Write addr_t val_t | Finish

record test_prog =
  tp_code :: "tid_t \<Rightarrow> val_t list \<Rightarrow> action"
  tp_cid :: "addr_t \<Rightarrow> objid_t"
  tp_nobj :: nat
  tp_nthr :: nat
  tp_mem :: mem

fun act_addr :: "action \<Rightarrow> addr_t" where
  "act_addr (Read a) = a"
| "act_addr (Write a v) = a"
| "act_addr Finish = 0"

definition ev_act :: "event \<Rightarrow> action" where
  "ev_act e = (if ev_write e then Write (ev_addr e) (ev_val e) else Read (ev_addr e))"

text \<open>The values of the first \<open>k\<close> accesses of a thread.\<close>

definition thr_vals :: "tid_t \<Rightarrow> event list \<Rightarrow> nat \<Rightarrow> val_t list" where
  "thr_vals t es k = map ev_val (take k (thr_evs t es))"

text \<open>Every access of the trace is the one its thread makes next, on objects and threads that exist,
  and every read returns what the memory holds.\<close>

definition run_of :: "test_prog \<Rightarrow> event list \<Rightarrow> bool" where
  "run_of P es \<longleftrightarrow>
     (\<forall>i < length es. ev_tid (es ! i) < tp_nthr P \<and> ev_obj (tp_cid P) es i < tp_nobj P \<and>
        tp_code P (ev_tid (es ! i)) (thr_vals (ev_tid (es ! i)) es (ev_memop es i)) = ev_act (es ! i)) \<and>
     reads_ok (tp_mem P) es"

definition complete :: "test_prog \<Rightarrow> event list \<Rightarrow> bool" where
  "complete P es \<longleftrightarrow> (\<forall>t < tp_nthr P. tp_code P t (thr_vals t es (thr_cnt t es)) = Finish)"

text \<open>The threads of the program end after the given numbers of accesses, whatever their reads return.\<close>

definition ends :: "test_prog \<Rightarrow> (tid_t \<Rightarrow> nat) \<Rightarrow> bool" where
  "ends P N \<longleftrightarrow> (\<forall>t < tp_nthr P. \<forall>vs. N t \<le> length vs \<longrightarrow> tp_code P t vs = Finish)"

lemma endsD: "ends P N \<Longrightarrow> t < tp_nthr P \<Longrightarrow> tp_code P t vs \<noteq> Finish \<Longrightarrow> length vs < N t"
  unfolding ends_def by (meson not_le)

lemma run_ofD:
  assumes "run_of P es" "i < length es"
  shows "ev_tid (es ! i) < tp_nthr P" "ev_obj (tp_cid P) es i < tp_nobj P"
    "tp_code P (ev_tid (es ! i)) (thr_vals (ev_tid (es ! i)) es (ev_memop es i)) = ev_act (es ! i)"
  using assms by (simp_all add: run_of_def)

lemma ev_act_simps [simp]:
  "ev_act e \<noteq> Finish" "act_addr (ev_act e) = ev_addr e"
  "ev_act e = Read a \<longleftrightarrow> \<not> ev_write e \<and> ev_addr e = a"
  "ev_act e = Write a v \<longleftrightarrow> ev_write e \<and> ev_addr e = a \<and> ev_val e = v"
  by (auto simp: ev_act_def)

section \<open>Memory at a version\<close>

text \<open>The value of an address after the first \<open>n\<close> writes to its object.\<close>

definition vmem :: "test_prog \<Rightarrow> event list \<Rightarrow> addr_t \<Rightarrow> nat \<Rightarrow> val_t" where
  "vmem P es a n = mem_after (tp_mem P) (take n (filter (writes_to (tp_cid P) (tp_cid P a)) es)) a"

lemma mem_after_filter:
  "mem_after m es a = mem_after m (filter (writes_to cid (cid a)) es) a"
  by (induction es rule: rev_induct) (auto simp: trace_simps mem_upd_def writes_to_def)

lemma mem_after_vmem:
  "mem_after (tp_mem P) (take i es) a = vmem P es a (nwrites (tp_cid P) (tp_cid P a) (take i es))"
proof -
  let ?f = "writes_to (tp_cid P) (tp_cid P a)"
  have "filter ?f es = filter ?f (take i es) @ filter ?f (drop i es)"
    by (metis append_take_drop_id filter_append)
  then have "take (nwrites (tp_cid P) (tp_cid P a) (take i es)) (filter ?f es) = filter ?f (take i es)"
    by (simp add: nwrites_def)
  then show ?thesis unfolding vmem_def by (metis mem_after_filter)
qed

lemma vmem_0 [simp]: "vmem P es a 0 = tp_mem P a"
  by (simp add: vmem_def mem_after_Nil)

lemma vmem_final: "vmem P es a (nwrites (tp_cid P) (tp_cid P a) es) = mem_after (tp_mem P) es a"
  using mem_after_vmem [of P "length es" es a] by simp

text \<open>A read returns the memory at the version it found.\<close>

lemma read_vmem:
  assumes "run_of P es" "i < length es" "\<not> ev_write (es ! i)"
  shows "ev_val (es ! i) = vmem P es (ev_addr (es ! i)) (nat (ev_ver (tp_cid P) es i) div 2)"
proof -
  have "ev_val (es ! i) = mem_after (tp_mem P) (take i es) (ev_addr (es ! i))"
    using assms by (simp add: run_of_def reads_ok_def)
  then show ?thesis
    by (simp add: mem_after_vmem ev_ver_def ev_obj_def nat_mult_distrib)
qed

text \<open>A write makes the memory of the next version of its object.\<close>

lemma write_vmem:
  assumes "i < length es" "ev_write (es ! i)" "tp_cid P a = ev_obj (tp_cid P) es i"
  shows "vmem P es a (Suc (nat (ev_ver (tp_cid P) es i) div 2)) =
    (if a = ev_addr (es ! i) then ev_val (es ! i) else vmem P es a (nat (ev_ver (tp_cid P) es i) div 2))"
proof -
  have n: "nat (ev_ver (tp_cid P) es i) div 2 = nwrites (tp_cid P) (tp_cid P a) (take i es)"
    using assms(3) by (simp add: ev_ver_def nat_mult_distrib)
  have "Suc (nwrites (tp_cid P) (tp_cid P a) (take i es)) = nwrites (tp_cid P) (tp_cid P a) (take (Suc i) es)"
    using assms by (simp add: take_Suc_conv_app_nth nwrites_snoc writes_to_def ev_obj_def)
  then have "vmem P es a (Suc (nwrites (tp_cid P) (tp_cid P a) (take i es))) =
      mem_after (tp_mem P) (take (Suc i) es) a"
    by (simp add: mem_after_vmem)
  also have "\<dots> = mem_upd (es ! i) (mem_after (tp_mem P) (take i es)) a"
    using assms(1) by (simp add: take_Suc_conv_app_nth mem_after_snoc)
  finally show ?thesis
    using assms(2) by (simp add: n mem_after_vmem mem_upd_def)
qed

end
