(* ===== verification/Replay.thy ===== *)
theory Replay
  imports Test_Program Merge_Memop
begin

text \<open>
  The replayer, \<open>src/mem-replay.c\<close>, as a program of concurrent threads: every thread runs the test
  program and calls \<open>mem_read\<close> and \<open>mem_write\<close>, and one step of the machine is one access of a
  thread to the data the threads share (\<open>obj_version\<close>, the objects' reader logs, the other threads'
  \<open>memop\<close> counters, the memory). A thread that waits in one of the two spin loops makes a step that
  changes nothing. Assertions, \<open>abort\<close> and reads past the end of a log are faults, from which a
  thread never returns.
\<close>

section \<open>State\<close>

datatype fault = Version_assert | Reader_order_assert | Concurrent_reader_log | Past_log_end

text \<open>Where a thread stands: between two accesses (\<open>Run\<close>), in \<open>wait_object_version\<close>, in
  \<open>wait_reader\<close> and \<open>next_reader_memop\<close>, in the rest of \<open>mem_read\<close> and \<open>mem_write\<close>, or at its end.\<close>

datatype rpc =
    Run
  | WaitVersion
  | CheckVersion
  | ReadMem
  | NextReader
  | ReaderLocked
  | WaitReader replay_wait_memop
  | StoreMem
  | LoadVersion
  | StoreVersion version_t
  | Count val_t
  | Done
  | Fault fault

text \<open>The thread-local data of \<open>mem-replay.c\<close>: \<open>memop\<close>, \<open>wait_version\<close> and the entries of
  \<open>wait_version_log\<close> not yet read; and the values of the thread's accesses so far, which are the
  test program's local state.\<close>

record replay_thr =
  rt_memop :: memop_t
  rt_wait_version :: wait_version
  rt_version_log :: "wait_version list"
  rt_pc :: rpc
  rt_vals :: "val_t list"

record replay =
  rp_mem :: mem
  obj_version :: "version_t list"
  wait_reader_log :: "replay_wait_memop_log list"
  rp_thr :: "tid_t \<Rightarrow> replay_thr"

section \<open>Operations\<close>

text \<open>\<open>None\<close> is a read past the end of the log.\<close>

definition next_wait_version_log :: "replay_thr \<Rightarrow> replay_thr option" where
  "next_wait_version_log r =
     (case rt_version_log r of
        [] \<Rightarrow> None
      | wv # log \<Rightarrow>
          if wv_memop wv = -1
          then Some (r\<lparr>rt_wait_version := (rt_wait_version r)\<lparr>wv_memop := -1\<rparr>\<rparr>)
          else Some (r\<lparr>rt_wait_version := wv, rt_version_log := log\<rparr>))"

text \<open>Static and thread-local data start zeroed; a thread reads its first entry at once.\<close>

definition replay_init_thr :: "wait_version list \<Rightarrow> replay_thr" where
  "replay_init_thr vlog =
     (let r = \<lparr>rt_memop = 0, rt_wait_version = \<lparr>wv_memop = 0, wv_version = 0\<rparr>,
               rt_version_log = vlog, rt_pc = Run, rt_vals = []\<rparr>
      in case next_wait_version_log r of None \<Rightarrow> r\<lparr>rt_pc := Fault Past_log_end\<rparr> | Some r' \<Rightarrow> r')"

definition replay_init ::
  "test_prog \<Rightarrow> (tid_t \<Rightarrow> wait_version list) \<Rightarrow> replay_wait_memop_log list \<Rightarrow> replay" where
  "replay_init P vlogs rls =
     \<lparr>rp_mem = tp_mem P, obj_version = replicate (tp_nobj P) 0, wait_reader_log = rls,
      rp_thr = (\<lambda>t. replay_init_thr (vlogs t))\<rparr>"

definition set_thr :: "tid_t \<Rightarrow> replay_thr \<Rightarrow> replay \<Rightarrow> replay" where
  "set_thr t r s = s\<lparr>rp_thr := (rp_thr s)(t := r)\<rparr>"

definition goto :: "tid_t \<Rightarrow> rpc \<Rightarrow> replay \<Rightarrow> replay" where
  "goto t pc s = set_thr t ((rp_thr s t)\<lparr>rt_pc := pc\<rparr>) s"

text \<open>\<open>wait_object_version\<close>; \<open>k\<close> is where the caller goes on. The three branches are the test on
  entry, the spin loop, and the assertion with the advance of the log.\<close>

definition wait_object_version :: "tid_t \<Rightarrow> objid_t \<Rightarrow> rpc \<Rightarrow> replay \<Rightarrow> replay" where
  "wait_object_version t objid k s =
     (let r = rp_thr s t
      in case rt_pc r of
           Run \<Rightarrow> if rt_memop r = wv_memop (rt_wait_version r) then goto t WaitVersion s else goto t k s
         | WaitVersion \<Rightarrow>
             if obj_version s ! objid < wv_version (rt_wait_version r) then s else goto t CheckVersion s
         | CheckVersion \<Rightarrow>
             if obj_version s ! objid \<noteq> wv_version (rt_wait_version r) then goto t (Fault Version_assert) s
             else (case next_wait_version_log r of
                     None \<Rightarrow> goto t (Fault Past_log_end) s
                   | Some r' \<Rightarrow> set_thr t (r'\<lparr>rt_pc := k\<rparr>) s)
         | _ \<Rightarrow> s)"

definition set_reader_log :: "objid_t \<Rightarrow> replay_wait_memop_log \<Rightarrow> replay \<Rightarrow> replay" where
  "set_reader_log objid l s = s\<lparr>wait_reader_log := (wait_reader_log s)[objid := l]\<rparr>"

text \<open>\<open>next_reader_memop\<close> once it holds the mutex: the entry to wait for, if any, and the log with
  the mutex released.\<close>

definition next_reader_memop ::
  "version_t \<Rightarrow> replay_wait_memop_log \<Rightarrow> fault + (replay_wait_memop option \<times> replay_wait_memop_log)" where
  "next_reader_memop version l =
     (if rl_n l \<ge> rl_size l then Inr (None, l\<lparr>rl_mutex := False\<rparr>)
      else let logid = nat (rl_n l)
           in if logid \<ge> length (rl_log l) then Inl Past_log_end
              else if \<not> version \<le> rwm_version (rl_log l ! logid) then Inl Reader_order_assert
              else if version = rwm_version (rl_log l ! logid)
              then Inr (Some (rl_log l ! logid), l\<lparr>rl_n := rl_n l + 1, rl_mutex := False\<rparr>)
              else Inr (None, l\<lparr>rl_mutex := False\<rparr>))"

text \<open>\<open>wait_reader\<close>: take the mutex of the object's log, look for an entry, wait for its thread.\<close>

definition wait_reader :: "tid_t \<Rightarrow> objid_t \<Rightarrow> replay \<Rightarrow> replay" where
  "wait_reader t objid s =
     (let l = wait_reader_log s ! objid
      in case rt_pc (rp_thr s t) of
           NextReader \<Rightarrow>
             if rl_mutex l then goto t (Fault Concurrent_reader_log) s
             else goto t ReaderLocked (set_reader_log objid (l\<lparr>rl_mutex := True\<rparr>) s)
         | ReaderLocked \<Rightarrow>
             (case next_reader_memop (obj_version s ! objid) l of
                Inl f \<Rightarrow> goto t (Fault f) s
              | Inr (log, l') \<Rightarrow>
                  goto t (case log of None \<Rightarrow> StoreMem | Some e \<Rightarrow> WaitReader e) (set_reader_log objid l' s))
         | WaitReader e \<Rightarrow>
             if rt_memop (rp_thr s (rwm_tid e)) \<le> rwm_memop e then s else goto t NextReader s
         | _ \<Rightarrow> s)"

text \<open>\<open>memop++\<close> and the return to the test program with the value of the access.\<close>

definition count_memop :: "tid_t \<Rightarrow> val_t \<Rightarrow> replay \<Rightarrow> replay" where
  "count_memop t val s =
     (let r = rp_thr s t
      in set_thr t (r\<lparr>rt_memop := rt_memop r + 1, rt_vals := rt_vals r @ [val], rt_pc := Run\<rparr>) s)"

definition mem_read :: "test_prog \<Rightarrow> tid_t \<Rightarrow> addr_t \<Rightarrow> replay \<Rightarrow> replay" where
  "mem_read P t addr s =
     (let objid = tp_cid P addr
      in case rt_pc (rp_thr s t) of
           ReadMem \<Rightarrow> goto t (Count (rp_mem s addr)) s
         | Count val \<Rightarrow> count_memop t val s
         | _ \<Rightarrow> wait_object_version t objid ReadMem s)"

definition mem_write :: "test_prog \<Rightarrow> tid_t \<Rightarrow> addr_t \<Rightarrow> val_t \<Rightarrow> replay \<Rightarrow> replay" where
  "mem_write P t addr val s =
     (let objid = tp_cid P addr
      in case rt_pc (rp_thr s t) of
           NextReader \<Rightarrow> wait_reader t objid s
         | ReaderLocked \<Rightarrow> wait_reader t objid s
         | WaitReader e \<Rightarrow> wait_reader t objid s
         | StoreMem \<Rightarrow> goto t LoadVersion (s\<lparr>rp_mem := (rp_mem s)(addr := val)\<rparr>)
         | LoadVersion \<Rightarrow> goto t (StoreVersion (obj_version s ! objid)) s
         | StoreVersion v \<Rightarrow> goto t (Count val) (s\<lparr>obj_version := (obj_version s)[objid := v + 2]\<rparr>)
         | Count v \<Rightarrow> count_memop t v s
         | _ \<Rightarrow> wait_object_version t objid NextReader s)"

text \<open>One step of thread \<open>t\<close>.\<close>

definition replay_step :: "test_prog \<Rightarrow> tid_t \<Rightarrow> replay \<Rightarrow> replay" where
  "replay_step P t s =
     (case rt_pc (rp_thr s t) of
        Done \<Rightarrow> s
      | Fault f \<Rightarrow> s
      | _ \<Rightarrow> (case tp_code P t (rt_vals (rp_thr s t)) of
                Read a \<Rightarrow> mem_read P t a s
              | Write a v \<Rightarrow> mem_write P t a v s
              | Finish \<Rightarrow> goto t Done s))"

text \<open>Running a schedule, and the states a replay can reach.\<close>

definition replay_run :: "test_prog \<Rightarrow> tid_t list \<Rightarrow> replay \<Rightarrow> replay" where
  "replay_run P ts s = fold (replay_step P) ts s"

inductive replay_reach :: "test_prog \<Rightarrow> replay \<Rightarrow> replay \<Rightarrow> bool" for P s0 where
  init: "replay_reach P s0 s0"
| step: "replay_reach P s0 s \<Longrightarrow> t < tp_nthr P \<Longrightarrow> replay_reach P s0 (replay_step P t s)"

lemmas replay_defs [replay_simps] =
  set_thr_def goto_def set_reader_log_def wait_object_version_def wait_reader_def count_memop_def
  mem_read_def mem_write_def replay_step_def Let_def

lemma replay_reach_run:
  "replay_reach P s0 s \<Longrightarrow> \<forall>t \<in> set ts. t < tp_nthr P \<Longrightarrow> replay_reach P s0 (replay_run P ts s)"
  by (induction ts arbitrary: s) (auto simp: replay_run_def intro: replay_reach.step)

definition all_done :: "test_prog \<Rightarrow> replay \<Rightarrow> bool" where
  "all_done P s \<longleftrightarrow> (\<forall>t < tp_nthr P. rt_pc (rp_thr s t) = Done)"

fun is_fault :: "rpc \<Rightarrow> bool" where
  "is_fault (Fault f) = True"
| "is_fault pc = False"

definition no_fault :: "test_prog \<Rightarrow> replay \<Rightarrow> bool" where
  "no_fault P s \<longleftrightarrow> (\<forall>t < tp_nthr P. \<not> is_fault (rt_pc (rp_thr s t)))"

end
