(* ===== verification/Record_Log_Impl.thy ===== *)
theory Record_Log_Impl
  imports Recorder
begin

unbundle bit_operations_syntax

text \<open>
  The log-taking half of \<open>mem_read\<close> and \<open>mem_write\<close> in the four order-recording implementations.
  \<open>src/mem-record-seqlock.c\<close> and \<open>src/mem-record-rtmseq.c\<close> update the logs at every access;
  \<open>src/mem-record-seqbatch.c\<close> and \<open>src/mem-record-rtmcluster.c\<close> queue the accesses and process the
  queue when it is full and before the thread ends. Both meet the contract \<open>order_recorder\<close>, so all
  of them write the same logs.
\<close>

section \<open>One log update per access (seqlock, rtmseq)\<close>

definition mem_read_log :: "objid_t \<Rightarrow> version_t \<Rightarrow> 'z thr_rec_scheme \<Rightarrow> 'z thr_rec_scheme" where
  "mem_read_log objid version r =
     (let lastobj = g_last r ! objid;
          r1 = (if lo_version lastobj \<noteq> version then log_order objid version lastobj r else r);
          lastobj1 = (if lo_version lastobj \<noteq> version then lastobj\<lparr>lo_version := version\<rparr> else lastobj)
      in r1\<lparr>g_last := (g_last r1)[objid := lastobj1\<lparr>lo_memop := memop r1\<rparr>], memop := memop r1 + 1\<rparr>)"

definition mem_write_log :: "objid_t \<Rightarrow> version_t \<Rightarrow> 'z thr_rec_scheme \<Rightarrow> 'z thr_rec_scheme" where
  "mem_write_log objid version r =
     (let lastobj = g_last r ! objid;
          r1 = (if lo_version lastobj \<noteq> version then log_order objid version lastobj r else r)
      in r1\<lparr>g_last := (g_last r1)[objid := lastobj\<lparr>lo_memop := -1\<rparr>], memop := memop r1 + 1\<rparr>)"

definition seqlock_acc :: "tacc \<Rightarrow> thr_rec \<Rightarrow> thr_rec" where
  "seqlock_acc x r =
     (if ta_write x then mem_write_log (ta_obj x) (ta_ver x) r else mem_read_log (ta_obj x) (ta_ver x) r)"

lemma log_order_keeps [simp]:
  "g_last (log_order objid v l r) = g_last r"
  "memop (log_order objid v l r) = memop r"
  by (simp_all add: log_order_def log_wait_version_def log_other_wait_memop_def Let_def)

lemma last_upd_same [simp]:
  "lo_version l = v \<Longrightarrow> l\<lparr>lo_version := v, lo_memop := m\<rparr> = l\<lparr>lo_memop := m\<rparr>"
  by (cases l) simp

lemma last_ok_read:
  "\<not> ta_write x \<Longrightarrow> lo_version l = ta_ver x \<Longrightarrow> lo_memop l = int (length xs) \<Longrightarrow>
     last_ok (xs @ [x]) (ta_obj x) l"
  by (simp add: last_ok_def)

lemma last_ok_write:
  "ta_write x \<Longrightarrow> lo_version l \<le> ta_ver x \<Longrightarrow> lo_memop l = -1 \<Longrightarrow> last_ok (xs @ [x]) (ta_obj x) l"
  by (simp add: last_ok_def)

text \<open>What \<open>g_last\<close> holds is never past the version of the access being made.\<close>

lemma last_version_le:
  assumes "rec_rel nobj xs r" "mono_accs nobj (xs @ [x])"
  shows "lo_version (g_last r ! ta_obj x) \<le> ta_ver x"
proof -
  have "last_ok xs (ta_obj x) (g_last r ! ta_obj x)"
    using assms mono_accs_snocD(1) by (auto simp: rec_rel_def)
  then show ?thesis
    using mono_accs_snocD [OF assms(2)]
    by (fastforce simp: last_ok_def split: option.splits if_splits)
qed

lemma mem_read_log_rel:
  assumes "rec_rel nobj xs r" "mono_accs nobj (xs @ [x])" "\<not> ta_write x"
  shows "rec_rel nobj (xs @ [x]) (mem_read_log (ta_obj x) (ta_ver x) r)"
proof -
  let ?l = "g_last r ! ta_obj x"
  let ?l' = "?l\<lparr>lo_version := ta_ver x, lo_memop := int (length xs)\<rparr>"
  have "memop r = int (length xs)" using assms(1) by (simp add: rec_rel_def)
  moreover have "last_ok (xs @ [x]) (ta_obj x) ?l'"
    using assms(3) by (rule last_ok_read) simp_all
  ultimately show ?thesis
    using rec_rel_step [OF assms(1,2) refl refl, of ?l']
    by (cases "lo_version ?l = ta_ver x") (simp_all add: mem_read_log_def Let_def)
qed

lemma mem_write_log_rel:
  assumes "rec_rel nobj xs r" "mono_accs nobj (xs @ [x])" "ta_write x"
  shows "rec_rel nobj (xs @ [x]) (mem_write_log (ta_obj x) (ta_ver x) r)"
proof -
  let ?l = "g_last r ! ta_obj x"
  have "last_ok (xs @ [x]) (ta_obj x) (?l\<lparr>lo_memop := -1\<rparr>)"
    using assms(3) last_version_le [OF assms(1,2)] by (intro last_ok_write) simp_all
  then show ?thesis
    using rec_rel_step [OF assms(1,2) refl refl, of "?l\<lparr>lo_memop := -1\<rparr>"]
    by (cases "lo_version ?l = ta_ver x") (simp_all add: mem_write_log_def Let_def)
qed

interpretation seqlock: order_recorder
  mem_init_thr seqlock_acc "\<lambda>_. True" "\<lambda>r. r" "\<lambda>nobj. mem_finish_thr nobj before_finish_thr_default"
  by unfold_locales (auto simp: seqlock_acc_def mem_read_log_rel mem_write_log_rel)

section \<open>Batched log updates (seqbatch, rtmcluster)\<close>

text \<open>A queued access; a negative objid marks a write.\<close>

record batmem_acc =
  ba_objid :: int
  ba_version :: version_t

text \<open>The queue is an array; the first \<open>g_batch_idx\<close> entries are in use.\<close>

record batch_rec = thr_rec +
  g_batch_q :: "batmem_acc list"
  g_batch_idx :: nat

definition BATCH_LOG_SIZE :: nat where "BATCH_LOG_SIZE = 97"
definition RTM_BATCH_N :: nat where "RTM_BATCH_N = 7"

definition process_1log :: "batmem_acc \<Rightarrow> 'z thr_rec_scheme \<Rightarrow> 'z thr_rec_scheme" where
  "process_1log acc r =
     (let is_write = ba_objid acc < 0;
          objid = nat (if is_write then NOT (ba_objid acc) else ba_objid acc);
          last = g_last r ! objid;
          r1 = (if lo_version last \<noteq> ba_version acc then log_order objid (ba_version acc) last r else r);
          last1 = (if lo_version last \<noteq> ba_version acc then last\<lparr>lo_version := ba_version acc\<rparr> else last);
          last2 = last1\<lparr>lo_memop := (if is_write then -1 else memop r1)\<rparr>
      in r1\<lparr>g_last := (g_last r1)[objid := last2], memop := memop r1 + 1\<rparr>)"

definition batch_process_log :: "batch_rec \<Rightarrow> batch_rec" where
  "batch_process_log b =
     (fold (\<lambda>i s. process_1log (g_batch_q s ! i) s) [0..<g_batch_idx b] b)\<lparr>g_batch_idx := 0\<rparr>"

definition batch_add_log :: "nat \<Rightarrow> int \<Rightarrow> version_t \<Rightarrow> batch_rec \<Rightarrow> batch_rec" where
  "batch_add_log qsize objid version b =
     (let b1 = b\<lparr>g_batch_q := (g_batch_q b)[g_batch_idx b := \<lparr>ba_objid = objid, ba_version = version\<rparr>],
                 g_batch_idx := Suc (g_batch_idx b)\<rparr>
      in if g_batch_idx b1 = qsize then batch_process_log b1 else b1)"

definition batch_read_log :: "nat \<Rightarrow> objid_t \<Rightarrow> version_t \<Rightarrow> batch_rec \<Rightarrow> batch_rec" where
  "batch_read_log qsize objid version b = batch_add_log qsize (int objid) version b"

definition batch_write_log :: "nat \<Rightarrow> objid_t \<Rightarrow> version_t \<Rightarrow> batch_rec \<Rightarrow> batch_rec" where
  "batch_write_log qsize objid version b = batch_add_log qsize (NOT (int objid)) version b"

definition before_finish_thr :: "batch_rec \<Rightarrow> batch_rec" where
  "before_finish_thr b = batch_process_log b"

definition batch_init :: "nat \<Rightarrow> nat \<Rightarrow> batch_rec" where
  "batch_init qsize nobj =
     thr_rec.extend (mem_init_thr nobj)
       \<lparr>g_batch_q = replicate qsize \<lparr>ba_objid = 0, ba_version = 0\<rparr>, g_batch_idx = 0\<rparr>"

definition batch_acc :: "nat \<Rightarrow> tacc \<Rightarrow> batch_rec \<Rightarrow> batch_rec" where
  "batch_acc qsize x b =
     (if ta_write x then batch_write_log qsize (ta_obj x) (ta_ver x) b
      else batch_read_log qsize (ta_obj x) (ta_ver x) b)"

definition batch_finish :: "nat \<Rightarrow> batch_rec \<Rightarrow> thr_rec" where
  "batch_finish nobj b = thr_rec.truncate (mem_finish_thr nobj before_finish_thr b)"

text \<open>Encoding an access in the queue and decoding it.\<close>

definition enc_acc :: "tacc \<Rightarrow> batmem_acc" where
  "enc_acc x = \<lparr>ba_objid = (if ta_write x then NOT (int (ta_obj x)) else int (ta_obj x)), ba_version = ta_ver x\<rparr>"

lemma objid_mark_roundtrip:
  "(NOT (int n) < 0) \<and> nat (NOT (NOT (int n))) = n \<and> \<not> int n < 0"
  by (simp add: not_int_def)

lemma batch_acc_eq: "batch_acc qsize x b = batch_add_log qsize (ba_objid (enc_acc x)) (ta_ver x) b"
  by (simp add: batch_acc_def batch_read_log_def batch_write_log_def enc_acc_def)

lemma process_1log_enc:
  "process_1log (enc_acc x) r =
     (let l = g_last r ! ta_obj x;
          r1 = (if lo_version l \<noteq> ta_ver x then log_order (ta_obj x) (ta_ver x) l r else r)
      in r1\<lparr>g_last := (g_last r)[ta_obj x := l\<lparr>lo_version := ta_ver x,
              lo_memop := (if ta_write x then -1 else memop r)\<rparr>], memop := memop r + 1\<rparr>)"
  using objid_mark_roundtrip [of "ta_obj x"] by (simp add: process_1log_def enc_acc_def Let_def)

lemma process_1log_rel:
  assumes "rec_rel nobj xs r" "mono_accs nobj (xs @ [x])"
  shows "rec_rel nobj (xs @ [x]) (process_1log (enc_acc x) r)"
proof -
  have "memop r = int (length xs)" using assms(1) by (simp add: rec_rel_def)
  then show ?thesis
    unfolding process_1log_enc Let_def
    by (intro rec_rel_step [OF assms refl refl]) (simp add: last_ok_def)
qed

text \<open>Processing an access does not touch the queue, and works on the base record alone.\<close>

lemma log_order_batch [simp]:
  "g_batch_q (log_order i v l b) = g_batch_q b"
  "g_batch_idx (log_order i v l b) = g_batch_idx b"
  by (simp_all add: log_order_def log_wait_version_def log_other_wait_memop_def Let_def)

lemma truncate_log_order [simp]:
  "thr_rec.truncate (log_order i v l b) = log_order i v l (thr_rec.truncate b)"
  by (simp add: log_order_def log_wait_version_def log_other_wait_memop_def Let_def thr_rec.defs)

lemma process_1log_batch [simp]:
  "g_batch_q (process_1log acc b) = g_batch_q b"
  "g_batch_idx (process_1log acc b) = g_batch_idx b"
  by (simp_all add: process_1log_def Let_def)

lemma truncate_sel [simp]:
  "g_last (thr_rec.truncate b) = g_last b" "memop (thr_rec.truncate b) = memop b"
  by (simp_all add: thr_rec.defs)

lemma truncate_base_upd [simp]:
  "thr_rec.truncate (b\<lparr>g_last := g, memop := m\<rparr>) = (thr_rec.truncate b)\<lparr>g_last := g, memop := m\<rparr>"
  by (simp add: thr_rec.defs)

lemma truncate_upd [simp]:
  "thr_rec.truncate (b\<lparr>g_batch_idx := i\<rparr>) = thr_rec.truncate b"
  "thr_rec.truncate (b\<lparr>g_batch_q := q\<rparr>) = thr_rec.truncate b"
  by (simp_all add: thr_rec.defs)

lemma truncate_process_1log [simp]:
  "thr_rec.truncate (process_1log acc b) = process_1log acc (thr_rec.truncate b)"
  by (simp add: process_1log_def Let_def if_distrib [of thr_rec.truncate] if_distrib [of g_last]
    if_distrib [of memop])

lemma fold_process_batch:
  "thr_rec.truncate (fold (\<lambda>i s. process_1log (g_batch_q s ! i) s) is b) =
     fold process_1log (map ((!) (g_batch_q b)) is) (thr_rec.truncate b) \<and>
   g_batch_q (fold (\<lambda>i s. process_1log (g_batch_q s ! i) s) is b) = g_batch_q b"
  by (induction "is" arbitrary: b) simp_all

lemma batch_process_view:
  assumes "g_batch_idx b \<le> length (g_batch_q b)"
  shows "thr_rec.truncate (batch_process_log b) =
    fold process_1log (take (g_batch_idx b) (g_batch_q b)) (thr_rec.truncate b)"
proof -
  have "map ((!) (g_batch_q b)) [0..<g_batch_idx b] = take (g_batch_idx b) (g_batch_q b)"
    using assms by (intro nth_equalityI) auto
  then show ?thesis
    by (simp add: batch_process_log_def fold_process_batch)
qed

lemma batch_process_queue:
  "g_batch_q (batch_process_log b) = g_batch_q b \<and> g_batch_idx (batch_process_log b) = 0"
  by (simp add: batch_process_log_def fold_process_batch)

text \<open>The queue never overflows: an index is in range whenever an access is added.\<close>

definition batch_inv :: "nat \<Rightarrow> batch_rec \<Rightarrow> bool" where
  "batch_inv qsize b \<longleftrightarrow> length (g_batch_q b) = qsize \<and> g_batch_idx b < qsize"

lemma batch_add_inv: "0 < qsize \<Longrightarrow> batch_inv qsize b \<Longrightarrow> batch_inv qsize (batch_add_log qsize i v b)"
  by (auto simp: batch_inv_def batch_add_log_def Let_def batch_process_queue)

lemma batch_add_view:
  assumes "batch_inv qsize b"
  shows "thr_rec.truncate (batch_process_log (batch_add_log qsize i v b)) =
    process_1log \<lparr>ba_objid = i, ba_version = v\<rparr> (thr_rec.truncate (batch_process_log b))"
proof -
  let ?a = "\<lparr>ba_objid = i, ba_version = v\<rparr>"
  let ?b1 = "b\<lparr>g_batch_q := (g_batch_q b)[g_batch_idx b := ?a], g_batch_idx := Suc (g_batch_idx b)\<rparr>"
  have "thr_rec.truncate (batch_process_log ?b1) =
      process_1log ?a (thr_rec.truncate (batch_process_log b))"
    using assms by (simp add: batch_inv_def batch_process_view take_Suc_conv_app_nth)
  moreover have "thr_rec.truncate (batch_process_log (batch_process_log ?b1)) =
      thr_rec.truncate (batch_process_log ?b1)"
    by (simp add: batch_process_queue batch_process_view [of "batch_process_log ?b1"])
  ultimately show ?thesis
    by (cases "Suc (g_batch_idx b) = qsize") (auto simp: batch_add_log_def Let_def)
qed

lemma truncate_finish:
  fixes b :: batch_rec
  shows "thr_rec.truncate (mem_finish_thr nobj f b) =
     mem_finish_thr nobj before_finish_thr_default (thr_rec.truncate (f b))"
proof -
  have obj: "thr_rec.truncate (finish_obj i c) = finish_obj i (thr_rec.truncate c)"
    for i and c :: batch_rec
    by (simp add: finish_obj_def log_other_wait_memop_def thr_rec.defs)
  have "thr_rec.truncate (fold finish_obj is c) = fold finish_obj is (thr_rec.truncate c)"
    for "is" and c :: batch_rec
    by (induction "is" arbitrary: c) (simp_all add: obj)
  moreover have "thr_rec.truncate (mark_log_end c) = mark_log_end (thr_rec.truncate c)"
    for c :: batch_rec
    by (simp add: mark_log_end_def thr_rec.defs)
  ultimately show ?thesis
    by (simp add: mem_finish_thr_def before_finish_thr_default_def)
qed

lemma batch_order_recorder:
  assumes "0 < qsize"
  shows "order_recorder (batch_init qsize) (batch_acc qsize) (batch_inv qsize)
    (\<lambda>b. thr_rec.truncate (batch_process_log b)) batch_finish"
proof
  show "batch_inv qsize (batch_init qsize n)" for n
    using assms by (simp add: batch_inv_def batch_init_def thr_rec.defs)
  show "thr_rec.truncate (batch_process_log (batch_init qsize n)) = mem_init_thr n" for n
    by (subst batch_process_view) (simp_all add: batch_init_def thr_rec.defs mem_init_thr_def)
  show "batch_inv qsize (batch_acc qsize x s)" if "batch_inv qsize s" for x s
    using assms that by (simp add: batch_acc_eq batch_add_inv)
  show "rec_rel n (xs @ [x]) (thr_rec.truncate (batch_process_log (batch_acc qsize x s)))"
    if "batch_inv qsize s" "rec_rel n xs (thr_rec.truncate (batch_process_log s))"
      "mono_accs n (xs @ [x])" for s n xs x
    using process_1log_rel [OF that(2,3)] that(1)
    by (simp add: batch_acc_eq batch_add_view enc_acc_def)
  show "batch_finish n s = mem_finish_thr n before_finish_thr_default (thr_rec.truncate (batch_process_log s))"
    for n s
    by (simp add: batch_finish_def truncate_finish before_finish_thr_def)
qed

interpretation seqbatch: order_recorder
  "batch_init BATCH_LOG_SIZE" "batch_acc BATCH_LOG_SIZE" "batch_inv BATCH_LOG_SIZE"
  "\<lambda>b. thr_rec.truncate (batch_process_log b)" batch_finish
  by (rule batch_order_recorder) (simp add: BATCH_LOG_SIZE_def)

interpretation rtmcluster: order_recorder
  "batch_init RTM_BATCH_N" "batch_acc RTM_BATCH_N" "batch_inv RTM_BATCH_N"
  "\<lambda>b. thr_rec.truncate (batch_process_log b)" batch_finish
  by (rule batch_order_recorder) (simp add: RTM_BATCH_N_def)

lemma last_upd_all:
  "(l :: last_objinfo)\<lparr>lo_version := v, lo_memop := m\<rparr> = \<lparr>lo_version = v, lo_memop = m\<rparr>"
  "lo_version l = v \<Longrightarrow> l\<lparr>lo_memop := m\<rparr> = \<lparr>lo_version = v, lo_memop = m\<rparr>"
  by (cases l; simp)+

section \<open>Properties\<close>

text \<open>C25: batching the log taking changes nothing in the logs: whatever the size of the queue, the
  batching recorders (\<open>src/mem-record-seqbatch.c\<close>, \<open>src/mem-record-rtmcluster.c\<close>) leave the version
  log and the memop log that the recorder with one log update per access
  (\<open>src/mem-record-seqlock.c\<close>) leaves for the same accesses.\<close>

theorem batch_same_logs:
  assumes "0 < qsize" "mono_accs nobj xs"
  shows "log_version (batch_finish nobj (fold (batch_acc qsize) xs (batch_init qsize nobj))) =
      log_version (mem_finish_thr nobj before_finish_thr_default (fold seqlock_acc xs (mem_init_thr nobj))) \<and>
    log_memop (batch_finish nobj (fold (batch_acc qsize) xs (batch_init qsize nobj))) =
      log_memop (mem_finish_thr nobj before_finish_thr_default (fold seqlock_acc xs (mem_init_thr nobj)))"
  using order_recorder.run_logs [OF batch_order_recorder [OF assms(1)] assms(2)] seqlock.run_logs [OF assms(2)]
  by simp_all

theorem batch_same_logs_witness:
  "log_memop (batch_finish 2 (fold (batch_acc 2)
      [\<lparr>ta_write = False, ta_obj = 0, ta_ver = 0\<rparr>, \<lparr>ta_write = True, ta_obj = 1, ta_ver = 2\<rparr>,
       \<lparr>ta_write = False, ta_obj = 0, ta_ver = 4\<rparr>] (batch_init 2 2))) =
   log_memop (mem_finish_thr 2 before_finish_thr_default (fold seqlock_acc
      [\<lparr>ta_write = False, ta_obj = 0, ta_ver = 0\<rparr>, \<lparr>ta_write = True, ta_obj = 1, ta_ver = 2\<rparr>,
       \<lparr>ta_write = False, ta_obj = 0, ta_ver = 4\<rparr>] (mem_init_thr 2)))"
proof (rule batch_same_logs [THEN conjunct2])
  show "mono_accs 2 [\<lparr>ta_write = False, ta_obj = 0, ta_ver = 0\<rparr>, \<lparr>ta_write = True, ta_obj = 1, ta_ver = 2\<rparr>,
       \<lparr>ta_write = False, ta_obj = 0, ta_ver = 4\<rparr>]" by code_simp
qed simp

text \<open>C27: the logs a thread leaves are exactly those its accesses call for: an entry in the version
  log for every access that finds another version than the thread knew, an entry in the memop log
  for every last read of a version, the reads still standing at the end, and the end marks.\<close>

theorem seqlock_logs_exact:
  assumes "mono_accs nobj xs"
  shows "log_version (mem_finish_thr nobj before_finish_thr_default (fold seqlock_acc xs (mem_init_thr nobj))) =
      version_spec xs @ [\<lparr>wv_memop = -1, wv_version = -1\<rparr>] \<and>
    log_memop (mem_finish_thr nobj before_finish_thr_default (fold seqlock_acc xs (mem_init_thr nobj))) =
      memop_spec xs @ memop_finish_spec nobj xs @ [\<lparr>wm_objid = -1, wm_version = -1, wm_memop = -1\<rparr>]"
  using seqlock.run_logs [OF assms] by simp

theorem seqlock_logs_exact_witness:
  "log_version (mem_finish_thr 1 before_finish_thr_default (fold seqlock_acc
      [\<lparr>ta_write = False, ta_obj = 0, ta_ver = 0\<rparr>, \<lparr>ta_write = True, ta_obj = 0, ta_ver = 2\<rparr>] (mem_init_thr 1))) =
    [\<lparr>wv_memop = 1, wv_version = 2\<rparr>, \<lparr>wv_memop = -1, wv_version = -1\<rparr>]"
proof -
  let ?xs = "[\<lparr>ta_write = False, ta_obj = 0, ta_ver = 0\<rparr>, \<lparr>ta_write = True, ta_obj = 0, ta_ver = 2\<rparr>]"
  have "mono_accs 1 ?xs" by code_simp
  note e = conjunct1 [OF seqlock_logs_exact [OF this]]
  have "version_spec ?xs = [\<lparr>wv_memop = 1, wv_version = 2\<rparr>]" by code_simp
  with e show ?thesis by simp
qed

text \<open>C36: the queue of a batching recorder never overflows: an access is always written to an entry
  inside the array, whatever was recorded before.\<close>

theorem batch_queue_bounded:
  assumes "0 < qsize"
  shows "g_batch_idx (fold (batch_acc qsize) xs (batch_init qsize nobj)) <
    length (g_batch_q (fold (batch_acc qsize) xs (batch_init qsize nobj)))"
  using order_recorder.run_inv [OF batch_order_recorder [OF assms], of xs nobj] by (simp add: batch_inv_def)

theorem batch_queue_bounded_witness:
  "g_batch_idx (fold (batch_acc RTM_BATCH_N) (replicate 20 \<lparr>ta_write = False, ta_obj = 0, ta_ver = 0\<rparr>)
      (batch_init RTM_BATCH_N 1)) <
    length (g_batch_q (fold (batch_acc RTM_BATCH_N) (replicate 20 \<lparr>ta_write = False, ta_obj = 0, ta_ver = 0\<rparr>)
      (batch_init RTM_BATCH_N 1)))"
  by (rule batch_queue_bounded) (simp add: RTM_BATCH_N_def)

end
