(* ===== verification/Order_Logs.thy ===== *)
theory Order_Logs
  imports Trace Record_Log_Impl Merge_Memop
begin

text \<open>
  From the logs of a recorded run to the logs a replay reads: the shell function
  \<open>process_memorder_log\<close> of \<open>src/test.sh\<close> runs \<open>reorder-memop\<close> for every thread and then
  \<open>merge-memop\<close>. The theory shows what the replayer finds in the files, in terms of the recorded
  run: the contract \<open>logs_ok\<close> on which the replay theories rest.
\<close>

section \<open>Processing the logs\<close>

text \<open>A thread whose \<open>reorder-memop\<close> stopped with an error leaves no sorted log.\<close>

definition sorted_memop :: "nat \<Rightarrow> wait_memop list \<Rightarrow> wait_memop list option" where
  "sorted_memop nobj log = (case reorder_main nobj log of Inl e \<Rightarrow> None | Inr f \<Rightarrow> f)"

definition process_memorder_log ::
  "(wait_memop que_ent list \<Rightarrow> nat) \<Rightarrow> nat \<Rightarrow> wait_memop list list \<Rightarrow>
     (replay_wait_memop list \<times> int list) option option" where
  "process_memorder_log sel nobj mlogs =
     merge_main sel nobj (int (length mlogs)) (map (sorted_memop nobj) mlogs)"

section \<open>The entries of one thread\<close>

definition memop_body :: "nat \<Rightarrow> tacc list \<Rightarrow> wait_memop list" where
  "memop_body nobj xs = memop_spec xs @ memop_finish_spec nobj xs"

text \<open>Every entry stands for a read.\<close>

lemma read_entry_set:
  "w \<in> set (read_entry xs q) \<longleftrightarrow>
     (\<exists>p. q = Some p \<and> \<not> ta_write (xs ! p) \<and>
        w = \<lparr>wm_objid = int (ta_obj (xs ! p)), wm_version = ta_ver (xs ! p), wm_memop = int p\<rparr>)"
  by (auto simp: read_entry_def split: option.splits)

lemma memop_body_sound:
  assumes "w \<in> set (memop_body nobj xs)"
  shows "\<exists>p < length xs. \<not> ta_write (xs ! p) \<and>
    w = \<lparr>wm_objid = int (ta_obj (xs ! p)), wm_version = ta_ver (xs ! p), wm_memop = int p\<rparr>"
proof -
  consider k where "k < length xs" "w \<in> set (read_entry xs (last_on (ta_obj (xs ! k)) (take k xs)))"
    | o' where "w \<in> set (read_entry xs (last_on o' xs))"
    using assms by (auto simp: memop_body_def memop_spec_def memop_finish_spec_def memop_at_def split: if_splits)
  then show ?thesis
    by cases (fastforce simp: read_entry_set dest: last_on_SomeD)+
qed

lemma memop_body_ok:
  "mono_accs nobj xs \<Longrightarrow> w \<in> set (memop_body nobj xs) \<Longrightarrow> entry_ok nobj w"
  by (drule memop_body_sound) (auto simp: entry_ok_def mono_accs_def)

text \<open>The entries of an object are written in the order of versions.\<close>

definition versions_upto :: "tacc list \<Rightarrow> objid_t \<Rightarrow> wait_memop list \<Rightarrow> bool" where
  "versions_upto xs o' ws \<longleftrightarrow> sorted (map wm_version ws) \<and>
     (\<forall>w \<in> set ws. \<exists>p. last_on o' xs = Some p \<and> wm_version w \<le> ta_ver (xs ! p))"

lemma of_obj_read_entry:
  "of_obj o' (read_entry xs (last_on i xs)) = (if i = o' then read_entry xs (last_on i xs) else [])"
  by (auto simp: of_obj_def read_entry_def dest: last_on_SomeD split: option.splits)

lemma versions_upto_entry:
  "versions_upto xs o' ws \<Longrightarrow> versions_upto xs o' (ws @ read_entry xs (last_on o' xs))"
  by (auto simp: versions_upto_def read_entry_def sorted_append split: option.splits)

lemma versions_upto_snoc:
  assumes "versions_upto xs o' ws" "mono_accs nobj (xs @ [x])"
  shows "versions_upto (xs @ [x]) o' ws"
  using assms(1) mono_accs_snocD(3) [OF assms(2)]
  by (fastforce simp: versions_upto_def nth_append dest: last_on_SomeD)

lemma memop_spec_versions:
  "mono_accs nobj xs \<Longrightarrow> versions_upto xs o' (of_obj o' (memop_spec xs))"
proof (induction xs rule: rev_induct)
  case Nil
  then show ?case by (simp add: versions_upto_def of_obj_def memop_spec_def)
next
  case (snoc x xs)
  then have IH: "versions_upto xs o' (of_obj o' (memop_spec xs))" using mono_accs_prefix by blast
  have app: "of_obj o' (us @ vs) = of_obj o' us @ of_obj o' vs" for us vs by (simp add: of_obj_def)
  have "versions_upto xs o' (of_obj o' (memop_spec (xs @ [x])))"
    using IH versions_upto_entry [OF IH] of_obj_read_entry [of o' xs "ta_obj x"]
    by (auto simp: memop_spec_snoc app of_obj_def [of _ "[]"] split: if_splits)
  then show ?case using versions_upto_snoc snoc.prems by blast
qed

lemma of_obj_finish:
  "of_obj o' (memop_finish_spec nobj xs) = (if o' < nobj then read_entry xs (last_on o' xs) else [])"
proof (induction nobj)
  case 0
  then show ?case by (simp add: memop_finish_spec_def of_obj_def)
next
  case (Suc n)
  have "of_obj o' (memop_finish_spec (Suc n) xs) =
      of_obj o' (memop_finish_spec n xs) @ of_obj o' (read_entry xs (last_on n xs))"
    by (simp add: memop_finish_spec_def of_obj_def)
  with Suc show ?case by (auto simp: of_obj_read_entry)
qed

lemma memop_body_versions:
  assumes "mono_accs nobj xs"
  shows "sorted (map wm_version (of_obj o' (memop_body nobj xs)))"
proof -
  have "of_obj o' (memop_body nobj xs) = of_obj o' (memop_spec xs) @ of_obj o' (memop_finish_spec nobj xs)"
    by (simp add: memop_body_def of_obj_def)
  with memop_spec_versions [OF assms, of o'] versions_upto_entry [OF memop_spec_versions [OF assms, of o']]
  show ?thesis by (simp add: versions_upto_def of_obj_finish)
qed

text \<open>
  Every read is covered: by an entry for it or for a later read of the same version, or because
  the thread itself goes on to write that version.
\<close>

lemma next_on_obj:
  assumes "k < length xs"
  shows "last_on (ta_obj (xs ! k)) xs = Some k \<or>
    (\<exists>l. k < l \<and> l < length xs \<and> ta_obj (xs ! l) = ta_obj (xs ! k) \<and>
       last_on (ta_obj (xs ! k)) (take l xs) = Some k)"
proof (cases "\<exists>l. k < l \<and> l < length xs \<and> ta_obj (xs ! l) = ta_obj (xs ! k)")
  case True
  define l where "l = (LEAST l. k < l \<and> l < length xs \<and> ta_obj (xs ! l) = ta_obj (xs ! k))"
  have l: "k < l \<and> l < length xs \<and> ta_obj (xs ! l) = ta_obj (xs ! k)"
    unfolding l_def using True by (rule LeastI_ex)
  have "ta_obj (xs ! i) \<noteq> ta_obj (xs ! k)" if "k < i" "i < l" for i
    using not_less_Least [of i "\<lambda>l. k < l \<and> l < length xs \<and> ta_obj (xs ! l) = ta_obj (xs ! k)"] that l
    by (auto simp: l_def)
  with l show ?thesis by (auto simp: last_on_Some)
next
  case False
  with assms show ?thesis by (auto simp: last_on_Some)
qed

lemma memop_body_complete:
  assumes "mono_accs nobj xs" "k < length xs" "\<not> ta_write (xs ! k)"
  shows "(\<exists>w \<in> set (memop_body nobj xs). wm_objid w = int (ta_obj (xs ! k)) \<and>
      wm_version w = ta_ver (xs ! k) \<and> int k \<le> wm_memop w) \<or>
    (\<exists>l. k < l \<and> l < length xs \<and> ta_write (xs ! l) \<and> ta_obj (xs ! l) = ta_obj (xs ! k) \<and>
      ta_ver (xs ! l) = ta_ver (xs ! k))"
  using assms(2,3)
proof (induction "length xs - k" arbitrary: k rule: less_induct)
  case less
  let ?o = "ta_obj (xs ! k)"
  let ?w = "\<lparr>wm_objid = int ?o, wm_version = ta_ver (xs ! k), wm_memop = int k\<rparr>"
  consider "last_on ?o xs = Some k"
    | l where "k < l" "l < length xs" "ta_obj (xs ! l) = ?o" "last_on ?o (take l xs) = Some k"
    using next_on_obj [OF less.prems(1)] by blast
  then show ?case
  proof cases
    case 1
    then have "?w \<in> set (read_entry xs (last_on ?o xs))" using less.prems(2) by (simp add: read_entry_def)
    moreover have "?o < nobj" using assms(1) less.prems(1) by (simp add: mono_accs_def)
    ultimately have "?w \<in> set (memop_body nobj xs)"
      by (auto simp: memop_body_def memop_finish_spec_def)
    then show ?thesis by force
  next
    case (2 l)
    show ?thesis
    proof (cases "logged xs l")
      case True
      then have "?w \<in> set (memop_at xs l)" using 2 less.prems(2) by (simp add: memop_at_def read_entry_def)
      then have "?w \<in> set (memop_body nobj xs)" using 2 by (auto simp: memop_body_def memop_spec_def)
      then show ?thesis by force
    next
      case False
      then have v: "ta_ver (xs ! l) = ta_ver (xs ! k)" using 2 by (simp add: logged_def)
      show ?thesis
      proof (cases "ta_write (xs ! l)")
        case True
        with 2 v show ?thesis by blast
      next
        case False
        have "length xs - l < length xs - k" using 2 by simp
        from less.hyps [OF this 2(2) False] show ?thesis
          unfolding 2(3) v using 2(1) by force
      qed
    qed
  qed
qed

section \<open>What the replayer loads\<close>

text \<open>
  The contract for one object: its entries are reads of the recorded run, in the order of the
  versions read, and every read is covered by an entry or by a later write of its own thread to
  the same version.
\<close>

definition read_at :: "(addr_t \<Rightarrow> objid_t) \<Rightarrow> event list \<Rightarrow> objid_t \<Rightarrow> replay_wait_memop \<Rightarrow> nat \<Rightarrow> bool" where
  "read_at cid es o' e i \<longleftrightarrow>
     i < length es \<and> ev_obj cid es i = o' \<and> \<not> ev_write (es ! i) \<and>
     rwm_version e = ev_ver cid es i \<and> rwm_tid e = ev_tid (es ! i) \<and> rwm_memop e = int (ev_memop es i)"

definition covered :: "(addr_t \<Rightarrow> objid_t) \<Rightarrow> event list \<Rightarrow> replay_wait_memop list \<Rightarrow> nat \<Rightarrow> bool" where
  "covered cid es rs i \<longleftrightarrow>
     (\<exists>e \<in> set rs. rwm_version e = ev_ver cid es i \<and> rwm_tid e = ev_tid (es ! i) \<and>
        int (ev_memop es i) \<le> rwm_memop e) \<or>
     (\<exists>j. i < j \<and> j < length es \<and> ev_write (es ! j) \<and> ev_obj cid es j = ev_obj cid es i \<and>
        ev_ver cid es j = ev_ver cid es i \<and> ev_tid (es ! j) = ev_tid (es ! i))"

definition reader_log_ok :: "(addr_t \<Rightarrow> objid_t) \<Rightarrow> event list \<Rightarrow> objid_t \<Rightarrow> replay_wait_memop_log \<Rightarrow> bool" where
  "reader_log_ok cid es o' rl \<longleftrightarrow>
     rl_n rl = 0 \<and> \<not> rl_mutex rl \<and> nat (rl_size rl) = length (reader_entries rl) \<and>
     sorted (map rwm_version (reader_entries rl)) \<and>
     (\<forall>e \<in> set (reader_entries rl). \<exists>i. read_at cid es o' e i) \<and>
     (\<forall>i < length es. ev_obj cid es i = o' \<longrightarrow> \<not> ev_write (es ! i) \<longrightarrow> covered cid es (reader_entries rl) i)"

definition readers_ok :: "(addr_t \<Rightarrow> objid_t) \<Rightarrow> nat \<Rightarrow> event list \<Rightarrow> replay_wait_memop_log list \<Rightarrow> bool" where
  "readers_ok cid nobj es rls \<longleftrightarrow> length rls = nobj \<and> (\<forall>o' < nobj. reader_log_ok cid es o' (rls ! o'))"

lemma by_object_key_sorted:
  "mono_accs nobj xs \<Longrightarrow> sorted (map memop_key (by_object nobj (memop_body nobj xs)))"
  by (intro by_object_keys memop_body_versions)

lemma sorted_memop_entries:
  assumes "mono_accs nobj xs"
  shows "log_entries (sorted_memop nobj (memop_body nobj xs @ [memop_end])) = by_object nobj (memop_body nobj xs)"
proof -
  have "\<forall>w \<in> set (memop_body nobj xs). entry_ok nobj w" using memop_body_ok [OF assms] by blast
  then show ?thesis
    by (auto simp: sorted_memop_def reorder_main_eq log_entries_def by_object_def of_obj_def)
qed

lemma sorted_memop_nonempty:
  assumes "mono_accs nobj xs"
  shows "Some [] \<noteq> sorted_memop nobj (memop_body nobj xs @ [memop_end])"
proof -
  have "\<forall>w \<in> set (memop_body nobj xs). entry_ok nobj w" using memop_body_ok [OF assms] by blast
  from reorder_main_eq [OF this] length_by_object [OF this] show ?thesis by (auto simp: sorted_memop_def)
qed

text \<open>Entries and positions: a thread's entry for its read number \<open>p\<close> is a read of the trace.\<close>

lemma trace_read_at:
  assumes "w \<in> set (of_obj o' (memop_body nobj (taccs cid t es)))"
  shows "\<exists>i. read_at cid es o' (to_rwm (t, w)) i"
proof -
  have w: "w \<in> set (memop_body nobj (taccs cid t es))" "wm_objid w = int o'" using assms by (auto simp: of_obj_def)
  then obtain p where p: "p < length (taccs cid t es)" "\<not> ta_write (taccs cid t es ! p)"
    "w = \<lparr>wm_objid = int (ta_obj (taccs cid t es ! p)), wm_version = ta_ver (taccs cid t es ! p), wm_memop = int p\<rparr>"
    using memop_body_sound by blast
  from p(1) have "p < thr_cnt t es" by (simp add: length_taccs)
  then obtain i where i: "i < length es" "ev_tid (es ! i) = t" "ev_memop es i = p" by (rule thr_pos_ex)
  with p w(2) taccs_nth [OF i(1), of cid] show ?thesis
    by (auto simp: read_at_def tacc_of_def to_rwm_def)
qed

lemma trace_covered:
  assumes "mono_accs nobj (taccs cid (ev_tid (es ! i)) es)" "i < length es" "\<not> ev_write (es ! i)"
    and rs: "\<And>w. w \<in> set (of_obj (ev_obj cid es i) (memop_body nobj (taccs cid (ev_tid (es ! i)) es))) \<Longrightarrow>
      to_rwm (ev_tid (es ! i), w) \<in> set rs"
  shows "covered cid es rs i"
proof -
  let ?t = "ev_tid (es ! i)"
  let ?xs = "taccs cid ?t es"
  have k: "ev_memop es i < length ?xs" using assms(2) by (simp add: length_taccs ev_memop_less)
  have acc: "?xs ! ev_memop es i = tacc_of cid es i" using assms(2) by (rule taccs_nth)
  then have nw: "\<not> ta_write (?xs ! ev_memop es i)" using assms(3) by (simp add: tacc_of_def)
  consider w where "w \<in> set (memop_body nobj ?xs)" "wm_objid w = int (ev_obj cid es i)"
      "wm_version w = ev_ver cid es i" "int (ev_memop es i) \<le> wm_memop w"
    | l where "ev_memop es i < l" "l < length ?xs" "ta_write (?xs ! l)" "ta_obj (?xs ! l) = ev_obj cid es i"
      "ta_ver (?xs ! l) = ev_ver cid es i"
    using memop_body_complete [OF assms(1) k nw] acc by (auto simp: tacc_of_def)
  then show ?thesis
  proof cases
    case 1
    then have "to_rwm (?t, w) \<in> set rs" by (intro rs) (simp add: of_obj_def)
    with 1 show ?thesis by (force simp: covered_def to_rwm_def)
  next
    case 2
    from 2(2) have "l < thr_cnt ?t es" by (simp add: length_taccs)
    then obtain j where j: "j < length es" "ev_tid (es ! j) = ?t" "ev_memop es j = l" by (rule thr_pos_ex)
    then have "i < j" using ev_memop_less_iff [of i es j] assms(2) 2(1) by simp
    with 2 j taccs_nth [OF j(1), of cid] show ?thesis by (auto simp: covered_def tacc_of_def)
  qed
qed

lemma processed_logs_ok:
  assumes q: "min_queue memop_key que_gt sel" and n: "nthr < 128"
    and tids: "\<And>i. i < length es \<Longrightarrow> ev_tid (es ! i) < nthr"
    and objs: "\<And>i. i < length es \<Longrightarrow> ev_obj cid es i < nobj"
    and mlogs: "mlogs = map (\<lambda>t. memop_body nobj (taccs cid t es) @ [memop_end]) [0..<nthr]"
  shows "\<exists>files rls. process_memorder_log sel nobj mlogs = Some files \<and>
    load_wait_reader_log nobj files = Some rls \<and> readers_ok cid nobj es rls"
proof -
  let ?b = "\<lambda>t. memop_body nobj (taccs cid t es)"
  let ?log = "map (sorted_memop nobj) mlogs"
  note mono = taccs_mono [OF objs]
  have ent: "log_entries (?log ! t) = by_object nobj (?b t)" if "t < nthr" for t
    using that sorted_memop_entries [OF mono] by (simp add: mlogs)
  have "\<exists>files ls. merge_memop sel nobj ?log (int nthr) = Some files \<and>
      load_wait_reader_log nobj files = Some ls \<and> reader_logs_for nobj (map log_entries ?log) ls"
  proof (rule merge_load_ok [OF q])
    show "sorted (map memop_key (log_entries (?log ! t)))" if "t < length ?log" for t
      using that ent by_object_key_sorted [OF mono] by (simp add: mlogs)
    show "entry_ok nobj w" if "t < length ?log" "w \<in> set (log_entries (?log ! t))" for t w
      using that ent memop_body_ok [OF mono, where t1 = t] by (auto simp: mlogs by_object_def of_obj_def)
  qed (use n in \<open>simp add: mlogs to_tid_t_small\<close>)
  then obtain files rls where fr: "merge_memop sel nobj ?log (int nthr) = Some files"
      "load_wait_reader_log nobj files = Some rls" "reader_logs_for nobj (map log_entries ?log) rls" by blast
  have "Some [] \<notin> set ?log" using sorted_memop_nonempty [OF mono] by (auto simp: mlogs)
  then have proc: "process_memorder_log sel nobj mlogs = Some files"
    using fr(1) to_tid_t_small [of "int nthr"] n by (simp add: process_memorder_log_def merge_main_def mlogs)
  have ms: "mset (reader_entries (rls ! o')) = (\<Sum>t<nthr. mset (map (\<lambda>w. to_rwm (t, w)) (of_obj o' (?b t))))"
    if "o' < nobj" for o'
    using fr(3) that ent of_obj_by_object [OF that] by (simp add: reader_logs_for_def mlogs)
  have rs: "e \<in> set (reader_entries (rls ! o')) \<longleftrightarrow> (\<exists>t < nthr. \<exists>w \<in> set (of_obj o' (?b t)). e = to_rwm (t, w))"
    if "o' < nobj" for o' e
  proof -
    have "e \<in> set (reader_entries (rls ! o')) \<longleftrightarrow> e \<in># (\<Sum>t<nthr. mset (map (\<lambda>w. to_rwm (t, w)) (of_obj o' (?b t))))"
      using ms [OF that] by (metis set_mset_mset)
    then show ?thesis by (auto simp: set_mset_sum)
  qed
  have "reader_log_ok cid es o' (rls ! o')" if o': "o' < nobj" for o'
  proof -
    have "\<exists>i. read_at cid es o' e i" if "e \<in> set (reader_entries (rls ! o'))" for e
      using that rs [OF o', of e] trace_read_at by auto
    moreover have "covered cid es (reader_entries (rls ! o')) i"
      if "i < length es" "ev_obj cid es i = o'" "\<not> ev_write (es ! i)" for i
      using that rs [OF o'] tids by (intro trace_covered [OF mono]) auto
    ultimately show ?thesis using fr(3) o' by (simp add: reader_log_ok_def reader_logs_for_def)
  qed
  moreover have "length rls = nobj" using fr(3) by (simp add: reader_logs_for_def)
  ultimately show ?thesis using proc fr(2) by (auto simp: readers_ok_def)
qed

end
