(* ===== verification/Replay_Inv.thy ===== *)
theory Replay_Inv
  imports Replay Order_Logs
begin

text \<open>
  The invariant of the replay of a recorded run \<open>es\<close>: how the threads' counters, the objects'
  versions, the reader logs and the memory of a replay state relate to the positions of the run.
  The facts here do not mention steps; \<open>Replay_Correct\<close> shows that every step keeps them.
\<close>

section \<open>The version log\<close>

abbreviation version_end :: wait_version where
  "version_end \<equiv> \<lparr>wv_memop = -1, wv_version = -1\<rparr>"

definition entries_from :: "tacc list \<Rightarrow> nat \<Rightarrow> wait_version list" where
  "entries_from xs c = map (version_entry xs) (filter (logged xs) [c..<length xs])"

text \<open>The entries from access number \<open>c\<close> on are still to be used; the first has been read.\<close>

definition vptr_ok :: "tacc list \<Rightarrow> nat \<Rightarrow> replay_thr \<Rightarrow> bool" where
  "vptr_ok xs c r \<longleftrightarrow>
     (case entries_from xs c of
        [] \<Rightarrow> wv_memop (rt_wait_version r) = -1 \<and> rt_version_log r = [version_end]
      | w # ws \<Rightarrow> rt_wait_version r = w \<and> rt_version_log r = ws @ [version_end])"

lemma entries_from_step:
  "c < length xs \<Longrightarrow>
     entries_from xs c = (if logged xs c then [version_entry xs c] else []) @ entries_from xs (Suc c)"
  by (simp add: entries_from_def upt_conv_Cons)

lemma entries_from_end: "length xs \<le> c \<Longrightarrow> entries_from xs c = []"
  by (simp add: entries_from_def)

lemma entries_from_0: "entries_from xs 0 = version_spec xs"
  by (simp add: entries_from_def version_spec_def)

lemma entries_from_ge: "w \<in> set (entries_from xs c) \<Longrightarrow> int c \<le> wv_memop w"
  by (auto simp: entries_from_def version_entry_def)

lemma vptr_ok_pc [simp]: "vptr_ok xs c (r\<lparr>rt_pc := pc\<rparr>) = vptr_ok xs c r"
  by (simp add: vptr_ok_def split: list.splits)

lemma vptr_advance:
  assumes "rt_version_log r = entries_from xs c @ [version_end]"
  shows "\<exists>r'. next_wait_version_log r = Some r' \<and> vptr_ok xs c r' \<and> rt_memop r' = rt_memop r \<and>
    rt_vals r' = rt_vals r \<and> rt_pc r' = rt_pc r"
proof (cases "entries_from xs c")
  case Nil
  with assms show ?thesis by (simp add: next_wait_version_log_def vptr_ok_def)
next
  case (Cons w ws)
  then have "wv_memop w \<noteq> -1" using entries_from_ge [of w xs c] by auto
  with Cons assms show ?thesis by (simp add: next_wait_version_log_def vptr_ok_def)
qed

lemma vptr_init:
  "vptr_ok xs 0 (replay_init_thr (version_spec xs @ [version_end])) \<and>
   rt_memop (replay_init_thr (version_spec xs @ [version_end])) = 0 \<and>
   rt_vals (replay_init_thr (version_spec xs @ [version_end])) = [] \<and>
   rt_pc (replay_init_thr (version_spec xs @ [version_end])) = Run"
  using vptr_advance [of "\<lparr>rt_memop = 0, rt_wait_version = \<lparr>wv_memop = 0, wv_version = 0\<rparr>,
               rt_version_log = version_spec xs @ [version_end], rt_pc = Run, rt_vals = []\<rparr>" xs 0]
  by (auto simp: replay_init_thr_def entries_from_0 Let_def)

text \<open>The test on entry of \<open>wait_object_version\<close> finds out whether the access was logged.\<close>

lemma vptr_test:
  assumes "vptr_ok xs k r" "k < length xs"
  shows "int k = wv_memop (rt_wait_version r) \<longleftrightarrow> logged xs k"
proof (cases "logged xs k")
  case True
  then show ?thesis using assms by (simp add: vptr_ok_def entries_from_step version_entry_def)
next
  case False
  then have eq: "entries_from xs k = entries_from xs (Suc k)" using assms(2) by (simp add: entries_from_step)
  show ?thesis
  proof (cases "entries_from xs (Suc k)")
    case Nil
    with eq assms(1) False show ?thesis by (simp add: vptr_ok_def)
  next
    case (Cons w ws)
    then have "int (Suc k) \<le> wv_memop w" by (intro entries_from_ge [of w xs]) simp
    with Cons eq assms(1) False show ?thesis by (auto simp: vptr_ok_def)
  qed
qed

lemma vptr_skip:
  assumes "vptr_ok xs k r" "k < length xs" "\<not> logged xs k"
  shows "vptr_ok xs (Suc k) r"
  using assms by (simp add: vptr_ok_def entries_from_step)

lemma vptr_take:
  assumes "vptr_ok xs k r" "k < length xs" "logged xs k"
  shows "wv_version (rt_wait_version r) = ta_ver (xs ! k)"
    and "\<exists>r'. next_wait_version_log r = Some r' \<and> vptr_ok xs (Suc k) r' \<and> rt_memop r' = rt_memop r \<and>
      rt_vals r' = rt_vals r \<and> rt_pc r' = rt_pc r"
  using assms vptr_advance [of r xs "Suc k"] by (simp_all add: vptr_ok_def entries_from_step version_entry_def)

section \<open>Counters of a replay state\<close>

text \<open>The number of accesses a thread has counted, and the number it has performed: a thread that
  is about to count an access has already performed it.\<close>

definition kt :: "replay \<Rightarrow> tid_t \<Rightarrow> nat" where
  "kt s t = length (rt_vals (rp_thr s t))"

fun counting :: "rpc \<Rightarrow> bool" where
  "counting (Count v) = True"
| "counting pc = False"

definition is_done :: "event list \<Rightarrow> replay \<Rightarrow> nat \<Rightarrow> bool" where
  "is_done es s i \<longleftrightarrow> ev_memop es i < kt s (ev_tid (es ! i))"

definition is_cur :: "event list \<Rightarrow> replay \<Rightarrow> nat \<Rightarrow> bool" where
  "is_cur es s i \<longleftrightarrow> i < length es \<and> ev_memop es i = kt s (ev_tid (es ! i))"

definition perf :: "event list \<Rightarrow> replay \<Rightarrow> nat \<Rightarrow> bool" where
  "perf es s i \<longleftrightarrow> is_done es s i \<or> is_cur es s i \<and> counting (rt_pc (rp_thr s (ev_tid (es ! i))))"

definition pc_at :: "event list \<Rightarrow> replay \<Rightarrow> nat \<Rightarrow> rpc" where
  "pc_at es s i = rt_pc (rp_thr s (ev_tid (es ! i)))"

text \<open>The version of an object, its log's next entry, and whether the read behind an entry has been
  counted.\<close>

definition ov :: "replay \<Rightarrow> objid_t \<Rightarrow> version_t" where
  "ov s o' = obj_version s ! o'"

definition rn :: "replay \<Rightarrow> objid_t \<Rightarrow> nat" where
  "rn s o' = nat (rl_n (wait_reader_log s ! o'))"

definition rs :: "replay \<Rightarrow> objid_t \<Rightarrow> replay_wait_memop list" where
  "rs s o' = reader_entries (wait_reader_log s ! o')"

definition entry_done :: "replay \<Rightarrow> replay_wait_memop \<Rightarrow> bool" where
  "entry_done s e \<longleftrightarrow> rwm_memop e < int (kt s (rwm_tid e))"

definition used_done :: "replay \<Rightarrow> objid_t \<Rightarrow> bool" where
  "used_done s o' \<longleftrightarrow> (\<forall>e \<in> set (take (rn s o') (rs s o')). rwm_version e = ov s o' \<longrightarrow> entry_done s e)"

definition readers_done :: "replay \<Rightarrow> objid_t \<Rightarrow> bool" where
  "readers_done s o' \<longleftrightarrow>
     used_done s o' \<and> (\<forall>e \<in> set (drop (rn s o') (rs s o')). ov s o' < rwm_version e)"

section \<open>The invariant\<close>

fun past_check :: "rpc \<Rightarrow> bool" where
  "past_check Run = False"
| "past_check WaitVersion = False"
| "past_check CheckVersion = False"
| "past_check pc = True"

fun writing :: "rpc \<Rightarrow> bool" where
  "writing NextReader = True"
| "writing ReaderLocked = True"
| "writing (WaitReader e) = True"
| "writing StoreMem = True"
| "writing LoadVersion = True"
| "writing (StoreVersion v) = True"
| "writing pc = False"

fun stored :: "rpc \<Rightarrow> bool" where
  "stored LoadVersion = True"
| "stored (StoreVersion v) = True"
| "stored pc = False"

text \<open>A thread: its counter, the values it has seen, and its place in the version log.\<close>

definition thr_inv :: "test_prog \<Rightarrow> event list \<Rightarrow> replay \<Rightarrow> tid_t \<Rightarrow> bool" where
  "thr_inv P es s t \<longleftrightarrow>
     (let r = rp_thr s t; k = kt s t
      in rt_memop r = int k \<and> k \<le> thr_cnt t es \<and> rt_vals r = thr_vals t es k \<and>
         (k = thr_cnt t es \<longrightarrow> rt_pc r = Run \<or> rt_pc r = Done) \<and>
         vptr_ok (taccs (tp_cid P) t es) (if past_check (rt_pc r) then Suc k else k) r)"

text \<open>The access a thread is at.\<close>

definition cur_inv :: "test_prog \<Rightarrow> event list \<Rightarrow> replay \<Rightarrow> nat \<Rightarrow> bool" where
  "cur_inv P es s i \<longleftrightarrow>
     (let o' = ev_obj (tp_cid P) es i; v = ev_ver (tp_cid P) es i; e = es ! i;
          lg = logged (taccs (tp_cid P) (ev_tid e) es) (ev_memop es i)
      in case pc_at es s i of
           Run \<Rightarrow> True
         | WaitVersion \<Rightarrow> lg
         | CheckVersion \<Rightarrow> lg \<and> v \<le> ov s o'
         | ReadMem \<Rightarrow> \<not> ev_write e \<and> v = ov s o'
         | NextReader \<Rightarrow> ev_write e \<and> v = ov s o' \<and> used_done s o'
         | ReaderLocked \<Rightarrow> ev_write e \<and> v = ov s o' \<and> used_done s o'
         | WaitReader f \<Rightarrow> ev_write e \<and> v = ov s o' \<and> f \<in> set (rs s o') \<and> rwm_version f = v \<and>
             (\<forall>x \<in> set (take (rn s o') (rs s o')). rwm_version x = ov s o' \<longrightarrow> x = f \<or> entry_done s x)
         | StoreMem \<Rightarrow> ev_write e \<and> v = ov s o' \<and> readers_done s o'
         | LoadVersion \<Rightarrow> ev_write e \<and> v = ov s o' \<and> readers_done s o' \<and> rp_mem s (ev_addr e) = ev_val e
         | StoreVersion w \<Rightarrow> ev_write e \<and> v = ov s o' \<and> readers_done s o' \<and> rp_mem s (ev_addr e) = ev_val e \<and> w = v
         | Count w \<Rightarrow> w = ev_val e
         | Done \<Rightarrow> False
         | Fault f \<Rightarrow> False)"

text \<open>The order of accesses: a write is performed when its object's version has moved past it, and
  all reads of a version are counted before it is overwritten.\<close>

definition ord_inv :: "test_prog \<Rightarrow> event list \<Rightarrow> replay \<Rightarrow> nat \<Rightarrow> bool" where
  "ord_inv P es s i \<longleftrightarrow>
     (let v = ev_ver (tp_cid P) es i; w = ov s (ev_obj (tp_cid P) es i)
      in if ev_write (es ! i) then perf es s i \<longleftrightarrow> v < w
         else (perf es s i \<longrightarrow> v \<le> w) \<and> (v < w \<longrightarrow> is_done es s i))"

text \<open>An object: its version counts its writes; its log, sorted by versions, is used up to the
  entries of the current version, and only a thread about to write the object uses it.\<close>

definition log_static :: "test_prog \<Rightarrow> event list \<Rightarrow> objid_t \<Rightarrow> replay_wait_memop_log \<Rightarrow> bool" where
  "log_static P es o' l \<longleftrightarrow>
     nat (rl_size l) = length (reader_entries l) \<and> sorted (map rwm_version (reader_entries l)) \<and>
     (\<forall>e \<in> set (reader_entries l). \<exists>i. read_at (tp_cid P) es o' e i) \<and>
     (\<forall>i < length es. ev_obj (tp_cid P) es i = o' \<longrightarrow> \<not> ev_write (es ! i) \<longrightarrow>
        covered (tp_cid P) es (reader_entries l) i)"

definition obj_inv :: "test_prog \<Rightarrow> event list \<Rightarrow> replay \<Rightarrow> objid_t \<Rightarrow> bool" where
  "obj_inv P es s o' \<longleftrightarrow>
     (let l = wait_reader_log s ! o'
      in log_static P es o' l \<and> 0 \<le> rl_n l \<and> rn s o' \<le> length (rs s o') \<and>
         even (ov s o') \<and> 0 \<le> ov s o' \<and> ov s o' \<le> 2 * int (nwrites (tp_cid P) o' es) \<and>
         (\<forall>e \<in> set (take (rn s o') (rs s o')). rwm_version e \<le> ov s o') \<and>
         (\<forall>e \<in> set (drop (rn s o') (rs s o')). ov s o' \<le> rwm_version e) \<and>
         ((\<exists>e \<in> set (take (rn s o') (rs s o')). rwm_version e = ov s o') \<longrightarrow>
            (\<exists>i. is_cur es s i \<and> ev_obj (tp_cid P) es i = o' \<and> writing (pc_at es s i))) \<and>
         (rl_mutex l \<longrightarrow> (\<exists>i. is_cur es s i \<and> ev_obj (tp_cid P) es i = o' \<and> pc_at es s i = ReaderLocked)))"

text \<open>The memory is the one of the objects' versions, but for the stores not yet published.\<close>

definition mem_inv :: "test_prog \<Rightarrow> event list \<Rightarrow> replay \<Rightarrow> addr_t \<Rightarrow> bool" where
  "mem_inv P es s a \<longleftrightarrow>
     (\<exists>i. is_cur es s i \<and> ev_addr (es ! i) = a \<and> stored (pc_at es s i)) \<or>
     rp_mem s a = vmem P es a (nat (ov s (tp_cid P a)) div 2)"

definition replay_inv :: "test_prog \<Rightarrow> event list \<Rightarrow> replay \<Rightarrow> bool" where
  "replay_inv P es s \<longleftrightarrow>
     length (obj_version s) = tp_nobj P \<and> length (wait_reader_log s) = tp_nobj P \<and>
     (\<forall>t < tp_nthr P. thr_inv P es s t) \<and>
     (\<forall>i. is_cur es s i \<longrightarrow> cur_inv P es s i) \<and>
     (\<forall>i < length es. ord_inv P es s i) \<and>
     (\<forall>o' < tp_nobj P. obj_inv P es s o') \<and>
     (\<forall>a. tp_cid P a < tp_nobj P \<longrightarrow> mem_inv P es s a)"

lemma replay_invD:
  assumes "replay_inv P es s"
  shows "length (obj_version s) = tp_nobj P" "length (wait_reader_log s) = tp_nobj P"
    and "t < tp_nthr P \<Longrightarrow> thr_inv P es s t"
    and "is_cur es s i \<Longrightarrow> cur_inv P es s i"
    and "i < length es \<Longrightarrow> ord_inv P es s i"
    and "o' < tp_nobj P \<Longrightarrow> obj_inv P es s o'"
    and "tp_cid P a < tp_nobj P \<Longrightarrow> mem_inv P es s a"
  using assms by (simp_all add: replay_inv_def)

section \<open>Consequences\<close>

lemma is_cur_length: "is_cur es s i \<Longrightarrow> i < length es"
  by (simp add: is_cur_def)

lemma is_cur_inj:
  assumes "is_cur es s i" "is_cur es s j" "ev_tid (es ! i) = ev_tid (es ! j)"
  shows "i = j"
  using assms ev_memop_inj [of i es j] by (simp add: is_cur_def)

lemma writing_cur:
  assumes "cur_inv P es s i" "writing (pc_at es s i)"
  shows "ev_write (es ! i)" "ev_ver (tp_cid P) es i = ov s (ev_obj (tp_cid P) es i)"
  using assms by (cases "pc_at es s i"; simp add: cur_inv_def Let_def)+

lemma stored_writing: "stored pc \<Longrightarrow> writing pc"
  by (cases pc) simp_all

text \<open>One thread at a time is about to write an object.\<close>

lemma writer_unique:
  assumes "replay_inv P es s" "is_cur es s i" "is_cur es s j"
    and "writing (pc_at es s i)" "writing (pc_at es s j)" "ev_obj (tp_cid P) es i = ev_obj (tp_cid P) es j"
  shows "i = j"
  using assms writing_cur replay_invD(4) is_cur_length
  by (intro write_ver_inj [of i es j "tp_cid P"]) metis+

text \<open>When it is past \<open>wait_reader\<close>, every read of the version it overwrites has been counted.\<close>

lemma reads_done:
  assumes inv: "replay_inv P es s" and run: "run_of P es" and i: "is_cur es s i"
    and pc: "pc_at es s i = StoreMem \<or> stored (pc_at es s i)"
    and j: "j < length es" "\<not> ev_write (es ! j)" "ev_obj (tp_cid P) es j = ev_obj (tp_cid P) es i"
      "ev_ver (tp_cid P) es j = ov s (ev_obj (tp_cid P) es i)"
  shows "is_done es s j"
proof -
  let ?o = "ev_obj (tp_cid P) es i"
  have cur: "ev_write (es ! i)" "ev_ver (tp_cid P) es i = ov s ?o" "readers_done s ?o"
    using replay_invD(4) [OF inv i] pc by (cases "pc_at es s i"; simp add: cur_inv_def Let_def)+
  have len: "i < length es" using i by (rule is_cur_length)
  have "?o < tp_nobj P" using run_ofD(2) [OF run len] .
  from replay_invD(6) [OF inv this] have "log_static P es ?o (wait_reader_log s ! ?o)"
    by (simp add: obj_inv_def Let_def)
  then have "covered (tp_cid P) es (rs s ?o) j" using j by (simp add: log_static_def rs_def)
  then consider e where "e \<in> set (rs s ?o)" "rwm_version e = ov s ?o" "rwm_tid e = ev_tid (es ! j)"
      "int (ev_memop es j) \<le> rwm_memop e"
    | l where "j < l" "l < length es" "ev_write (es ! l)" "ev_obj (tp_cid P) es l = ?o"
      "ev_ver (tp_cid P) es l = ov s ?o" "ev_tid (es ! l) = ev_tid (es ! j)"
    using j(3,4) by (auto simp: covered_def)
  then show ?thesis
  proof cases
    case 1
    have "e \<in> set (take (rn s ?o) (rs s ?o)) \<or> e \<in> set (drop (rn s ?o) (rs s ?o))"
      using 1(1) by (metis Un_iff append_take_drop_id set_append)
    then have "entry_done s e" using cur(3) 1(2) by (auto simp: readers_done_def used_done_def)
    with 1 show ?thesis by (simp add: entry_done_def is_done_def)
  next
    case 2
    have "l = i" using 2 cur len by (intro write_ver_inj [of l es i "tp_cid P"]) simp_all
    then have "ev_memop es j < ev_memop es i" using ev_memop_mono [OF 2(1,2)] 2(6) by simp
    then show ?thesis using i 2(6) \<open>l = i\<close> by (simp add: is_done_def is_cur_def)
  qed
qed

text \<open>An access that is still to be performed finds its object at its version or before it.\<close>

lemma cur_version_ge:
  assumes "replay_inv P es s" "is_cur es s i" "\<not> counting (pc_at es s i)"
  shows "ov s (ev_obj (tp_cid P) es i) \<le> ev_ver (tp_cid P) es i"
proof -
  have "\<not> perf es s i" using assms(2,3) by (simp add: perf_def is_done_def is_cur_def pc_at_def)
  moreover have "\<not> is_done es s i" using assms(2) by (simp add: is_done_def is_cur_def)
  ultimately show ?thesis
    using replay_invD(5) [OF assms(1) is_cur_length [OF assms(2)]]
    by (auto simp: ord_inv_def Let_def split: if_splits)
qed

text \<open>An access that was not logged finds its object at its version: an earlier access of its
  thread has seen to that.\<close>

lemma unlogged_earlier:
  assumes i: "i < length es" and nl: "\<not> logged (taccs cid (ev_tid (es ! i)) es) (ev_memop es i)"
  shows "ev_ver cid es i = 0 \<or> (\<exists>p < length es. ev_tid (es ! p) = ev_tid (es ! i) \<and>
    ev_memop es p < ev_memop es i \<and> ev_obj cid es p = ev_obj cid es i \<and> ev_ver cid es p = ev_ver cid es i)"
proof -
  let ?t = "ev_tid (es ! i)" and ?k = "ev_memop es i"
  let ?xs = "taccs cid ?t es"
  have k: "?k < length ?xs" using i by (simp add: length_taccs ev_memop_less)
  have x: "?xs ! ?k = tacc_of cid es i" using i by (rule taccs_nth)
  show ?thesis
  proof (cases "last_on (ta_obj (?xs ! ?k)) (take ?k ?xs)")
    case None
    with nl x show ?thesis by (simp add: logged_def tacc_of_def)
  next
    case (Some q)
    then have q: "q < ?k" "ta_obj (?xs ! q) = ta_obj (?xs ! ?k)" "ta_ver (?xs ! q) = ta_ver (?xs ! ?k)"
      using nl last_on_SomeD [OF Some] k by (simp_all add: logged_def)
    then have "q < thr_cnt ?t es" using k by (simp add: length_taccs)
    then obtain p where p: "p < length es" "ev_tid (es ! p) = ?t" "ev_memop es p = q" by (rule thr_pos_ex)
    then have "?xs ! q = tacc_of cid es p" using taccs_nth [OF p(1), of cid] by simp
    with p q x show ?thesis by (auto simp: tacc_of_def)
  qed
qed

lemma unlogged_version:
  assumes inv: "replay_inv P es s" and run: "run_of P es" and i: "is_cur es s i"
    and nl: "\<not> logged (taccs (tp_cid P) (ev_tid (es ! i)) es) (ev_memop es i)"
  shows "ev_ver (tp_cid P) es i \<le> ov s (ev_obj (tp_cid P) es i)"
proof -
  have len: "i < length es" using i by (rule is_cur_length)
  from unlogged_earlier [OF len nl] show ?thesis
  proof
    assume "ev_ver (tp_cid P) es i = 0"
    then show ?thesis
      using replay_invD(6) [OF inv run_ofD(2) [OF run len]] by (simp add: obj_inv_def Let_def)
  next
    assume "\<exists>p < length es. ev_tid (es ! p) = ev_tid (es ! i) \<and> ev_memop es p < ev_memop es i \<and>
      ev_obj (tp_cid P) es p = ev_obj (tp_cid P) es i \<and> ev_ver (tp_cid P) es p = ev_ver (tp_cid P) es i"
    then obtain p where p: "p < length es" "ev_tid (es ! p) = ev_tid (es ! i)" "ev_memop es p < ev_memop es i"
      "ev_obj (tp_cid P) es p = ev_obj (tp_cid P) es i" "ev_ver (tp_cid P) es p = ev_ver (tp_cid P) es i" by blast
    then have "perf es s p" using i by (simp add: perf_def is_done_def is_cur_def)
    with replay_invD(5) [OF inv p(1)] p(4,5) show ?thesis
      by (auto simp: ord_inv_def Let_def split: if_splits)
  qed
qed

text \<open>What a read finds in memory.\<close>

lemma read_value:
  assumes inv: "replay_inv P es s" and run: "run_of P es" and i: "is_cur es s i"
    and pc: "pc_at es s i = ReadMem"
  shows "rp_mem s (ev_addr (es ! i)) = ev_val (es ! i)"
proof -
  let ?a = "ev_addr (es ! i)"
  have len: "i < length es" using i by (rule is_cur_length)
  have cur: "\<not> ev_write (es ! i)" "ev_ver (tp_cid P) es i = ov s (ev_obj (tp_cid P) es i)"
    using replay_invD(4) [OF inv i] pc by (simp_all add: cur_inv_def Let_def)
  have "\<not> (\<exists>j. is_cur es s j \<and> ev_addr (es ! j) = ?a \<and> stored (pc_at es s j))"
  proof
    assume "\<exists>j. is_cur es s j \<and> ev_addr (es ! j) = ?a \<and> stored (pc_at es s j)"
    then obtain j where j: "is_cur es s j" "ev_addr (es ! j) = ?a" "stored (pc_at es s j)" by blast
    then have "ev_obj (tp_cid P) es i = ev_obj (tp_cid P) es j" by (simp add: ev_obj_def)
    then have "is_done es s i" using j cur len by (intro reads_done [OF inv run j(1)]) auto
    then show False using i by (simp add: is_done_def is_cur_def)
  qed
  moreover have "tp_cid P ?a < tp_nobj P" using run_ofD(2) [OF run len] by (simp add: ev_obj_def)
  ultimately have "rp_mem s ?a = vmem P es ?a (nat (ov s (tp_cid P ?a)) div 2)"
    using replay_invD(7) [OF inv] by (auto simp: mem_inv_def)
  also have "\<dots> = ev_val (es ! i)"
    using read_vmem [OF run len cur(1)] cur(2) by (simp add: ev_obj_def)
  finally show ?thesis .
qed

end
