(* ===== verification/Replay_Correct.thy ===== *)
theory Replay_Correct
  imports Replay_Inv
begin

text \<open>
  Every step of a replay keeps the invariant of \<open>Replay_Inv\<close>. The steps are of five kinds: those
  that touch at most the thread and the reader log of its object, the load of a read, the store of
  a write, the publication of the new version, and the count of the access.
\<close>

section \<open>What a step leaves alone\<close>

lemma set_thr_view [simp]:
  "obj_version (set_thr t r s) = obj_version s" "wait_reader_log (set_thr t r s) = wait_reader_log s"
  "rp_mem (set_thr t r s) = rp_mem s" "rp_thr (set_thr t r s) = (rp_thr s)(t := r)"
  by (simp_all add: set_thr_def)

lemma set_reader_log_view [simp]:
  "obj_version (set_reader_log o' l s) = obj_version s"
  "wait_reader_log (set_reader_log o' l s) = (wait_reader_log s)[o' := l]"
  "rp_mem (set_reader_log o' l s) = rp_mem s" "rp_thr (set_reader_log o' l s) = rp_thr s"
  by (simp_all add: set_reader_log_def)

lemma cur_inv_cong:
  assumes "cur_inv P es s j" "pc_at es s' j = pc_at es s j"
    and "ov s' (ev_obj (tp_cid P) es j) = ov s (ev_obj (tp_cid P) es j)"
    and "rs s' (ev_obj (tp_cid P) es j) = rs s (ev_obj (tp_cid P) es j)"
    and "writing (pc_at es s j) \<Longrightarrow> rn s' (ev_obj (tp_cid P) es j) = rn s (ev_obj (tp_cid P) es j)"
    and "stored (pc_at es s j) \<Longrightarrow> rp_mem s' (ev_addr (es ! j)) = rp_mem s (ev_addr (es ! j))"
    and "\<And>e. entry_done s e \<Longrightarrow> entry_done s' e"
  shows "cur_inv P es s' j"
  using assms by (cases "pc_at es s j") (fastforce simp: cur_inv_def Let_def used_done_def readers_done_def)+

lemma cur_inv_waiting:
  assumes "cur_inv P es s j" "pc_at es s' j = pc_at es s j"
    and "ov s (ev_obj (tp_cid P) es j) \<le> ov s' (ev_obj (tp_cid P) es j)"
    and "\<not> writing (pc_at es s j)" "pc_at es s j \<noteq> ReadMem"
  shows "cur_inv P es s' j"
  using assms by (cases "pc_at es s j") (simp_all add: cur_inv_def Let_def)

lemma obj_inv_cong:
  assumes "obj_inv P es s o'" "wait_reader_log s' ! o' = wait_reader_log s ! o'" "ov s' o' = ov s o'"
    and "\<And>i. is_cur es s i \<Longrightarrow> ev_obj (tp_cid P) es i = o' \<Longrightarrow> writing (pc_at es s i) \<Longrightarrow>
      is_cur es s' i \<and> writing (pc_at es s' i) \<and> (pc_at es s i = ReaderLocked \<longrightarrow> pc_at es s' i = ReaderLocked)"
  shows "obj_inv P es s' o'"
proof -
  have eq: "rn s' o' = rn s o'" "rs s' o' = rs s o'" using assms(2) by (simp_all add: rn_def rs_def)
  have lock: "is_cur es s' i \<and> pc_at es s' i = ReaderLocked"
    if "is_cur es s i" "ev_obj (tp_cid P) es i = o'" "pc_at es s i = ReaderLocked" for i
    using assms(4) [of i] that by simp
  show ?thesis
    using assms(1) unfolding obj_inv_def Let_def assms(2,3) eq
    by (metis assms(4) lock)
qed

lemma mem_inv_cong:
  assumes "mem_inv P es s a" "rp_mem s' a = rp_mem s a" "ov s' (tp_cid P a) = ov s (tp_cid P a)"
    and "\<And>i. is_cur es s i \<Longrightarrow> ev_addr (es ! i) = a \<Longrightarrow> stored (pc_at es s i) \<Longrightarrow>
      is_cur es s' i \<and> stored (pc_at es s' i)"
  shows "mem_inv P es s' a"
  using assms by (auto simp: mem_inv_def)

lemma ord_inv_cong:
  "ord_inv P es s i \<Longrightarrow> ov s' (ev_obj (tp_cid P) es i) = ov s (ev_obj (tp_cid P) es i) \<Longrightarrow>
     perf es s' i = perf es s i \<Longrightarrow> (is_done es s i \<Longrightarrow> is_done es s' i) \<Longrightarrow> ord_inv P es s' i"
  by (auto simp: ord_inv_def Let_def)

lemma thr_inv_cong: "thr_inv P es s t \<Longrightarrow> rp_thr s' t = rp_thr s t \<Longrightarrow> thr_inv P es s' t"
  by (simp add: thr_inv_def kt_def)

text \<open>A step of thread \<open>t\<close> leaves the other threads and the sizes of the arrays alone.\<close>

lemma replay_inv_frame:
  assumes inv: "replay_inv P es s" and others: "\<And>u. u \<noteq> t \<Longrightarrow> rp_thr s' u = rp_thr s u"
    and len: "length (obj_version s') = length (obj_version s)" "length (wait_reader_log s') = length (wait_reader_log s)"
    and "t < tp_nthr P \<Longrightarrow> thr_inv P es s' t"
    and "\<And>j. j < length es \<Longrightarrow> ord_inv P es s' j"
    and "\<And>j. is_cur es s' j \<Longrightarrow> cur_inv P es s' j"
    and "\<And>u. u < tp_nobj P \<Longrightarrow> obj_inv P es s' u"
    and "\<And>a. tp_cid P a < tp_nobj P \<Longrightarrow> mem_inv P es s' a"
  shows "replay_inv P es s'"
proof -
  have "thr_inv P es s' u" if "u < tp_nthr P" for u
    using assms(5) that thr_inv_cong [OF replay_invD(3) [OF inv that] others] by (cases "u = t") simp_all
  then show ?thesis using replay_invD(1,2) [OF inv] assms(3-) by (simp add: replay_inv_def)
qed

lemma other_pc:
  assumes "is_cur es s i" "is_cur es s j" "j \<noteq> i" "\<And>u. u \<noteq> ev_tid (es ! i) \<Longrightarrow> rp_thr s' u = rp_thr s u"
  shows "pc_at es s' j = pc_at es s j"
proof -
  have "ev_tid (es ! j) \<noteq> ev_tid (es ! i)" using is_cur_inj [OF assms(2,1)] assms(3) by blast
  then show ?thesis by (simp add: pc_at_def assms(4))
qed

lemma obj_inv_other:
  assumes inv: "replay_inv P es s" and u: "u < tp_nobj P" "u \<noteq> ev_obj (tp_cid P) es i"
    and same: "is_cur es s' = is_cur es s" "wait_reader_log s' ! u = wait_reader_log s ! u" "ov s' u = ov s u"
    and pc: "\<And>j. is_cur es s j \<Longrightarrow> j \<noteq> i \<Longrightarrow> pc_at es s' j = pc_at es s j"
  shows "obj_inv P es s' u"
proof (rule obj_inv_cong [OF replay_invD(6) [OF inv u(1)] same(2,3)])
  fix j assume j: "is_cur es s j" "ev_obj (tp_cid P) es j = u" "writing (pc_at es s j)"
  then have "pc_at es s' j = pc_at es s j" using pc u(2) by blast
  with j same(1) show "is_cur es s' j \<and> writing (pc_at es s' j) \<and> (pc_at es s j = ReaderLocked \<longrightarrow> pc_at es s' j = ReaderLocked)"
    by simp
qed

lemma mem_inv_other:
  assumes inv: "replay_inv P es s" and a: "tp_cid P a < tp_nobj P" "a \<noteq> ev_addr (es ! i)"
    and same: "is_cur es s' = is_cur es s" "rp_mem s' a = rp_mem s a" "ov s' (tp_cid P a) = ov s (tp_cid P a)"
    and pc: "\<And>j. is_cur es s j \<Longrightarrow> j \<noteq> i \<Longrightarrow> pc_at es s' j = pc_at es s j"
  shows "mem_inv P es s' a"
proof (rule mem_inv_cong [OF replay_invD(7) [OF inv a(1)] same(2,3)])
  fix j assume j: "is_cur es s j" "ev_addr (es ! j) = a" "stored (pc_at es s j)"
  then have "pc_at es s' j = pc_at es s j" using pc a(2) by blast
  with j same(1) show "is_cur es s' j \<and> stored (pc_at es s' j)" by simp
qed

section \<open>Steps on the thread and its reader log\<close>

lemma same_vals:
  assumes "\<And>u. rt_vals (rp_thr s' u) = rt_vals (rp_thr s u)"
  shows "kt s' = kt s" "is_cur es s' = is_cur es s" "is_done es s' = is_done es s" "entry_done s' = entry_done s"
  using assms by (simp_all add: fun_eq_iff kt_def is_cur_def is_done_def entry_done_def)

text \<open>Only the object's writer moves on in its log, so the others' writers are not disturbed.\<close>

lemma quiet_cur:
  assumes inv: "replay_inv P es s" and i: "is_cur es s i" and j: "is_cur es s j" "j \<noteq> i" and pc: "pc_at es s' j = pc_at es s j"
    and same: "ov s' = ov s" "rs s' = rs s" "rp_mem s' = rp_mem s" "entry_done s' = entry_done s"
    and n: "\<And>u. u \<noteq> ev_obj (tp_cid P) es i \<or> \<not> writing (pc_at es s i) \<Longrightarrow> rn s' u = rn s u"
  shows "cur_inv P es s' j"
proof (rule cur_inv_cong [OF replay_invD(4) [OF inv j(1)] pc])
  show "rn s' (ev_obj (tp_cid P) es j) = rn s (ev_obj (tp_cid P) es j)" if "writing (pc_at es s j)"
    using writer_unique [OF inv j(1) i that] j(2) by (intro n) blast
qed (simp_all add: same)

lemma quiet_step:
  assumes inv: "replay_inv P es s" and run: "run_of P es" and i: "is_cur es s i"
    and t: "t = ev_tid (es ! i)" and o': "o' = ev_obj (tp_cid P) es i"
    and s': "s' = set_thr t r' (set_reader_log o' l' s)" and vals: "rt_vals r' = rt_vals (rp_thr s t)"
    and l': "rl_log l' = rl_log (wait_reader_log s ! o')" "rl_size l' = rl_size (wait_reader_log s ! o')"
    and new: "thr_inv P es s' t" "cur_inv P es s' i" "obj_inv P es s' o'"
    and pcs: "counting (rt_pc r') = counting (rt_pc (rp_thr s t))" "stored (rt_pc r') = stored (rt_pc (rp_thr s t))"
    and n: "rl_n l' = rl_n (wait_reader_log s ! o') \<or> writing (rt_pc (rp_thr s t))"
  shows "replay_inv P es s'"
proof -
  have len: "i < length es" using i by (rule is_cur_length)
  have on: "o' < tp_nobj P" using run_ofD(2) [OF run len] o' by simp
  note lens = replay_invD(1,2) [OF inv]
  have view: "obj_version s' = obj_version s" "wait_reader_log s' = (wait_reader_log s)[o' := l']"
    "rp_mem s' = rp_mem s" "rp_thr s' = (rp_thr s)(t := r')" using s' by simp_all
  have "rt_vals (rp_thr s' u) = rt_vals (rp_thr s u)" for u using view vals by simp
  note same [simp] = same_vals [OF this]
  have others: "rp_thr s' u = rp_thr s u" if "u \<noteq> t" for u using that view by simp
  note pc = other_pc [OF i _ _ others [unfolded t]]
  have ov [simp]: "ov s' = ov s" using view by (simp add: fun_eq_iff ov_def)
  have rsx [simp]: "rs s' = rs s"
    using view l' lens on by (auto simp: fun_eq_iff rs_def reader_entries_def nth_list_update)
  have perf: "perf es s' j = perf es s j" for j
    using pcs view t by (simp add: perf_def)
  show ?thesis
  proof (rule replay_inv_frame [OF inv others])
    show "ord_inv P es s' j" if "j < length es" for j
      using replay_invD(5) [OF inv that] perf by (auto intro: ord_inv_cong)
    have "rn s' u = rn s u" if "u \<noteq> o' \<or> \<not> writing (pc_at es s i)" for u
      using that n view lens on t by (auto simp: rn_def pc_at_def nth_list_update)
    then show "cur_inv P es s' j" if "is_cur es s' j" for j
      using that new(2) view o' quiet_cur [OF inv i _ _ pc] by (cases "j = i") simp_all
    show "obj_inv P es s' u" if "u < tp_nobj P" for u
      using new(3) view that o' pc by (cases "u = o'") (auto intro: obj_inv_other [OF inv])
    show "mem_inv P es s' a" if "tp_cid P a < tp_nobj P" for a
      using replay_invD(7) [OF inv that] pc view pcs t
      by (intro mem_inv_cong [of P es s a s']) (auto simp: pc_at_def)
  qed (use new view in simp_all)
qed

lemma counting_stage: "writing pc \<Longrightarrow> \<not> counting pc" "stored pc \<Longrightarrow> \<not> counting pc"
  by (cases pc; simp)+

section \<open>The load of a read\<close>

lemma load_step:
  assumes inv: "replay_inv P es s" and run: "run_of P es" and i: "is_cur es s i"
    and t: "t = ev_tid (es ! i)" and tn: "t < tp_nthr P" and pc: "rt_pc (rp_thr s t) = ReadMem"
    and s': "s' = goto t (Count (rp_mem s (ev_addr (es ! i)))) s"
  shows "replay_inv P es s'"
proof -
  have len: "i < length es" using i by (rule is_cur_length)
  have view: "obj_version s' = obj_version s" "wait_reader_log s' = wait_reader_log s" "rp_mem s' = rp_mem s"
    "rp_thr s' = (rp_thr s)(t := (rp_thr s t)\<lparr>rt_pc := Count (rp_mem s (ev_addr (es ! i)))\<rparr>)"
    using s' by (simp_all add: goto_def)
  have "rt_vals (rp_thr s' u) = rt_vals (rp_thr s u)" for u using view by simp
  note same [simp] = same_vals [OF this]
  have others: "rp_thr s' u = rp_thr s u" if "u \<noteq> t" for u using that view by simp
  note pcj = other_pc [OF i _ _ others [unfolded t]]
  have pci: "pc_at es s i = ReadMem" "pc_at es s' i = Count (ev_val (es ! i))"
    using pc t view read_value [OF inv run i] by (simp_all add: pc_at_def)
  have ovx [simp]: "ov s' = ov s" "rs s' = rs s" "rn s' = rn s"
    using view by (simp_all add: fun_eq_iff ov_def rs_def rn_def)
  have cur: "\<not> ev_write (es ! i)" "ev_ver (tp_cid P) es i = ov s (ev_obj (tp_cid P) es i)"
    using replay_invD(4) [OF inv i] pci by (simp_all add: cur_inv_def Let_def)
  have keep: "is_cur es s' j \<and> pc_at es s' j = pc_at es s j"
    if "is_cur es s j" "writing (pc_at es s j)" for j
    using pcj [OF that(1)] that pci(1) by (cases "j = i") simp_all
  have perf: "perf es s' j = perf es s j" if "j \<noteq> i" for j
    using that is_cur_inj [OF i, of j] t view by (auto simp: perf_def)
  show ?thesis
  proof (rule replay_inv_frame [OF inv others])
    show "thr_inv P es s' t"
      using replay_invD(3) [OF inv tn] view pc by (auto simp: thr_inv_def Let_def)
    show "ord_inv P es s' j" if "j < length es" for j
      using replay_invD(5) [OF inv that] perf [of j] cur
      by (cases "j = i") (auto simp: ord_inv_def Let_def)
    show "cur_inv P es s' j" if "is_cur es s' j" for j
      using that replay_invD(4) [OF inv, of j] pcj [of j] view pci
      by (cases "j = i") (simp add: cur_inv_def, auto intro: cur_inv_cong)
    show "obj_inv P es s' u" if "u < tp_nobj P" for u
      using view keep by (intro obj_inv_cong [OF replay_invD(6) [OF inv that]]) simp_all
    show "mem_inv P es s' a" if "tp_cid P a < tp_nobj P" for a
      using view keep [OF _ stored_writing] by (intro mem_inv_cong [OF replay_invD(7) [OF inv that]]) simp_all
  qed (use view in simp_all)
qed

section \<open>The count of an access\<close>

lemma count_thr:
  assumes inv: "replay_inv P es s" and i: "is_cur es s i" and t: "t = ev_tid (es ! i)" "t < tp_nthr P"
    and pc: "rt_pc (rp_thr s t) = Count v" and s': "s' = count_memop t v s"
  shows "thr_inv P es s' t"
proof -
  have len: "i < length es" using i by (rule is_cur_length)
  have v: "v = ev_val (es ! i)"
    using replay_invD(4) [OF inv i] pc t by (simp add: cur_inv_def pc_at_def)
  have k: "ev_memop es i = kt s t" using i t by (simp add: is_cur_def)
  have less: "kt s t < thr_cnt t es" using ev_memop_less [OF len] k t by simp
  moreover have "thr_evs t es ! kt s t = es ! i" using thr_evs_nth [OF len] k t by simp
  ultimately have "thr_vals t es (Suc (kt s t)) = thr_vals t es (kt s t) @ [v]"
    using v by (simp add: thr_vals_def thr_cnt_def take_Suc_conv_app_nth)
  moreover have "kt s' t = Suc (kt s t)" using s' by (simp add: kt_def count_memop_def Let_def)
  ultimately show ?thesis
    using replay_invD(3) [OF inv t(2)] less s' pc
    by (simp add: count_memop_def thr_inv_def Let_def vptr_ok_def cong: list.case_cong)
qed

lemma count_step:
  assumes inv: "replay_inv P es s" and run: "run_of P es" and i: "is_cur es s i"
    and t: "t = ev_tid (es ! i)" and tn: "t < tp_nthr P" and pc: "rt_pc (rp_thr s t) = Count v"
    and s': "s' = count_memop t v s"
  shows "replay_inv P es s'"
proof -
  let ?r = "rp_thr s t"
  have view: "obj_version s' = obj_version s" "wait_reader_log s' = wait_reader_log s" "rp_mem s' = rp_mem s"
    "rp_thr s' = (rp_thr s)(t := ?r\<lparr>rt_memop := rt_memop ?r + 1, rt_vals := rt_vals ?r @ [v], rt_pc := Run\<rparr>)"
    using s' by (simp_all add: count_memop_def Let_def)
  have kt: "kt s' u = (if u = t then Suc (kt s t) else kt s u)" for u using view by (simp add: kt_def)
  have others: "rp_thr s' u = rp_thr s u" if "u \<noteq> t" for u using that view by simp
  have curj: "is_cur es s' j \<and> pc_at es s' j = pc_at es s j"
    if j: "is_cur es s j" "\<not> counting (pc_at es s j)" for j
  proof -
    have "ev_tid (es ! j) \<noteq> t" using j pc by (auto simp: pc_at_def)
    then show ?thesis using j(1) view(4) kt by (simp add: is_cur_def pc_at_def)
  qed
  have keep: "is_cur es s' j \<and> pc_at es s' j = pc_at es s j"
    if "is_cur es s j" "writing (pc_at es s j)" for j
    using curj [OF that(1)] counting_stage(1) [OF that(2)] by simp
  have curj': "ev_tid (es ! j) \<noteq> t \<and> is_cur es s j \<or> pc_at es s' j = Run" if "is_cur es s' j" for j
    using that view kt by (auto simp: is_cur_def pc_at_def)
  have ovx [simp]: "ov s' = ov s" "rs s' = rs s" "rn s' = rn s"
    using view by (simp_all add: fun_eq_iff ov_def rs_def rn_def)
  have dn: "is_done es s j \<Longrightarrow> is_done es s' j" "entry_done s e \<Longrightarrow> entry_done s' e" for j e
    using kt by (auto simp: is_done_def entry_done_def)
  have perf: "perf es s' j = perf es s j" if "j < length es" for j
    using that pc view kt by (auto simp: perf_def is_done_def is_cur_def)
  show ?thesis
  proof (rule replay_inv_frame [OF inv others])
    show "thr_inv P es s' t" by (rule count_thr [OF inv i t tn pc s'])
    show "ord_inv P es s' j" if "j < length es" for j
      using replay_invD(5) [OF inv that] perf [OF that] dn by (auto intro: ord_inv_cong)
    show "cur_inv P es s' j" if "is_cur es s' j" for j
      using curj' [OF that]
    proof
      assume j: "ev_tid (es ! j) \<noteq> t \<and> is_cur es s j"
      then have "pc_at es s' j = pc_at es s j" using view by (simp add: pc_at_def)
      with j show ?thesis
        using replay_invD(4) [OF inv, of j] view dn by (intro cur_inv_cong [of P es s j s']) simp_all
    qed (simp add: cur_inv_def)
    show "obj_inv P es s' u" if "u < tp_nobj P" for u
      using view keep by (intro obj_inv_cong [OF replay_invD(6) [OF inv that]]) simp_all
    show "mem_inv P es s' a" if "tp_cid P a < tp_nobj P" for a
      using view keep [OF _ stored_writing] by (intro mem_inv_cong [OF replay_invD(7) [OF inv that]]) simp_all
  qed (use view in simp_all)
qed

section \<open>The store of a write\<close>

lemma store_step:
  assumes inv: "replay_inv P es s" and run: "run_of P es" and i: "is_cur es s i"
    and t: "t = ev_tid (es ! i)" and tn: "t < tp_nthr P" and pc: "rt_pc (rp_thr s t) = StoreMem"
    and s': "s' = goto t LoadVersion (s\<lparr>rp_mem := (rp_mem s)(ev_addr (es ! i) := ev_val (es ! i))\<rparr>)"
  shows "replay_inv P es s'"
proof -
  have view: "obj_version s' = obj_version s" "wait_reader_log s' = wait_reader_log s"
    "rp_mem s' = (rp_mem s)(ev_addr (es ! i) := ev_val (es ! i))"
    "rp_thr s' = (rp_thr s)(t := (rp_thr s t)\<lparr>rt_pc := LoadVersion\<rparr>)"
    using s' by (simp_all add: goto_def)
  have "rt_vals (rp_thr s' u) = rt_vals (rp_thr s u)" for u using view(4) by simp
  note same [simp] = same_vals [OF this]
  have pci: "pc_at es s i = StoreMem" "pc_at es s' i = LoadVersion"
    using pc t view(4) by (simp_all add: pc_at_def)
  have others: "rp_thr s' u = rp_thr s u" if "u \<noteq> t" for u using that view(4) by simp
  note pcj = other_pc [OF i _ _ others [unfolded t]]
  have ovx [simp]: "ov s' = ov s" "rs s' = rs s" "rn s' = rn s"
    using view(1,2) by (simp_all add: fun_eq_iff ov_def rs_def rn_def)
  have perf: "perf es s' j = perf es s j" for j
    using view(4) pc by (simp add: perf_def)
  have memj: "rp_mem s' (ev_addr (es ! j)) = rp_mem s (ev_addr (es ! j))"
    if "is_cur es s j" "j \<noteq> i" "stored (pc_at es s j)" for j
    using writer_unique [OF inv that(1) i stored_writing [OF that(3)]] that(2) pci(1) view(3)
    by (auto simp: ev_obj_def)
  show ?thesis
  proof (rule replay_inv_frame [OF inv others])
    show "thr_inv P es s' t"
      using replay_invD(3) [OF inv tn] pc view(4) by (simp add: thr_inv_def Let_def)
    show "ord_inv P es s' j" if "j < length es" for j
      using perf by (intro ord_inv_cong [OF replay_invD(5) [OF inv that]]) simp_all
    show "cur_inv P es s' j" if "is_cur es s' j" for j
      using that replay_invD(4) [OF inv, of j] pci pcj [of j] memj [of j] view(3)
      by (cases "j = i") (simp add: cur_inv_def Let_def readers_done_def used_done_def, simp add: cur_inv_cong)
    show "obj_inv P es s' u" if u: "u < tp_nobj P" for u
      using pcj pci view(2) by (intro obj_inv_cong [OF replay_invD(6) [OF inv u]]) force+
    show "mem_inv P es s' a" if a: "tp_cid P a < tp_nobj P" for a
    proof (cases "a = ev_addr (es ! i)")
      case True
      then show ?thesis using i pci by (auto simp: mem_inv_def)
    qed (use a view(3) pcj in \<open>auto intro: mem_inv_other [OF inv]\<close>)
  qed (use view in simp_all)
qed

section \<open>The publication of a version\<close>

lemma log_versions_even:
  "log_static P es o' l \<Longrightarrow> e \<in> set (reader_entries l) \<Longrightarrow> even (rwm_version e)"
  by (force simp: log_static_def read_at_def ev_ver_even)

lemma even_less_add_2: "even (a :: int) \<Longrightarrow> even b \<Longrightarrow> a < b + 2 \<longleftrightarrow> a \<le> b"
  by presburger

lemma bump_obj:
  assumes inv: "replay_inv P es s" and run: "run_of P es" and i: "is_cur es s i"
    and pc: "stored (pc_at es s i)" and o': "o' = ev_obj (tp_cid P) es i"
    and view: "wait_reader_log s' = wait_reader_log s" "ov s' o' = ov s o' + 2"
  shows "obj_inv P es s' o'"
proof -
  have len: "i < length es" using i by (rule is_cur_length)
  have obj: "obj_inv P es s o'" using replay_invD(6) [OF inv run_ofD(2) [OF run len]] o' by simp
  have cur: "ev_write (es ! i)" "ev_ver (tp_cid P) es i = ov s o'" "readers_done s o'"
    using replay_invD(4) [OF inv i] pc o' by (cases "pc_at es s i"; simp add: cur_inv_def Let_def)+
  have st: "log_static P es o' (wait_reader_log s ! o')" and ev: "even (ov s o')"
    using obj by (simp_all add: obj_inv_def Let_def)
  have eq: "rn s' o' = rn s o'" "rs s' o' = rs s o'" using view by (simp_all add: rn_def rs_def)
  have up: "ov s o' + 2 \<le> rwm_version e" if e: "e \<in> set (drop (rn s o') (rs s o'))" for e
  proof -
    have "ov s o' < rwm_version e" using cur(3) e by (simp add: readers_done_def)
    moreover have "even (rwm_version e)"
      using log_versions_even [OF st] in_set_dropD [OF e] by (simp add: rs_def)
    ultimately show ?thesis using ev by presburger
  qed
  have low: "rwm_version e \<le> ov s o'" if "e \<in> set (take (rn s o') (rs s o'))" for e
    using obj that by (simp add: obj_inv_def Let_def)
  have mut: "\<not> rl_mutex (wait_reader_log s ! o')"
  proof
    assume "rl_mutex (wait_reader_log s ! o')"
    then obtain j where j: "is_cur es s j" "ev_obj (tp_cid P) es j = o'" "pc_at es s j = ReaderLocked"
      using obj by (auto simp: obj_inv_def Let_def)
    then have "j = i" using o' pc by (intro writer_unique [OF inv j(1) i]) (auto intro: stored_writing)
    with j(3) pc show False by simp
  qed
  have "ov s o' + 2 \<le> 2 * int (nwrites (tp_cid P) o' es)"
    using write_ver_less_total [OF len cur(1), of "tp_cid P"] cur(2) o' by simp
  then show ?thesis
    using obj up mut view eq by (auto simp: obj_inv_def Let_def dest: low)
qed

lemma bump_mem:
  assumes inv: "replay_inv P es s" and run: "run_of P es" and i: "is_cur es s i"
    and pc: "stored (pc_at es s i)" and a: "tp_cid P a = ev_obj (tp_cid P) es i"
    and view: "rp_mem s' = rp_mem s" "ov s' (ev_obj (tp_cid P) es i) = ov s (ev_obj (tp_cid P) es i) + 2"
  shows "mem_inv P es s' a"
proof -
  let ?o = "ev_obj (tp_cid P) es i"
  have len: "i < length es" using i by (rule is_cur_length)
  have on: "?o < tp_nobj P" using run_ofD(2) [OF run len] .
  have cur: "ev_write (es ! i)" "ev_ver (tp_cid P) es i = ov s ?o" "rp_mem s (ev_addr (es ! i)) = ev_val (es ! i)"
    using replay_invD(4) [OF inv i] pc by (cases "pc_at es s i"; simp add: cur_inv_def Let_def)+
  have "0 \<le> ov s ?o" using replay_invD(6) [OF inv on] by (simp add: obj_inv_def Let_def)
  then have "nat (ov s ?o + 2) div 2 = Suc (nat (ov s ?o) div 2)" by (simp add: nat_add_distrib)
  then have new: "vmem P es a (nat (ov s' ?o) div 2) =
      (if a = ev_addr (es ! i) then ev_val (es ! i) else vmem P es a (nat (ov s ?o) div 2))"
    using write_vmem [OF len cur(1) a] cur(2) view(2) by simp
  show ?thesis
  proof (cases "a = ev_addr (es ! i)")
    case True
    with new cur(3) view(1) a show ?thesis by (simp add: mem_inv_def)
  next
    case False
    have "\<not> (is_cur es s j \<and> ev_addr (es ! j) = a \<and> stored (pc_at es s j))" for j
      using writer_unique [OF inv _ i _ stored_writing [OF pc], of j] stored_writing a False
      by (auto simp: ev_obj_def)
    then have "rp_mem s a = vmem P es a (nat (ov s (tp_cid P a)) div 2)"
      using replay_invD(7) [OF inv, of a] a on by (auto simp: mem_inv_def)
    with new False view(1) a show ?thesis by (simp add: mem_inv_def)
  qed
qed

text \<open>The order of accesses and the accesses of the other threads, when the version moves on.\<close>

lemma bump_ord:
  assumes inv: "replay_inv P es s" and run: "run_of P es" and i: "is_cur es s i" and st: "stored (pc_at es s i)"
    and o': "o' = ev_obj (tp_cid P) es i" and j: "j < length es"
    and ov': "\<And>u. ov s' u = (if u = o' then ov s o' + 2 else ov s u)"
    and dn: "is_done es s' j = is_done es s j" and perf: "j \<noteq> i \<Longrightarrow> perf es s' j = perf es s j" "perf es s' i"
  shows "ord_inv P es s' j"
proof -
  have len: "i < length es" using i by (rule is_cur_length)
  have on: "o' < tp_nobj P" using run_ofD(2) [OF run len] o' by simp
  note cur = writing_cur [OF replay_invD(4) [OF inv i] stored_writing [OF st], folded o']
  have ev: "even (ov s o')" using replay_invD(6) [OF inv on] by (simp add: obj_inv_def Let_def)
  consider "ev_obj (tp_cid P) es j \<noteq> o'" | "j = i" | "ev_obj (tp_cid P) es j = o'" "j \<noteq> i" by blast
  then show ?thesis
  proof cases
    case 1
    with o' have "j \<noteq> i" by blast
    with 1 show ?thesis using perf dn ov' by (intro ord_inv_cong [OF replay_invD(5) [OF inv j]]) simp_all
  next
    case 2
    then show ?thesis using cur perf(2) ov' o' by (simp add: ord_inv_def Let_def)
  next
    case 3
    have "ev_ver (tp_cid P) es j \<noteq> ov s o'" if "ev_write (es ! j)"
      using write_ver_inj [OF j len _ that cur(1), of "tp_cid P"] cur(2) o' 3 by auto
    moreover have "ev_ver (tp_cid P) es j < ov s o' + 2 \<longleftrightarrow> ev_ver (tp_cid P) es j \<le> ov s o'"
      by (rule even_less_add_2) (simp_all add: ev_ver_even ev)
    moreover have "is_done es s j" if "\<not> ev_write (es ! j)" "ev_ver (tp_cid P) es j = ov s o'"
      using reads_done [OF inv run i disjI2 [OF st] j that(1)] that 3 o' by simp
    ultimately show ?thesis
      using replay_invD(5) [OF inv j] perf(1) [OF 3(2)] dn 3(1) ov' [of o'] by (auto simp: ord_inv_def Let_def)
  qed
qed

lemma bump_cur:
  assumes inv: "replay_inv P es s" and run: "run_of P es" and i: "is_cur es s i" and st: "stored (pc_at es s i)"
    and o': "o' = ev_obj (tp_cid P) es i" and j: "is_cur es s j"
    and pci: "pc_at es s' i = Count (ev_val (es ! i))" and pcj: "j \<noteq> i \<Longrightarrow> pc_at es s' j = pc_at es s j"
    and ov': "\<And>u. ov s' u = (if u = o' then ov s o' + 2 else ov s u)" and m: "rp_mem s' = rp_mem s"
    and r: "rs s' = rs s" "rn s' = rn s" "entry_done s' = entry_done s"
  shows "cur_inv P es s' j"
proof -
  note inv_j = replay_invD(4) [OF inv j]
  consider "j = i" | "j \<noteq> i" "ev_obj (tp_cid P) es j \<noteq> o'" | "j \<noteq> i" "ev_obj (tp_cid P) es j = o'" by blast
  then show ?thesis
  proof cases
    case 1
    then show ?thesis using pci by (simp add: cur_inv_def Let_def)
  next
    case 2
    then show ?thesis using pcj ov' m r by (intro cur_inv_cong [OF inv_j]) simp_all
  next
    case 3
    have "\<not> writing (pc_at es s j)"
      using writer_unique [OF inv j i _ stored_writing [OF st]] 3 o' by auto
    moreover have "pc_at es s j \<noteq> ReadMem"
    proof
      assume "pc_at es s j = ReadMem"
      then have "is_done es s j"
        using reads_done [OF inv run i disjI2 [OF st] is_cur_length [OF j]] inv_j 3(2) o'
        by (simp add: cur_inv_def Let_def)
      then show False using j by (simp add: is_done_def is_cur_def)
    qed
    ultimately show ?thesis using pcj [OF 3(1)] ov' by (intro cur_inv_waiting [OF inv_j]) simp_all
  qed
qed

lemma bump_step:
  assumes inv: "replay_inv P es s" and run: "run_of P es" and i: "is_cur es s i"
    and t: "t = ev_tid (es ! i)" and tn: "t < tp_nthr P" and pc: "rt_pc (rp_thr s t) = StoreVersion v"
    and o': "o' = ev_obj (tp_cid P) es i"
    and s': "s' = goto t (Count (ev_val (es ! i))) (s\<lparr>obj_version := (obj_version s)[o' := v + 2]\<rparr>)"
  shows "replay_inv P es s'"
proof -
  have len: "i < length es" using i by (rule is_cur_length)
  have on: "o' < tp_nobj P" using run_ofD(2) [OF run len] o' by simp
  have view: "obj_version s' = (obj_version s)[o' := v + 2]" "wait_reader_log s' = wait_reader_log s"
    "rp_mem s' = rp_mem s" "rp_thr s' = (rp_thr s)(t := (rp_thr s t)\<lparr>rt_pc := Count (ev_val (es ! i))\<rparr>)"
    using s' by (simp_all add: goto_def)
  have "rt_vals (rp_thr s' u) = rt_vals (rp_thr s u)" for u using view(4) by simp
  note same [simp] = same_vals [OF this]
  have pci: "pc_at es s i = StoreVersion v" "pc_at es s' i = Count (ev_val (es ! i))"
    using pc t view(4) by (simp_all add: pc_at_def)
  then have st: "stored (pc_at es s i)" by simp
  have others: "rp_thr s' u = rp_thr s u" if "u \<noteq> t" for u using that view(4) by simp
  note pcj = other_pc [OF i _ _ others [unfolded t]]
  have cur: "ev_write (es ! i)" "ev_ver (tp_cid P) es i = ov s o'" "v = ov s o'"
    using replay_invD(4) [OF inv i] pci o' by (simp_all add: cur_inv_def Let_def)
  have ov': "ov s' u = (if u = o' then ov s o' + 2 else ov s u)" for u
    using view(1) replay_invD(1) [OF inv] on cur(3) by (simp add: ov_def)
  have rx [simp]: "rs s' = rs s" "rn s' = rn s"
    using view(2) by (simp_all add: fun_eq_iff rs_def rn_def)
  have perf: "perf es s' j = perf es s j" if "j \<noteq> i" for j
    using that is_cur_inj [OF i, of j] t view(4) by (auto simp: perf_def)
  show ?thesis
  proof (rule replay_inv_frame [OF inv others])
    show "thr_inv P es s' t"
      using replay_invD(3) [OF inv tn] pc view(4) by (auto simp: thr_inv_def Let_def)
    show "ord_inv P es s' j" if j: "j < length es" for j
      using cur i ov' o' pci view(4) t perf by (intro bump_ord [OF inv run i st o' j ov']) (simp_all add: perf_def)
    show "cur_inv P es s' j" if "is_cur es s' j" for j
      using that pci pcj ov' view(3) by (intro bump_cur [OF inv run i st o']) simp_all
    show "obj_inv P es s' u" if u: "u < tp_nobj P" for u
      using bump_obj [OF inv run i st o' view(2)] ov' u o' pcj view(2)
      by (cases "u = o'") (auto intro: obj_inv_other [OF inv])
    show "mem_inv P es s' a" if a: "tp_cid P a < tp_nobj P" for a
    proof (cases "tp_cid P a = o'")
      case True
      then show ?thesis using bump_mem [OF inv run i st _ view(3)] ov' o' by simp
    next
      case False
      then have "a \<noteq> ev_addr (es ! i)" using o' by (auto simp: ev_obj_def)
      with a show ?thesis using False view(3) ov' pcj by (intro mem_inv_other [OF inv]) simp_all
    qed
  qed (use view in simp_all)
qed

end
