(* ===== verification/Replay_Steps.thy ===== *)
theory Replay_Steps
  imports Replay_Correct
begin

text \<open>
  The steps of the replayer, one by one: each is of one of the kinds of \<open>Replay_Correct\<close>, none of
  them is a fault, and so the invariant holds in every state a replay reaches.
\<close>

section \<open>The access a thread makes\<close>

lemma cur_act:
  assumes "replay_inv P es s" "run_of P es" "is_cur es s i"
  shows "tp_code P (ev_tid (es ! i)) (rt_vals (rp_thr s (ev_tid (es ! i)))) = ev_act (es ! i)"
    and "ev_tid (es ! i) < tp_nthr P" "tp_cid P (ev_addr (es ! i)) = ev_obj (tp_cid P) es i"
    and "ev_obj (tp_cid P) es i < tp_nobj P"
  using run_ofD [OF assms(2) is_cur_length [OF assms(3)]] assms(3) replay_invD(3) [OF assms(1), of "ev_tid (es ! i)"]
  by (simp_all add: is_cur_def thr_inv_def Let_def ev_obj_def)

lemma cur_ex:
  assumes "replay_inv P es s" "t < tp_nthr P" "kt s t \<noteq> thr_cnt t es"
  obtains i where "is_cur es s i" "ev_tid (es ! i) = t"
proof -
  have "kt s t < thr_cnt t es"
    using replay_invD(3) [OF assms(1,2)] assms(3) by (simp add: thr_inv_def Let_def)
  then obtain i where "i < length es" "ev_tid (es ! i) = t" "ev_memop es i = kt s t" by (rule thr_pos_ex)
  then show ?thesis by (intro that [of i]) (simp_all add: is_cur_def)
qed

lemma cur_thr:
  assumes "replay_inv P es s" "run_of P es" "is_cur es s i" "t = ev_tid (es ! i)"
  shows "rt_memop (rp_thr s t) = int (kt s t)" "ev_memop es i = kt s t" "kt s t < thr_cnt t es"
    "kt s t < length (taccs (tp_cid P) t es)" "ta_ver (taccs (tp_cid P) t es ! kt s t) = ev_ver (tp_cid P) es i"
    "vptr_ok (taccs (tp_cid P) t es) (if past_check (rt_pc (rp_thr s t)) then Suc (kt s t) else kt s t) (rp_thr s t)"
proof -
  have len: "i < length es" using assms(3) by (rule is_cur_length)
  have "thr_inv P es s t" using replay_invD(3) [OF assms(1)] cur_act(2) [OF assms(1-3)] assms(4) by simp
  then show "rt_memop (rp_thr s t) = int (kt s t)"
    "vptr_ok (taccs (tp_cid P) t es) (if past_check (rt_pc (rp_thr s t)) then Suc (kt s t) else kt s t) (rp_thr s t)"
    by (simp_all add: thr_inv_def Let_def)
  show k: "ev_memop es i = kt s t" using assms(3,4) by (simp add: is_cur_def)
  show "kt s t < thr_cnt t es" using ev_memop_less [OF len] k assms(4) by simp
  then show "kt s t < length (taccs (tp_cid P) t es)" by (simp add: length_taccs)
  show "ta_ver (taccs (tp_cid P) t es ! kt s t) = ev_ver (tp_cid P) es i"
    using taccs_nth [OF len, of "tp_cid P"] k assms(4) by (simp add: tacc_of_def)
qed

section \<open>Steps that change the thread only\<close>

lemma local_step:
  assumes inv: "replay_inv P es s" and run: "run_of P es" and i: "is_cur es s i"
    and t: "t = ev_tid (es ! i)" and s': "s' = set_thr t r' s"
    and r': "rt_vals r' = rt_vals (rp_thr s t)" "rt_memop r' = rt_memop (rp_thr s t)"
      "rt_pc r' \<noteq> Done"
      "vptr_ok (taccs (tp_cid P) t es) (if past_check (rt_pc r') then Suc (kt s t) else kt s t) r'"
    and new: "cur_inv P es s' i"
    and pcs: "counting (rt_pc r') = counting (rt_pc (rp_thr s t))" "stored (rt_pc r') = stored (rt_pc (rp_thr s t))"
      "writing (rt_pc (rp_thr s t)) \<Longrightarrow> writing (rt_pc r')" "rt_pc (rp_thr s t) \<noteq> ReaderLocked"
  shows "replay_inv P es s'"
proof -
  let ?o = "ev_obj (tp_cid P) es i"
  have tn: "t < tp_nthr P" "?o < tp_nobj P" using cur_act(2,4) [OF inv run i] t by simp_all
  have view: "rp_thr s' = (rp_thr s)(t := r')" "wait_reader_log s' = wait_reader_log s" "obj_version s' = obj_version s"
    using s' by simp_all
  have "rt_vals (rp_thr s' u) = rt_vals (rp_thr s u)" for u using view(1) r'(1) by simp
  note same = same_vals [OF this]
  have th: "thr_inv P es s' t"
    using replay_invD(3) [OF inv tn(1)] cur_thr(3) [OF inv run i t] view r' same(1)
    by (simp add: thr_inv_def Let_def)
  have "is_cur es s' j \<and> writing (pc_at es s' j) \<and> (pc_at es s j = ReaderLocked \<longrightarrow> pc_at es s' j = ReaderLocked)"
    if "is_cur es s j" "writing (pc_at es s j)" for j
    using that pcs(3,4) view(1) same(2) by (cases "ev_tid (es ! j) = t") (simp_all add: pc_at_def)
  then have ob: "obj_inv P es s' ?o"
    using view by (intro obj_inv_cong [OF replay_invD(6) [OF inv tn(2)]]) (simp_all add: ov_def)
  show ?thesis
    by (rule quiet_step [OF inv run i t refl _ r'(1) refl refl th new ob pcs(1,2)])
      (simp_all add: s' set_thr_def set_reader_log_def)
qed

lemma local_view:
  assumes "s' = set_thr t r' s" "rt_vals r' = rt_vals (rp_thr s t)"
  shows "ov s' = ov s" "rs s' = rs s" "rn s' = rn s" "entry_done s' = entry_done s" "used_done s' = used_done s"
    "readers_done s' = readers_done s" "rp_mem s' = rp_mem s"
proof -
  have "rt_vals (rp_thr s' u) = rt_vals (rp_thr s u)" for u using assms by simp
  note same = same_vals [OF this]
  show *: "ov s' = ov s" "rs s' = rs s" "rn s' = rn s" "entry_done s' = entry_done s" "rp_mem s' = rp_mem s"
    using assms(1) same(4) by (simp_all add: fun_eq_iff ov_def rs_def rn_def)
  show "used_done s' = used_done s" by (simp add: fun_eq_iff used_done_def *)
  then show "readers_done s' = readers_done s" by (simp add: fun_eq_iff readers_done_def *)
qed

lemma pc_at_set: "ev_tid (es ! i) = t \<Longrightarrow> pc_at es (set_thr t r' s) i = rt_pc r'"
  by (simp add: pc_at_def)

text \<open>A write that has not yet begun to wait for readers finds no entry of its version used.\<close>

lemma fresh_used:
  assumes inv: "replay_inv P es s" and run: "run_of P es" and i: "is_cur es s i"
    and w: "ev_write (es ! i)" "ev_ver (tp_cid P) es i = ov s (ev_obj (tp_cid P) es i)"
    and pc: "\<not> writing (pc_at es s i)"
  shows "used_done s (ev_obj (tp_cid P) es i)"
proof -
  let ?o = "ev_obj (tp_cid P) es i"
  have "\<not> (is_cur es s j \<and> ev_obj (tp_cid P) es j = ?o \<and> writing (pc_at es s j))" for j
    using write_ver_inj [of j es i "tp_cid P"] writing_cur [OF replay_invD(4) [OF inv, of j]]
      is_cur_length [OF i] is_cur_length [of es s j] w pc by auto
  then show ?thesis
    using replay_invD(6) [OF inv cur_act(4) [OF inv run i]] by (auto simp: obj_inv_def Let_def used_done_def)
qed

text \<open>From \<open>wait_object_version\<close> into the access.\<close>

lemma enter_step:
  assumes inv: "replay_inv P es s" and run: "run_of P es" and i: "is_cur es s i" and t: "t = ev_tid (es ! i)"
    and pc: "\<not> past_check (rt_pc (rp_thr s t))"
    and v: "ev_ver (tp_cid P) es i \<le> ov s (ev_obj (tp_cid P) es i)"
    and r': "rt_vals r' = rt_vals (rp_thr s t)" "rt_memop r' = rt_memop (rp_thr s t)"
      "vptr_ok (taccs (tp_cid P) t es) (Suc (kt s t)) r'"
    and k: "k = (if ev_write (es ! i) then NextReader else ReadMem)"
  shows "replay_inv P es (set_thr t (r'\<lparr>rt_pc := k\<rparr>) s)"
proof -
  let ?r = "r'\<lparr>rt_pc := k\<rparr>"
  have pc': "\<not> counting (rt_pc (rp_thr s t))" "\<not> stored (rt_pc (rp_thr s t))" "\<not> writing (rt_pc (rp_thr s t))"
    using pc by (cases "rt_pc (rp_thr s t)"; simp)+
  have at: "pc_at es s i = rt_pc (rp_thr s t)" using t by (simp add: pc_at_def)
  have ver: "ev_ver (tp_cid P) es i = ov s (ev_obj (tp_cid P) es i)"
    using v cur_version_ge [OF inv i] pc'(1) at by simp
  define s' where "s' = set_thr t ?r s"
  have pcat: "pc_at es s' i = k" using t by (simp add: s'_def pc_at_set)
  have vals: "rt_vals ?r = rt_vals (rp_thr s t)" using r' by simp
  note lv = local_view [OF s'_def vals]
  have cur: "cur_inv P es s' i"
  proof (cases "ev_write (es ! i)")
    case True
    then show ?thesis
      using fresh_used [OF inv run i True ver] pc'(3) at ver k pcat by (simp add: cur_inv_def Let_def lv)
  next
    case False
    then show ?thesis using ver k pcat by (simp add: cur_inv_def Let_def lv)
  qed
  have "replay_inv P es s'"
    by (rule local_step [OF inv run i t s'_def vals _ _ _ cur]) (use r' k pc' pc in auto)
  then show ?thesis by (simp add: s'_def)
qed

text \<open>The three branches of \<open>wait_object_version\<close>.\<close>

lemma wait_goto_inv:
  assumes inv: "replay_inv P es s" and run: "run_of P es" and i: "is_cur es s i" and t: "t = ev_tid (es ! i)"
    and pc: "\<not> past_check (rt_pc (rp_thr s t))" and l: "logged (taccs (tp_cid P) t es) (kt s t)"
    and q: "q = WaitVersion \<or> q = CheckVersion \<and> ev_ver (tp_cid P) es i \<le> ov s (ev_obj (tp_cid P) es i)"
  shows "replay_inv P es (goto t q s)"
proof -
  let ?r = "rp_thr s t"
  note th = cur_thr [OF inv run i t]
  have cur: "cur_inv P es (goto t q s) i"
    using q l th(2) t local_view(1) [of _ t "?r\<lparr>rt_pc := q\<rparr>" s, OF refl]
    by (auto simp: cur_inv_def goto_def pc_at_set)
  show ?thesis
    by (rule local_step [OF inv run i t goto_def _ _ _ _ cur])
      (use q th(6) pc in \<open>cases "rt_pc ?r"; auto\<close>)+
qed

lemma test_version_inv:
  assumes inv: "replay_inv P es s" and run: "run_of P es" and i: "is_cur es s i" and t: "t = ev_tid (es ! i)"
    and pc: "rt_pc (rp_thr s t) = Run" and k: "k = (if ev_write (es ! i) then NextReader else ReadMem)"
  shows "replay_inv P es (wait_object_version t (ev_obj (tp_cid P) es i) k s)"
proof -
  let ?r = "rp_thr s t" and ?xs = "taccs (tp_cid P) t es"
  note th = cur_thr [OF inv run i t]
  have np: "\<not> past_check (rt_pc ?r)" and vp: "vptr_ok ?xs (kt s t) ?r" using th(6) pc by simp_all
  note test = vptr_test [OF vp th(4)]
  show ?thesis
  proof (cases "logged ?xs (kt s t)")
    case True
    with wait_goto_inv [OF inv run i t np True] show ?thesis
      using pc test th(1) by (simp add: wait_object_version_def)
  next
    case False
    have "replay_inv P es (set_thr t (?r\<lparr>rt_pc := k\<rparr>) s)"
      using unlogged_version [OF inv run i] False th(2) t
      by (intro enter_step [OF inv run i t np _ _ _ vptr_skip [OF vp th(4) False] k]) simp_all
    with False show ?thesis using pc test th(1) by (simp add: wait_object_version_def goto_def)
  qed
qed

lemma wait_object_version_inv:
  assumes inv: "replay_inv P es s" and run: "run_of P es" and i: "is_cur es s i" and t: "t = ev_tid (es ! i)"
    and pc: "\<not> past_check (rt_pc (rp_thr s t))"
    and k: "k = (if ev_write (es ! i) then NextReader else ReadMem)"
  shows "replay_inv P es (wait_object_version t (ev_obj (tp_cid P) es i) k s)"
proof -
  let ?r = "rp_thr s t" and ?xs = "taccs (tp_cid P) t es"
  note th = cur_thr [OF inv run i t]
  have vp: "vptr_ok ?xs (kt s t) ?r" using th(6) pc by simp
  have at: "cur_inv P es s i" "pc_at es s i = rt_pc ?r" using replay_invD(4) [OF inv i] t by (simp_all add: pc_at_def)
  consider "rt_pc ?r = Run" | "rt_pc ?r = WaitVersion" | "rt_pc ?r = CheckVersion"
    using pc by (cases "rt_pc ?r") simp_all
  then show ?thesis
  proof cases
    case 1
    then show ?thesis using k by (rule test_version_inv [OF inv run i t])
  next
    case 2
    then have l: "logged ?xs (kt s t)" using at th(2) t by (simp add: cur_inv_def Let_def)
    show ?thesis
      using 2 wait_goto_inv [OF inv run i t pc l] inv vptr_take(1) [OF vp th(4) l] th(5)
      by (simp add: wait_object_version_def ov_def)
  next
    case 3
    then have l: "logged ?xs (kt s t)" "ev_ver (tp_cid P) es i \<le> ov s (ev_obj (tp_cid P) es i)"
      using at th(2) t by (simp_all add: cur_inv_def Let_def)
    have eq: "ev_ver (tp_cid P) es i = ov s (ev_obj (tp_cid P) es i)"
      using cur_version_ge [OF inv i] l(2) 3 at by simp
    obtain r' where r': "next_wait_version_log ?r = Some r'" "vptr_ok ?xs (Suc (kt s t)) r'"
      "rt_memop r' = rt_memop ?r" "rt_vals r' = rt_vals ?r"
      using vptr_take(2) [OF vp th(4) l(1)] by blast
    show ?thesis
      using 3 vptr_take(1) [OF vp th(4) l(1)] th(5) eq r'(1) enter_step [OF inv run i t pc l(2) r'(4,3,2) k]
      by (simp add: wait_object_version_def ov_def)
  qed
qed

section \<open>Waiting for readers\<close>

lemma reader_view:
  assumes s': "s' = set_thr t r' (set_reader_log o' l' s)" and o': "o' < length (wait_reader_log s)"
    and l': "rl_log l' = rl_log (wait_reader_log s ! o')" "rl_size l' = rl_size (wait_reader_log s ! o')"
    and vals: "rt_vals r' = rt_vals (rp_thr s t)"
  shows "ov s' = ov s" "rs s' o' = rs s o'" "rn s' o' = nat (rl_n l')" "entry_done s' = entry_done s"
    "is_cur es s' = is_cur es s" "wait_reader_log s' ! o' = l'" "rp_mem s' = rp_mem s"
proof -
  have "rt_vals (rp_thr s' u) = rt_vals (rp_thr s u)" for u using assms by simp
  note same = same_vals [OF this]
  show "ov s' = ov s" "rs s' o' = rs s o'" "rn s' o' = nat (rl_n l')" "entry_done s' = entry_done s"
    "is_cur es s' = is_cur es s" "wait_reader_log s' ! o' = l'" "rp_mem s' = rp_mem s"
    using s' o' l' same by (simp_all add: fun_eq_iff ov_def rs_def rn_def reader_entries_def)
qed

lemma reader_obj_inv:
  assumes old: "obj_inv P es s o'" and s': "s' = set_thr t r' (set_reader_log o' l' s)"
    and o': "o' < length (wait_reader_log s)"
    and l': "rl_log l' = rl_log (wait_reader_log s ! o')" "rl_size l' = rl_size (wait_reader_log s ! o')"
    and vals: "rt_vals r' = rt_vals (rp_thr s t)"
    and n: "0 \<le> rl_n l'" "nat (rl_n l') \<le> length (rs s o')"
      "\<And>e. e \<in> set (take (nat (rl_n l')) (rs s o')) \<Longrightarrow> rwm_version e \<le> ov s o'"
      "\<And>e. e \<in> set (drop (nat (rl_n l')) (rs s o')) \<Longrightarrow> ov s o' \<le> rwm_version e"
    and i: "is_cur es s i" "t = ev_tid (es ! i)" "ev_obj (tp_cid P) es i = o'" "writing (rt_pc r')"
    and m: "rl_mutex l' \<Longrightarrow> rt_pc r' = ReaderLocked"
  shows "obj_inv P es s' o'"
proof -
  note v = reader_view [OF s' o' l' vals]
  have re: "reader_entries l' = rs s o'" using v(2,6) by (simp add: rs_def)
  have st: "log_static P es o' l'"
    using old l' re by (simp add: obj_inv_def Let_def log_static_def rs_def)
  have pc: "pc_at es s' i = rt_pc r'" using s' i(2) by (simp add: pc_at_def)
  have "\<exists>j. is_cur es s j \<and> ev_obj (tp_cid P) es j = o' \<and> writing (pc_at es s' j)"
    "rl_mutex l' \<Longrightarrow> \<exists>j. is_cur es s j \<and> ev_obj (tp_cid P) es j = o' \<and> pc_at es s' j = ReaderLocked"
    using i m pc by auto
  then show ?thesis
    using old st n by (simp add: obj_inv_def Let_def v)
qed

lemma reader_step:
  assumes inv: "replay_inv P es s" and run: "run_of P es" and i: "is_cur es s i"
    and t: "t = ev_tid (es ! i)" and o': "o' = ev_obj (tp_cid P) es i"
    and s': "s' = goto t q (set_reader_log o' l' s)"
    and l': "rl_log l' = rl_log (wait_reader_log s ! o')" "rl_size l' = rl_size (wait_reader_log s ! o')"
    and n: "0 \<le> rl_n l'" "nat (rl_n l') \<le> length (rs s o')"
      "\<And>e. e \<in> set (take (nat (rl_n l')) (rs s o')) \<Longrightarrow> rwm_version e \<le> ov s o'"
      "\<And>e. e \<in> set (drop (nat (rl_n l')) (rs s o')) \<Longrightarrow> ov s o' \<le> rwm_version e"
    and m: "rl_mutex l' \<Longrightarrow> q = ReaderLocked"
    and pc: "writing (rt_pc (rp_thr s t))" "\<not> stored (rt_pc (rp_thr s t))" "writing q" "\<not> stored q"
    and new: "cur_inv P es s' i"
  shows "replay_inv P es s'"
proof -
  let ?r = "(rp_thr s t)\<lparr>rt_pc := q\<rparr>"
  have s'': "s' = set_thr t ?r (set_reader_log o' l' s)" using s' by (simp add: goto_def)
  have vals: "rt_vals ?r = rt_vals (rp_thr s t)" by simp
  have on: "o' < length (wait_reader_log s)" "o' < tp_nobj P" "t < tp_nthr P"
    using cur_act(2,4) [OF inv run i] replay_invD(2) [OF inv] o' t by simp_all
  have ob: "obj_inv P es s' o'"
    by (rule reader_obj_inv [OF replay_invD(6) [OF inv on(2)] s'' on(1) l' vals n i t o' [symmetric]])
      (use pc m in simp_all)
  have pcs: "counting q = counting (rt_pc (rp_thr s t))" "past_check q = past_check (rt_pc (rp_thr s t))" "q \<noteq> Done"
    using pc(1,3) by (cases q; cases "rt_pc (rp_thr s t)"; simp)+
  have th: "thr_inv P es s' t"
    using replay_invD(3) [OF inv on(3)] cur_thr(3) [OF inv run i t] pcs s'' by (simp add: thr_inv_def Let_def kt_def)
  show ?thesis
    by (rule quiet_step [OF inv run i t o' s'' vals l' th new ob]) (use pcs pc in simp_all)
qed

lemma next_reader_inv:
  assumes inv: "replay_inv P es s" and run: "run_of P es" and i: "is_cur es s i"
    and t: "t = ev_tid (es ! i)" and o': "o' = ev_obj (tp_cid P) es i"
    and pc: "rt_pc (rp_thr s t) = NextReader"
  shows "replay_inv P es (wait_reader t o' s)"
proof -
  let ?l = "wait_reader_log s ! o'" and ?l' = "(wait_reader_log s ! o')\<lparr>rl_mutex := True\<rparr>"
  have at: "pc_at es s i = NextReader" using pc t by (simp add: pc_at_def)
  have on: "o' < length (wait_reader_log s)" "o' < tp_nobj P"
    using cur_act(4) [OF inv run i] replay_invD(2) [OF inv] o' by simp_all
  note ob = replay_invD(6) [OF inv on(2)]
  have free: "\<not> rl_mutex ?l"
  proof
    assume "rl_mutex ?l"
    then obtain j where j: "is_cur es s j" "ev_obj (tp_cid P) es j = o'" "pc_at es s j = ReaderLocked"
      using ob by (auto simp: obj_inv_def Let_def)
    then have "j = i" using o' at by (intro writer_unique [OF inv j(1) i]) simp_all
    with j(3) at show False by simp
  qed
  define s' where "s' = goto t ReaderLocked (set_reader_log o' ?l' s)"
  have v: "ov s' = ov s" "rs s' o' = rs s o'" "rn s' o' = rn s o'" "entry_done s' = entry_done s"
    using reader_view [of s' t "(rp_thr s t)\<lparr>rt_pc := ReaderLocked\<rparr>" o' ?l' s] on(1)
    by (simp_all add: s'_def goto_def rn_def)
  have cur: "cur_inv P es s' i"
  proof -
    have "pc_at es s' i = ReaderLocked" using t by (simp add: s'_def goto_def pc_at_def)
    then show ?thesis
      using replay_invD(4) [OF inv i] at by (simp add: cur_inv_def Let_def used_done_def v o' [symmetric])
  qed
  have "replay_inv P es s'"
    by (rule reader_step [OF inv run i t o' s'_def _ _ _ _ _ _ _ _ _ _ _ cur])
      (use ob pc in \<open>auto simp: obj_inv_def Let_def rn_def\<close>)
  with free pc show ?thesis by (simp add: wait_reader_def Let_def s'_def)
qed

lemma sorted_drop_less:
  assumes "sorted (map f xs)" "n < length xs" "v < f (xs ! n)" "e \<in> set (drop n xs)"
  shows "(v :: int) < f e"
proof -
  have "drop n xs = xs ! n # drop (Suc n) xs" using assms(2) by (simp add: Cons_nth_drop_Suc)
  moreover have "sorted (map f (drop n xs))" using assms(1) by (simp add: sorted_wrt_drop flip: drop_map)
  ultimately show ?thesis using assms(3,4) by auto
qed

text \<open>What \<open>next_reader_memop\<close> returns: no entry when none of the object's version is left, else the
  next one.\<close>

lemma next_reader_memop_cases:
  assumes ob: "obj_inv P es s o'" and l: "l = wait_reader_log s ! o'"
  obtains "next_reader_memop (ov s o') l = Inr (None, l\<lparr>rl_mutex := False\<rparr>)"
      "\<forall>e \<in> set (drop (rn s o') (rs s o')). ov s o' < rwm_version e"
    | "next_reader_memop (ov s o') l = Inr (Some (rs s o' ! rn s o'), l\<lparr>rl_n := rl_n l + 1, rl_mutex := False\<rparr>)"
      "rn s o' < length (rs s o')" "rwm_version (rs s o' ! rn s o') = ov s o'"
proof (cases "rl_n l \<ge> rl_size l")
  case True
  have "nat (rl_size l) = length (rs s o')"
    using ob l by (simp add: obj_inv_def Let_def log_static_def rs_def)
  with True have "length (rs s o') \<le> rn s o'" using l nat_mono [of "rl_size l" "rl_n l"] by (simp add: rn_def)
  with True that(1) show ?thesis by (simp add: next_reader_memop_def)
next
  case False
  have n0: "0 \<le> rl_n l" "nat (rl_size l) = length (rs s o')"
    using ob l by (simp_all add: obj_inv_def Let_def log_static_def rs_def)
  then have n: "rn s o' < length (rs s o')" using False l by (simp add: rn_def)
  moreover have "rs s o' = take (nat (rl_size l)) (rl_log l)" using l by (simp add: rs_def reader_entries_def)
  ultimately have e: "nat (rl_n l) < length (rl_log l)" "rl_log l ! nat (rl_n l) = rs s o' ! rn s o'"
    using l by (simp_all add: rn_def)
  have "rs s o' ! rn s o' \<in> set (drop (rn s o') (rs s o'))"
    using n by (metis Cons_nth_drop_Suc list.set_intros(1))
  then have ge: "ov s o' \<le> rwm_version (rs s o' ! rn s o')" using ob by (simp add: obj_inv_def Let_def)
  show ?thesis
  proof (cases "rwm_version (rs s o' ! rn s o') = ov s o'")
    case True
    with that(2) n e False ge show ?thesis by (simp add: next_reader_memop_def Let_def)
  next
    case neq: False
    have "sorted (map rwm_version (rs s o'))" using ob by (simp add: obj_inv_def Let_def log_static_def rs_def)
    with sorted_drop_less [OF _ n] neq ge have "\<forall>x \<in> set (drop (rn s o') (rs s o')). ov s o' < rwm_version x"
      by force
    with that(1) neq e False ge show ?thesis by (simp add: next_reader_memop_def Let_def)
  qed
qed

text \<open>The log has no further entry with the version, or one more.\<close>

lemma reader_none_inv:
  assumes inv: "replay_inv P es s" and run: "run_of P es" and i: "is_cur es s i"
    and t: "t = ev_tid (es ! i)" and o': "o' = ev_obj (tp_cid P) es i" and pc: "rt_pc (rp_thr s t) = ReaderLocked"
    and dr: "\<forall>e \<in> set (drop (rn s o') (rs s o')). ov s o' < rwm_version e"
  shows "replay_inv P es (goto t StoreMem (set_reader_log o' ((wait_reader_log s ! o')\<lparr>rl_mutex := False\<rparr>) s))"
proof -
  let ?l' = "(wait_reader_log s ! o')\<lparr>rl_mutex := False\<rparr>"
  define s' where "s' = goto t StoreMem (set_reader_log o' ?l' s)"
  have on: "o' < length (wait_reader_log s)" "o' < tp_nobj P"
    using cur_act(4) [OF inv run i] replay_invD(2) [OF inv] o' by simp_all
  have v: "ov s' = ov s" "rs s' o' = rs s o'" "rn s' o' = rn s o'" "entry_done s' = entry_done s"
    using reader_view [of s' t "(rp_thr s t)\<lparr>rt_pc := StoreMem\<rparr>" o' ?l' s] on(1)
    by (simp_all add: s'_def goto_def rn_def)
  have "pc_at es s i = ReaderLocked" "pc_at es s' i = StoreMem" using pc t by (simp_all add: s'_def goto_def pc_at_def)
  then have cur': "cur_inv P es s' i"
    using replay_invD(4) [OF inv i] dr by (simp add: cur_inv_def Let_def readers_done_def used_done_def v o' [symmetric])
  have "replay_inv P es s'"
    by (rule reader_step [OF inv run i t o' s'_def _ _ _ _ _ _ _ _ _ _ _ cur'])
      (use replay_invD(6) [OF inv on(2)] pc in \<open>auto simp: obj_inv_def Let_def rn_def\<close>)
  then show ?thesis by (simp add: s'_def)
qed

lemma reader_some_inv:
  assumes inv: "replay_inv P es s" and run: "run_of P es" and i: "is_cur es s i"
    and t: "t = ev_tid (es ! i)" and o': "o' = ev_obj (tp_cid P) es i" and pc: "rt_pc (rp_thr s t) = ReaderLocked"
    and l: "l = wait_reader_log s ! o'" and n: "rn s o' < length (rs s o')"
    and e: "e = rs s o' ! rn s o'" "rwm_version e = ov s o'"
  shows "replay_inv P es (goto t (WaitReader e) (set_reader_log o' (l\<lparr>rl_n := rl_n l + 1, rl_mutex := False\<rparr>) s))"
proof -
  let ?l' = "l\<lparr>rl_n := rl_n l + 1, rl_mutex := False\<rparr>"
  define s' where "s' = goto t (WaitReader e) (set_reader_log o' ?l' s)"
  have on: "o' < length (wait_reader_log s)" "o' < tp_nobj P"
    using cur_act(4) [OF inv run i] replay_invD(2) [OF inv] o' by simp_all
  note ob = replay_invD(6) [OF inv on(2)]
  have n0: "0 \<le> rl_n l" using ob by (simp add: obj_inv_def Let_def l)
  then have n': "nat (rl_n ?l') = Suc (rn s o')" by (simp add: rn_def l)
  have v: "ov s' = ov s" "rs s' o' = rs s o'" "rn s' o' = Suc (rn s o')" "entry_done s' = entry_done s"
    using reader_view [of s' t "(rp_thr s t)\<lparr>rt_pc := WaitReader e\<rparr>" o' ?l' s] on(1) n'
    by (simp_all add: s'_def goto_def l)
  have tk: "set (take (Suc (rn s o')) (rs s o')) = insert e (set (take (rn s o') (rs s o')))"
    using n e(1) by (simp add: take_Suc_conv_app_nth)
  have "pc_at es s i = ReaderLocked" "pc_at es s' i = WaitReader e" using pc t by (simp_all add: s'_def goto_def pc_at_def)
  then have cur': "cur_inv P es s' i"
    using replay_invD(4) [OF inv i] n e tk by (simp add: cur_inv_def Let_def used_done_def v o' [symmetric])
  have dr: "set (drop (Suc (rn s o')) (rs s o')) \<subseteq> set (drop (rn s o') (rs s o'))"
    using n by (metis Cons_nth_drop_Suc set_subset_Cons)
  have "replay_inv P es s'"
  proof (rule reader_step [OF inv run i t o' s'_def _ _ _ _ _ _ _ _ _ _ _ cur'])
    show "rwm_version x \<le> ov s o'" if "x \<in> set (take (nat (rl_n ?l')) (rs s o'))" for x
      using that tk e ob n' by (auto simp: obj_inv_def Let_def)
    show "ov s o' \<le> rwm_version x" if "x \<in> set (drop (nat (rl_n ?l')) (rs s o'))" for x
      using that dr ob n' by (auto simp: obj_inv_def Let_def)
  qed (use pc n n0 n' in \<open>simp_all add: l\<close>)
  then show ?thesis by (simp add: s'_def)
qed

lemma reader_locked_inv:
  assumes inv: "replay_inv P es s" and run: "run_of P es" and i: "is_cur es s i"
    and t: "t = ev_tid (es ! i)" and o': "o' = ev_obj (tp_cid P) es i" and pc: "rt_pc (rp_thr s t) = ReaderLocked"
  shows "replay_inv P es (wait_reader t o' s)"
proof -
  have ob: "obj_inv P es s o'" using replay_invD(6) [OF inv] cur_act(4) [OF inv run i] o' by simp
  show ?thesis
    by (rule next_reader_memop_cases [OF ob refl])
      (use reader_none_inv [OF inv run i t o' pc] reader_some_inv [OF inv run i t o' pc refl _ refl] pc
        in \<open>simp_all add: wait_reader_def Let_def ov_def\<close>)
qed

lemma wait_reader_entry:
  assumes inv: "replay_inv P es s" and run: "run_of P es" and o': "o' < tp_nobj P" and e: "e \<in> set (rs s o')"
  shows "rwm_tid e < tp_nthr P" "rt_memop (rp_thr s (rwm_tid e)) = int (kt s (rwm_tid e))"
proof -
  have "log_static P es o' (wait_reader_log s ! o')"
    using replay_invD(6) [OF inv o'] by (simp add: obj_inv_def Let_def)
  then obtain j where "read_at (tp_cid P) es o' e j" using e by (auto simp: log_static_def rs_def)
  then show "rwm_tid e < tp_nthr P" using run_ofD(1) [OF run, of j] by (simp add: read_at_def)
  then show "rt_memop (rp_thr s (rwm_tid e)) = int (kt s (rwm_tid e))"
    using replay_invD(3) [OF inv] by (simp add: thr_inv_def Let_def)
qed

lemma wait_reader_inv:
  assumes inv: "replay_inv P es s" and run: "run_of P es" and i: "is_cur es s i"
    and t: "t = ev_tid (es ! i)" and o': "o' = ev_obj (tp_cid P) es i"
    and pc: "rt_pc (rp_thr s t) = WaitReader e"
  shows "replay_inv P es (wait_reader t o' s)"
proof (cases "entry_done s e")
  case True
  have on: "o' < tp_nobj P" using cur_act(4) [OF inv run i] o' by simp
  have cur: "ev_write (es ! i)" "ev_ver (tp_cid P) es i = ov s o'" "e \<in> set (rs s o')"
    "\<forall>x \<in> set (take (rn s o') (rs s o')). rwm_version x = ov s o' \<longrightarrow> x = e \<or> entry_done s x"
    using replay_invD(4) [OF inv i] pc o' t by (simp_all add: cur_inv_def Let_def pc_at_def)
  then have used: "used_done s o'" using True by (auto simp: used_done_def)
  define s' where "s' = goto t NextReader s"
  have s'': "s' = set_thr t ((rp_thr s t)\<lparr>rt_pc := NextReader\<rparr>) s" by (simp add: s'_def goto_def)
  have "pc_at es s' i = NextReader" using t by (simp add: s'' pc_at_def)
  then have cur': "cur_inv P es s' i"
    using cur used local_view [OF s''] by (simp add: cur_inv_def Let_def o' [symmetric])
  have "replay_inv P es s'"
    by (rule local_step [OF inv run i t s'' _ _ _ _ cur']) (use cur_thr(6) [OF inv run i t] pc in simp_all)
  with True pc show ?thesis
    using wait_reader_entry(2) [OF inv run on cur(3)] by (simp add: wait_reader_def Let_def entry_done_def s'_def)
next
  case False
  have on: "o' < tp_nobj P" using cur_act(4) [OF inv run i] o' by simp
  have "e \<in> set (rs s o')"
    using replay_invD(4) [OF inv i] pc o' t by (simp add: cur_inv_def Let_def pc_at_def)
  from wait_reader_entry(2) [OF inv run on this] False pc inv show ?thesis
    by (simp add: wait_reader_def Let_def entry_done_def)
qed

section \<open>Every step\<close>

lemma load_version_inv:
  assumes inv: "replay_inv P es s" and run: "run_of P es" and i: "is_cur es s i" and t: "t = ev_tid (es ! i)"
    and o': "o' = ev_obj (tp_cid P) es i" and pc: "rt_pc (rp_thr s t) = LoadVersion"
  shows "replay_inv P es (goto t (StoreVersion (obj_version s ! o')) s)"
proof -
  define s' where "s' = goto t (StoreVersion (obj_version s ! o')) s"
  have s'': "s' = set_thr t ((rp_thr s t)\<lparr>rt_pc := StoreVersion (ov s o')\<rparr>) s"
    by (simp add: s'_def goto_def ov_def)
  have "pc_at es s' i = StoreVersion (ov s o')" using t by (simp add: s'' pc_at_def)
  then have cur': "cur_inv P es s' i"
    using replay_invD(4) [OF inv i] pc t local_view [OF s'']
    by (simp add: cur_inv_def Let_def o' [symmetric] pc_at_def)
  have "replay_inv P es s'"
    by (rule local_step [OF inv run i t s'' _ _ _ _ cur']) (use cur_thr(6) [OF inv run i t] pc in simp_all)
  then show ?thesis by (simp add: s'_def)
qed

lemma finish_step:
  assumes inv: "replay_inv P es s" and tn: "t < tp_nthr P" and k: "kt s t = thr_cnt t es"
  shows "replay_inv P es (goto t Done s)"
proof -
  define s' where "s' = goto t Done s"
  have s'': "s' = set_thr t ((rp_thr s t)\<lparr>rt_pc := Done\<rparr>) s" by (simp add: s'_def goto_def)
  have "rt_vals (rp_thr s' u) = rt_vals (rp_thr s u)" for u using s'' by simp
  note same [simp] = same_vals [OF this]
  note lv = local_view [OF s'']
  have nocur: "ev_tid (es ! j) \<noteq> t" if "is_cur es s j" for j
    using that k ev_memop_less [of j es] by (auto simp: is_cur_def)
  have pcj: "pc_at es s' j = pc_at es s j" if "is_cur es s j" for j
    using nocur [OF that] s'' by (simp add: pc_at_def)
  have perf: "perf es s' j = perf es s j" for j
    using pcj [of j] by (auto simp: perf_def pc_at_def)
  have wr: "wait_reader_log s' = wait_reader_log s" using s'' by simp
  have thr: "rp_thr s' t = (rp_thr s t)\<lparr>rt_pc := Done\<rparr>" using s'' by simp
  have th: "thr_inv P es s' t"
    using replay_invD(3) [OF inv tn] k thr
    by (simp add: thr_inv_def Let_def vptr_ok_def entries_from_end length_taccs split: if_splits)
  have "replay_inv P es s'"
  proof (rule replay_inv_frame [OF inv, of t s'])
    show "ord_inv P es s' j" if "j < length es" for j
      using perf lv(1) by (intro ord_inv_cong [OF replay_invD(5) [OF inv that]]) simp_all
    show "cur_inv P es s' j" if "is_cur es s' j" for j
      using that pcj lv by (intro cur_inv_cong [OF replay_invD(4) [OF inv]]) simp_all
    show "obj_inv P es s' u" if "u < tp_nobj P" for u
      using pcj lv(1) wr by (intro obj_inv_cong [OF replay_invD(6) [OF inv that]]) simp_all
    show "mem_inv P es s' a" if "tp_cid P a < tp_nobj P" for a
      using pcj lv by (intro mem_inv_cong [OF replay_invD(7) [OF inv that]]) simp_all
  qed (use th s'' in simp_all)
  then show ?thesis by (simp add: s'_def)
qed

text \<open>What a step of a thread at an access is, by its program counter.\<close>

lemma cur_step_cases:
  assumes inv: "replay_inv P es s" and run: "run_of P es" and i: "is_cur es s i" and t: "t = ev_tid (es ! i)"
    and o': "o' = ev_obj (tp_cid P) es i"
  obtains (check) "\<not> past_check (rt_pc (rp_thr s t))"
      "replay_step P t s = wait_object_version t o' (if ev_write (es ! i) then NextReader else ReadMem) s"
    | (load) "rt_pc (rp_thr s t) = ReadMem" "replay_step P t s = goto t (Count (rp_mem s (ev_addr (es ! i)))) s"
    | (reader) e where "rt_pc (rp_thr s t) = NextReader \<or> rt_pc (rp_thr s t) = ReaderLocked \<or> rt_pc (rp_thr s t) = WaitReader e"
      "replay_step P t s = wait_reader t o' s"
    | (store) "rt_pc (rp_thr s t) = StoreMem"
      "replay_step P t s = goto t LoadVersion (s\<lparr>rp_mem := (rp_mem s)(ev_addr (es ! i) := ev_val (es ! i))\<rparr>)"
    | (version) "rt_pc (rp_thr s t) = LoadVersion" "replay_step P t s = goto t (StoreVersion (obj_version s ! o')) s"
    | (bump) v where "rt_pc (rp_thr s t) = StoreVersion v"
      "replay_step P t s = goto t (Count (ev_val (es ! i))) (s\<lparr>obj_version := (obj_version s)[o' := v + 2]\<rparr>)"
    | (count) v where "rt_pc (rp_thr s t) = Count v" "replay_step P t s = count_memop t v s"
proof -
  note act = cur_act [OF inv run i, folded t, folded o']
  have "cur_inv P es s i" "pc_at es s i = rt_pc (rp_thr s t)" using replay_invD(4) [OF inv i] t by (simp_all add: pc_at_def)
  then show thesis
    using that act(1,3)
    by (cases "rt_pc (rp_thr s t)")
      (auto simp: cur_inv_def Let_def replay_step_def ev_act_def mem_read_def mem_write_def split: if_splits)
qed

lemma cur_step_inv:
  assumes inv: "replay_inv P es s" and run: "run_of P es" and i: "is_cur es s i" and t: "t = ev_tid (es ! i)"
  shows "replay_inv P es (replay_step P t s)"
proof -
  note here = inv run i t
  have tn: "t < tp_nthr P" using cur_act(2) [OF inv run i] t by simp
  from here refl show ?thesis
  proof (cases rule: cur_step_cases)
    case check
    then show ?thesis using wait_object_version_inv [OF here] by simp
  next
    case load
    then show ?thesis using load_step [OF here tn] by simp
  next
    case reader
    then show ?thesis
      using next_reader_inv [OF here refl] reader_locked_inv [OF here refl] wait_reader_inv [OF here refl] by auto
  next
    case store
    then show ?thesis using store_step [OF here tn] by simp
  next
    case version
    then show ?thesis using load_version_inv [OF here refl] by simp
  next
    case bump
    then show ?thesis using bump_step [OF here tn _ refl] by simp
  next
    case count
    then show ?thesis using count_step [OF here tn] by simp
  qed
qed

lemma replay_step_inv:
  assumes inv: "replay_inv P es s" and run: "run_of P es" and fin: "complete P es" and tn: "t < tp_nthr P"
  shows "replay_inv P es (replay_step P t s)"
proof (cases "kt s t = thr_cnt t es")
  case True
  have th: "thr_inv P es s t" using replay_invD(3) [OF inv tn] .
  then have "tp_code P t (rt_vals (rp_thr s t)) = Finish"
    using fin tn True by (simp add: thr_inv_def Let_def complete_def)
  with th True finish_step [OF inv tn True] inv show ?thesis
    by (auto simp: thr_inv_def Let_def replay_step_def)
next
  case False
  with cur_ex [OF inv tn] obtain i where "is_cur es s i" "ev_tid (es ! i) = t" by blast
  then show ?thesis using cur_step_inv [OF inv run] by blast
qed

end
