(* ===== verification/Fair_Schedule.thy ===== *)
theory Fair_Schedule
  imports Mem_Prelude
begin

text \<open>
  Threads that wait in spin loops, as a contract: a machine whose threads make steps, where a thread
  that waits makes a step that changes nothing, every other step brings the machine nearer to its
  end, and some thread is never waiting. Under the contract every schedule that lets each thread run
  again and again brings the machine to its end. Both replayers keep the contract.
\<close>

section \<open>Schedules\<close>

fun sched_state :: "(tid_t \<Rightarrow> 's \<Rightarrow> 's) \<Rightarrow> (nat \<Rightarrow> tid_t) \<Rightarrow> 's \<Rightarrow> nat \<Rightarrow> 's" where
  "sched_state step f s0 0 = s0"
| "sched_state step f s0 (Suc n) = step (f n) (sched_state step f s0 n)"

text \<open>Every thread gets its turn again and again.\<close>

definition fair :: "nat \<Rightarrow> (nat \<Rightarrow> tid_t) \<Rightarrow> bool" where
  "fair nthr f \<longleftrightarrow> (\<forall>n. f n < nthr) \<and> (\<forall>t < nthr. \<forall>n. \<exists>m \<ge> n. f m = t)"

lemma fair_round_robin: "0 < nthr \<Longrightarrow> fair nthr (\<lambda>n. n mod nthr)"
  unfolding fair_def
proof (intro conjI allI impI)
  fix t n assume "t < nthr"
  then show "\<exists>m \<ge> n. m mod nthr = t"
    by (intro exI [of _ "nthr * n + t"]) (auto simp: trans_le_add1)
qed simp

section \<open>The contract\<close>

locale spin_machine =
  fixes step :: "tid_t \<Rightarrow> 's \<Rightarrow> 's"
    and nthr :: nat
    and inv :: "'s \<Rightarrow> bool"
    and finished :: "'s \<Rightarrow> bool"
    and left :: "'s \<Rightarrow> nat"
  assumes step_inv: "inv s \<Longrightarrow> t < nthr \<Longrightarrow> inv (step t s)"
    and step_left: "inv s \<Longrightarrow> t < nthr \<Longrightarrow> step t s \<noteq> s \<Longrightarrow> left (step t s) < left s"
    and not_stuck: "inv s \<Longrightarrow> \<not> finished s \<Longrightarrow> \<exists>t < nthr. step t s \<noteq> s"
begin

lemma sched_inv: "inv s0 \<Longrightarrow> fair nthr f \<Longrightarrow> inv (sched_state step f s0 n)"
  by (induction n) (auto simp: fair_def intro: step_inv)

lemma fair_progress:
  assumes inv: "inv s0" and fair: "fair nthr f" and nd: "\<not> finished (sched_state step f s0 n)"
  shows "\<exists>m > n. left (sched_state step f s0 m) < left (sched_state step f s0 n)"
proof (rule ccontr)
  assume no: "\<not> ?thesis"
  let ?S = "sched_state step f s0"
  have fn: "f m < nthr" for m using fair by (simp add: fair_def)
  have stay: "?S (n + d) = ?S n" for d
  proof (induction d)
    case (Suc d)
    have "step (f (n + d)) (?S n) = ?S n"
    proof (rule ccontr)
      assume "step (f (n + d)) (?S n) \<noteq> ?S n"
      from step_left [OF sched_inv [OF inv fair] fn this] Suc
      have "left (?S (Suc (n + d))) < left (?S n)" by simp
      with no show False by (meson less_add_Suc1 add_Suc_right)
    qed
    with Suc show ?case by simp
  qed simp
  obtain t where t: "t < nthr" "step t (?S n) \<noteq> ?S n"
    using not_stuck [OF sched_inv [OF inv fair] nd] by blast
  note lt = step_left [OF sched_inv [OF inv fair] t]
  obtain m where m: "n \<le> m" "f m = t" using fair t(1) unfolding fair_def by blast
  then have "?S m = ?S n" using stay [of "m - n"] by simp
  then have "?S (Suc m) = step t (?S n)" using m by simp
  with lt m no show False by (metis le_imp_less_Suc)
qed

lemma fair_finishes:
  assumes "inv s0" "fair nthr f"
  shows "\<exists>n. finished (sched_state step f s0 n) \<and> inv (sched_state step f s0 n)"
proof -
  have "\<exists>m. finished (sched_state step f s0 m)" for n :: nat
  proof (induction "left (sched_state step f s0 n)" arbitrary: n rule: less_induct)
    case less
    then show ?case using fair_progress [OF assms, of n] by blast
  qed
  then show ?thesis using sched_inv [OF assms] by blast
qed

lemma steps_wf:
  assumes "\<And>s. R s \<Longrightarrow> inv s"
  shows "wf {(s', s). R s \<and> (\<exists>t < nthr. s' = step t s) \<and> s' \<noteq> s}"
proof (rule wf_subset [OF wf_measure])
  show "{(s', s). R s \<and> (\<exists>t < nthr. s' = step t s) \<and> s' \<noteq> s} \<subseteq> measure left"
    using step_left assms by auto
qed

end

end
