(* ===== verification/Replay_Progress.thy ===== *)
theory Replay_Progress
  imports Replay_Steps Fair_Schedule
begin

text \<open>
  A replay cannot get stuck and cannot run forever: some thread can always make a step that changes
  the state, and every such step decreases a measure. A fair schedule therefore finishes.
\<close>

section \<open>The initial state\<close>

text \<open>What the replay of a run \<open>es\<close> starts from: the threads' version logs and the reader logs.\<close>

definition logs_for :: "test_prog \<Rightarrow> event list \<Rightarrow> (tid_t \<Rightarrow> wait_version list) \<Rightarrow> replay_wait_memop_log list \<Rightarrow> bool" where
  "logs_for P es vlogs rls \<longleftrightarrow>
     (\<forall>t < tp_nthr P. vlogs t = version_spec (taccs (tp_cid P) t es) @ [version_end]) \<and>
     readers_ok (tp_cid P) (tp_nobj P) es rls"

lemma init_thr_vals: "rt_vals (replay_init_thr log) = []"
  by (simp add: replay_init_thr_def next_wait_version_log_def Let_def split: list.splits)

lemma replay_init_inv:
  assumes run: "run_of P es" and logs: "logs_for P es vlogs rls"
  shows "replay_inv P es (replay_init P vlogs rls)"
proof -
  define s where "s = replay_init P vlogs rls"
  have thr: "rp_thr s t = replay_init_thr (vlogs t)" for t by (simp add: s_def replay_init_def)
  have k0: "kt s t = 0" for t by (simp add: kt_def thr init_thr_vals)
  have st: "vptr_ok (taccs (tp_cid P) t es) 0 (rp_thr s t) \<and> rt_memop (rp_thr s t) = 0 \<and>
      rt_vals (rp_thr s t) = [] \<and> rt_pc (rp_thr s t) = Run" if "t < tp_nthr P" for t
    using that logs vptr_init [of "taccs (tp_cid P) t es"] by (simp add: thr logs_for_def)
  have ov0: "ov s u = 0" if "u < tp_nobj P" for u using that by (simp add: ov_def s_def replay_init_def)
  have pc: "pc_at es s i = Run" if "i < length es" for i
    using st run_ofD(1) [OF run that] by (simp add: pc_at_def)
  have rl: "reader_log_ok (tp_cid P) es u (wait_reader_log s ! u)" if "u < tp_nobj P" for u
    using that logs by (simp add: logs_for_def readers_ok_def s_def replay_init_def)
  have "replay_inv P es s"
    unfolding replay_inv_def
  proof (intro conjI allI impI)
    show "length (obj_version s) = tp_nobj P" "length (wait_reader_log s) = tp_nobj P"
      using logs by (simp_all add: s_def replay_init_def logs_for_def readers_ok_def)
    show "thr_inv P es s t" if "t < tp_nthr P" for t
      using st [OF that] k0 by (simp add: thr_inv_def thr_vals_def)
    show "cur_inv P es s i" if "is_cur es s i" for i
      using pc [OF is_cur_length [OF that]] by (simp add: cur_inv_def)
    show "ord_inv P es s i" if "i < length es" for i
      using pc [OF that] ov0 [OF run_ofD(2) [OF run that]] k0
      by (simp add: ord_inv_def Let_def perf_def is_done_def pc_at_def ev_ver_nonneg not_less)
    show "obj_inv P es s u" if "u < tp_nobj P" for u
    proof -
      have "\<forall>e \<in> set (rs s u). 0 \<le> rwm_version e"
        using rl [OF that] by (force simp: reader_log_ok_def read_at_def rs_def ev_ver_nonneg)
      then show ?thesis
        using rl [OF that] ov0 [OF that]
        by (simp add: obj_inv_def Let_def log_static_def reader_log_ok_def rn_def)
    qed
    show "mem_inv P es s a" if "tp_cid P a < tp_nobj P" for a
      using ov0 [OF that] by (simp add: mem_inv_def) (simp add: s_def replay_init_def)
  qed
  then show ?thesis by (simp add: s_def)
qed

lemma replay_reach_inv:
  assumes "replay_reach P s0 s" "run_of P es" "complete P es" "replay_inv P es s0"
  shows "replay_inv P es s"
  using assms(1) by (induction rule: replay_reach.induct) (auto intro: replay_step_inv assms(2-4))

section \<open>A measure\<close>

fun pc_rank :: "rpc \<Rightarrow> nat" where
  "pc_rank Run = 10"
| "pc_rank WaitVersion = 9"
| "pc_rank CheckVersion = 8"
| "pc_rank (WaitReader e) = 8"
| "pc_rank ReadMem = 7"
| "pc_rank NextReader = 7"
| "pc_rank ReaderLocked = 6"
| "pc_rank StoreMem = 5"
| "pc_rank LoadVersion = 4"
| "pc_rank (StoreVersion v) = 3"
| "pc_rank (Count v) = 2"
| "pc_rank Done = 0"
| "pc_rank (Fault f) = 0"

definition thr_left :: "event list \<Rightarrow> tid_t \<Rightarrow> replay_thr \<Rightarrow> nat" where
  "thr_left es t r = 12 * (thr_cnt t es - length (rt_vals r)) + pc_rank (rt_pc r)"

definition log_left :: "replay_wait_memop_log \<Rightarrow> nat" where
  "log_left l = length (reader_entries l) - nat (rl_n l)"

definition steps_left :: "test_prog \<Rightarrow> event list \<Rightarrow> replay \<Rightarrow> nat" where
  "steps_left P es s =
     (\<Sum>t<tp_nthr P. thr_left es t (rp_thr s t)) + 4 * (\<Sum>o'<tp_nobj P. log_left (wait_reader_log s ! o'))"

lemma steps_left_upd:
  assumes "t < tp_nthr P" "o' < tp_nobj P" "length (wait_reader_log s) = tp_nobj P"
    and thr: "rp_thr s' = (rp_thr s)(t := r')" and log: "wait_reader_log s' = (wait_reader_log s)[o' := l']"
    and less: "thr_left es t r' + 4 * log_left l' < thr_left es t (rp_thr s t) + 4 * log_left (wait_reader_log s ! o')"
  shows "steps_left P es s' < steps_left P es s"
proof -
  have "(\<Sum>u<tp_nthr P. thr_left es u (rp_thr s' u)) + thr_left es t (rp_thr s t) =
      (\<Sum>u<tp_nthr P. thr_left es u (rp_thr s u)) + thr_left es t r'"
    using sum_lessThan_upd [OF assms(1), of "\<lambda>u. thr_left es u (rp_thr s' u)" "\<lambda>u. thr_left es u (rp_thr s u)"] thr
    by simp
  moreover have "(\<Sum>u<tp_nobj P. log_left (wait_reader_log s' ! u)) + log_left (wait_reader_log s ! o') =
      (\<Sum>u<tp_nobj P. log_left (wait_reader_log s ! u)) + log_left l'"
    using sum_lessThan_upd [OF assms(2), of "\<lambda>u. log_left (wait_reader_log s' ! u)" "\<lambda>u. log_left (wait_reader_log s ! u)"]
      log assms(2,3) by simp
  ultimately show ?thesis using less by (simp add: steps_left_def)
qed

lemma steps_left_thr:
  assumes "t < tp_nthr P" "rp_thr s' = (rp_thr s)(t := r')" "wait_reader_log s' = wait_reader_log s"
    and "thr_left es t r' < thr_left es t (rp_thr s t)"
  shows "steps_left P es s' < steps_left P es s"
proof -
  have "(\<Sum>u<tp_nthr P. thr_left es u (rp_thr s' u)) + thr_left es t (rp_thr s t) =
      (\<Sum>u<tp_nthr P. thr_left es u (rp_thr s u)) + thr_left es t r'"
    using sum_lessThan_upd [OF assms(1), of "\<lambda>u. thr_left es u (rp_thr s' u)" "\<lambda>u. thr_left es u (rp_thr s u)"] assms(2)
    by simp
  then show ?thesis using assms(3,4) by (simp add: steps_left_def)
qed

lemma steps_left_goto:
  assumes "t < tp_nthr P" "pc_rank q < pc_rank (rt_pc (rp_thr s t))"
  shows "steps_left P es (goto t q s) < steps_left P es s"
  using assms(2) by (intro steps_left_thr [OF assms(1)]) (auto simp: goto_def thr_left_def)

section \<open>Every step is a wait or progress\<close>

definition waiting :: "test_prog \<Rightarrow> event list \<Rightarrow> replay \<Rightarrow> nat \<Rightarrow> bool" where
  "waiting P es s i \<longleftrightarrow>
     (case pc_at es s i of
        WaitVersion \<Rightarrow> ov s (ev_obj (tp_cid P) es i) < ev_ver (tp_cid P) es i
      | WaitReader e \<Rightarrow> \<not> entry_done s e
      | _ \<Rightarrow> False)"

lemma waiting_simps:
  assumes "ev_tid (es ! i) = t"
  shows "rt_pc (rp_thr s t) = WaitVersion \<Longrightarrow>
      waiting P es s i \<longleftrightarrow> ov s (ev_obj (tp_cid P) es i) < ev_ver (tp_cid P) es i"
    and "rt_pc (rp_thr s t) = WaitReader e \<Longrightarrow> waiting P es s i \<longleftrightarrow> \<not> entry_done s e"
  using assms by (simp_all add: waiting_def pc_at_def)

lemma check_progress:
  assumes inv: "replay_inv P es s" and run: "run_of P es" and i: "is_cur es s i" and t: "t = ev_tid (es ! i)"
    and pc: "\<not> past_check (rt_pc (rp_thr s t))" and k: "pc_rank k = 7"
  shows "steps_left P es (wait_object_version t (ev_obj (tp_cid P) es i) k s) < steps_left P es s \<or>
    waiting P es s i"
proof -
  have tn: "t < tp_nthr P" using cur_act(2) [OF inv run i] t by simp
  note go = steps_left_goto [OF tn, of _ s es] and th = cur_thr [OF inv run i t]
  note w = waiting_simps(1) [OF t [symmetric], of s P]
  consider "rt_pc (rp_thr s t) = Run" | "rt_pc (rp_thr s t) = WaitVersion" | "rt_pc (rp_thr s t) = CheckVersion"
    using pc by (cases "rt_pc (rp_thr s t)") simp_all
  then show ?thesis
  proof cases
    case 1
    then show ?thesis using go [of WaitVersion] go [of k] k by (simp add: wait_object_version_def Let_def)
  next
    case 2
    then have "logged (taccs (tp_cid P) t es) (kt s t)"
      using replay_invD(4) [OF inv i] t th(2) by (simp add: cur_inv_def Let_def pc_at_def)
    then have "wv_version (rt_wait_version (rp_thr s t)) = ev_ver (tp_cid P) es i"
      using vptr_take(1) [OF _ th(4)] th(5,6) pc by simp
    then show ?thesis using 2 go [of CheckVersion] w by (simp add: wait_object_version_def ov_def)
  next
    case 3
    have "steps_left P es (set_thr t (r'\<lparr>rt_pc := k\<rparr>) s) < steps_left P es s"
      if "next_wait_version_log (rp_thr s t) = Some r'" for r'
      using that 3 k by (intro steps_left_thr [OF tn, of _ _ "r'\<lparr>rt_pc := k\<rparr>"])
        (auto simp: thr_left_def next_wait_version_log_def split: list.splits if_splits)
    then show ?thesis
      using 3 go [of "Fault Version_assert"] go [of "Fault Past_log_end"]
      by (auto simp: wait_object_version_def Let_def split: option.splits)
  qed
qed

lemma reader_progress:
  assumes inv: "replay_inv P es s" and run: "run_of P es" and i: "is_cur es s i" and t: "t = ev_tid (es ! i)"
    and o': "o' = ev_obj (tp_cid P) es i"
    and pc: "rt_pc (rp_thr s t) = NextReader \<or> rt_pc (rp_thr s t) = ReaderLocked \<or> rt_pc (rp_thr s t) = WaitReader e"
  shows "steps_left P es (wait_reader t o' s) < steps_left P es s \<or> waiting P es s i"
proof -
  let ?l = "wait_reader_log s ! o'"
  have tn: "t < tp_nthr P" "o' < tp_nobj P" using cur_act(2,4) [OF inv run i] t o' by simp_all
  note go = steps_left_goto [OF tn(1), of _ s es]
  note up = steps_left_upd [OF tn replay_invD(2) [OF inv]]
  have upd: "steps_left P es (goto t q (set_reader_log o' l' s)) < steps_left P es s"
    if "pc_rank q + 4 * log_left l' < pc_rank (rt_pc (rp_thr s t)) + 4 * log_left ?l" for q l'
    using that by (intro up [where r' = "(rp_thr s t)\<lparr>rt_pc := q\<rparr>"]) (auto simp: goto_def thr_left_def)
  have same: "log_left (?l\<lparr>rl_mutex := b\<rparr>) = log_left ?l" for b by (simp add: log_left_def reader_entries_def)
  consider "rt_pc (rp_thr s t) = NextReader" | "rt_pc (rp_thr s t) = ReaderLocked"
    | "rt_pc (rp_thr s t) = WaitReader e" using pc by blast
  then show ?thesis
  proof cases
    case 1
    then show ?thesis
      using go [of "Fault Concurrent_reader_log"] upd [of ReaderLocked "?l\<lparr>rl_mutex := True\<rparr>"]
      by (simp add: wait_reader_def Let_def same)
  next
    case 2
    show ?thesis
    proof (rule next_reader_memop_cases [OF replay_invD(6) [OF inv tn(2)] refl])
      assume "next_reader_memop (ov s o') ?l = Inr (None, ?l\<lparr>rl_mutex := False\<rparr>)"
      with 2 show ?thesis
        using upd [of StoreMem "?l\<lparr>rl_mutex := False\<rparr>"] by (simp add: wait_reader_def Let_def same ov_def)
    next
      let ?l' = "?l\<lparr>rl_n := rl_n ?l + 1, rl_mutex := False\<rparr>" and ?e = "rs s o' ! rn s o'"
      assume nx: "next_reader_memop (ov s o') ?l = Inr (Some ?e, ?l')" and n: "rn s o' < length (rs s o')"
      have "0 \<le> rl_n ?l" using replay_invD(6) [OF inv tn(2)] by (simp add: obj_inv_def Let_def)
      then have "log_left ?l = Suc (log_left ?l')"
        using n Suc_diff_Suc [of "rn s o'" "length (rs s o')"]
        by (simp add: log_left_def reader_entries_def rn_def rs_def nat_add_distrib)
      with 2 nx show ?thesis using upd [of "WaitReader ?e" ?l'] by (simp add: wait_reader_def Let_def ov_def)
    qed
  next
    case 3
    then have "e \<in> set (rs s o')"
      using replay_invD(4) [OF inv i] t o' by (simp add: cur_inv_def Let_def pc_at_def)
    from wait_reader_entry(2) [OF inv run tn(2) this] 3 go [of NextReader] waiting_simps(2) [OF t [symmetric], of s e P]
    show ?thesis by (auto simp: wait_reader_def Let_def entry_done_def)
  qed
qed

lemma cur_progress:
  assumes inv: "replay_inv P es s" and run: "run_of P es" and i: "is_cur es s i" and t: "t = ev_tid (es ! i)"
  shows "steps_left P es (replay_step P t s) < steps_left P es s \<or> waiting P es s i"
proof -
  note here = inv run i t
  have tn: "t < tp_nthr P" using cur_act(2) [OF inv run i] t by simp
  note go = steps_left_goto [OF tn, of _ _ es]
  have memv [simp]: "steps_left P es (s\<lparr>rp_mem := m\<rparr>) = steps_left P es s"
    "steps_left P es (s\<lparr>obj_version := v\<rparr>) = steps_left P es s" for m v by (simp_all add: steps_left_def)
  from here refl show ?thesis
  proof (cases rule: cur_step_cases)
    case check
    then show ?thesis using check_progress [OF here, of "if ev_write (es ! i) then NextReader else ReadMem"] by simp
  next
    case load
    then show ?thesis using go [of "Count (rp_mem s (ev_addr (es ! i)))" s] by simp
  next
    case (reader e)
    then show ?thesis using reader_progress [OF here refl, of e] by simp
  next
    case store
    then show ?thesis using go [of LoadVersion "s\<lparr>rp_mem := (rp_mem s)(ev_addr (es ! i) := ev_val (es ! i))\<rparr>"] by simp
  next
    case version
    then show ?thesis using go [of "StoreVersion (obj_version s ! ev_obj (tp_cid P) es i)" s] by simp
  next
    case (bump v)
    then show ?thesis
      using go [of "Count (ev_val (es ! i))" "s\<lparr>obj_version := (obj_version s)[ev_obj (tp_cid P) es i := v + 2]\<rparr>"] by simp
  next
    case (count v)
    let ?r = "rp_thr s t"
    have "steps_left P es (count_memop t v s) < steps_left P es s"
      using count cur_thr(3) [OF here]
      by (intro steps_left_thr [OF tn, of _ _ "?r\<lparr>rt_memop := rt_memop ?r + 1, rt_vals := rt_vals ?r @ [v], rt_pc := Run\<rparr>"])
        (auto simp: count_memop_def Let_def thr_left_def kt_def)
    then show ?thesis using count by simp
  qed
qed

section \<open>No deadlock\<close>

text \<open>The earliest access of the run that is not yet counted is never made to wait.\<close>

lemma earliest_not_waiting:
  assumes inv: "replay_inv P es s" and run: "run_of P es" and i: "is_cur es s i"
    and least: "\<And>j. j < i \<Longrightarrow> is_done es s j"
  shows "\<not> waiting P es s i"
proof
  assume w: "waiting P es s i"
  let ?o = "ev_obj (tp_cid P) es i" and ?v = "ev_ver (tp_cid P) es i"
  have len: "i < length es" using i by (rule is_cur_length)
  have on: "?o < tp_nobj P" using run_ofD(2) [OF run len] .
  note ob = replay_invD(6) [OF inv on]
  consider "ov s ?o < ?v" | e where "pc_at es s i = WaitReader e" "\<not> entry_done s e"
    using w by (auto simp: waiting_def split: rpc.splits)
  then show False
  proof cases
    case 1
    have ov: "even (ov s ?o)" "0 \<le> ov s ?o" using ob by (simp_all add: obj_inv_def Let_def)
    define n where "n = nat (ov s ?o div 2)"
    have n: "ov s ?o = 2 * int n" using ov by (simp add: n_def)
    have "n < nwrites (tp_cid P) ?o es" using 1 ev_ver_le_total [of "tp_cid P" es i] n by simp
    then obtain j where j: "j < length es" "ev_write (es ! j)" "ev_obj (tp_cid P) es j = ?o"
      "ev_ver (tp_cid P) es j = 2 * int n" by (rule write_at_version)
    have "j < i" using ver_less_pos [OF j(1) len j(3)] j(4) 1 n by simp
    then have "perf es s j" using least by (simp add: perf_def)
    then show False using replay_invD(5) [OF inv j(1)] j n by (simp add: ord_inv_def Let_def)
  next
    case 2
    have cur: "ev_write (es ! i)" "?v = ov s ?o" "e \<in> set (rs s ?o)" "rwm_version e = ?v"
      using replay_invD(4) [OF inv i] 2(1) by (simp_all add: cur_inv_def Let_def)
    obtain j where j: "read_at (tp_cid P) es ?o e j"
      using ob cur(3) by (auto simp: obj_inv_def Let_def log_static_def rs_def)
    then have "j \<le> i" using cur(1,4) len
      by (intro ver_le_write_pos [of j es i "tp_cid P"]) (simp_all add: read_at_def)
    moreover have "j \<noteq> i" using j cur(1) by (auto simp: read_at_def)
    ultimately have "is_done es s j" using least by simp
    then show False using 2(2) j by (simp add: is_done_def entry_done_def read_at_def)
  qed
qed

lemma can_progress:
  assumes inv: "replay_inv P es s" and run: "run_of P es" and fin: "complete P es" and nd: "\<not> all_done P s"
  shows "\<exists>t < tp_nthr P. steps_left P es (replay_step P t s) < steps_left P es s"
proof (cases "\<exists>i. is_cur es s i")
  case True
  define i where "i = (LEAST i. is_cur es s i)"
  have i: "is_cur es s i" unfolding i_def using True by (rule LeastI_ex)
  have len: "i < length es" using i by (rule is_cur_length)
  have "is_done es s j" if ji: "j < i" for j
  proof (rule ccontr)
    let ?u = "ev_tid (es ! j)"
    assume nd: "\<not> is_done es s j"
    have jl: "j < length es" using ji len by simp
    then have "kt s ?u < thr_cnt ?u es" using nd ev_memop_less [OF jl] by (simp add: is_done_def)
    then obtain l where l: "l < length es" "ev_tid (es ! l) = ?u" "ev_memop es l = kt s ?u" by (rule thr_pos_ex)
    then have "is_cur es s l" by (simp add: is_cur_def)
    then have "i \<le> l" unfolding i_def by (rule Least_le)
    moreover have "l \<le> j" using ev_memop_less_iff [OF jl l(1)] l nd by (simp add: is_done_def not_less)
    ultimately show False using ji by simp
  qed
  then have "\<not> waiting P es s i" by (rule earliest_not_waiting [OF inv run i])
  with cur_progress [OF inv run i refl] cur_act(2) [OF inv run i] show ?thesis by blast
next
  case False
  obtain t where t: "t < tp_nthr P" "rt_pc (rp_thr s t) \<noteq> Done" using nd by (auto simp: all_done_def)
  have k: "kt s t = thr_cnt t es" using cur_ex [OF inv t(1)] False by blast
  have th: "thr_inv P es s t" using replay_invD(3) [OF inv t(1)] .
  then have "tp_code P t (rt_vals (rp_thr s t)) = Finish" "rt_pc (rp_thr s t) = Run"
    using fin t k by (simp_all add: thr_inv_def Let_def complete_def)
  then have "replay_step P t s = goto t Done s" by (simp add: replay_step_def)
  then have "steps_left P es (replay_step P t s) < steps_left P es s"
    using steps_left_goto [OF t(1), of Done s es] \<open>rt_pc (rp_thr s t) = Run\<close> by simp
  with t show ?thesis by blast
qed

lemma waiting_step:
  assumes "replay_inv P es s" "run_of P es" "is_cur es s i" "t = ev_tid (es ! i)" "waiting P es s i"
  shows "replay_step P t s = s"
proof -
  note th = cur_thr [OF assms(1-4)]
  note act = cur_act [OF assms(1-3), folded assms(4)]
  have pc: "pc_at es s i = rt_pc (rp_thr s t)" using assms(4) by (simp add: pc_at_def)
  note ci = replay_invD(4) [OF assms(1,3)]
  consider "rt_pc (rp_thr s t) = WaitVersion" | e where "rt_pc (rp_thr s t) = WaitReader e"
    using assms(5) pc by (auto simp: waiting_def split: rpc.splits)
  then show ?thesis
  proof cases
    case 1
    then have "logged (taccs (tp_cid P) t es) (kt s t)"
      using ci th(2) pc assms(4) by (simp add: cur_inv_def Let_def)
    then have "wv_version (rt_wait_version (rp_thr s t)) = ev_ver (tp_cid P) es i"
      using vptr_take(1) [OF _ th(4)] th(5,6) 1 by simp
    then show ?thesis
      using 1 assms(5) pc act(1,3) by (simp add: waiting_def replay_step_def mem_read_def mem_write_def ev_act_def
          wait_object_version_def ov_def)
  next
    case 2
    then have e: "e \<in> set (rs s (ev_obj (tp_cid P) es i))" "ev_write (es ! i)"
      using ci pc by (simp_all add: cur_inv_def Let_def)
    from wait_reader_entry(2) [OF assms(1,2) act(4) e(1)] show ?thesis
      using 2 e(2) assms(5) pc act(1,3)
      by (simp add: waiting_def replay_step_def mem_write_def ev_act_def wait_reader_def Let_def entry_done_def)
  qed
qed

lemma step_decreases:
  assumes inv: "replay_inv P es s" and run: "run_of P es" and fin: "complete P es" and tn: "t < tp_nthr P"
    and ch: "replay_step P t s \<noteq> s"
  shows "steps_left P es (replay_step P t s) < steps_left P es s"
proof (cases "kt s t = thr_cnt t es")
  case True
  have th: "thr_inv P es s t" using replay_invD(3) [OF inv tn] .
  then have "tp_code P t (rt_vals (rp_thr s t)) = Finish"
    using fin tn True by (simp add: thr_inv_def Let_def complete_def)
  with th True ch steps_left_goto [OF tn, of Done s es] show ?thesis
    by (auto simp: thr_inv_def Let_def replay_step_def)
next
  case False
  with cur_ex [OF inv tn] obtain i where i: "is_cur es s i" "t = ev_tid (es ! i)" by blast
  from cur_progress [OF inv run i] waiting_step [OF inv run i] ch show ?thesis by blast
qed

section \<open>The contract of a machine with spin loops\<close>

interpretation replayer: spin_machine "replay_step P" "tp_nthr P"
  "\<lambda>s. replay_inv P es s \<and> run_of P es \<and> complete P es" "all_done P" "steps_left P es" for P es
proof
  show "replay_inv P es (replay_step P t s) \<and> run_of P es \<and> complete P es"
    if "replay_inv P es s \<and> run_of P es \<and> complete P es" "t < tp_nthr P" for s t
    using that replay_step_inv by blast
  show "steps_left P es (replay_step P t s) < steps_left P es s"
    if "replay_inv P es s \<and> run_of P es \<and> complete P es" "t < tp_nthr P" "replay_step P t s \<noteq> s" for s t
    using that step_decreases by blast
  show "\<exists>t < tp_nthr P. replay_step P t s \<noteq> s"
    if "replay_inv P es s \<and> run_of P es \<and> complete P es" "\<not> all_done P s" for s
    using that can_progress [of P es s] by (metis less_irrefl)
qed

lemma done_run:
  assumes inv: "replay_inv P es s" and nd: "all_done P s" and run: "run_of P es"
  shows "t < tp_nthr P \<Longrightarrow> rt_vals (rp_thr s t) = map ev_val (thr_evs t es)"
    and "tp_cid P a < tp_nobj P \<Longrightarrow> rp_mem s a = mem_after (tp_mem P) es a"
proof -
  have nocur: "\<not> is_cur es s i" for i
    using replay_invD(4) [OF inv, of i] nd run_ofD(1) [OF run is_cur_length]
    by (auto simp: cur_inv_def Let_def pc_at_def all_done_def)
  have k: "kt s t = thr_cnt t es" if "t < tp_nthr P" for t using cur_ex [OF inv that] nocur by blast
  show "rt_vals (rp_thr s t) = map ev_val (thr_evs t es)" if "t < tp_nthr P"
    using replay_invD(3) [OF inv that] k [OF that] by (simp add: thr_inv_def Let_def thr_vals_def thr_cnt_def)
  assume a: "tp_cid P a < tp_nobj P"
  have ob: "even (ov s (tp_cid P a))" "0 \<le> ov s (tp_cid P a)" "ov s (tp_cid P a) \<le> 2 * int (nwrites (tp_cid P) (tp_cid P a) es)"
    using replay_invD(6) [OF inv a] by (simp_all add: obj_inv_def Let_def)
  have "\<not> ov s (tp_cid P a) < 2 * int (nwrites (tp_cid P) (tp_cid P a) es)"
  proof
    assume lt: "ov s (tp_cid P a) < 2 * int (nwrites (tp_cid P) (tp_cid P a) es)"
    define n where "n = nat (ov s (tp_cid P a) div 2)"
    have n: "ov s (tp_cid P a) = 2 * int n" using ob by (simp add: n_def)
    with lt have "n < nwrites (tp_cid P) (tp_cid P a) es" by simp
    then obtain j where j: "j < length es" "ev_write (es ! j)" "ev_obj (tp_cid P) es j = tp_cid P a"
      "ev_ver (tp_cid P) es j = 2 * int n" by (rule write_at_version)
    have "is_done es s j" using ev_memop_less [OF j(1)] k [OF run_ofD(1) [OF run j(1)]] by (simp add: is_done_def)
    then show False using replay_invD(5) [OF inv j(1)] j n by (simp add: ord_inv_def Let_def perf_def)
  qed
  then have "nat (ov s (tp_cid P a)) div 2 = nwrites (tp_cid P) (tp_cid P a) es" using ob by simp
  then show "rp_mem s a = mem_after (tp_mem P) es a"
    using replay_invD(7) [OF inv a] nocur by (simp add: mem_inv_def vmem_final)
qed

end
