(* ===== verification/Spin_Locks.thy ===== *)
theory Spin_Locks
  imports Mem_Prelude
begin

unbundle bit_operations_syntax

text \<open>
  The two spin locks of the repository, on the word level: the lock of \<open>src/spinlock.h\<close>, one byte
  taken by an exchange, and the ticket lock of \<open>src/ticket-spinlock.h\<close>, two 16-bit counters that
  share one 32-bit word. Each operation is the atomic access it makes; the waiting loops are steps
  of the machines that use the locks.
\<close>

section \<open>The exchange lock (src/spinlock.h)\<close>

type_synonym spinlock = "8 word"

definition BUSY :: spinlock where "BUSY = 1"

definition xchg_8 :: "spinlock \<Rightarrow> spinlock \<Rightarrow> spinlock \<times> spinlock" where
  "xchg_8 x ptr = (ptr, x)"

text \<open>One turn of the loop of \<open>spin_lock\<close>: \<open>True\<close> when the lock was got.\<close>

definition spin_lock_try :: "spinlock \<Rightarrow> bool \<times> spinlock" where
  "spin_lock_try lock = (let (x, lock') = xchg_8 BUSY lock in (x = 0, lock'))"

definition spin_unlock :: "spinlock \<Rightarrow> spinlock" where
  "spin_unlock lock = 0"

text \<open>\<open>spin_trylock\<close> returns zero when the lock was got.\<close>

definition spin_trylock :: "spinlock \<Rightarrow> spinlock \<times> spinlock" where
  "spin_trylock lock = xchg_8 BUSY lock"

definition spin_lockable :: "spinlock \<Rightarrow> bool" where
  "spin_lockable lock \<longleftrightarrow> lock \<noteq> BUSY"

section \<open>The ticket lock (src/ticket-spinlock.h)\<close>

record ticketlock =
  tk_ticket :: "16 word"
  tk_users :: "16 word"

text \<open>The member \<open>u\<close> of the union: on a little-endian machine \<open>ticket\<close> is its low half.\<close>

definition tk_u :: "ticketlock \<Rightarrow> 32 word" where
  "tk_u t = push_bit 16 (ucast (tk_users t)) + ucast (tk_ticket t)"

definition tk_of_u :: "32 word \<Rightarrow> ticketlock" where
  "tk_of_u u = \<lparr>tk_ticket = ucast u, tk_users = ucast (drop_bit 16 u)\<rparr>"

text \<open>The atomic part of \<open>ticket_lock\<close>: the number drawn.\<close>

definition ticket_draw :: "ticketlock \<Rightarrow> 16 word \<times> ticketlock" where
  "ticket_draw t = (tk_users t, t\<lparr>tk_users := tk_users t + 1\<rparr>)"

definition ticket_unlock :: "ticketlock \<Rightarrow> ticketlock" where
  "ticket_unlock t = t\<lparr>tk_ticket := tk_ticket t + 1\<rparr>"

text \<open>\<open>ticket_trylock\<close> reads \<open>users\<close> first and makes the compare-and-swap later; \<open>me\<close> is what it read.
  It returns zero when the lock was got.\<close>

definition ticket_trylock :: "16 word \<Rightarrow> ticketlock \<Rightarrow> nat \<times> ticketlock" where
  "ticket_trylock me t =
     (let menew = me + 1;
          cmp = push_bit 16 (ucast me) + ucast me :: 32 word;
          cmpnew = push_bit 16 (ucast menew) + ucast me
      in if tk_u t = cmp then (0, tk_of_u cmpnew) else (1, t))"

definition ticket_lockable :: "ticketlock \<Rightarrow> bool" where
  "ticket_lockable t \<longleftrightarrow> tk_ticket t = tk_users t"

section \<open>Facts\<close>

lemma BUSY_nonzero [simp]: "BUSY \<noteq> 0"
  by (simp add: BUSY_def)

text \<open>An exchange gets the lock exactly when it was free, and leaves it taken in either case.\<close>

lemma spin_lock_try_eq: "spin_lock_try lock = (lock = 0, BUSY)"
  by (simp add: spin_lock_try_def xchg_8_def)

lemma tk_pack:
  "ucast (push_bit 16 (ucast (a :: 16 word)) + ucast (b :: 16 word) :: 32 word) = b"
  "ucast (drop_bit 16 (push_bit 16 (ucast (a :: 16 word)) + ucast (b :: 16 word) :: 32 word)) = a"
proof -
  have or: "push_bit 16 (ucast a) + ucast b = (push_bit 16 (ucast a) OR ucast b :: 32 word)"
    by (rule disjunctive_add) (auto simp: bit_simps dest: bit_imp_le_length)
  show "ucast (push_bit 16 (ucast a) + ucast b :: 32 word) = b"
    unfolding or by (rule bit_word_eqI) (auto simp: bit_simps)
  show "ucast (drop_bit 16 (push_bit 16 (ucast a) + ucast b :: 32 word)) = a"
    unfolding or by (rule bit_word_eqI) (auto simp: bit_simps dest: bit_imp_le_length)
qed

lemma tk_of_u_u [simp]: "tk_of_u (tk_u t) = t"
  by (cases t) (simp add: tk_of_u_def tk_u_def tk_pack)

lemma tk_u_inj: "tk_u s = tk_u t \<longleftrightarrow> s = t"
  by (metis tk_of_u_u)

lemma of_nat_16_inj:
  assumes "(of_nat m :: 16 word) = of_nat n" "m < 65536" "n < 65536"
  shows "m = n"
proof -
  have "unat (of_nat m :: 16 word) = m" "unat (of_nat n :: 16 word) = n"
    using assms(2,3) by (simp_all add: unat_of_nat take_bit_nat_eq_self)
  with assms(1) show ?thesis by metis
qed

section \<open>What a fair lock promises\<close>

text \<open>
  The contract of a lock that serves its users in the order of their arrival, for at most \<open>cap\<close> of
  them: \<open>holds q l\<close> says that the numbers in \<open>q\<close> have been drawn and not yet given back.
\<close>

locale fifo_lock =
  fixes draw :: "'l \<Rightarrow> 'n \<times> 'l"
    and turn :: "'l \<Rightarrow> 'n \<Rightarrow> bool"
    and unlock :: "'l \<Rightarrow> 'l"
    and lockable :: "'l \<Rightarrow> bool"
    and holds :: "'n list \<Rightarrow> 'l \<Rightarrow> bool"
    and cap :: nat
  assumes holds_distinct: "holds q l \<Longrightarrow> distinct q"
    and holds_draw: "holds q l \<Longrightarrow> length q < cap \<Longrightarrow> draw l = (me, l') \<Longrightarrow> holds (q @ [me]) l'"
    and holds_turn: "holds q l \<Longrightarrow> me \<in> set q \<Longrightarrow> turn l me \<longleftrightarrow> me = hd q"
    and holds_unlock: "holds (me # q) l \<Longrightarrow> holds q (unlock l)"
    and holds_lockable: "holds q l \<Longrightarrow> lockable l \<longleftrightarrow> q = []"
begin

lemma turn_unique:
  assumes "holds q l" "a \<in> set q" "b \<in> set q" "turn l a" "turn l b"
  shows "a = b"
  using assms holds_turn by metis

lemma draw_fresh:
  assumes "holds q l" "length q < cap" "draw l = (me, l')"
  shows "me \<notin> set q"
  using holds_distinct [OF holds_draw [OF assms]] by simp

lemma locked_after_draw:
  assumes "holds q l" "length q < cap" "draw l = (me, l')"
  shows "\<not> lockable l'"
  using holds_lockable [OF holds_draw [OF assms]] by simp

end

section \<open>The ticket lock keeps the promise\<close>

definition tk_holds :: "16 word list \<Rightarrow> ticketlock \<Rightarrow> bool" where
  "tk_holds q t \<longleftrightarrow>
     length q < 65536 \<and> (\<forall>k < length q. q ! k = tk_ticket t + of_nat k) \<and>
     tk_users t = tk_ticket t + of_nat (length q)"

interpretation ticket: fifo_lock ticket_draw "\<lambda>t me. tk_ticket t = me" ticket_unlock ticket_lockable tk_holds 65535
proof
  show "distinct q" if h: "tk_holds q l" for q l
    using h of_nat_16_inj by (auto simp: tk_holds_def distinct_conv_nth)
  show "tk_holds (q @ [me]) l'" if "tk_holds q l" "length q < 65535" "ticket_draw l = (me, l')" for q l me l'
    using that by (auto simp: tk_holds_def ticket_draw_def nth_append less_Suc_eq)
  show "tk_ticket l = me \<longleftrightarrow> me = hd q" if "tk_holds q l" "me \<in> set q" for q l me
  proof -
    have "q \<noteq> []" using that(2) by auto
    then have "hd q = tk_ticket l" using that(1) by (simp add: tk_holds_def hd_conv_nth)
    then show ?thesis by auto
  qed
  show "tk_holds q (ticket_unlock l)" if h: "tk_holds (me # q) l" for me q l
  proof -
    have "q ! k = tk_ticket l + of_nat (Suc k)" if "k < length q" for k
      using h that by (auto simp: tk_holds_def dest!: spec [of _ "Suc k"])
    then show ?thesis using h by (simp add: tk_holds_def ticket_unlock_def algebra_simps)
  qed
  show "ticket_lockable l \<longleftrightarrow> q = []" if h: "tk_holds q l" for q l
  proof -
    have "ticket_lockable l \<longleftrightarrow> (of_nat (length q) :: 16 word) = of_nat 0"
      using h by (auto simp: tk_holds_def ticket_lockable_def)
    also have "\<dots> \<longleftrightarrow> length q = 0" using h of_nat_16_inj [of "length q" 0] by (auto simp: tk_holds_def)
    finally show ?thesis by simp
  qed
qed

section \<open>Properties\<close>

lemma draw_number: "fst (ticket_draw l) = tk_users l"
  by (simp add: ticket_draw_def)

lemma draws_view:
  "tk_users (((\<lambda>l. snd (ticket_draw l)) ^^ n) l) = tk_users l + of_nat n"
  "tk_ticket (((\<lambda>l. snd (ticket_draw l)) ^^ n) l) = tk_ticket l"
  by (induction n) (simp_all add: ticket_draw_def)

lemma unlocks_view: "tk_ticket ((ticket_unlock ^^ k) l) = tk_ticket l + of_nat k"
  by (induction k) (simp_all add: ticket_unlock_def)

text \<open>C30: the ticket lock serves its users one at a time and in the order in which they came: when \<open>n\<close>
  users have drawn a number from a free lock, wherever its 16-bit counters stand, and \<open>k\<close> of them
  have given the lock back, it is the turn of user \<open>k\<close> and of nobody else. The counters may wrap
  around; fewer than 65536 users can draw at a time.\<close>

theorem ticket_fifo:
  assumes "ticket_lockable l" "n < 65536" "i < n" "k < n"
  shows "tk_ticket ((ticket_unlock ^^ k) (((\<lambda>l. snd (ticket_draw l)) ^^ n) l)) =
      fst (ticket_draw (((\<lambda>l. snd (ticket_draw l)) ^^ i) l)) \<longleftrightarrow> i = k"
proof -
  have "tk_ticket ((ticket_unlock ^^ k) (((\<lambda>l. snd (ticket_draw l)) ^^ n) l)) =
      fst (ticket_draw (((\<lambda>l. snd (ticket_draw l)) ^^ i) l)) \<longleftrightarrow> (of_nat k :: 16 word) = of_nat i"
    using assms(1) by (simp add: unlocks_view draws_view ticket_lockable_def draw_number)
  also have "\<dots> \<longleftrightarrow> i = k" using assms(2-4) of_nat_16_inj [of k i] by auto
  finally show ?thesis .
qed

theorem ticket_fifo_witness:
  "tk_ticket ((ticket_unlock ^^ 2) (((\<lambda>l. snd (ticket_draw l)) ^^ 4) \<lparr>tk_ticket = 65534, tk_users = 65534\<rparr>)) =
      fst (ticket_draw (((\<lambda>l. snd (ticket_draw l)) ^^ 2) \<lparr>tk_ticket = 65534, tk_users = 65534\<rparr>))"
  using ticket_fifo [of "\<lparr>tk_ticket = 65534, tk_users = 65534\<rparr>" 4 2 2] by (simp add: ticket_lockable_def)

text \<open>\<open>ticket_trylock\<close> compares and swaps both counters as one 32-bit word. Whatever it read of
  \<open>users\<close> before, it takes the lock exactly when the lock is free and nobody has drawn a number since,
  and then leaves the lock as \<open>ticket_lock\<close> does; otherwise it changes nothing.\<close>

lemma ticket_trylock_takes:
  "ticket_trylock me l =
     (if ticket_lockable l \<and> tk_users l = me then (0, snd (ticket_draw l)) else (1, l))"
proof -
  have "push_bit 16 (ucast me) + ucast me = tk_u \<lparr>tk_ticket = me, tk_users = me\<rparr>" by (simp add: tk_u_def)
  then have "tk_u l = push_bit 16 (ucast me) + ucast me \<longleftrightarrow> l = \<lparr>tk_ticket = me, tk_users = me\<rparr>"
    by (simp add: tk_u_inj)
  also have "\<dots> \<longleftrightarrow> ticket_lockable l \<and> tk_users l = me" by (cases l) (auto simp: ticket_lockable_def)
  finally have eq: "tk_u l = push_bit 16 (ucast me) + ucast me \<longleftrightarrow> ticket_lockable l \<and> tk_users l = me" .
  have "tk_of_u (push_bit 16 (ucast (me + 1)) + ucast me) = snd (ticket_draw l)" if "ticket_lockable l" "tk_users l = me"
    using that by (cases l) (simp add: ticket_lockable_def ticket_draw_def tk_of_u_def tk_pack)
  then show ?thesis using eq by (simp add: ticket_trylock_def Let_def)
qed

end
