(* ===== verification/Record_Machine.thy ===== *)
theory Record_Machine
  imports Test_Program Record_Log_Impl Spin_Locks
begin

text \<open>
  The recording run itself: the threads of the test program call the \<open>mem_read\<close> and \<open>mem_write\<close> of
  \<open>src/mem-record-seqlock.c\<close>, \<open>src/mem-record-seqbatch.c\<close> or \<open>src/mem-record-rtmseq.c\<close>. One step of
  a thread is one access to what the threads share: the objects' versions and write locks, and the
  memory. Accesses take effect in the order of the steps. A hardware transaction of \<open>rtmseq\<close> is one
  step that commits or aborts. The log taking of an access is thread-local and is a parameter of
  the machine, since the implementations differ in it only.
\<close>

section \<open>State\<close>

text \<open>\<open>struct objinfo\<close>.\<close>

record objinfo =
  oi_version :: version_t
  oi_write_lock :: spinlock

text \<open>Where a thread stands: between two accesses; in the two loops of \<open>mem_read\<close>; in \<open>spin_lock\<close>
  (the exchange, and the wait for a free lock); in the critical section of \<open>mem_write\<close>, where each
  \<open>version++\<close> is a load and a store; before its log taking; or at its end.\<close>

datatype qpc =
    QRun
  | RdVersion
  | RdLoad version_t
  | RdCheck version_t val_t
  | LockXchg
  | LockSpin
  | WrLoad
  | WrInc1Load version_t
  | WrInc1Store version_t version_t
  | WrStore version_t
  | WrInc2Load version_t
  | WrInc2Store version_t version_t
  | WrUnlock version_t
  | LogAcc version_t val_t
  | QDone

record 's rec_thr =
  qt_pc :: qpc
  qt_vals :: "val_t list"
  qt_rec :: 's

record 's recording =
  qs_mem :: mem
  g_objinfo :: "objinfo list"
  qs_thr :: "tid_t \<Rightarrow> 's rec_thr"

section \<open>Steps\<close>

definition recording_init :: "test_prog \<Rightarrow> 's \<Rightarrow> 's recording" where
  "recording_init P ini =
     \<lparr>qs_mem = tp_mem P, g_objinfo = replicate (tp_nobj P) \<lparr>oi_version = 0, oi_write_lock = 0\<rparr>,
      qs_thr = (\<lambda>t. \<lparr>qt_pc = QRun, qt_vals = [], qt_rec = ini\<rparr>)\<rparr>"

definition qgoto :: "tid_t \<Rightarrow> qpc \<Rightarrow> 's recording \<Rightarrow> 's recording" where
  "qgoto t pc s = s\<lparr>qs_thr := (qs_thr s)(t := (qs_thr s t)\<lparr>qt_pc := pc\<rparr>)\<rparr>"

definition set_version :: "objid_t \<Rightarrow> version_t \<Rightarrow> 's recording \<Rightarrow> 's recording" where
  "set_version o' v s = s\<lparr>g_objinfo := (g_objinfo s)[o' := (g_objinfo s ! o')\<lparr>oi_version := v\<rparr>]\<rparr>"

definition set_lock :: "objid_t \<Rightarrow> spinlock \<Rightarrow> 's recording \<Rightarrow> 's recording" where
  "set_lock o' b s = s\<lparr>g_objinfo := (g_objinfo s)[o' := (g_objinfo s ! o')\<lparr>oi_write_lock := b\<rparr>]\<rparr>"

definition set_mem :: "addr_t \<Rightarrow> val_t \<Rightarrow> 's recording \<Rightarrow> 's recording" where
  "set_mem a v s = s\<lparr>qs_mem := (qs_mem s)(a := v)\<rparr>"

text \<open>The log taking and the return to the test program.\<close>

definition log_step :: "(tacc \<Rightarrow> 's \<Rightarrow> 's) \<Rightarrow> tid_t \<Rightarrow> tacc \<Rightarrow> val_t \<Rightarrow> 's recording \<Rightarrow> 's recording" where
  "log_step lg t x v s =
     (let r = qs_thr s t
      in s\<lparr>qs_thr := (qs_thr s)(t := \<lparr>qt_pc = QRun, qt_vals = qt_vals r @ [v], qt_rec = lg x (qt_rec r)\<rparr>)\<rparr>)"

text \<open>\<open>mem_read\<close>: \<open>RdVersion\<close> loads the version and goes round while it is odd, \<open>RdLoad\<close> loads the
  value, \<open>RdCheck\<close> loads the version again and starts over when it has changed.\<close>

definition rec_read :: "(tacc \<Rightarrow> 's \<Rightarrow> 's) \<Rightarrow> test_prog \<Rightarrow> tid_t \<Rightarrow> addr_t \<Rightarrow> 's recording \<Rightarrow> 's recording" where
  "rec_read lg P t addr s =
     (let objid = tp_cid P addr; version = oi_version (g_objinfo s ! objid)
      in case qt_pc (qs_thr s t) of
           QRun \<Rightarrow> qgoto t RdVersion s
         | RdVersion \<Rightarrow> if odd version then s else qgoto t (RdLoad version) s
         | RdLoad v \<Rightarrow> qgoto t (RdCheck v (qs_mem s addr)) s
         | RdCheck v val \<Rightarrow> if v \<noteq> version then qgoto t RdVersion s else qgoto t (LogAcc v val) s
         | LogAcc v val \<Rightarrow> log_step lg t \<lparr>ta_write = False, ta_obj = objid, ta_ver = v\<rparr> val s
         | _ \<Rightarrow> s)"

text \<open>\<open>spin_lock\<close> of \<open>src/spinlock.h\<close>: the exchange gets the lock when it was free, otherwise the
  thread waits for a free lock before it tries again.\<close>

definition spin_lock_step :: "tid_t \<Rightarrow> objid_t \<Rightarrow> 's recording \<Rightarrow> 's recording" where
  "spin_lock_step t objid s =
     (let lock = oi_write_lock (g_objinfo s ! objid)
      in case qt_pc (qs_thr s t) of
           LockXchg \<Rightarrow>
             (let (got, lock') = spin_lock_try lock
              in qgoto t (if got then WrLoad else LockSpin) (set_lock objid lock' s))
         | LockSpin \<Rightarrow> if lock \<noteq> 0 then s else qgoto t LockXchg s
         | _ \<Rightarrow> s)"

definition rec_write ::
  "(tacc \<Rightarrow> 's \<Rightarrow> 's) \<Rightarrow> test_prog \<Rightarrow> tid_t \<Rightarrow> addr_t \<Rightarrow> val_t \<Rightarrow> 's recording \<Rightarrow> 's recording" where
  "rec_write lg P t addr val s =
     (let objid = tp_cid P addr; version = oi_version (g_objinfo s ! objid)
      in case qt_pc (qs_thr s t) of
           QRun \<Rightarrow> qgoto t LockXchg s
         | LockXchg \<Rightarrow> spin_lock_step t objid s
         | LockSpin \<Rightarrow> spin_lock_step t objid s
         | WrLoad \<Rightarrow> qgoto t (WrInc1Load version) s
         | WrInc1Load v \<Rightarrow> qgoto t (WrInc1Store v version) s
         | WrInc1Store v w \<Rightarrow> qgoto t (WrStore v) (set_version objid (w + 1) s)
         | WrStore v \<Rightarrow> qgoto t (WrInc2Load v) (set_mem addr val s)
         | WrInc2Load v \<Rightarrow> qgoto t (WrInc2Store v version) s
         | WrInc2Store v w \<Rightarrow> qgoto t (WrUnlock v) (set_version objid (w + 1) s)
         | WrUnlock v \<Rightarrow> qgoto t (LogAcc v val) (set_lock objid (spin_unlock (oi_write_lock (g_objinfo s ! objid))) s)
         | LogAcc v x \<Rightarrow> log_step lg t \<lparr>ta_write = True, ta_obj = objid, ta_ver = v\<rparr> x s
         | _ \<Rightarrow> s)"

text \<open>The transactions of \<open>src/mem-record-rtmseq.c\<close>. An abort goes to the fallback, which is the code
  above.\<close>

definition read_tx :: "test_prog \<Rightarrow> tid_t \<Rightarrow> addr_t \<Rightarrow> 's recording \<Rightarrow> 's recording" where
  "read_tx P t addr s =
     (let version = oi_version (g_objinfo s ! tp_cid P addr); val = qs_mem s addr
      in if odd version then qgoto t RdVersion s else qgoto t (LogAcc version val) s)"

definition write_tx :: "test_prog \<Rightarrow> tid_t \<Rightarrow> addr_t \<Rightarrow> val_t \<Rightarrow> 's recording \<Rightarrow> 's recording" where
  "write_tx P t addr val s =
     (let objid = tp_cid P addr; version = oi_version (g_objinfo s ! objid);
          s1 = set_version objid (version + 2) (set_mem addr val s)
      in if oi_write_lock (g_objinfo s1 ! objid) \<noteq> 0 then qgoto t LockXchg s else qgoto t (LogAcc version val) s1)"

text \<open>One step of thread \<open>t\<close>; \<open>tx\<close> says whether a transaction that the thread begins runs to its end.\<close>

definition rec_step ::
  "(tacc \<Rightarrow> 's \<Rightarrow> 's) \<Rightarrow> test_prog \<Rightarrow> bool \<Rightarrow> tid_t \<Rightarrow> 's recording \<Rightarrow> 's recording" where
  "rec_step lg P tx t s =
     (case qt_pc (qs_thr s t) of
        QDone \<Rightarrow> s
      | pc \<Rightarrow> (case tp_code P t (qt_vals (qs_thr s t)) of
                 Read a \<Rightarrow> if tx \<and> pc = QRun then read_tx P t a s else rec_read lg P t a s
               | Write a v \<Rightarrow> if tx \<and> pc = QRun then write_tx P t a v s else rec_write lg P t a v s
               | Finish \<Rightarrow> qgoto t QDone s))"

text \<open>The states a recording can reach; transactions exist with \<open>rtm\<close> only.\<close>

inductive rec_reach :: "bool \<Rightarrow> (tacc \<Rightarrow> 's \<Rightarrow> 's) \<Rightarrow> 's \<Rightarrow> test_prog \<Rightarrow> 's recording \<Rightarrow> bool"
  for rtm lg ini P where
  init: "rec_reach rtm lg ini P (recording_init P ini)"
| step: "rec_reach rtm lg ini P s \<Longrightarrow> t < tp_nthr P \<Longrightarrow> (tx \<Longrightarrow> rtm) \<Longrightarrow>
    rec_reach rtm lg ini P (rec_step lg P tx t s)"

definition rec_done :: "test_prog \<Rightarrow> 's recording \<Rightarrow> bool" where
  "rec_done P s \<longleftrightarrow> (\<forall>t < tp_nthr P. qt_pc (qs_thr s t) = QDone)"

text \<open>Running a schedule: each step names its thread and whether a transaction succeeds.\<close>

definition rec_run :: "(tacc \<Rightarrow> 's \<Rightarrow> 's) \<Rightarrow> test_prog \<Rightarrow> (tid_t \<times> bool) list \<Rightarrow> 's recording \<Rightarrow> 's recording" where
  "rec_run lg P sch s = fold (\<lambda>(t, tx). rec_step lg P tx t) sch s"

lemma rec_reach_run:
  assumes "rec_reach rtm lg ini P s" "\<forall>(t, tx) \<in> set sch. t < tp_nthr P \<and> (tx \<longrightarrow> rtm)"
  shows "rec_reach rtm lg ini P (rec_run lg P sch s)"
  using assms by (induction sch arbitrary: s) (auto simp: rec_run_def intro: rec_reach.step)

text \<open>The programs the library is meant for name existing objects only.\<close>

definition prog_ok :: "test_prog \<Rightarrow> bool" where
  "prog_ok P \<longleftrightarrow>
     (\<forall>t < tp_nthr P. \<forall>vs. tp_code P t vs \<noteq> Finish \<longrightarrow> tp_cid P (act_addr (tp_code P t vs)) < tp_nobj P)"

end
