(* ===== verification/Record_Inv.thy ===== *)
theory Record_Inv
  imports Record_Machine
begin

text \<open>
  Every recording is the recording of a run: there is a sequence of accesses, in which every read
  returns what the writes before it left, such that the threads have seen its values and their
  recorders have been given its accesses with the versions they have in it. A read takes effect when
  the second load of the version confirms the first, a write when it stores the even version, a
  transaction when it commits.
\<close>

section \<open>The invariant\<close>

fun critical :: "qpc \<Rightarrow> bool" where
  "critical WrLoad = True"
| "critical (WrInc1Load v) = True"
| "critical (WrInc1Store v w) = True"
| "critical (WrStore v) = True"
| "critical (WrInc2Load v) = True"
| "critical (WrInc2Store v w) = True"
| "critical (WrUnlock v) = True"
| "critical pc = False"

fun wstored :: "qpc \<Rightarrow> bool" where
  "wstored (WrInc2Load v) = True"
| "wstored (WrInc2Store v w) = True"
| "wstored pc = False"

fun reading :: "qpc \<Rightarrow> bool" where
  "reading RdVersion = True"
| "reading (RdLoad v) = True"
| "reading (RdCheck v x) = True"
| "reading pc = False"

fun act_write :: "action \<Rightarrow> bool" where
  "act_write (Write a v) = True"
| "act_write a = False"

fun act_val :: "action \<Rightarrow> val_t" where
  "act_val (Write a v) = v"
| "act_val a = 0"

text \<open>The access that has taken effect and is not yet logged.\<close>

fun pending_acc :: "action \<Rightarrow> qpc \<Rightarrow> (version_t \<times> val_t) option" where
  "pending_acc act (LogAcc ver v) = Some (ver, v)"
| "pending_acc act (WrUnlock ver) = Some (ver, act_val act)"
| "pending_acc act pc = None"

text \<open>A thread makes the access its program asks for.\<close>

definition pc_kind :: "action \<Rightarrow> qpc \<Rightarrow> bool" where
  "pc_kind act pc \<longleftrightarrow>
     (reading pc \<longrightarrow> act \<noteq> Finish \<and> \<not> act_write act) \<and>
     (critical pc \<or> pc = LockXchg \<or> pc = LockSpin \<longrightarrow> act_write act) \<and>
     (pending_acc act pc \<noteq> None \<longrightarrow> act \<noteq> Finish) \<and> (pc = QDone \<longrightarrow> act = Finish)"

definition ract :: "test_prog \<Rightarrow> 's recording \<Rightarrow> tid_t \<Rightarrow> action" where
  "ract P s t = tp_code P t (qt_vals (qs_thr s t))"

definition raddr :: "test_prog \<Rightarrow> 's recording \<Rightarrow> tid_t \<Rightarrow> addr_t" where
  "raddr P s t = act_addr (ract P s t)"

definition robj :: "test_prog \<Rightarrow> 's recording \<Rightarrow> tid_t \<Rightarrow> objid_t" where
  "robj P s t = tp_cid P (raddr P s t)"

abbreviation rpc_of :: "'s recording \<Rightarrow> tid_t \<Rightarrow> qpc" where
  "rpc_of s t \<equiv> qt_pc (qs_thr s t)"

definition rver :: "'s recording \<Rightarrow> objid_t \<Rightarrow> version_t" where
  "rver s o' = oi_version (g_objinfo s ! o')"

definition rlock :: "'s recording \<Rightarrow> objid_t \<Rightarrow> bool" where
  "rlock s o' \<longleftrightarrow> oi_write_lock (g_objinfo s ! o') \<noteq> 0"

text \<open>The history of a thread: the accesses it has been credited with in the run.\<close>

definition thr_hist ::
  "(tacc \<Rightarrow> 's \<Rightarrow> 's) \<Rightarrow> 's \<Rightarrow> test_prog \<Rightarrow> event list \<Rightarrow> tid_t \<Rightarrow> 's rec_thr \<Rightarrow> bool" where
  "thr_hist lg ini P es t r \<longleftrightarrow>
     (let k = length (qt_vals r); xs = taccs (tp_cid P) t es; act = tp_code P t (qt_vals r)
      in qt_vals r = thr_vals t es k \<and> qt_rec r = fold lg (take k xs) ini \<and> pc_kind act (qt_pc r) \<and>
         (case pending_acc act (qt_pc r) of
            None \<Rightarrow> thr_cnt t es = k
          | Some (ver, v) \<Rightarrow> thr_cnt t es = Suc k \<and> ev_val (thr_evs t es ! k) = v \<and>
              xs ! k = \<lparr>ta_write = act_write act, ta_obj = tp_cid P (act_addr act), ta_ver = ver\<rparr>))"

text \<open>What a thread in the middle of an access knows of the version and the memory.\<close>

definition pc_inv :: "test_prog \<Rightarrow> 's recording \<Rightarrow> tid_t \<Rightarrow> bool" where
  "pc_inv P s t \<longleftrightarrow>
     (let a = raddr P s t; w = rver s (robj P s t); x = act_val (ract P s t)
      in case rpc_of s t of
           RdLoad v \<Rightarrow> even v \<and> v \<le> w
         | RdCheck v y \<Rightarrow> even v \<and> v \<le> w \<and> (v = w \<longrightarrow> qs_mem s a = y)
         | WrLoad \<Rightarrow> even w
         | WrInc1Load v \<Rightarrow> even v \<and> w = v
         | WrInc1Store v v' \<Rightarrow> even v \<and> w = v \<and> v' = v
         | WrStore v \<Rightarrow> even v \<and> w = v + 1
         | WrInc2Load v \<Rightarrow> even v \<and> w = v + 1 \<and> qs_mem s a = x
         | WrInc2Store v v' \<Rightarrow> even v \<and> w = v + 1 \<and> v' = v + 1 \<and> qs_mem s a = x
         | WrUnlock v \<Rightarrow> even v \<and> w = v + 2
         | _ \<Rightarrow> True)"

text \<open>The write lock: held by the one thread in the critical section; an odd version needs it.\<close>

definition locks_inv :: "test_prog \<Rightarrow> 's recording \<Rightarrow> bool" where
  "locks_inv P s \<longleftrightarrow>
     (\<forall>o' < tp_nobj P. rlock s o' \<longleftrightarrow> (\<exists>t < tp_nthr P. critical (rpc_of s t) \<and> robj P s t = o')) \<and>
     (\<forall>t < tp_nthr P. \<forall>u < tp_nthr P.
        critical (rpc_of s t) \<longrightarrow> critical (rpc_of s u) \<longrightarrow> robj P s t = robj P s u \<longrightarrow> t = u) \<and>
     (\<forall>o' < tp_nobj P. odd (rver s o') \<longrightarrow> rlock s o')"

definition vers_inv :: "test_prog \<Rightarrow> event list \<Rightarrow> 's recording \<Rightarrow> bool" where
  "vers_inv P es s \<longleftrightarrow>
     (\<forall>o' < tp_nobj P. 0 \<le> rver s o' \<and> nwrites (tp_cid P) o' es = nat (rver s o') div 2)"

definition rmem_inv :: "test_prog \<Rightarrow> event list \<Rightarrow> 's recording \<Rightarrow> bool" where
  "rmem_inv P es s \<longleftrightarrow>
     (\<forall>a. qs_mem s a = mem_after (tp_mem P) es a \<or>
        (\<exists>t < tp_nthr P. wstored (rpc_of s t) \<and> raddr P s t = a))"

definition recording_inv ::
  "(tacc \<Rightarrow> 's \<Rightarrow> 's) \<Rightarrow> 's \<Rightarrow> test_prog \<Rightarrow> event list \<Rightarrow> 's recording \<Rightarrow> bool" where
  "recording_inv lg ini P es s \<longleftrightarrow>
     run_of P es \<and> length (g_objinfo s) = tp_nobj P \<and>
     (\<forall>t < tp_nthr P. thr_hist lg ini P es t (qs_thr s t) \<and> pc_inv P s t) \<and>
     vers_inv P es s \<and> locks_inv P s \<and> rmem_inv P es s"

lemma recording_invD:
  assumes "recording_inv lg ini P es s"
  shows "run_of P es" "length (g_objinfo s) = tp_nobj P"
    and "t < tp_nthr P \<Longrightarrow> thr_hist lg ini P es t (qs_thr s t)" "t < tp_nthr P \<Longrightarrow> pc_inv P s t"
    and "vers_inv P es s" "locks_inv P s" "rmem_inv P es s"
  using assms by (simp_all add: recording_inv_def)

section \<open>Growing the run\<close>

lemma thr_vals_old:
  "k \<le> thr_cnt t es \<Longrightarrow> thr_vals t (es @ [e]) k = thr_vals t es k"
  by (simp add: thr_vals_def thr_cnt_def trace_simps)

lemma run_of_snoc:
  assumes run: "run_of P es" and t: "ev_tid e < tp_nthr P" and o': "tp_cid P (ev_addr e) < tp_nobj P"
    and act: "tp_code P (ev_tid e) (thr_vals (ev_tid e) es (thr_cnt (ev_tid e) es)) = ev_act e"
    and rd: "\<not> ev_write e \<Longrightarrow> ev_val e = mem_after (tp_mem P) es (ev_addr e)"
  shows "run_of P (es @ [e])"
proof -
  have "ev_tid ((es @ [e]) ! i) < tp_nthr P \<and> ev_obj (tp_cid P) (es @ [e]) i < tp_nobj P \<and>
      tp_code P (ev_tid ((es @ [e]) ! i)) (thr_vals (ev_tid ((es @ [e]) ! i)) (es @ [e]) (ev_memop (es @ [e]) i)) =
        ev_act ((es @ [e]) ! i)" if i: "i < length (es @ [e])" for i
  proof (cases "i < length es")
    case True
    then show ?thesis
      using run_ofD [OF run True] ev_memop_less [OF True]
      by (simp add: nth_append ev_snoc_old thr_vals_old)
  next
    case False
    with i have "i = length es" by simp
    then show ?thesis
      using t o' act by (simp add: ev_obj_def ev_memop_def thr_vals_old)
  qed
  then show ?thesis using run rd by (auto simp: run_of_def trace_simps)
qed

lemma thr_hist_other:
  assumes "ev_tid e \<noteq> t"
  shows "thr_hist lg ini P (es @ [e]) t r = thr_hist lg ini P es t r"
  using assms by (simp add: thr_hist_def Let_def trace_simps thr_vals_def split: option.splits)

text \<open>The access that a thread commits becomes its pending one.\<close>

lemma thr_hist_commit:
  assumes h: "thr_hist lg ini P es t r" and np: "pending_acc (tp_code P t (qt_vals r)) (qt_pc r) = None"
    and act: "tp_code P t (qt_vals r) = act" "ev_act e = act" "ev_tid e = t"
    and pend: "pending_acc act pc' = Some (ver, ev_val e)"
    and ver: "ver = 2 * int (nwrites (tp_cid P) (tp_cid P (ev_addr e)) es)" and kind: "pc_kind act pc'"
  shows "thr_hist lg ini P (es @ [e]) t (r\<lparr>qt_pc := pc'\<rparr>)"
proof -
  have k: "thr_cnt t es = length (qt_vals r)" using h np by (simp add: thr_hist_def Let_def)
  then have len: "length (thr_evs t es) = length (qt_vals r)" "length (taccs (tp_cid P) t es) = length (qt_vals r)"
    by (simp_all add: thr_cnt_def length_taccs)
  have "act_write act = ev_write e" "act_addr act = ev_addr e"
    using act(2) by (cases "ev_write e"; force simp: ev_act_def)+
  then show ?thesis
    using h k act pend ver kind len
    by (simp add: thr_hist_def Let_def trace_simps thr_vals_old nth_append)
qed

section \<open>One frame for all steps\<close>

lemma ract_other:
  assumes "qs_thr s' u = qs_thr s u"
  shows "ract P s' u = ract P s u" "raddr P s' u = raddr P s u" "robj P s' u = robj P s u"
  using assms by (simp_all add: ract_def raddr_def robj_def)

lemma pc_inv_stable:
  assumes "pc_inv P s u" "qs_thr s' u = qs_thr s u" "rver s (robj P s u) \<le> rver s' (robj P s u)"
    and "critical (rpc_of s u) \<Longrightarrow>
      rver s' (robj P s u) = rver s (robj P s u) \<and> qs_mem s' (raddr P s u) = qs_mem s (raddr P s u)"
    and "rver s' (robj P s u) = rver s (robj P s u) \<Longrightarrow> even (rver s (robj P s u)) \<Longrightarrow>
      qs_mem s' (raddr P s u) = qs_mem s (raddr P s u)"
  shows "pc_inv P s' u"
  using assms by (cases "rpc_of s u") (auto simp: pc_inv_def Let_def ract_other [OF assms(2)])

lemma frame_step:
  assumes inv: "recording_inv lg ini P es s" and tn: "t < tp_nthr P" and thr: "qs_thr s' = (qs_thr s)(t := r')"
    and es': "es' = es \<or> (\<exists>e. es' = es @ [e] \<and> ev_tid e = t)" and run': "run_of P es'"
    and len': "length (g_objinfo s') = tp_nobj P"
    and new: "thr_hist lg ini P es' t r'" "pc_inv P s' t"
    and stab: "\<And>u. u < tp_nthr P \<Longrightarrow> u \<noteq> t \<Longrightarrow> rver s (robj P s u) \<le> rver s' (robj P s u)"
      "\<And>u. u < tp_nthr P \<Longrightarrow> u \<noteq> t \<Longrightarrow> critical (rpc_of s u) \<Longrightarrow>
        rver s' (robj P s u) = rver s (robj P s u) \<and> qs_mem s' (raddr P s u) = qs_mem s (raddr P s u)"
      "\<And>u. u < tp_nthr P \<Longrightarrow> u \<noteq> t \<Longrightarrow> rver s' (robj P s u) = rver s (robj P s u) \<Longrightarrow> even (rver s (robj P s u)) \<Longrightarrow>
        qs_mem s' (raddr P s u) = qs_mem s (raddr P s u)"
    and rest: "vers_inv P es' s'" "locks_inv P s'" "rmem_inv P es' s'"
  shows "recording_inv lg ini P es' s'"
proof -
  have "thr_hist lg ini P es' u (qs_thr s' u) \<and> pc_inv P s' u" if u: "u < tp_nthr P" for u
  proof (cases "u = t")
    case True
    then show ?thesis using new thr by simp
  next
    case False
    have same: "qs_thr s' u = qs_thr s u" using thr False by simp
    have "thr_hist lg ini P es' u (qs_thr s u)"
      using recording_invD(3) [OF inv u] es' False by (auto simp: thr_hist_other)
    moreover have "pc_inv P s' u"
      using pc_inv_stable [OF recording_invD(4) [OF inv u] same] stab [OF u False] by blast
    ultimately show ?thesis using same by simp
  qed
  then show ?thesis using run' len' rest by (simp add: recording_inv_def)
qed

lemma same_acts:
  assumes "\<And>u. qt_vals (qs_thr s' u) = qt_vals (qs_thr s u)"
  shows "ract P s' = ract P s" "raddr P s' = raddr P s" "robj P s' = robj P s"
  using assms by (simp_all add: fun_eq_iff ract_def raddr_def robj_def)

lemma qgoto_view [simp]:
  "qs_mem (qgoto t pc s) = qs_mem s" "g_objinfo (qgoto t pc s) = g_objinfo s"
  "qs_thr (qgoto t pc s) = (qs_thr s)(t := (qs_thr s t)\<lparr>qt_pc := pc\<rparr>)"
  "rver (qgoto t pc s) = rver s" "rlock (qgoto t pc s) = rlock s"
  by (simp_all add: qgoto_def fun_eq_iff rver_def rlock_def)

lemma set_mem_view [simp]:
  "qs_mem (set_mem a v s) = (qs_mem s)(a := v)" "g_objinfo (set_mem a v s) = g_objinfo s"
  "qs_thr (set_mem a v s) = qs_thr s" "rver (set_mem a v s) = rver s" "rlock (set_mem a v s) = rlock s"
  by (simp_all add: set_mem_def fun_eq_iff rver_def rlock_def)

lemma set_version_view:
  "qs_mem (set_version o' v s) = qs_mem s" "length (g_objinfo (set_version o' v s)) = length (g_objinfo s)"
  "qs_thr (set_version o' v s) = qs_thr s"
  "o' < length (g_objinfo s) \<Longrightarrow> rver (set_version o' v s) = (rver s)(o' := v)"
  "o' < length (g_objinfo s) \<Longrightarrow> rlock (set_version o' v s) = rlock s"
  by (auto simp: set_version_def fun_eq_iff rver_def rlock_def nth_list_update)

lemma set_lock_view:
  "qs_mem (set_lock o' b s) = qs_mem s" "length (g_objinfo (set_lock o' b s)) = length (g_objinfo s)"
  "qs_thr (set_lock o' b s) = qs_thr s"
  "o' < length (g_objinfo s) \<Longrightarrow> rver (set_lock o' b s) = rver s"
  "o' < length (g_objinfo s) \<Longrightarrow> rlock (set_lock o' b s) = (rlock s)(o' := b \<noteq> 0)"
  by (auto simp: set_lock_def fun_eq_iff rver_def rlock_def nth_list_update)

lemma qgoto_acts [simp]:
  "ract P (qgoto t pc s) = ract P s" "raddr P (qgoto t pc s) = raddr P s" "robj P (qgoto t pc s) = robj P s"
  by (simp_all add: fun_eq_iff ract_def raddr_def robj_def)

lemma upd_acts [simp]:
  "ract P (set_mem a v s) = ract P s" "raddr P (set_mem a v s) = raddr P s" "robj P (set_mem a v s) = robj P s"
  "ract P (set_version o' w s) = ract P s" "raddr P (set_version o' w s) = raddr P s"
  "robj P (set_version o' w s) = robj P s"
  "ract P (set_lock o' b s) = ract P s" "raddr P (set_lock o' b s) = raddr P s" "robj P (set_lock o' b s) = robj P s"
  by (simp_all add: fun_eq_iff ract_def raddr_def robj_def set_version_view set_lock_view)

section \<open>Steps that change the thread only\<close>

lemma locks_inv_same:
  assumes inv: "locks_inv P s" and same: "rlock s' = rlock s"
    and ro: "\<And>u. critical (rpc_of s u) \<Longrightarrow> robj P s' u = robj P s u"
    and crit: "\<And>u. critical (rpc_of s' u) = critical (rpc_of s u)"
    and odd: "\<And>o'. o' < tp_nobj P \<Longrightarrow> odd (rver s' o') \<Longrightarrow> rlock s o'"
  shows "locks_inv P s'"
proof -
  have eq: "critical (rpc_of s u) \<and> robj P s' u = o' \<longleftrightarrow> critical (rpc_of s u) \<and> robj P s u = o'" for u o'
    using ro by auto
  show ?thesis
    unfolding locks_inv_def
  proof (intro conjI allI impI)
    fix o' assume o': "o' < tp_nobj P"
    have "rlock s o' \<longleftrightarrow> (\<exists>t < tp_nthr P. critical (rpc_of s t) \<and> robj P s t = o')"
      using inv o' unfolding locks_inv_def by blast
    then show "rlock s' o' \<longleftrightarrow> (\<exists>t < tp_nthr P. critical (rpc_of s' t) \<and> robj P s' t = o')"
      unfolding same crit eq .
    show "rlock s' o'" if "odd (rver s' o')" using odd [OF o' that] same by simp
  next
    fix t u assume "t < tp_nthr P" "u < tp_nthr P" "critical (rpc_of s' t)" "critical (rpc_of s' u)"
      "robj P s' t = robj P s' u"
    then show "t = u" using inv ro crit unfolding locks_inv_def by metis
  qed
qed

lemma locks_inv_odd: "locks_inv P s \<Longrightarrow> o' < tp_nobj P \<Longrightarrow> odd (rver s o') \<Longrightarrow> rlock s o'"
  unfolding locks_inv_def by blast

lemma locks_inv_goto:
  assumes "locks_inv P s" "critical pc' = critical (rpc_of s t)"
  shows "locks_inv P (qgoto t pc' s)"
  using assms(2) locks_inv_odd [OF assms(1)] by (intro locks_inv_same [OF assms(1)]) simp_all

lemma rmem_inv_same:
  assumes "rmem_inv P es s" "qs_mem s' = qs_mem s" "raddr P s' = raddr P s"
    and "\<And>u. wstored (rpc_of s' u) = wstored (rpc_of s u)"
  shows "rmem_inv P es s'"
  using assms by (simp add: rmem_inv_def)

lemma rmem_inv_goto:
  assumes "rmem_inv P es s" "wstored pc' = wstored (rpc_of s t)"
  shows "rmem_inv P es (qgoto t pc' s)"
  using assms(2) by (intro rmem_inv_same [OF assms(1)]) simp_all

lemma goto_hist:
  assumes "thr_hist lg ini P es t (qs_thr s t)"
    and "pending_acc (ract P s t) pc' = pending_acc (ract P s t) (rpc_of s t)" "pc_kind (ract P s t) pc'"
  shows "thr_hist lg ini P es t ((qs_thr s t)\<lparr>qt_pc := pc'\<rparr>)"
  using assms by (simp add: thr_hist_def Let_def ract_def split: option.splits)

lemma local_rec:
  assumes inv: "recording_inv lg ini P es s" and tn: "t < tp_nthr P"
    and same: "critical pc' = critical (rpc_of s t)" "wstored pc' = wstored (rpc_of s t)"
      "pending_acc (ract P s t) pc' = pending_acc (ract P s t) (rpc_of s t)"
    and new: "pc_kind (ract P s t) pc'" "pc_inv P (qgoto t pc' s) t"
  shows "recording_inv lg ini P es (qgoto t pc' s)"
proof (rule frame_step [OF inv tn qgoto_view(3) disjI1 [OF refl] recording_invD(1) [OF inv]])
  show "vers_inv P es (qgoto t pc' s)" using recording_invD(5) [OF inv] by (simp add: vers_inv_def)
  show "thr_hist lg ini P es t ((qs_thr s t)\<lparr>qt_pc := pc'\<rparr>)"
    by (rule goto_hist [OF recording_invD(3) [OF inv tn] same(3) new(1)])
  show "locks_inv P (qgoto t pc' s)" by (rule locks_inv_goto [OF recording_invD(6) [OF inv] same(1)])
  show "rmem_inv P es (qgoto t pc' s)" by (rule rmem_inv_goto [OF recording_invD(7) [OF inv] same(2)])
qed (use recording_invD(2) [OF inv] new(2) in simp_all)

lemma commit_read:
  assumes inv: "recording_inv lg ini P es s" and tn: "t < tp_nthr P"
    and np: "pending_acc (ract P s t) (rpc_of s t) = None" and nc: "\<not> critical (rpc_of s t)"
    and act: "ract P s t = Read a" and o': "tp_cid P a < tp_nobj P"
    and ver: "rver s (tp_cid P a) = v" "even v" and val: "qs_mem s a = x"
  shows "\<exists>es'. recording_inv lg ini P es' (qgoto t (LogAcc v x) s)"
proof -
  let ?e = "\<lparr>ev_tid = t, ev_write = False, ev_addr = a, ev_val = x\<rparr>"
  let ?s' = "qgoto t (LogAcc v x) s"
  have ea: "ev_act ?e = Read a" by (simp add: ev_act_def)
  have h: "thr_hist lg ini P es t (qs_thr s t)" using recording_invD(3) [OF inv tn] .
  have nw: "nwrites (tp_cid P) (tp_cid P a) es = nat v div 2" "0 \<le> v"
    using recording_invD(5) [OF inv] o' ver by (auto simp: vers_inv_def)
  have nost: "\<not> (u < tp_nthr P \<and> wstored (rpc_of s u) \<and> raddr P s u = a)" for u
    using recording_invD(4) [OF inv, of u] ver by (cases "rpc_of s u") (auto simp: pc_inv_def Let_def robj_def)
  have mem: "x = mem_after (tp_mem P) es a" using recording_invD(7) [OF inv] nost val by (auto simp: rmem_inv_def)
  have code: "tp_code P t (thr_vals t es (thr_cnt t es)) = Read a"
    using h np act by (simp add: thr_hist_def Let_def ract_def)
  have run: "run_of P (es @ [?e])"
    using mem code o' tn by (intro run_of_snoc [OF recording_invD(1) [OF inv]]) (simp_all add: ev_act_def)
  have hist: "thr_hist lg ini P (es @ [?e]) t ((qs_thr s t)\<lparr>qt_pc := LogAcc v x\<rparr>)"
    using h np act ver nw ea by (intro thr_hist_commit [OF h, of "Read a" _ _ v]) (auto simp: ract_def pc_kind_def)
  have "recording_inv lg ini P (es @ [?e]) ?s'"
  proof (rule frame_step [OF inv tn qgoto_view(3) _ run _ hist])
    show "vers_inv P (es @ [?e]) ?s'"
      using recording_invD(5) [OF inv] by (simp add: vers_inv_def trace_simps writes_to_def)
    have "wstored (rpc_of s t) = False" using nc by (cases "rpc_of s t") simp_all
    then have "rmem_inv P es ?s'" using rmem_inv_goto [OF recording_invD(7) [OF inv], of "LogAcc v x" t] by simp
    then show "rmem_inv P (es @ [?e]) ?s'" by (simp add: rmem_inv_def trace_simps mem_upd_def)
    show "locks_inv P ?s'" using locks_inv_goto [OF recording_invD(6) [OF inv]] nc by simp
    show "pc_inv P ?s' t" by (simp add: pc_inv_def Let_def)
  qed (use recording_invD(2) [OF inv] in auto)
  then show ?thesis by blast
qed

section \<open>Steps under the write lock\<close>

lemma lock_alone:
  assumes "recording_inv lg ini P es s" "t < tp_nthr P" "u < tp_nthr P" "u \<noteq> t"
    and "critical (rpc_of s t)" "critical (rpc_of s u)"
  shows "robj P s u \<noteq> robj P s t"
  using recording_invD(6) [OF assms(1)] assms(2-6) unfolding locks_inv_def by metis

lemma lock_free:
  assumes "recording_inv lg ini P es s" "o' < tp_nobj P" "\<not> rlock s o'"
  shows "u < tp_nthr P \<Longrightarrow> critical (rpc_of s u) \<Longrightarrow> robj P s u \<noteq> o'" "even (rver s o')"
  using recording_invD(6) [OF assms(1)] assms(2,3) by (auto simp: locks_inv_def)

lemma lock_step:
  assumes inv: "recording_inv lg ini P es s" and tn: "t < tp_nthr P" and pc: "rpc_of s t = LockXchg"
    and act: "ract P s t = Write a x" and o': "tp_cid P a < tp_nobj P" and free: "\<not> rlock s (tp_cid P a)"
  shows "recording_inv lg ini P es (qgoto t WrLoad (set_lock (tp_cid P a) BUSY s))"
proof -
  let ?o = "tp_cid P a" and ?s' = "qgoto t WrLoad (set_lock (tp_cid P a) BUSY s)"
  have len: "?o < length (g_objinfo s)" using recording_invD(2) [OF inv] o' by simp
  note view = set_lock_view(1-3) and lv = set_lock_view(4,5) [OF len]
  have ro: "robj P s t = ?o" using act by (simp add: robj_def raddr_def)
  note fr = lock_free [OF inv o' free]
  have thr: "qs_thr ?s' = (qs_thr s)(t := (qs_thr s t)\<lparr>qt_pc := WrLoad\<rparr>)" by (simp add: view)
  have hist: "thr_hist lg ini P es t ((qs_thr s t)\<lparr>qt_pc := WrLoad\<rparr>)"
    by (rule goto_hist [OF recording_invD(3) [OF inv tn]]) (simp_all add: pc act pc_kind_def)
  show ?thesis
  proof (rule frame_step [OF inv tn thr disjI1 [OF refl] recording_invD(1) [OF inv] _ hist])
    show "pc_inv P ?s' t" using fr(2) ro by (simp add: pc_inv_def Let_def lv)
    show "vers_inv P es ?s'" using recording_invD(5) [OF inv] by (simp add: vers_inv_def lv)
    have crit: "critical (rpc_of ?s' u) = (u = t \<or> critical (rpc_of s u))" for u by (simp add: view)
    have "robj P s u \<noteq> ?o" if "u < tp_nthr P" "critical (rpc_of s u)" for u using fr(1) that .
    then show "locks_inv P ?s'"
      using recording_invD(6) [OF inv] tn ro o' unfolding locks_inv_def crit by (auto simp: lv)
    show "rmem_inv P es ?s'"
      using pc by (intro rmem_inv_same [OF recording_invD(7) [OF inv]]) (simp_all add: view)
  qed (use recording_invD(2) [OF inv] in \<open>simp_all add: view lv\<close>)
qed

lemma inc1_step:
  assumes inv: "recording_inv lg ini P es s" and tn: "t < tp_nthr P" and pc: "rpc_of s t = WrInc1Store v w"
    and act: "ract P s t = Write a x" and o': "tp_cid P a < tp_nobj P"
  shows "recording_inv lg ini P es (qgoto t (WrStore v) (set_version (tp_cid P a) (w + 1) s))"
proof -
  let ?o = "tp_cid P a" and ?s' = "qgoto t (WrStore v) (set_version (tp_cid P a) (w + 1) s)"
  have len: "?o < length (g_objinfo s)" using recording_invD(2) [OF inv] o' by simp
  note view = set_version_view(1-3) and lv = set_version_view(4,5) [OF len]
  have ro: "robj P s t = ?o" using act by (simp add: robj_def raddr_def)
  have pi: "even v" "rver s ?o = v" "w = v"
    using recording_invD(4) [OF inv tn] pc ro by (simp_all add: pc_inv_def Let_def)
  have v0: "0 \<le> v" using recording_invD(5) [OF inv] o' pi(2) by (auto simp: vers_inv_def)
  have div: "nat (v + 1) div 2 = nat v div 2" using pi(1) v0 by (auto simp: nat_add_distrib even_nat_iff elim!: evenE)
  have alone: "robj P s u \<noteq> ?o" if "u < tp_nthr P" "u \<noteq> t" "critical (rpc_of s u)" for u
    using lock_alone [OF inv tn that(1,2) _ that(3)] pc ro by simp
  have thr: "qs_thr ?s' = (qs_thr s)(t := (qs_thr s t)\<lparr>qt_pc := WrStore v\<rparr>)" by (simp add: view)
  have hist: "thr_hist lg ini P es t ((qs_thr s t)\<lparr>qt_pc := WrStore v\<rparr>)"
    by (rule goto_hist [OF recording_invD(3) [OF inv tn]]) (simp_all add: pc act pc_kind_def)
  have rl: "rlock s ?o" using recording_invD(6) [OF inv] o' tn pc ro unfolding locks_inv_def by auto
  show ?thesis
  proof (rule frame_step [OF inv tn thr disjI1 [OF refl] recording_invD(1) [OF inv] _ hist])
    show "pc_inv P ?s' t" using pi ro by (simp add: pc_inv_def Let_def lv)
    show "vers_inv P es ?s'" using recording_invD(5) [OF inv] pi v0 div by (auto simp: vers_inv_def lv)
    have crit: "critical (rpc_of ?s' u) = critical (rpc_of s u)" for u using pc by (simp add: view)
    show "locks_inv P ?s'"
      using rl crit locks_inv_odd [OF recording_invD(6) [OF inv]]
      by (intro locks_inv_same [OF recording_invD(6) [OF inv]]) (auto simp: lv split: if_splits)
    show "rmem_inv P es ?s'"
      using pc by (intro rmem_inv_same [OF recording_invD(7) [OF inv]]) (simp_all add: view)
  qed (use recording_invD(2) [OF inv] pi alone in \<open>auto simp: view lv\<close>)
qed

lemma rmem_inv_store:
  assumes "rmem_inv P es s" and t: "t < tp_nthr P" "raddr P s t = a" "wstored pc'"
    and thr: "qs_thr s' = (qs_thr s)(t := (qs_thr s t)\<lparr>qt_pc := pc'\<rparr>)" and mem: "qs_mem s' = (qs_mem s)(a := x)"
  shows "rmem_inv P es s'"
  unfolding rmem_inv_def
proof
  fix b
  have ra: "raddr P s' = raddr P s" using same_acts(2) [of s' s P] thr by simp
  show "qs_mem s' b = mem_after (tp_mem P) es b \<or> (\<exists>u < tp_nthr P. wstored (rpc_of s' u) \<and> raddr P s' u = b)"
  proof (cases "b = a")
    case True
    then show ?thesis using t ra thr by (intro disjI2 exI [of _ t]) simp
  next
    case False
    have "wstored (rpc_of s u) \<Longrightarrow> wstored (rpc_of s' u)" for u using thr t(3) by (cases "u = t") simp_all
    then show ?thesis using assms(1) False ra mem unfolding rmem_inv_def by fastforce
  qed
qed

lemma rmem_inv_commit:
  assumes "rmem_inv P es s" and t: "raddr P s t = a"
    and thr: "qs_thr s' = (qs_thr s)(t := (qs_thr s t)\<lparr>qt_pc := pc'\<rparr>)" and mem: "qs_mem s' = (qs_mem s)(a := x)"
    and e: "ev_write e" "ev_addr e = a" "ev_val e = x"
  shows "rmem_inv P (es @ [e]) s'"
  unfolding rmem_inv_def
proof
  fix b
  have ra: "raddr P s' = raddr P s" using same_acts(2) [of s' s P] thr by simp
  have w: "wstored (rpc_of s u) \<Longrightarrow> u \<noteq> t \<Longrightarrow> wstored (rpc_of s' u)" for u using thr by simp
  show "qs_mem s' b = mem_after (tp_mem P) (es @ [e]) b \<or> (\<exists>u < tp_nthr P. wstored (rpc_of s' u) \<and> raddr P s' u = b)"
    using assms(1) w t e unfolding rmem_inv_def ra
    by (cases "b = a") (auto simp: mem trace_simps mem_upd_def)
qed

lemma store_rec:
  assumes inv: "recording_inv lg ini P es s" and tn: "t < tp_nthr P" and pc: "rpc_of s t = WrStore v"
    and act: "ract P s t = Write a x"
  shows "recording_inv lg ini P es (qgoto t (WrInc2Load v) (set_mem a x s))"
proof -
  let ?o = "tp_cid P a" and ?s' = "qgoto t (WrInc2Load v) (set_mem a x s)"
  have ro: "robj P s t = ?o" "raddr P s t = a" using act by (simp_all add: robj_def raddr_def)
  have pi: "even v" "rver s ?o = v + 1"
    using recording_invD(4) [OF inv tn] pc ro by (simp_all add: pc_inv_def Let_def)
  have other: "raddr P s u \<noteq> a" if "robj P s u \<noteq> ?o" for u using that by (auto simp: robj_def)
  have alone: "robj P s u \<noteq> ?o" if "u < tp_nthr P" "u \<noteq> t" "critical (rpc_of s u)" for u
    using lock_alone [OF inv tn that(1,2) _ that(3)] pc ro by simp
  have thr: "qs_thr ?s' = (qs_thr s)(t := (qs_thr s t)\<lparr>qt_pc := WrInc2Load v\<rparr>)" by simp
  have hist: "thr_hist lg ini P es t ((qs_thr s t)\<lparr>qt_pc := WrInc2Load v\<rparr>)"
    by (rule goto_hist [OF recording_invD(3) [OF inv tn]]) (simp_all add: pc act pc_kind_def)
  show ?thesis
  proof (rule frame_step [OF inv tn thr disjI1 [OF refl] recording_invD(1) [OF inv] _ hist])
    show "pc_inv P ?s' t" using pi ro act by (simp add: pc_inv_def Let_def)
    show "vers_inv P es ?s'" using recording_invD(5) [OF inv] by (simp add: vers_inv_def)
    have crit: "critical (rpc_of ?s' u) = critical (rpc_of s u)" for u using pc by simp
    show "locks_inv P ?s'"
      using crit locks_inv_odd [OF recording_invD(6) [OF inv]] by (intro locks_inv_same [OF recording_invD(6) [OF inv]]) simp_all
    show "qs_mem ?s' (raddr P s u) = qs_mem s (raddr P s u)"
      if ev: "even (rver s (robj P s u))" for u
    proof -
      have "robj P s u \<noteq> ?o" using ev pi by auto
      from other [OF this] show ?thesis by simp
    qed
    show "rver ?s' (robj P s u) = rver s (robj P s u) \<and> qs_mem ?s' (raddr P s u) = qs_mem s (raddr P s u)"
      if "u < tp_nthr P" "u \<noteq> t" "critical (rpc_of s u)" for u using other [OF alone [OF that]] by simp
    show "rmem_inv P es ?s'"
      using ro(2) by (intro rmem_inv_store [OF recording_invD(7) [OF inv] tn _ _ thr]) simp_all
  qed (use recording_invD(2) [OF inv] in simp_all)
qed

text \<open>A write takes effect: with the second \<open>version++\<close>, or with the end of a transaction.\<close>

lemma commit_write:
  assumes inv: "recording_inv lg ini P es s" and tn: "t < tp_nthr P"
    and np: "pending_acc (ract P s t) (rpc_of s t) = None"
    and act: "ract P s t = Write a x" and o': "tp_cid P a < tp_nobj P"
    and alone: "\<And>u. u < tp_nthr P \<Longrightarrow> u \<noteq> t \<Longrightarrow> critical (rpc_of s u) \<Longrightarrow> robj P s u \<noteq> tp_cid P a"
    and thr: "qs_thr s' = (qs_thr s)(t := (qs_thr s t)\<lparr>qt_pc := pc'\<rparr>)"
    and len: "length (g_objinfo s') = tp_nobj P"
    and pc': "pending_acc (Write a x) pc' = Some (v, x)" "pc_kind (Write a x) pc'" "pc_inv P s' t" "\<not> wstored pc'"
    and v: "even v" "rver s (tp_cid P a) = v \<or> rver s (tp_cid P a) = v + 1" "rver s' = (rver s)(tp_cid P a := v + 2)"
    and mem: "qs_mem s' = (qs_mem s)(a := x)" and locks: "locks_inv P s'"
  shows "\<exists>es'. recording_inv lg ini P es' s'"
proof -
  let ?e = "\<lparr>ev_tid = t, ev_write = True, ev_addr = a, ev_val = x\<rparr>" and ?o = "tp_cid P a"
  have ea: "ev_act ?e = Write a x" by (simp add: ev_act_def)
  have h: "thr_hist lg ini P es t (qs_thr s t)" using recording_invD(3) [OF inv tn] .
  have "0 \<le> rver s ?o" using recording_invD(5) [OF inv] o' by (simp add: vers_inv_def)
  then have v0: "0 \<le> v" using v(1,2) by presburger
  define n where "n = nat (v div 2)"
  have n: "v = 2 * int n" using v(1) v0 by (simp add: n_def)
  have nw: "nwrites (tp_cid P) ?o es = n"
    using recording_invD(5) [OF inv] o' v(2) n by (auto simp: vers_inv_def nat_add_distrib nat_mult_distrib)
  have code: "tp_code P t (thr_vals t es (thr_cnt t es)) = Write a x"
    using h np act by (simp add: thr_hist_def Let_def ract_def)
  have run: "run_of P (es @ [?e])"
    using code o' tn by (intro run_of_snoc [OF recording_invD(1) [OF inv]]) (simp_all add: ev_act_def)
  have hist: "thr_hist lg ini P (es @ [?e]) t ((qs_thr s t)\<lparr>qt_pc := pc'\<rparr>)"
    using np act ea pc' n nw by (intro thr_hist_commit [OF h, of "Write a x" _ _ v]) (auto simp: ract_def)
  have same: "raddr P s u \<noteq> a" if "robj P s u \<noteq> ?o" for u using that by (auto simp: robj_def)
  have "recording_inv lg ini P (es @ [?e]) s'"
  proof (rule frame_step [OF inv tn thr _ run len hist pc'(3)])
    show "rver s (robj P s u) \<le> rver s' (robj P s u)" for u using v(2,3) by auto
    show "rver s' (robj P s u) = rver s (robj P s u) \<and> qs_mem s' (raddr P s u) = qs_mem s (raddr P s u)"
      if "u < tp_nthr P" "u \<noteq> t" "critical (rpc_of s u)" for u
      using alone [OF that] same [OF alone [OF that]] v(3) mem by simp
    show "qs_mem s' (raddr P s u) = qs_mem s (raddr P s u)"
      if "rver s' (robj P s u) = rver s (robj P s u)" for u
      using that v(2,3) mem same [of u] by (auto split: if_splits)
    show "vers_inv P (es @ [?e]) s'"
      using recording_invD(5) [OF inv] v(3) nw n
      by (auto simp: vers_inv_def trace_simps writes_to_def nat_add_distrib nat_mult_distrib)
    show "rmem_inv P (es @ [?e]) s'"
      using act by (intro rmem_inv_commit [OF recording_invD(7) [OF inv] _ thr mem]) (simp_all add: raddr_def)
  qed (use locks in auto)
  then show ?thesis by blast
qed

lemma inc2_step:
  assumes inv: "recording_inv lg ini P es s" and tn: "t < tp_nthr P" and pc: "rpc_of s t = WrInc2Store v w"
    and act: "ract P s t = Write a x" and o': "tp_cid P a < tp_nobj P"
  shows "\<exists>es'. recording_inv lg ini P es' (qgoto t (WrUnlock v) (set_version (tp_cid P a) (w + 1) s))"
proof -
  let ?o = "tp_cid P a" and ?s' = "qgoto t (WrUnlock v) (set_version (tp_cid P a) (w + 1) s)"
  have len: "?o < length (g_objinfo s)" using recording_invD(2) [OF inv] o' by simp
  note view = set_version_view(1-3) and lv = set_version_view(4,5) [OF len]
  have ro: "robj P s t = ?o" "raddr P s t = a" using act by (simp_all add: robj_def raddr_def)
  have pi: "even v" "rver s ?o = v + 1" "w = v + 1" "qs_mem s a = x"
    using recording_invD(4) [OF inv tn] pc ro act by (simp_all add: pc_inv_def Let_def)
  have crit: "critical (rpc_of ?s' u) = critical (rpc_of s u)" for u using pc by (simp add: view)
  show ?thesis
  proof (rule commit_write [OF inv tn _ act o', where v = v and pc' = "WrUnlock v"])
    show "robj P s u \<noteq> ?o" if "u < tp_nthr P" "u \<noteq> t" "critical (rpc_of s u)" for u
      using lock_alone [OF inv tn that(1,2) _ that(3)] pc ro by simp
    show "locks_inv P ?s'"
      using crit pi locks_inv_odd [OF recording_invD(6) [OF inv]]
      by (intro locks_inv_same [OF recording_invD(6) [OF inv]]) (auto simp: lv split: if_splits)
    show "pc_inv P ?s' t" using pi ro by (simp add: pc_inv_def Let_def lv)
    show "qs_mem ?s' = (qs_mem s)(a := x)" using pi(4) by (auto simp: view)
    show "rver ?s' = (rver s)(?o := v + 2)" using pi(3) by (simp add: lv fun_eq_iff)
  qed (use recording_invD(2) [OF inv] pc pi act in \<open>simp_all add: view lv pc_kind_def\<close>)
qed

lemma unlock_step:
  assumes inv: "recording_inv lg ini P es s" and tn: "t < tp_nthr P" and pc: "rpc_of s t = WrUnlock v"
    and act: "ract P s t = Write a x" and o': "tp_cid P a < tp_nobj P"
  shows "recording_inv lg ini P es (qgoto t (LogAcc v x) (set_lock (tp_cid P a) 0 s))"
proof -
  let ?o = "tp_cid P a" and ?s' = "qgoto t (LogAcc v x) (set_lock (tp_cid P a) 0 s)"
  have len: "?o < length (g_objinfo s)" using recording_invD(2) [OF inv] o' by simp
  note view = set_lock_view(1-3) and lv = set_lock_view(4,5) [OF len]
  have ro: "robj P s t = ?o" using act by (simp add: robj_def raddr_def)
  have pi: "even (rver s ?o)" using recording_invD(4) [OF inv tn] pc ro by (simp add: pc_inv_def Let_def)
  have alone: "robj P s u \<noteq> ?o" if "u < tp_nthr P" "u \<noteq> t" "critical (rpc_of s u)" for u
    using lock_alone [OF inv tn that(1,2) _ that(3)] pc ro by simp
  have thr: "qs_thr ?s' = (qs_thr s)(t := (qs_thr s t)\<lparr>qt_pc := LogAcc v x\<rparr>)" by (simp add: view)
  have hist: "thr_hist lg ini P es t ((qs_thr s t)\<lparr>qt_pc := LogAcc v x\<rparr>)"
    by (rule goto_hist [OF recording_invD(3) [OF inv tn]]) (simp_all add: pc act pc_kind_def)
  have crit: "critical (rpc_of ?s' u) \<longleftrightarrow> u \<noteq> t \<and> critical (rpc_of s u)" for u by (simp add: view)
  show ?thesis
  proof (rule frame_step [OF inv tn thr disjI1 [OF refl] recording_invD(1) [OF inv] _ hist])
    show "pc_inv P ?s' t" by (simp add: pc_inv_def Let_def)
    show "vers_inv P es ?s'" using recording_invD(5) [OF inv] by (simp add: vers_inv_def lv)
    show "locks_inv P ?s'"
      using recording_invD(6) [OF inv] ro alone pi unfolding locks_inv_def crit by (auto simp: lv)
    show "rmem_inv P es ?s'"
      using pc by (intro rmem_inv_same [OF recording_invD(7) [OF inv]]) (simp_all add: view)
  qed (use recording_invD(2) [OF inv] in \<open>simp_all add: view lv\<close>)
qed

lemma write_tx_step:
  assumes inv: "recording_inv lg ini P es s" and tn: "t < tp_nthr P" and pc: "rpc_of s t = QRun"
    and act: "ract P s t = Write a x" and o': "tp_cid P a < tp_nobj P"
  shows "\<exists>es'. recording_inv lg ini P es' (write_tx P t a x s)"
proof -
  let ?o = "tp_cid P a" and ?v = "rver s (tp_cid P a)"
  let ?s' = "qgoto t (LogAcc ?v x) (set_version ?o (?v + 2) (set_mem a x s))"
  have len: "?o < length (g_objinfo s)" "?o < length (g_objinfo (set_mem a x s))"
    using recording_invD(2) [OF inv] o' by simp_all
  note view = set_version_view(1-3) and lv = set_version_view(4,5) [OF len(2)]
  have tx: "write_tx P t a x s = (if rlock s ?o then qgoto t LockXchg s else ?s')"
    using lv(2) [of "?v + 2"] by (simp add: write_tx_def Let_def rver_def rlock_def fun_eq_iff)
  show ?thesis
  proof (cases "rlock s ?o")
    case True
    have "recording_inv lg ini P es (qgoto t LockXchg s)"
      using pc act by (intro local_rec [OF inv tn]) (simp_all add: pc_kind_def pc_inv_def Let_def)
    with True tx show ?thesis by auto
  next
    case False
    note fr = lock_free [OF inv o' False]
    have crit: "critical (rpc_of ?s' u) = critical (rpc_of s u)" for u using pc by (simp add: view)
    have "\<exists>es'. recording_inv lg ini P es' ?s'"
    proof (rule commit_write [OF inv tn _ act o', where v = ?v and pc' = "LogAcc ?v x"])
      show "locks_inv P ?s'"
        using crit fr locks_inv_odd [OF recording_invD(6) [OF inv]]
        by (intro locks_inv_same [OF recording_invD(6) [OF inv]]) (auto simp: lv split: if_splits)
      show "pc_inv P ?s' t" by (simp add: pc_inv_def Let_def)
    qed (use recording_invD(2) [OF inv] pc fr act in \<open>simp_all add: view lv pc_kind_def\<close>)
    with False tx show ?thesis by simp
  qed
qed

section \<open>Log taking\<close>

lemma log_step_inv:
  assumes inv: "recording_inv lg ini P es s" and tn: "t < tp_nthr P" and pc: "rpc_of s t = LogAcc v x"
    and act: "ract P s t = act" and acc: "acc = \<lparr>ta_write = act_write act, ta_obj = tp_cid P (act_addr act), ta_ver = v\<rparr>"
  shows "recording_inv lg ini P es (log_step lg t acc x s)"
proof -
  let ?r = "qs_thr s t" and ?s' = "log_step lg t acc x s"
  let ?r' = "\<lparr>qt_pc = QRun, qt_vals = qt_vals ?r @ [x], qt_rec = lg acc (qt_rec ?r)\<rparr>"
  have view: "qs_mem ?s' = qs_mem s" "g_objinfo ?s' = g_objinfo s" "qs_thr ?s' = (qs_thr s)(t := ?r')"
    by (simp_all add: log_step_def Let_def)
  then have lv: "rver ?s' = rver s" "rlock ?s' = rlock s" by (simp_all add: fun_eq_iff rver_def rlock_def)
  let ?k = "length (qt_vals ?r)" and ?xs = "taccs (tp_cid P) t es"
  have h: "qt_vals ?r = thr_vals t es ?k" "qt_rec ?r = fold lg (take ?k ?xs) ini" "thr_cnt t es = Suc ?k"
    "ev_val (thr_evs t es ! ?k) = x" "?xs ! ?k = acc"
    using recording_invD(3) [OF inv tn] pc act acc by (simp_all add: thr_hist_def Let_def ract_def)
  have "thr_vals t es (Suc ?k) = qt_vals ?r @ [x]"
    using h(1,3,4) map_take_snoc [of ?k "thr_evs t es" ev_val] by (simp add: thr_vals_def thr_cnt_def)
  moreover have "take (Suc ?k) ?xs = take ?k ?xs @ [acc]"
    using h(3,5) map_take_snoc [of ?k ?xs "\<lambda>x. x"] by (simp add: length_taccs)
  ultimately have hist: "thr_hist lg ini P es t ?r'"
    using h(2,3) by (simp add: thr_hist_def Let_def pc_kind_def)
  have ro: "robj P ?s' u = robj P s u" "raddr P ?s' u = raddr P s u" if "u \<noteq> t" for u
    using that view(3) by (simp_all add: robj_def raddr_def ract_def)
  have cr: "critical (rpc_of ?s' u) = critical (rpc_of s u)" "wstored (rpc_of ?s' u) = wstored (rpc_of s u)" for u
    using pc view(3) by simp_all
  have crt: "critical (rpc_of s u) \<Longrightarrow> u \<noteq> t" "wstored (rpc_of s u) \<Longrightarrow> u \<noteq> t" for u using pc by auto
  show ?thesis
  proof (rule frame_step [OF inv tn view(3) disjI1 [OF refl] recording_invD(1) [OF inv] _ hist])
    show "pc_inv P ?s' t" using view(3) by (simp add: pc_inv_def Let_def)
    show "vers_inv P es ?s'" using recording_invD(5) [OF inv] by (simp add: vers_inv_def lv)
    show "locks_inv P ?s'"
      using ro(1) crt(1) cr(1) lv locks_inv_odd [OF recording_invD(6) [OF inv]]
      by (intro locks_inv_same [OF recording_invD(6) [OF inv]]) simp_all
    show "rmem_inv P es ?s'"
      using recording_invD(7) [OF inv] ro(2) crt(2) unfolding rmem_inv_def view(1) cr(2) by (metis (no_types))
  qed (use recording_invD(2) [OF inv] in \<open>simp_all add: view lv\<close>)
qed

section \<open>Every step\<close>

lemma rec_read_inv:
  assumes inv: "recording_inv lg ini P es s" and tn: "t < tp_nthr P" and act: "ract P s t = Read a"
    and o': "tp_cid P a < tp_nobj P"
  shows "\<exists>es'. recording_inv lg ini P es' (rec_read lg P t a s)"
proof -
  have ro: "robj P s t = tp_cid P a" "raddr P s t = a" using act by (simp_all add: robj_def raddr_def)
  have pi: "pc_inv P s t" using recording_invD(4) [OF inv tn] .
  note loc = local_rec [OF inv tn]
  have ver: "oi_version (g_objinfo s ! tp_cid P a) = rver s (tp_cid P a)" by (simp add: rver_def)
  show ?thesis
  proof (cases "rpc_of s t")
    case QRun
    then have "recording_inv lg ini P es (qgoto t RdVersion s)"
      using act by (intro loc) (simp_all add: pc_kind_def pc_inv_def Let_def)
    with QRun show ?thesis by (auto simp: rec_read_def Let_def)
  next
    case RdVersion
    then have "recording_inv lg ini P es (qgoto t (RdLoad (rver s (tp_cid P a))) s)" if "even (rver s (tp_cid P a))"
      using act that ro by (intro loc) (simp_all add: pc_kind_def pc_inv_def Let_def)
    with RdVersion inv show ?thesis by (auto simp: rec_read_def Let_def ver)
  next
    case (RdLoad v)
    then have "recording_inv lg ini P es (qgoto t (RdCheck v (qs_mem s a)) s)"
      using act pi ro by (intro loc) (simp_all add: pc_kind_def pc_inv_def Let_def)
    with RdLoad show ?thesis by (auto simp: rec_read_def Let_def)
  next
    case (RdCheck v x)
    then have "recording_inv lg ini P es (qgoto t RdVersion s)"
      using act by (intro loc) (simp_all add: pc_kind_def pc_inv_def Let_def)
    moreover have "\<exists>es'. recording_inv lg ini P es' (qgoto t (LogAcc v x) s)" if "v = rver s (tp_cid P a)"
      using commit_read [OF inv tn _ _ act o'] RdCheck that pi ro by (simp add: pc_inv_def Let_def)
    ultimately show ?thesis using RdCheck by (auto simp: rec_read_def Let_def ver)
  next
    case (LogAcc v x)
    with log_step_inv [OF inv tn LogAcc act refl] show ?thesis by (auto simp: rec_read_def Let_def)
  qed (use inv in \<open>auto simp: rec_read_def Let_def\<close>)
qed

text \<open>A lock word is free or \<open>BUSY\<close>, so that an exchange on a taken lock changes nothing.\<close>

definition lock_words :: "'s recording \<Rightarrow> bool" where
  "lock_words s \<longleftrightarrow> (\<forall>i \<in> set (g_objinfo s). oi_write_lock i = 0 \<or> oi_write_lock i = BUSY)"

lemma lock_words_update:
  assumes "lock_words s" "o' < length (g_objinfo s) \<Longrightarrow> oi_write_lock x = 0 \<or> oi_write_lock x = BUSY"
  shows "lock_words (s\<lparr>g_objinfo := (g_objinfo s)[o' := x]\<rparr>)"
  using assms set_update_subset_insert [of "g_objinfo s" o' x]
  by (cases "o' < length (g_objinfo s)") (auto simp: lock_words_def list_update_beyond)

lemma lock_words_keep:
  "lock_words (qgoto t pc s) = lock_words s" "lock_words (set_mem a v s) = lock_words s"
  "lock_words (log_step lg t y v s) = lock_words s"
  by (simp_all add: lock_words_def log_step_def qgoto_def set_mem_def Let_def)

lemma lock_words_set_version: "lock_words s \<Longrightarrow> lock_words (set_version o' w s)"
  unfolding set_version_def by (rule lock_words_update) (simp_all add: lock_words_def)

lemma lock_words_set_lock: "lock_words s \<Longrightarrow> b = 0 \<or> b = BUSY \<Longrightarrow> lock_words (set_lock o' b s)"
  unfolding set_lock_def by (rule lock_words_update) simp_all

lemmas lock_words_simps = lock_words_keep lock_words_set_version lock_words_set_lock

lemma lock_words_step: "lock_words s \<Longrightarrow> lock_words (rec_step lg P tx t s)"
  by (simp add: rec_step_def rec_read_def rec_write_def read_tx_def write_tx_def spin_lock_step_def spin_lock_try_eq
      spin_unlock_def Let_def lock_words_simps split: qpc.splits action.splits)

lemma set_lock_busy:
  assumes "lock_words s" "o' < length (g_objinfo s)" "rlock s o'"
  shows "set_lock o' BUSY s = s"
proof -
  have "oi_write_lock (g_objinfo s ! o') = BUSY" using assms by (auto simp: lock_words_def rlock_def)
  then have "(g_objinfo s ! o')\<lparr>oi_write_lock := BUSY\<rparr> = g_objinfo s ! o'" by simp
  then have "set_lock o' BUSY s = s\<lparr>g_objinfo := g_objinfo s\<rparr>" unfolding set_lock_def by (metis list_update_id)
  then show ?thesis by simp
qed

text \<open>The steps of \<open>mem_write\<close> that read shared data only, and those on the lock.\<close>

lemma write_read_inv:
  assumes inv: "recording_inv lg ini P es s" and tn: "t < tp_nthr P" and act: "ract P s t = Write a x"
    and pc: "rpc_of s t = QRun \<or> rpc_of s t = WrLoad \<or> rpc_of s t = WrInc1Load v \<or> rpc_of s t = WrInc2Load v"
  shows "recording_inv lg ini P es (rec_write lg P t a x s)"
proof -
  have ro: "robj P s t = tp_cid P a" using act by (simp add: robj_def raddr_def)
  have ver: "oi_version (g_objinfo s ! tp_cid P a) = rver s (tp_cid P a)" by (simp add: rver_def)
  show ?thesis
    using pc act ro recording_invD(4) [OF inv tn] local_rec [OF inv tn]
    by (auto simp: rec_write_def Let_def ver pc_kind_def pc_inv_def)
qed

lemma write_lock_inv:
  assumes inv: "recording_inv lg ini P es s" and tn: "t < tp_nthr P" and act: "ract P s t = Write a x"
    and o': "tp_cid P a < tp_nobj P" and lw: "lock_words s" and pc: "rpc_of s t = LockXchg \<or> rpc_of s t = LockSpin"
  shows "recording_inv lg ini P es (rec_write lg P t a x s)"
proof -
  have lock: "oi_write_lock (g_objinfo s ! tp_cid P a) \<noteq> 0 \<longleftrightarrow> rlock s (tp_cid P a)" by (simp add: rlock_def)
  have go: "recording_inv lg ini P es (qgoto t q s)" if "q = LockSpin \<or> q = LockXchg" for q
    using that pc act by (intro local_rec [OF inv tn]) (auto simp: pc_kind_def pc_inv_def)
  from pc show ?thesis
  proof
    assume x: "rpc_of s t = LockXchg"
    have "rec_write lg P t a x s =
        (if rlock s (tp_cid P a) then qgoto t LockSpin s else qgoto t WrLoad (set_lock (tp_cid P a) BUSY s))"
      using x set_lock_busy [OF lw] recording_invD(2) [OF inv] o' lock
      by (auto simp: rec_write_def spin_lock_step_def spin_lock_try_eq Let_def)
    then show ?thesis using go lock_step [OF inv tn x act o'] by simp
  next
    assume "rpc_of s t = LockSpin"
    then show ?thesis using go inv by (auto simp: rec_write_def spin_lock_step_def Let_def lock)
  qed
qed

lemma rec_write_inv:
  assumes inv: "recording_inv lg ini P es s" and tn: "t < tp_nthr P" and act: "ract P s t = Write a x"
    and o': "tp_cid P a < tp_nobj P" and lw: "lock_words s"
  shows "\<exists>es'. recording_inv lg ini P es' (rec_write lg P t a x s)"
proof (cases "rpc_of s t")
  case (WrInc1Store v w)
  then show ?thesis using inc1_step [OF inv tn WrInc1Store act o'] by (auto simp: rec_write_def Let_def)
next
  case (WrStore v)
  then show ?thesis using store_rec [OF inv tn WrStore act] by (auto simp: rec_write_def Let_def)
next
  case (WrInc2Store v w)
  then show ?thesis using inc2_step [OF inv tn WrInc2Store act o'] by (auto simp: rec_write_def Let_def)
next
  case (WrUnlock v)
  then show ?thesis using unlock_step [OF inv tn WrUnlock act o'] by (auto simp: rec_write_def spin_unlock_def Let_def)
next
  case (LogAcc v y)
  with log_step_inv [OF inv tn LogAcc act refl] show ?thesis by (auto simp: rec_write_def Let_def)
qed (use inv write_read_inv [OF inv tn act] write_lock_inv [OF inv tn act o' lw] in \<open>auto simp: rec_write_def Let_def\<close>)

lemma rec_step_inv:
  assumes inv: "recording_inv lg ini P es s" and tn: "t < tp_nthr P" and ok: "prog_ok P" and lw: "lock_words s"
  shows "\<exists>es'. recording_inv lg ini P es' (rec_step lg P tx t s)"
proof (cases "ract P s t")
  case (Read a)
  then have o': "tp_cid P a < tp_nobj P"
    using ok tn by (auto simp: prog_ok_def ract_def dest!: spec [of _ t] spec [of _ "qt_vals (qs_thr s t)"])
  have "\<exists>es'. recording_inv lg ini P es' (read_tx P t a s)" if pc: "rpc_of s t = QRun"
  proof (cases "odd (rver s (tp_cid P a))")
    case True
    have "recording_inv lg ini P es (qgoto t RdVersion s)"
      using pc Read by (intro local_rec [OF inv tn]) (simp_all add: pc_kind_def pc_inv_def Let_def)
    with True show ?thesis by (auto simp: read_tx_def Let_def rver_def)
  next
    case False
    then show ?thesis
      using commit_read [OF inv tn _ _ Read o' refl _ refl] pc by (simp add: read_tx_def Let_def rver_def)
  qed
  then show ?thesis
    using rec_read_inv [OF inv tn Read o'] inv Read by (cases "rpc_of s t") (auto simp: rec_step_def ract_def)
next
  case (Write a x)
  then have o': "tp_cid P a < tp_nobj P"
    using ok tn by (auto simp: prog_ok_def ract_def dest!: spec [of _ t] spec [of _ "qt_vals (qs_thr s t)"])
  show ?thesis
    using write_tx_step [OF inv tn _ Write o'] rec_write_inv [OF inv tn Write o' lw] inv Write
    by (cases "rpc_of s t") (auto simp: rec_step_def ract_def)
next
  case Finish
  have k: "pc_kind Finish (rpc_of s t)"
    using recording_invD(3) [OF inv tn] Finish by (simp add: thr_hist_def Let_def ract_def)
  then have pc: "rpc_of s t = QRun \<or> rpc_of s t = QDone"
    by (cases "rpc_of s t") (simp_all add: pc_kind_def)
  have "recording_inv lg ini P es (qgoto t QDone s)" if "rpc_of s t = QRun"
    using that Finish by (intro local_rec [OF inv tn]) (simp_all add: pc_kind_def pc_inv_def Let_def)
  with pc Finish inv show ?thesis by (auto simp: rec_step_def ract_def)
qed

lemma recording_init_inv: "recording_inv lg ini P [] (recording_init P ini)"
proof -
  let ?s = "recording_init P ini"
  have v: "rver ?s o' = 0" "rlock ?s o' = False" if "o' < tp_nobj P" for o'
    using that by (simp_all add: recording_init_def rver_def rlock_def)
  have "thr_hist lg ini P [] t (qs_thr ?s t)" "pc_inv P ?s t" for t
    by (simp_all add: recording_init_def thr_hist_def pc_inv_def Let_def thr_vals_def pc_kind_def thr_cnt_def thr_evs_def)
  moreover have "locks_inv P ?s" using v by (simp add: locks_inv_def) (simp add: recording_init_def)
  moreover have "run_of P []" by (simp add: run_of_def reads_ok_def)
  ultimately show ?thesis
    using v by (simp add: recording_inv_def vers_inv_def rmem_inv_def trace_simps) (simp add: recording_init_def)
qed

lemma rec_reach_lock_words: "rec_reach rtm lg ini P s \<Longrightarrow> lock_words s"
  by (induction rule: rec_reach.induct) (simp_all add: lock_words_step, simp add: lock_words_def recording_init_def)

lemma rec_reach_inv:
  assumes "rec_reach rtm lg ini P s" "prog_ok P"
  shows "\<exists>es. recording_inv lg ini P es s"
  using assms(1)
proof (induction rule: rec_reach.induct)
  case init
  show ?case by (rule exI) (rule recording_init_inv)
next
  case (step s t tx)
  then obtain es where "recording_inv lg ini P es s" by blast
  from rec_step_inv [OF this step.hyps(2) assms(2) rec_reach_lock_words [OF step.hyps(1)]] show ?case .
qed

text \<open>When all threads have ended, the run is complete and the recorders have seen all of it.\<close>

lemma rec_done_run:
  assumes inv: "recording_inv lg ini P es s" and nd: "rec_done P s"
  shows "run_of P es" "complete P es" "\<And>a. qs_mem s a = mem_after (tp_mem P) es a"
    and "t < tp_nthr P \<Longrightarrow> qt_vals (qs_thr s t) = map ev_val (thr_evs t es)"
    and "t < tp_nthr P \<Longrightarrow> qt_rec (qs_thr s t) = fold lg (taccs (tp_cid P) t es) ini"
proof -
  have h: "thr_hist lg ini P es t (qs_thr s t)" "rpc_of s t = QDone" if "t < tp_nthr P" for t
    using recording_invD(3) [OF inv that] nd that by (simp_all add: rec_done_def)
  have c: "qt_vals (qs_thr s t) = thr_vals t es (thr_cnt t es)" "length (qt_vals (qs_thr s t)) = thr_cnt t es"
    "tp_code P t (qt_vals (qs_thr s t)) = Finish" "qt_rec (qs_thr s t) = fold lg (taccs (tp_cid P) t es) ini"
    if "t < tp_nthr P" for t
    using h [OF that] by (simp_all add: thr_hist_def Let_def pc_kind_def length_taccs)
  show "run_of P es" using recording_invD(1) [OF inv] .
  show "complete P es" using c(1,3) by (simp add: complete_def)
  show "qs_mem s a = mem_after (tp_mem P) es a" for a
    using recording_invD(7) [OF inv] h(2) by (auto simp: rmem_inv_def)
  show "qt_vals (qs_thr s t) = map ev_val (thr_evs t es)" if "t < tp_nthr P"
    using c(1) [OF that] by (simp add: thr_vals_def thr_cnt_def)
  show "qt_rec (qs_thr s t) = fold lg (taccs (tp_cid P) t es) ini" if "t < tp_nthr P" using c(4) [OF that] .
qed

end
