(* ===== verification/Record_Replay.thy ===== *)
theory Record_Replay
  imports Replay_Progress Record_Inv
begin

text \<open>
  The whole tool chain: the logs the recorders leave for a run, the processing of
  \<open>src/test.sh\<close>, and the replay that starts from the processed logs. The recorders only matter
  through the contract \<open>order_recorder\<close>, the replayer only through the logs it loads.
\<close>

section \<open>From a recorded run to a replay\<close>

text \<open>A replay starts from the threads' version logs and the processed memop logs; \<open>None\<close> when the
  processing stops with an error.\<close>

definition start_replay ::
  "(wait_memop que_ent list \<Rightarrow> nat) \<Rightarrow> test_prog \<Rightarrow> (tid_t \<Rightarrow> thr_rec) \<Rightarrow> replay option" where
  "start_replay sel P lg =
     (case process_memorder_log sel (tp_nobj P) (map (\<lambda>t. log_memop (lg t)) [0..<tp_nthr P]) of
        None \<Rightarrow> None
      | Some files \<Rightarrow>
          (case load_wait_reader_log (tp_nobj P) files of
             None \<Rightarrow> None
           | Some rls \<Rightarrow> Some (replay_init P (\<lambda>t. log_version (lg t)) rls)))"

text \<open>The state a thread's recorder leaves after the accesses of a run.\<close>

definition seqlock_logs :: "test_prog \<Rightarrow> event list \<Rightarrow> tid_t \<Rightarrow> thr_rec" where
  "seqlock_logs P es t =
     mem_finish_thr (tp_nobj P) before_finish_thr_default
       (fold seqlock_acc (taccs (tp_cid P) t es) (mem_init_thr (tp_nobj P)))"

definition batch_logs :: "nat \<Rightarrow> test_prog \<Rightarrow> event list \<Rightarrow> tid_t \<Rightarrow> thr_rec" where
  "batch_logs qsize P es t =
     batch_finish (tp_nobj P) (fold (batch_acc qsize) (taccs (tp_cid P) t es) (batch_init qsize (tp_nobj P)))"

text \<open>Logs that hold what the contract of a recorder says, for every thread of the program.\<close>

definition spec_logs :: "test_prog \<Rightarrow> event list \<Rightarrow> (tid_t \<Rightarrow> thr_rec) \<Rightarrow> bool" where
  "spec_logs P es lg \<longleftrightarrow>
     (\<forall>t < tp_nthr P.
        log_version (lg t) = version_spec (taccs (tp_cid P) t es) @ [version_end] \<and>
        log_memop (lg t) = memop_body (tp_nobj P) (taccs (tp_cid P) t es) @ [memop_end])"

lemma seqlock_spec_logs:
  assumes "run_of P es"
  shows "spec_logs P es (seqlock_logs P es)"
  using seqlock.run_logs [OF taccs_mono [OF run_ofD(2) [OF assms]]]
  by (simp add: spec_logs_def seqlock_logs_def memop_body_def)

lemma batch_spec_logs:
  assumes "run_of P es" "0 < qsize"
  shows "spec_logs P es (batch_logs qsize P es)"
  using order_recorder.run_logs [OF batch_order_recorder [OF assms(2)] taccs_mono [OF run_ofD(2) [OF assms(1)]]]
  by (simp add: spec_logs_def batch_logs_def memop_body_def)

lemma start_replay_ok:
  assumes q: "min_queue memop_key que_gt sel" and n: "tp_nthr P < 128" and run: "run_of P es"
    and lg: "spec_logs P es lg"
  shows "\<exists>s0. start_replay sel P lg = Some s0 \<and> replay_inv P es s0"
proof -
  let ?mlogs = "map (\<lambda>t. log_memop (lg t)) [0..<tp_nthr P]"
  have "?mlogs = map (\<lambda>t. memop_body (tp_nobj P) (taccs (tp_cid P) t es) @ [memop_end]) [0..<tp_nthr P]"
    using lg by (simp add: spec_logs_def)
  from processed_logs_ok [OF q n run_ofD(1,2) [OF run] this]
  obtain files rls where p: "process_memorder_log sel (tp_nobj P) ?mlogs = Some files"
    "load_wait_reader_log (tp_nobj P) files = Some rls" "readers_ok (tp_cid P) (tp_nobj P) es rls" by blast
  have "logs_for P es (\<lambda>t. log_version (lg t)) rls" using lg p(3) by (simp add: logs_for_def spec_logs_def)
  with p run show ?thesis by (simp add: start_replay_def replay_init_inv)
qed

text \<open>The state of a replay, whatever its schedule: no fault, and every thread has seen a prefix of
  what it saw in the recorded run.\<close>

lemma inv_faithful:
  assumes inv: "replay_inv P es s" and run: "run_of P es"
  shows "no_fault P s"
    and "t < tp_nthr P \<Longrightarrow> rt_vals (rp_thr s t) = take (nat (rt_memop (rp_thr s t))) (map ev_val (thr_evs t es))"
proof -
  have th: "thr_inv P es s t" if "t < tp_nthr P" for t using replay_invD(3) [OF inv that] .
  show "rt_vals (rp_thr s t) = take (nat (rt_memop (rp_thr s t))) (map ev_val (thr_evs t es))" if "t < tp_nthr P" for t
    using th [OF that] by (simp add: thr_inv_def Let_def thr_vals_def take_map)
  have "\<not> is_fault (rt_pc (rp_thr s t))" if t: "t < tp_nthr P" for t
  proof (cases "kt s t = thr_cnt t es")
    case True
    then show ?thesis using th [OF t] by (auto simp: thr_inv_def Let_def)
  next
    case False
    with cur_ex [OF inv t] obtain i where i: "is_cur es s i" "ev_tid (es ! i) = t" by blast
    then show ?thesis
      using replay_invD(4) [OF inv i(1)] by (cases "rt_pc (rp_thr s t)") (simp_all add: cur_inv_def Let_def pc_at_def)
  qed
  then show "no_fault P s" by (simp add: no_fault_def)
qed

section \<open>From a recording to its replay\<close>

text \<open>The logs that the threads of a recording leave.\<close>

definition rec_logs :: "(nat \<Rightarrow> 's \<Rightarrow> thr_rec) \<Rightarrow> test_prog \<Rightarrow> 's recording \<Rightarrow> tid_t \<Rightarrow> thr_rec" where
  "rec_logs fin P s t = fin (tp_nobj P) (qt_rec (qs_thr s t))"

text \<open>A state of the replay of a recording: no fault, and every thread has seen the first values it
  saw in the recording; in a final state it has seen all of them, and the objects hold what they
  held at the end of the recording.\<close>

definition replays :: "test_prog \<Rightarrow> 's recording \<Rightarrow> replay \<Rightarrow> bool" where
  "replays P q s \<longleftrightarrow>
     no_fault P s \<and>
     (\<forall>t < tp_nthr P.
        rt_vals (rp_thr s t) = take (nat (rt_memop (rp_thr s t))) (qt_vals (qs_thr q t))) \<and>
     (all_done P s \<longrightarrow>
        (\<forall>t < tp_nthr P. rt_vals (rp_thr s t) = qt_vals (qs_thr q t)) \<and>
        (\<forall>a. tp_cid P a < tp_nobj P \<longrightarrow> rp_mem s a = qs_mem q a))"

lemma replaysD:
  assumes "replays P q s"
  shows "no_fault P s" "all_done P s \<Longrightarrow> t < tp_nthr P \<Longrightarrow> rt_vals (rp_thr s t) = qt_vals (qs_thr q t)"
    "all_done P s \<Longrightarrow> tp_cid P a < tp_nobj P \<Longrightarrow> rp_mem s a = qs_mem q a"
  using assms unfolding replays_def by blast+

lemma inv_replays:
  assumes "recording_inv lg ini P es q" "rec_done P q" "replay_inv P es s"
  shows "replays P q s"
  using inv_faithful [OF assms(3) rec_done_run(1) [OF assms(1,2)]]
    done_run [OF assms(3) _ rec_done_run(1) [OF assms(1,2)]] rec_done_run(3,4) [OF assms(1,2)]
  by (simp add: replays_def)

context order_recorder
begin

lemma recording_replay:
  assumes q: "min_queue memop_key que_gt sel" and n: "tp_nthr P < 128" and ok: "prog_ok P"
    and r: "rec_reach rtm rec_acc (rec_init (tp_nobj P)) P q" "rec_done P q"
  shows "\<exists>es s0. recording_inv rec_acc (rec_init (tp_nobj P)) P es q \<and>
    start_replay sel P (rec_logs rec_finish P q) = Some s0 \<and> replay_inv P es s0"
proof -
  obtain es where es: "recording_inv rec_acc (rec_init (tp_nobj P)) P es q" using rec_reach_inv [OF r(1) ok] by blast
  note d = rec_done_run [OF es r(2)]
  have "spec_logs P es (rec_logs rec_finish P q)"
    using run_logs [OF taccs_mono [OF run_ofD(2) [OF d(1)]]] d(5)
    by (simp add: spec_logs_def rec_logs_def memop_body_def)
  from start_replay_ok [OF q n d(1) this] es show ?thesis by blast
qed

lemma recording_replays:
  assumes "min_queue memop_key que_gt sel" "tp_nthr P < 128" "prog_ok P"
    and r: "rec_reach rtm rec_acc (rec_init (tp_nobj P)) P q" "rec_done P q"
    and s: "start_replay sel P (rec_logs rec_finish P q) = Some s0" "replay_reach P s0 s"
  shows "replays P q s"
proof -
  obtain es where es: "recording_inv rec_acc (rec_init (tp_nobj P)) P es q" "replay_inv P es s0"
    using recording_replay [OF assms(1-3) r] s(1) by auto
  note d = rec_done_run [OF es(1) r(2)]
  from replay_reach_inv [OF s(2) d(1,2) es(2)] show ?thesis by (rule inv_replays [OF es(1) r(2)])
qed

lemma recording_fair:
  assumes "min_queue memop_key que_gt sel" "tp_nthr P < 128" "prog_ok P"
    and r: "rec_reach rtm rec_acc (rec_init (tp_nobj P)) P q" "rec_done P q"
    and s: "start_replay sel P (rec_logs rec_finish P q) = Some s0" and f: "fair (tp_nthr P) f"
  shows "\<exists>n. all_done P (sched_state (replay_step P) f s0 n) \<and> replays P q (sched_state (replay_step P) f s0 n)"
proof -
  obtain es where es: "recording_inv rec_acc (rec_init (tp_nobj P)) P es q" "replay_inv P es s0"
    using recording_replay [OF assms(1-3) r] s by auto
  note d = rec_done_run [OF es(1) r(2)]
  from replayer.fair_finishes [of P es s0 f] es(2) d(1,2) f inv_replays [OF es(1) r(2)]
  show ?thesis by blast
qed

lemma recording_wf:
  assumes "min_queue memop_key que_gt sel" "tp_nthr P < 128" "prog_ok P"
    and r: "rec_reach rtm rec_acc (rec_init (tp_nobj P)) P q" "rec_done P q"
    and s: "start_replay sel P (rec_logs rec_finish P q) = Some s0"
  shows "wf {(s', s). replay_reach P s0 s \<and> (\<exists>t < tp_nthr P. s' = replay_step P t s) \<and> s' \<noteq> s}"
proof -
  obtain es where es: "recording_inv rec_acc (rec_init (tp_nobj P)) P es q" "replay_inv P es s0"
    using recording_replay [OF assms(1-3) r] s by auto
  note d = rec_done_run [OF es(1) r(2)]
  show ?thesis
    using replayer.steps_wf [of "replay_reach P s0" P es] replay_reach_inv [OF _ d(1,2) es(2)] d(1,2) by blast
qed

lemma recording_no_deadlock:
  assumes "min_queue memop_key que_gt sel" "tp_nthr P < 128" "prog_ok P"
    and r: "rec_reach rtm rec_acc (rec_init (tp_nobj P)) P q" "rec_done P q"
    and s: "start_replay sel P (rec_logs rec_finish P q) = Some s0" "replay_reach P s0 s"
    and nd: "\<not> all_done P s"
  shows "\<exists>t < tp_nthr P. replay_step P t s \<noteq> s"
proof -
  obtain es where es: "recording_inv rec_acc (rec_init (tp_nobj P)) P es q" "replay_inv P es s0"
    using recording_replay [OF assms(1-3) r] s(1) by auto
  note d = rec_done_run [OF es(1) r(2)]
  from replayer.not_stuck [of P es s] replay_reach_inv [OF s(2) d(1,2) es(2)] d(1,2) nd show ?thesis by blast
qed

end

end
