(* ===== verification/Cluster_Machine.thy ===== *)
theory Cluster_Machine
  imports Record_Replay "HOL-Library.Signed_Division"
begin

text \<open>
  The recorder of \<open>src/mem-record-rtmcluster.c\<close>: a transaction protects a block of up to
  \<open>RTM_BATCH_N\<close> accesses, and the accesses of a block that was aborted run one by one with the
  sequence locks of \<open>Record_Machine\<close>. The theory shows that a recording of blocks is a recording of
  single accesses, each of them in a transaction of its own.
\<close>

section \<open>The machine\<close>

text \<open>\<open>g_sim_bbcnt\<close> is an \<open>int\<close> that counts the accesses of a thread and wraps around. The remainder after
  \<open>n\<close> accesses has the sign of the counter, as always in C.\<close>

definition bb_rem :: "nat \<Rightarrow> int" where
  "bb_rem n = sint (of_nat n :: 32 word) smod int RTM_BATCH_N"

text \<open>A block ends with an access at the remainder \<open>RTM_BATCH_N - 1\<close>. When the counter has wrapped there is
  no such access, and the next block would begin inside the transaction: there \<open>assert(!_xtest())\<close> fails in
  the next access, or \<open>before_finish_thr\<close> does not commit and the thread ends. Either way the transaction
  comes to a system call and aborts.\<close>

definition left_open :: "nat \<Rightarrow> bool" where
  "left_open n \<longleftrightarrow> bb_rem n \<noteq> int RTM_BATCH_N - 1 \<and> bb_rem (Suc n) = 0"

text \<open>An access inside a transaction; \<open>None\<close> is the explicit abort.\<close>

definition cluster_read ::
  "(tacc \<Rightarrow> 's \<Rightarrow> 's) \<Rightarrow> test_prog \<Rightarrow> tid_t \<Rightarrow> addr_t \<Rightarrow> 's recording \<Rightarrow> 's recording option" where
  "cluster_read lg P t addr s =
     (let objid = tp_cid P addr; version = oi_version (g_objinfo s ! objid)
      in if odd version then None
         else Some (log_step lg t \<lparr>ta_write = False, ta_obj = objid, ta_ver = version\<rparr> (qs_mem s addr) s))"

definition cluster_write ::
  "(tacc \<Rightarrow> 's \<Rightarrow> 's) \<Rightarrow> test_prog \<Rightarrow> tid_t \<Rightarrow> addr_t \<Rightarrow> val_t \<Rightarrow> 's recording \<Rightarrow> 's recording option" where
  "cluster_write lg P t addr val s =
     (let objid = tp_cid P addr; version = oi_version (g_objinfo s ! objid)
      in if oi_write_lock (g_objinfo s ! objid) \<noteq> 0 then None
         else Some (log_step lg t \<lparr>ta_write = True, ta_obj = objid, ta_ver = version\<rparr> val
                (set_version objid (version + 2) (set_mem addr val s))))"

text \<open>At most \<open>n\<close> accesses in a transaction. A thread that ends inside the block commits what it has
  done (\<open>before_finish_thr\<close>).\<close>

primrec cluster_accs ::
  "(tacc \<Rightarrow> 's \<Rightarrow> 's) \<Rightarrow> test_prog \<Rightarrow> tid_t \<Rightarrow> nat \<Rightarrow> 's recording \<Rightarrow> 's recording option" where
  "cluster_accs lg P t 0 s = Some s"
| "cluster_accs lg P t (Suc n) s =
     (case tp_code P t (qt_vals (qs_thr s t)) of
        Read a \<Rightarrow>
          (case cluster_read lg P t a s of
             None \<Rightarrow> None
           | Some s1 \<Rightarrow> if left_open (length (qt_vals (qs_thr s t))) then None else cluster_accs lg P t n s1)
      | Write a v \<Rightarrow>
          (case cluster_write lg P t a v s of
             None \<Rightarrow> None
           | Some s1 \<Rightarrow> if left_open (length (qt_vals (qs_thr s t))) then None else cluster_accs lg P t n s1)
      | Finish \<Rightarrow> Some s)"

text \<open>One step of thread \<open>t\<close>: at the start of a block a transaction is tried, which runs to its end
  (\<open>tx\<close>) unless it aborts itself; every other access, and every access of an aborted block, is one of
  the fallback code.\<close>

definition cluster_step ::
  "(tacc \<Rightarrow> 's \<Rightarrow> 's) \<Rightarrow> test_prog \<Rightarrow> bool \<Rightarrow> tid_t \<Rightarrow> 's recording \<Rightarrow> 's recording" where
  "cluster_step lg P tx t s =
     (let r = qs_thr s t
      in if tx \<and> qt_pc r = QRun \<and> bb_rem (length (qt_vals r)) = 0 \<and> tp_code P t (qt_vals r) \<noteq> Finish
         then (case cluster_accs lg P t RTM_BATCH_N s of None \<Rightarrow> rec_step lg P False t s | Some s1 \<Rightarrow> s1)
         else rec_step lg P False t s)"

inductive cluster_reach :: "(tacc \<Rightarrow> 's \<Rightarrow> 's) \<Rightarrow> 's \<Rightarrow> test_prog \<Rightarrow> 's recording \<Rightarrow> bool" for lg ini P where
  init: "cluster_reach lg ini P (recording_init P ini)"
| step: "cluster_reach lg ini P s \<Longrightarrow> t < tp_nthr P \<Longrightarrow> cluster_reach lg ini P (cluster_step lg P tx t s)"

definition cluster_run :: "(tacc \<Rightarrow> 's \<Rightarrow> 's) \<Rightarrow> test_prog \<Rightarrow> (tid_t \<times> bool) list \<Rightarrow> 's recording \<Rightarrow> 's recording" where
  "cluster_run lg P sch s = fold (\<lambda>(t, tx). cluster_step lg P tx t) sch s"

lemma cluster_reach_run:
  assumes "cluster_reach lg ini P s" "\<forall>(t, tx) \<in> set sch. t < tp_nthr P"
  shows "cluster_reach lg ini P (cluster_run lg P sch s)"
  using assms by (induction sch arbitrary: s) (auto simp: cluster_run_def intro: cluster_reach.step)

section \<open>A block is a sequence of single accesses\<close>

lemma cluster_read_steps:
  assumes "cluster_read lg P t a s = Some s1" "qt_pc (qs_thr s t) = QRun" "tp_code P t (qt_vals (qs_thr s t)) = Read a"
  shows "s1 = rec_step lg P True t (rec_step lg P True t s)" "qt_pc (qs_thr s1 t) = QRun"
  using assms
  by (auto simp: cluster_read_def rec_step_def read_tx_def rec_read_def log_step_def qgoto_def Let_def split: if_splits)

lemma cluster_write_steps:
  assumes "cluster_write lg P t a v s = Some s1" "qt_pc (qs_thr s t) = QRun" "tp_code P t (qt_vals (qs_thr s t)) = Write a v"
    and "tp_cid P a < length (g_objinfo s)"
  shows "s1 = rec_step lg P True t (rec_step lg P True t s)" "qt_pc (qs_thr s1 t) = QRun"
  using assms
  by (auto simp: cluster_write_def rec_step_def write_tx_def rec_write_def log_step_def qgoto_def set_version_def
      set_mem_def Let_def split: if_splits)

lemma rec_reach_length:
  assumes "rec_reach rtm lg ini P s" "prog_ok P"
  shows "length (g_objinfo s) = tp_nobj P"
proof -
  obtain es where "recording_inv lg ini P es s" using rec_reach_inv [OF assms] by blast
  then show ?thesis by (rule recording_invD(2))
qed

lemma cluster_accs_reach:
  assumes "rec_reach True lg ini P s" "t < tp_nthr P" "prog_ok P" "qt_pc (qs_thr s t) = QRun"
    and "cluster_accs lg P t n s = Some s1"
  shows "rec_reach True lg ini P s1"
  using assms
proof (induction n arbitrary: s)
  case (Suc n)
  have two: "rec_reach True lg ini P (rec_step lg P True t (rec_step lg P True t s))"
    using Suc.prems(1,2) by (auto intro: rec_reach.step)
  show ?case
  proof (cases "tp_code P t (qt_vals (qs_thr s t))")
    case (Read a)
    then obtain s2 where s2: "cluster_read lg P t a s = Some s2" "cluster_accs lg P t n s2 = Some s1"
      using Suc.prems(5) by (auto split: option.splits if_splits)
    from cluster_read_steps [OF s2(1) Suc.prems(4) Read] two show ?thesis
      using Suc.IH [OF _ Suc.prems(2,3) _ s2(2)] by simp
  next
    case (Write a v)
    then obtain s2 where s2: "cluster_write lg P t a v s = Some s2" "cluster_accs lg P t n s2 = Some s1"
      using Suc.prems(5) by (auto split: option.splits if_splits)
    have "tp_cid P a < length (g_objinfo s)"
      using Suc.prems(2,3) Write rec_reach_length [OF Suc.prems(1,3)] unfolding prog_ok_def by (metis act_addr.simps(2) action.distinct(5))
    from cluster_write_steps [OF s2(1) Suc.prems(4) Write this] two show ?thesis
      using Suc.IH [OF _ Suc.prems(2,3) _ s2(2)] by simp
  next
    case Finish
    then show ?thesis using Suc.prems by simp
  qed
qed simp

lemma cluster_rec_reach:
  assumes "cluster_reach lg ini P s" "prog_ok P"
  shows "rec_reach True lg ini P s"
  using assms(1)
proof induction
  case init
  then show ?case by (rule rec_reach.init)
next
  case (step s t tx)
  have f: "rec_reach True lg ini P (rec_step lg P False t s)" using step by (auto intro: rec_reach.step)
  show ?case
    unfolding cluster_step_def Let_def
    using f cluster_accs_reach [OF step.IH step.hyps(2) assms(2)] by (auto split: option.splits)
qed

end
