(* ===== verification/Record_Progress.thy ===== *)
theory Record_Progress
  imports Record_Inv Fair_Schedule
begin

text \<open>
  A recording comes to its end. A reader of \<open>mem_read\<close> starts over only when a write has changed the
  version since, and a writer that has lost the race for the lock waits until it is released, so
  every step of a thread that changes the state uses up something: its own part of the access, or a
  chance that another thread's write has given it. The threads of the program must end, whatever
  their reads return.
\<close>

section \<open>What is left\<close>

fun pc_left :: "qpc \<Rightarrow> nat" where
  "pc_left QRun = 13"
| "pc_left RdVersion = 3"
| "pc_left (RdLoad v) = 3"
| "pc_left (RdCheck v x) = 3"
| "pc_left LockXchg = 10"
| "pc_left LockSpin = 10"
| "pc_left WrLoad = 9"
| "pc_left (WrInc1Load v) = 8"
| "pc_left (WrInc1Store v w) = 7"
| "pc_left (WrStore v) = 6"
| "pc_left (WrInc2Load v) = 5"
| "pc_left (WrInc2Store v w) = 4"
| "pc_left (WrUnlock v) = 3"
| "pc_left (LogAcc v x) = 2"
| "pc_left QDone = 0"

definition work_left :: "(tid_t \<Rightarrow> nat) \<Rightarrow> tid_t \<Rightarrow> 's rec_thr \<Rightarrow> nat" where
  "work_left N t r = 14 * (N t - length (qt_vals r)) + pc_left (qt_pc r)"

text \<open>The steps that a thread in one of the waiting loops can make before it waits or goes on, as the
  version and the lock are now.\<close>

fun tries_left :: "version_t \<Rightarrow> bool \<Rightarrow> qpc \<Rightarrow> nat" where
  "tries_left w lk RdVersion = 3"
| "tries_left w lk (RdLoad v) = (if v = w then 2 else 6)"
| "tries_left w lk (RdCheck v x) = (if v = w then 1 else 5)"
| "tries_left w lk LockXchg = 1"
| "tries_left w lk LockSpin = (if lk then 0 else 2)"
| "tries_left w lk pc = 0"

definition thr_tries :: "test_prog \<Rightarrow> 's recording \<Rightarrow> tid_t \<Rightarrow> nat" where
  "thr_tries P s t = tries_left (rver s (robj P s t)) (rlock s (robj P s t)) (rpc_of s t)"

definition rec_left :: "test_prog \<Rightarrow> (tid_t \<Rightarrow> nat) \<Rightarrow> 's recording \<Rightarrow> nat" where
  "rec_left P N s =
     (6 * tp_nthr P + 1) * (\<Sum>t<tp_nthr P. work_left N t (qs_thr s t)) + (\<Sum>t<tp_nthr P. thr_tries P s t)"

lemma tries_bound: "thr_tries P s t \<le> 6"
  unfolding thr_tries_def by (cases "rpc_of s t") simp_all

text \<open>A step that does work may wake the others up.\<close>

lemma left_work:
  assumes t: "t < tp_nthr P" and u: "\<And>u. u \<noteq> t \<Longrightarrow> qs_thr s' u = qs_thr s u"
    and w: "work_left N t (qs_thr s' t) < work_left N t (qs_thr s t)"
  shows "rec_left P N s' < rec_left P N s"
proof -
  let ?w = "\<lambda>s. \<Sum>u<tp_nthr P. work_left N u (qs_thr s u)"
  have "?w s' < ?w s" using t u w by (intro sum_lessThan_dec [of t]) simp_all
  then have "(6 * tp_nthr P + 1) * Suc (?w s') \<le> (6 * tp_nthr P + 1) * ?w s" by (intro mult_le_mono2) simp
  moreover have "(\<Sum>u<tp_nthr P. thr_tries P s' u) \<le> (\<Sum>u<tp_nthr P. 6)" by (intro sum_mono tries_bound)
  ultimately show ?thesis by (simp add: rec_left_def)
qed

text \<open>A step in a waiting loop changes nothing that others look at.\<close>

lemma left_try:
  assumes t: "t < tp_nthr P" and pc: "pc_left pc' = pc_left (rpc_of s t)"
    and less: "tries_left (rver s (robj P s t)) (rlock s (robj P s t)) pc' < thr_tries P s t"
  shows "rec_left P N (qgoto t pc' s) < rec_left P N s"
proof -
  have "(\<Sum>u<tp_nthr P. work_left N u (qs_thr (qgoto t pc' s) u)) = (\<Sum>u<tp_nthr P. work_left N u (qs_thr s u))"
    using pc by (intro sum.cong) (simp_all add: work_left_def)
  moreover have "(\<Sum>u<tp_nthr P. thr_tries P (qgoto t pc' s) u) < (\<Sum>u<tp_nthr P. thr_tries P s u)"
    using t less by (intro sum_lessThan_dec [of t]) (simp_all add: thr_tries_def)
  ultimately show ?thesis by (simp add: rec_left_def)
qed

lemma left_goto:
  assumes "t < tp_nthr P" "qs_thr s1 = qs_thr s" "pc_left pc' < pc_left (rpc_of s t)"
  shows "rec_left P N (qgoto t pc' s1) < rec_left P N s"
  using assms by (intro left_work [of t]) (simp_all add: work_left_def)

lemma left_log:
  assumes "t < tp_nthr P" "rpc_of s t = LogAcc v x" "length (qt_vals (qs_thr s t)) < N t"
  shows "rec_left P N (log_step lg t y z s) < rec_left P N s"
  using assms by (intro left_work [of t]) (auto simp: work_left_def log_step_def Let_def)

section \<open>Every step uses something up\<close>

lemma rec_read_left:
  assumes t: "t < tp_nthr P" and act: "ract P s t = Read a" and n: "length (qt_vals (qs_thr s t)) < N t"
    and move: "rec_read lg P t a s \<noteq> s"
  shows "rec_left P N (rec_read lg P t a s) < rec_left P N s"
proof -
  have o': "robj P s t = tp_cid P a" using act by (simp add: robj_def raddr_def)
  have v: "oi_version (g_objinfo s ! tp_cid P a) = rver s (tp_cid P a)" by (simp add: rver_def)
  note retry = left_try [OF t] and goto = left_goto [OF t refl]
  show ?thesis
  proof (cases "rpc_of s t")
    case QRun then show ?thesis by (simp add: rec_read_def goto)
  next
    case RdVersion
    then show ?thesis using move o' by (auto simp: rec_read_def Let_def v thr_tries_def intro!: retry split: if_splits)
  next
    case (RdLoad w) then show ?thesis using o' by (auto simp: rec_read_def Let_def v thr_tries_def intro!: retry)
  next
    case (RdCheck w x)
    then show ?thesis
      using o' retry [of RdVersion s] goto [of "LogAcc w x" s]
      by (cases "w = rver s (tp_cid P a)") (simp_all add: rec_read_def Let_def v thr_tries_def)
  next
    case (LogAcc w x) then show ?thesis using left_log [OF t LogAcc, of N lg] n by (simp add: rec_read_def)
  qed (use move in \<open>simp_all add: rec_read_def\<close>)
qed

lemma rec_write_left:
  assumes t: "t < tp_nthr P" and act: "ract P s t = Write a y" and n: "length (qt_vals (qs_thr s t)) < N t"
    and lw: "lock_words s" and o': "tp_cid P a < length (g_objinfo s)" and move: "rec_write lg P t a y s \<noteq> s"
  shows "rec_left P N (rec_write lg P t a y s) < rec_left P N s"
proof -
  have ro: "robj P s t = tp_cid P a" using act by (simp add: robj_def raddr_def)
  have lk: "oi_write_lock (g_objinfo s ! tp_cid P a) \<noteq> 0 \<longleftrightarrow> rlock s (tp_cid P a)" by (simp add: rlock_def)
  note retry = left_try [OF t] and goto = left_goto [OF t]
  show ?thesis
  proof (cases "rpc_of s t")
    case LockXchg
    then have "rec_write lg P t a y s =
        (if rlock s (tp_cid P a) then qgoto t LockSpin s else qgoto t WrLoad (set_lock (tp_cid P a) BUSY s))"
      using set_lock_busy [OF lw o'] lk by (auto simp: rec_write_def spin_lock_step_def spin_lock_try_eq Let_def)
    then show ?thesis
      using LockXchg ro retry [of LockSpin s] goto [of "set_lock (tp_cid P a) BUSY s" s WrLoad]
      by (simp add: thr_tries_def set_lock_view)
  next
    case LockSpin
    then show ?thesis
      using move lk ro by (auto simp: rec_write_def spin_lock_step_def Let_def thr_tries_def intro!: retry)
  next
    case (LogAcc w x) then show ?thesis using left_log [OF t LogAcc, of N lg] n by (simp add: rec_write_def)
  qed (use move in \<open>auto simp: rec_write_def Let_def set_version_view set_lock_view intro!: goto\<close>)
qed

lemma rec_step_left:
  assumes r: "rec_reach rtm lg ini P s" and ok: "prog_ok P" and e: "ends P N" and t: "t < tp_nthr P"
    and move: "rec_step lg P tx t s \<noteq> s"
  shows "rec_left P N (rec_step lg P tx t s) < rec_left P N s"
proof -
  obtain es where inv: "recording_inv lg ini P es s" using rec_reach_inv [OF r ok] by blast
  have n: "length (qt_vals (qs_thr s t)) < N t" if "ract P s t \<noteq> Finish"
    using that endsD [OF e t] by (simp add: ract_def)
  have o': "tp_cid P (act_addr (ract P s t)) < length (g_objinfo s)" if "ract P s t \<noteq> Finish"
    using that ok t recording_invD(2) [OF inv] by (simp add: prog_ok_def ract_def)
  have pc: "rpc_of s t \<noteq> QDone" using move by (auto simp: rec_step_def)
  show ?thesis
  proof (cases "ract P s t")
    case (Read a)
    have "rec_step lg P tx t s = (if tx \<and> rpc_of s t = QRun then read_tx P t a s else rec_read lg P t a s)"
      using Read pc by (cases "rpc_of s t") (simp_all add: rec_step_def ract_def)
    then show ?thesis
      using rec_read_left [OF t Read, of N lg] n Read move
      by (auto simp: read_tx_def Let_def intro!: left_goto [OF t refl])
  next
    case (Write a x)
    have "rec_step lg P tx t s = (if tx \<and> rpc_of s t = QRun then write_tx P t a x s else rec_write lg P t a x s)"
      using Write pc by (cases "rpc_of s t") (simp_all add: rec_step_def ract_def)
    then show ?thesis
      using rec_write_left [OF t Write, of N lg] n rec_reach_lock_words [OF r] o' Write move
      by (auto simp: write_tx_def Let_def set_version_view intro!: left_goto [OF t])
  next
    case Finish
    then have "rec_step lg P tx t s = qgoto t QDone s"
      using pc by (cases "rpc_of s t") (simp_all add: rec_step_def ract_def)
    moreover have "pc_left QDone < pc_left (rpc_of s t)" using pc by (cases "rpc_of s t") simp_all
    ultimately show ?thesis by (simp add: left_goto [OF t refl])
  qed
qed

section \<open>Some thread can always go on\<close>

lemma qgoto_moves: "pc \<noteq> rpc_of s t \<Longrightarrow> qgoto t pc s' \<noteq> s"
  by (auto simp: qgoto_def)

lemma log_moves: "log_step lg t y z s \<noteq> s"
proof
  assume "log_step lg t y z s = s"
  then have "length (qt_vals (qs_thr (log_step lg t y z s) t)) = length (qt_vals (qs_thr s t))" by simp
  then show False by (simp add: log_step_def Let_def)
qed

lemma critical_moves:
  assumes "critical (rpc_of s t)" "ract P s t = Write a x"
  shows "rec_step lg P tx t s \<noteq> s"
  using assms by (cases "rpc_of s t") (auto simp: rec_step_def rec_write_def ract_def Let_def intro!: qgoto_moves)

text \<open>A thread that cannot go on waits for a lock.\<close>

lemma waits_for_lock:
  assumes k: "pc_kind (ract P s t) (rpc_of s t)" and pc: "rpc_of s t \<noteq> QDone" and stuck: "rec_step lg P tx t s = s"
    and l: "locks_inv P s" "robj P s t < tp_nobj P"
  shows "rlock s (robj P s t)"
proof (cases "ract P s t")
  case (Read a)
  then have "rpc_of s t = RdVersion \<and> odd (rver s (robj P s t))"
    using stuck k pc qgoto_moves [of _ s t s] log_moves [of lg t _ _ s]
    by (cases "rpc_of s t")
      (auto simp: rec_step_def rec_read_def read_tx_def ract_def robj_def raddr_def rver_def pc_kind_def Let_def split: if_splits)
  then show ?thesis using locks_inv_odd [OF l] by blast
next
  case (Write a x)
  then show ?thesis
    using stuck k pc qgoto_moves [of _ s t] log_moves [of lg t _ _ s]
    by (cases "rpc_of s t")
      (auto simp: rec_step_def rec_write_def write_tx_def spin_lock_step_def spin_lock_try_eq ract_def robj_def raddr_def rlock_def
        pc_kind_def Let_def split: if_splits)
next
  case Finish
  then show ?thesis using stuck pc qgoto_moves [of QDone s t s] by (cases "rpc_of s t") (auto simp: rec_step_def ract_def)
qed

lemma rec_moves:
  assumes r: "rec_reach rtm lg ini P s" and ok: "prog_ok P" and nd: "\<not> rec_done P s"
  shows "\<exists>t < tp_nthr P. rec_step lg P (tx t s) t s \<noteq> s"
proof (rule ccontr)
  assume no: "\<not> ?thesis"
  obtain es where inv: "recording_inv lg ini P es s" using rec_reach_inv [OF r ok] by blast
  have k: "pc_kind (ract P s t) (rpc_of s t)" if "t < tp_nthr P" for t
    using recording_invD(3) [OF inv that] by (simp add: thr_hist_def ract_def Let_def)
  obtain t where t: "t < tp_nthr P" "rpc_of s t \<noteq> QDone" using nd by (auto simp: rec_done_def)
  have stuck: "rec_step lg P (tx t s) t s = s" using no t(1) by blast
  have "ract P s t \<noteq> Finish" using stuck t(2) qgoto_moves [of QDone s t s] by (cases "rpc_of s t") (auto simp: rec_step_def ract_def)
  then have "robj P s t < tp_nobj P" using ok t(1) by (simp add: prog_ok_def robj_def raddr_def ract_def)
  then obtain u where u: "u < tp_nthr P" "critical (rpc_of s u)"
    using waits_for_lock [OF k [OF t(1)] t(2) stuck recording_invD(6) [OF inv]] recording_invD(6) [OF inv]
    unfolding locks_inv_def by blast
  then obtain a x where "ract P s u = Write a x" using k [OF u(1)] by (cases "ract P s u") (auto simp: pc_kind_def)
  from critical_moves [OF u(2) this] no u(1) show False by blast
qed

section \<open>The contract\<close>

text \<open>\<open>tx\<close> says which transactions run to their end.\<close>

interpretation recorder: spin_machine "\<lambda>t s. rec_step lg P (tx t s) t s" "tp_nthr P"
  "\<lambda>s. rec_reach rtm lg ini P s \<and> prog_ok P \<and> ends P N \<and> (\<forall>t s. tx t s \<longrightarrow> rtm)" "rec_done P" "rec_left P N"
  by unfold_locales (use rec_step_left rec_moves in \<open>auto intro: rec_reach.step\<close>)

end
