(* ===== verification/Test_Run.thy ===== *)
theory Test_Run
  imports Record_Replay Record_Progress
begin

text \<open>
  A whole run of \<open>src/test.sh\<close>: record the program, process the logs, replay it. Under fair schedules
  of the two runs, and whatever transactions commit, both come to their end, and the replay has seen
  what the recording saw.
\<close>

definition rec_sched ::
  "(tacc \<Rightarrow> 's \<Rightarrow> 's) \<Rightarrow> 's \<Rightarrow> test_prog \<Rightarrow> (tid_t \<Rightarrow> 's recording \<Rightarrow> bool) \<Rightarrow> (nat \<Rightarrow> tid_t) \<Rightarrow> nat \<Rightarrow> 's recording" where
  "rec_sched lg ini P tx f = sched_state (\<lambda>t s. rec_step lg P (tx t s) t s) f (recording_init P ini)"

text \<open>A step of \<open>src/mem-record-seqbatch.c\<close>: the accesses of the seqlock recorder, with the batch queue.\<close>

definition seqbatch_step :: "test_prog \<Rightarrow> tid_t \<Rightarrow> batch_rec recording \<Rightarrow> batch_rec recording" where
  "seqbatch_step P t s = rec_step (batch_acc BATCH_LOG_SIZE) P False t s"

lemma seqbatch_sched:
  "rec_sched (batch_acc BATCH_LOG_SIZE) ini P (\<lambda>t s. False) f = sched_state (seqbatch_step P) f (recording_init P ini)"
  by (simp add: rec_sched_def seqbatch_step_def [abs_def])

lemma recording_ends:
  assumes "prog_ok P" "ends P N" "fair (tp_nthr P) f" "\<forall>t s. tx t s \<longrightarrow> rtm"
  shows "\<exists>k. rec_done P (rec_sched lg ini P tx f k) \<and> rec_reach rtm lg ini P (rec_sched lg ini P tx f k)"
  unfolding rec_sched_def
  using recorder.fair_finishes [of rtm lg ini P "recording_init P ini" N tx f] rec_reach.init [of rtm lg ini P] assms by blast

context order_recorder
begin

lemma test_run:
  assumes "min_queue memop_key que_gt sel" "tp_nthr P < 128" "prog_ok P" "ends P N"
    and "fair (tp_nthr P) f" "fair (tp_nthr P) g"
  shows "\<exists>k s0 m. rec_done P (rec_sched rec_acc (rec_init (tp_nobj P)) P tx f k) \<and>
    start_replay sel P (rec_logs rec_finish P (rec_sched rec_acc (rec_init (tp_nobj P)) P tx f k)) = Some s0 \<and>
    all_done P (sched_state (replay_step P) g s0 m) \<and>
    replays P (rec_sched rec_acc (rec_init (tp_nobj P)) P tx f k) (sched_state (replay_step P) g s0 m)"
proof -
  obtain k where k: "rec_done P (rec_sched rec_acc (rec_init (tp_nobj P)) P tx f k)"
    "rec_reach True rec_acc (rec_init (tp_nobj P)) P (rec_sched rec_acc (rec_init (tp_nobj P)) P tx f k)"
    using recording_ends [OF assms(3-5), of tx True] by blast
  obtain s0 where s0: "start_replay sel P (rec_logs rec_finish P (rec_sched rec_acc (rec_init (tp_nobj P)) P tx f k)) = Some s0"
    using recording_replay [OF assms(1-3) k(2,1)] by blast
  from recording_fair [OF assms(1-3) k(2,1) s0 assms(6)] k(1) s0 show ?thesis by blast
qed

end

end
