(* ===== verification/Cluster_Progress.thy ===== *)
theory Cluster_Progress
  imports Cluster_Machine Test_Run
begin

text \<open>
  The rtmcluster recorder comes to its end. A block that commits is a sequence of accesses of the
  machine of \<open>Record_Machine\<close>, each of which uses something up; a block that aborts itself, or is
  aborted, goes on with the fallback code. The theory interprets the contract \<open>spin_machine\<close> for it
  and follows a program from its recording to the end of its replay.
\<close>

section \<open>Every block uses something up\<close>

lemma log_pair_left:
  assumes r: "rec_reach True lg ini P s" and ok: "prog_ok P" and e: "ends P N" and t: "t < tp_nthr P"
    and s1: "s1 = rec_step lg P True t (rec_step lg P True t s)" and move: "s1 \<noteq> s"
  shows "rec_left P N s1 < rec_left P N s"
proof -
  let ?s = "rec_step lg P True t s"
  have r1: "rec_reach True lg ini P ?s" using r t by (auto intro: rec_reach.step)
  have "rec_left P N ?s < rec_left P N s \<or> ?s = s" using rec_step_left [OF r ok e t] by blast
  moreover have "rec_left P N s1 < rec_left P N ?s \<or> s1 = ?s" using rec_step_left [OF r1 ok e t] s1 by blast
  ultimately show ?thesis using move by auto
qed

lemma cluster_obj:
  assumes "rec_reach True lg ini P s" "prog_ok P" "t < tp_nthr P" "tp_code P t vs = Write a v"
  shows "tp_cid P a < length (g_objinfo s)"
  using assms rec_reach_length [OF assms(1,2)] unfolding prog_ok_def by (metis act_addr.simps(2) action.distinct(5))

lemma cluster_accs_left:
  assumes "rec_reach True lg ini P s" "prog_ok P" "ends P N" "t < tp_nthr P" "qt_pc (qs_thr s t) = QRun"
    and "cluster_accs lg P t n s = Some s1"
  shows "rec_left P N s1 \<le> rec_left P N s"
    and "0 < n \<Longrightarrow> tp_code P t (qt_vals (qs_thr s t)) \<noteq> Finish \<Longrightarrow> rec_left P N s1 < rec_left P N s"
proof -
  have "rec_left P N s1 \<le> rec_left P N s \<and>
      (0 < n \<and> tp_code P t (qt_vals (qs_thr s t)) \<noteq> Finish \<longrightarrow> rec_left P N s1 < rec_left P N s)"
    using assms(1,5,6)
  proof (induction n arbitrary: s)
    case (Suc n)
    have go: ?case if acc: "s2 = rec_step lg P True t (rec_step lg P True t s)" "qt_pc (qs_thr s2 t) = QRun" "s2 \<noteq> s"
      and rest: "cluster_accs lg P t n s2 = Some s1" for s2
    proof -
      have "rec_reach True lg ini P s2" unfolding acc(1) using Suc.prems(1) assms(4) by (auto intro: rec_reach.step)
      from Suc.IH [OF this acc(2) rest] log_pair_left [OF Suc.prems(1) assms(2-4) acc(1,3)] show ?thesis by simp
    qed
    show ?case
    proof (cases "tp_code P t (qt_vals (qs_thr s t))")
      case (Read a)
      then obtain s2 where s2: "cluster_read lg P t a s = Some s2" "cluster_accs lg P t n s2 = Some s1"
        using Suc.prems(3) by (auto split: option.splits if_splits)
      have "length (qt_vals (qs_thr s2 t)) = Suc (length (qt_vals (qs_thr s t)))"
        using s2(1) by (auto simp: cluster_read_def log_step_def Let_def split: if_splits)
      then have "s2 \<noteq> s" by auto
      then show ?thesis by (rule go [OF cluster_read_steps [OF s2(1) Suc.prems(2) Read] _ s2(2)])
    next
      case (Write a v)
      then obtain s2 where s2: "cluster_write lg P t a v s = Some s2" "cluster_accs lg P t n s2 = Some s1"
        using Suc.prems(3) by (auto split: option.splits if_splits)
      have "length (qt_vals (qs_thr s2 t)) = Suc (length (qt_vals (qs_thr s t)))"
        using s2(1) by (auto simp: cluster_write_def log_step_def set_version_def set_mem_def Let_def split: if_splits)
      then have "s2 \<noteq> s" by auto
      then show ?thesis
        by (rule go [OF cluster_write_steps [OF s2(1) Suc.prems(2) Write cluster_obj [OF Suc.prems(1) assms(2,4) Write]] _ s2(2)])
    next
      case Finish
      then show ?thesis using Suc.prems by simp
    qed
  qed simp
  then show "rec_left P N s1 \<le> rec_left P N s"
    "0 < n \<Longrightarrow> tp_code P t (qt_vals (qs_thr s t)) \<noteq> Finish \<Longrightarrow> rec_left P N s1 < rec_left P N s" by blast+
qed

text \<open>A step of the machine is a committed block, which makes progress, or a step of the fallback code.\<close>

lemma cluster_step_cases:
  assumes "rec_reach True lg ini P s" "prog_ok P" "ends P N" "t < tp_nthr P"
  shows "cluster_step lg P tx t s = rec_step lg P False t s \<or> rec_left P N (cluster_step lg P tx t s) < rec_left P N s"
proof -
  have n: "0 < RTM_BATCH_N" by (simp add: RTM_BATCH_N_def)
  show ?thesis
    unfolding cluster_step_def Let_def
    using cluster_accs_left(2) [OF assms _ _ n] by (auto split: option.splits)
qed

section \<open>The contract\<close>

text \<open>\<open>tx\<close> says which transactions run to their end.\<close>

interpretation cluster_recorder: spin_machine "\<lambda>t s. cluster_step lg P (tx t s) t s" "tp_nthr P"
  "\<lambda>s. cluster_reach lg ini P s \<and> prog_ok P \<and> ends P N" "rec_done P" "rec_left P N"
proof
  fix s t assume s: "cluster_reach lg ini P s \<and> prog_ok P \<and> ends P N" and t: "t < tp_nthr P"
  then have r: "rec_reach True lg ini P s" by (simp add: cluster_rec_reach)
  show "cluster_reach lg ini P (cluster_step lg P (tx t s) t s) \<and> prog_ok P \<and> ends P N"
    using s t by (auto intro: cluster_reach.step)
  assume "cluster_step lg P (tx t s) t s \<noteq> s"
  then show "rec_left P N (cluster_step lg P (tx t s) t s) < rec_left P N s"
    using cluster_step_cases [OF r _ _ t, of N "tx t s"] rec_step_left [OF r _ _ t, of N False] s by auto
next
  fix s assume s: "cluster_reach lg ini P s \<and> prog_ok P \<and> ends P N" and nd: "\<not> rec_done P s"
  then have r: "rec_reach True lg ini P s" by (simp add: cluster_rec_reach)
  obtain t where t: "t < tp_nthr P" "rec_step lg P False t s \<noteq> s"
    using rec_moves [OF r _ nd, of "\<lambda>t s. False"] s by blast
  have "cluster_step lg P (tx t s) t s \<noteq> s"
    using cluster_step_cases [OF r _ _ t(1), of N "tx t s"] s t(2) by auto
  with t(1) show "\<exists>t < tp_nthr P. cluster_step lg P (tx t s) t s \<noteq> s" by blast
qed

definition cluster_sched ::
  "test_prog \<Rightarrow> (tid_t \<Rightarrow> batch_rec recording \<Rightarrow> bool) \<Rightarrow> (nat \<Rightarrow> tid_t) \<Rightarrow> nat \<Rightarrow> batch_rec recording" where
  "cluster_sched P tx f =
     sched_state (\<lambda>t s. cluster_step (batch_acc RTM_BATCH_N) P (tx t s) t s) f
       (recording_init P (batch_init RTM_BATCH_N (tp_nobj P)))"

lemma cluster_ends:
  assumes "prog_ok P" "ends P N" "fair (tp_nthr P) f"
  shows "\<exists>k. rec_done P (cluster_sched P tx f k) \<and>
    cluster_reach (batch_acc RTM_BATCH_N) (batch_init RTM_BATCH_N (tp_nobj P)) P (cluster_sched P tx f k)"
proof -
  let ?ini = "batch_init RTM_BATCH_N (tp_nobj P)"
  have "cluster_reach (batch_acc RTM_BATCH_N) ?ini P (recording_init P ?ini) \<and> prog_ok P \<and> ends P N"
    using assms(1,2) cluster_reach.init by simp
  from cluster_recorder.fair_finishes [OF this assms(3), of tx] show ?thesis unfolding cluster_sched_def by blast
qed

lemma cluster_test_run:
  assumes "min_queue memop_key que_gt sel" "tp_nthr P < 128" "prog_ok P" "ends P N"
    and "fair (tp_nthr P) f" "fair (tp_nthr P) g"
  shows "\<exists>k s0 m. rec_done P (cluster_sched P tx f k) \<and>
    start_replay sel P (rec_logs batch_finish P (cluster_sched P tx f k)) = Some s0 \<and>
    all_done P (sched_state (replay_step P) g s0 m) \<and>
    replays P (cluster_sched P tx f k) (sched_state (replay_step P) g s0 m)"
proof -
  obtain k where k: "rec_done P (cluster_sched P tx f k)"
    "rec_reach True (batch_acc RTM_BATCH_N) (batch_init RTM_BATCH_N (tp_nobj P)) P (cluster_sched P tx f k)"
    using cluster_ends [OF assms(3-5), of tx] cluster_rec_reach [OF _ assms(3)] by metis
  obtain s0 where s0: "start_replay sel P (rec_logs batch_finish P (cluster_sched P tx f k)) = Some s0"
    using rtmcluster.recording_replay [OF assms(1-3) k(2,1)] by blast
  from rtmcluster.recording_fair [OF assms(1-3) k(2,1) s0 assms(6)] k(1) s0 show ?thesis by blast
qed

end
