(* ===== verification/Example.thy ===== *)
theory Example
  imports Cluster_Machine
begin

text \<open>
  A small test program with two threads and two objects, a schedule that records it, and the facts
  about the recording that the theorems on record and replay ask for.
\<close>

definition demo_code :: "tid_t \<Rightarrow> val_t list \<Rightarrow> action" where
  "demo_code t vs =
     (if t = 0 then (if length vs = 0 then Read 0 else if length vs = 1 then Write 0 (hd vs + 7) else Finish)
      else (if length vs < 2 then Read 0 else if length vs = 2 then Write 1 (vs ! 1) else Finish))"

definition demo_prog :: test_prog where
  "demo_prog = \<lparr>tp_code = demo_code, tp_cid = (\<lambda>a. nat a), tp_nobj = 2, tp_nthr = 2, tp_mem = (\<lambda>a. 1)\<rparr>"

lemma demo_ok: "prog_ok demo_prog"
  by (auto simp: prog_ok_def demo_prog_def demo_code_def)

lemma demo_nthr: "tp_nthr demo_prog < 128"
  by (simp add: demo_prog_def)

text \<open>Thread 1 reads, then both run in turns.\<close>

definition demo_sched :: "(tid_t \<times> bool) list" where
  "demo_sched = replicate 5 (1, False) @ concat (replicate 20 [(0, False), (1, False)])"

definition demo_rec :: "thr_rec recording" where
  "demo_rec = rec_run seqlock_acc demo_prog demo_sched (recording_init demo_prog (mem_init_thr 2))"

definition demo_batch :: "batch_rec recording" where
  "demo_batch = rec_run (batch_acc BATCH_LOG_SIZE) demo_prog demo_sched
     (recording_init demo_prog (batch_init BATCH_LOG_SIZE 2))"

lemma demo_sched_ok: "\<forall>(t, tx) \<in> set demo_sched. t < tp_nthr demo_prog \<and> (tx \<longrightarrow> False)"
  by code_simp

lemma demo_rec_reach: "rec_reach False seqlock_acc (mem_init_thr (tp_nobj demo_prog)) demo_prog demo_rec"
  unfolding demo_rec_def using rec_reach_run [OF rec_reach.init demo_sched_ok] by (simp add: demo_prog_def)

lemma demo_batch_reach:
  "rec_reach False (batch_acc BATCH_LOG_SIZE) (batch_init BATCH_LOG_SIZE (tp_nobj demo_prog)) demo_prog demo_batch"
  unfolding demo_batch_def using rec_reach_run [OF rec_reach.init demo_sched_ok] by (simp add: demo_prog_def)

lemma demo_rec_done: "rec_done demo_prog demo_rec"
  by code_simp

lemma demo_batch_done: "rec_done demo_prog demo_batch"
  by code_simp

text \<open>The replay of the recording.\<close>

definition demo_start :: replay where
  "demo_start = the (start_replay (first_least que_gt) demo_prog
     (rec_logs (\<lambda>nobj. mem_finish_thr nobj before_finish_thr_default) demo_prog demo_rec))"

definition demo_batch_start :: replay where
  "demo_batch_start = the (start_replay (first_least que_gt) demo_prog (rec_logs batch_finish demo_prog demo_batch))"

lemma demo_start_eq:
  "start_replay (first_least que_gt) demo_prog
     (rec_logs (\<lambda>nobj. mem_finish_thr nobj before_finish_thr_default) demo_prog demo_rec) = Some demo_start"
  using seqlock.recording_replay [OF memop_queue.min_queue_axioms demo_nthr demo_ok demo_rec_reach demo_rec_done]
  by (auto simp: demo_start_def)

lemma demo_batch_start_eq:
  "start_replay (first_least que_gt) demo_prog (rec_logs batch_finish demo_prog demo_batch) = Some demo_batch_start"
  using seqbatch.recording_replay [OF memop_queue.min_queue_axioms demo_nthr demo_ok demo_batch_reach demo_batch_done]
  by (auto simp: demo_batch_start_def)

definition demo_turns :: "nat \<Rightarrow> tid_t" where
  "demo_turns n = n mod 2"

lemma demo_fair: "fair (tp_nthr demo_prog) demo_turns"
  using fair_round_robin [of 2] by (simp add: demo_prog_def demo_turns_def [abs_def])

text \<open>A recording in which both threads run their accesses in one transaction each, after thread 1 has
  begun its first block without one.\<close>

definition demo_cluster_sched :: "(tid_t \<times> bool) list" where
  "demo_cluster_sched = [(1, False), (0, True)] @ replicate 20 (1, True) @ [(0, False)]"

definition demo_cluster :: "batch_rec recording" where
  "demo_cluster = cluster_run (batch_acc RTM_BATCH_N) demo_prog demo_cluster_sched
     (recording_init demo_prog (batch_init RTM_BATCH_N 2))"

lemma demo_cluster_reach:
  "cluster_reach (batch_acc RTM_BATCH_N) (batch_init RTM_BATCH_N (tp_nobj demo_prog)) demo_prog demo_cluster"
proof -
  have "\<forall>(t, tx) \<in> set demo_cluster_sched. t < tp_nthr demo_prog"
    by (simp add: demo_cluster_sched_def demo_prog_def)
  from cluster_reach_run [OF cluster_reach.init this] show ?thesis
    by (simp add: demo_cluster_def) (simp add: demo_prog_def)
qed

lemma demo_cluster_done: "rec_done demo_prog demo_cluster"
  by code_simp

definition demo_cluster_start :: replay where
  "demo_cluster_start = the (start_replay (first_least que_gt) demo_prog (rec_logs batch_finish demo_prog demo_cluster))"

lemma demo_cluster_start_eq:
  "start_replay (first_least que_gt) demo_prog (rec_logs batch_finish demo_prog demo_cluster) = Some demo_cluster_start"
  using rtmcluster.recording_replay [OF memop_queue.min_queue_axioms demo_nthr demo_ok
      cluster_rec_reach [OF demo_cluster_reach demo_ok] demo_cluster_done]
  by (auto simp: demo_cluster_start_def)

end
