(* ===== verification/Debug_Access.thy ===== *)
theory Debug_Access
  imports Example
begin

text \<open>
  The self-check that \<open>DEBUG_ACCESS\<close> compiles into the recorders and the replayer: the recorder logs
  every access with its object, version and value (\<open>log_access\<close>), and the replayer compares each of
  its accesses with that log (\<open>check_access\<close>) and exits when they differ. The check never fails in
  the replay of a recording.
\<close>

section \<open>The debug log\<close>

text \<open>\<open>struct mem_acc\<close>; its field \<open>memop\<close> is never set.\<close>

record mem_acc =
  ma_acc :: char
  ma_objid :: objid_t
  ma_val :: val_t
  ma_version :: version_t

definition log_access :: "char \<Rightarrow> objid_t \<Rightarrow> version_t \<Rightarrow> val_t \<Rightarrow> mem_acc list \<Rightarrow> mem_acc list" where
  "log_access acc objid ver val debug_access_log =
     debug_access_log @ [\<lparr>ma_acc = acc, ma_objid = objid, ma_val = val, ma_version = ver\<rparr>]"

text \<open>The errors that \<open>check_access\<close> reports before it exits. \<open>None\<close> is a read past the end of the log.\<close>

datatype memacc_err = Type_error | Objid_error | Val_error | Ver_error

definition check_access ::
  "mem_acc list \<Rightarrow> nat \<Rightarrow> char \<Rightarrow> objid_t \<Rightarrow> version_t \<Rightarrow> val_t \<Rightarrow> memacc_err list option" where
  "check_access debug_access_log pos acc objid ver val =
     (if pos < length debug_access_log
      then let ent = debug_access_log ! pos
           in Some ((if ma_acc ent \<noteq> acc then [Type_error] else []) @
                    (if ma_objid ent \<noteq> objid then [Objid_error] else []) @
                    (if ma_val ent \<noteq> val then [Val_error] else []) @
                    (if ma_version ent \<noteq> ver then [Ver_error] else []))
      else None)"

section \<open>Recording with the debug log\<close>

text \<open>The recorders call \<open>log_access\<close> where they take their other logs; the value is the one the access
  returns to the program.\<close>

definition debug_acc :: "(tacc \<Rightarrow> 's \<Rightarrow> 's) \<Rightarrow> tacc \<Rightarrow> 's \<times> tacc list \<Rightarrow> 's \<times> tacc list" where
  "debug_acc lg x p = (lg x (fst p), snd p @ [x])"

definition acc_char :: "bool \<Rightarrow> char" where
  "acc_char w = (if w then CHR ''W'' else CHR ''R'')"

definition debug_access_log :: "('s \<times> tacc list) recording \<Rightarrow> tid_t \<Rightarrow> mem_acc list" where
  "debug_access_log q t =
     fold (\<lambda>(x, v). log_access (acc_char (ta_write x)) (ta_obj x) (ta_ver x) v)
       (zip (snd (qt_rec (qs_thr q t))) (qt_vals (qs_thr q t))) []"

text \<open>The check that a thread of the replay is about to make: after the load of a read, before the
  store of a write. Its position in the log is the number of the access.\<close>

definition due_check :: "test_prog \<Rightarrow> replay \<Rightarrow> tid_t \<Rightarrow> (char \<times> addr_t \<times> val_t) option" where
  "due_check P s t =
     (case (tp_code P t (rt_vals (rp_thr s t)), rt_pc (rp_thr s t)) of
        (Read a, Count val) \<Rightarrow> Some (CHR ''R'', a, val)
      | (Write a val, StoreMem) \<Rightarrow> Some (CHR ''W'', a, val)
      | _ \<Rightarrow> None)"

definition replay_check :: "test_prog \<Rightarrow> (tid_t \<Rightarrow> mem_acc list) \<Rightarrow> replay \<Rightarrow> tid_t \<Rightarrow> bool" where
  "replay_check P dbg s t =
     (case due_check P s t of
        None \<Rightarrow> True
      | Some (acc, a, val) \<Rightarrow>
          check_access (dbg t) (nat (rt_memop (rp_thr s t))) acc (tp_cid P a) (obj_version s ! tp_cid P a) val = Some [])"

section \<open>The debug log of a run\<close>

lemma fold_debug: "fold (debug_acc lg) xs p = (fold lg xs (fst p), snd p @ xs)"
  by (induction xs arbitrary: p) (simp_all add: debug_acc_def)

lemma fold_log_access:
  "fold (\<lambda>(x, v). log_access (acc_char (ta_write x)) (ta_obj x) (ta_ver x) v) xvs log =
     log @ map (\<lambda>(x, v). \<lparr>ma_acc = acc_char (ta_write x), ma_objid = ta_obj x, ma_val = v, ma_version = ta_ver x\<rparr>) xvs"
  by (induction xvs arbitrary: log) (auto simp: log_access_def)

context order_recorder
begin

lemma debug_recorder:
  "order_recorder (\<lambda>n. (rec_init n, [])) (debug_acc rec_acc) (rec_inv \<circ> fst) (rec_view \<circ> fst) (\<lambda>n. rec_finish n \<circ> fst)"
  by unfold_locales (simp_all add: debug_acc_def inv_init view_init inv_acc view_acc view_finish)

end

interpretation debug_seqlock: order_recorder
  "\<lambda>n. (mem_init_thr n, [])" "debug_acc seqlock_acc" "(\<lambda>_. True) \<circ> fst" "(\<lambda>r. r) \<circ> fst"
  "\<lambda>nobj. mem_finish_thr nobj before_finish_thr_default \<circ> fst"
  by (rule seqlock.debug_recorder)

interpretation debug_seqbatch: order_recorder
  "\<lambda>n. (batch_init BATCH_LOG_SIZE n, [])" "debug_acc (batch_acc BATCH_LOG_SIZE)" "batch_inv BATCH_LOG_SIZE \<circ> fst"
  "(\<lambda>b. thr_rec.truncate (batch_process_log b)) \<circ> fst" "\<lambda>nobj. batch_finish nobj \<circ> fst"
  by (rule seqbatch.debug_recorder)

lemma debug_log_entry:
  assumes inv: "recording_inv (debug_acc lg) (ini, []) P es q" and d: "rec_done P q"
    and i: "i < length es" "ev_tid (es ! i) = t"
  shows "check_access (debug_access_log q t) (ev_memop es i) (acc_char (ev_write (es ! i)))
    (ev_obj (tp_cid P) es i) (ev_ver (tp_cid P) es i) (ev_val (es ! i)) = Some []"
proof -
  let ?k = "ev_memop es i"
  have t: "t < tp_nthr P" using run_ofD(1) [OF rec_done_run(1) [OF inv d] i(1)] i(2) by simp
  have k: "?k < thr_cnt t es" using ev_memop_less [OF i(1)] i(2) by simp
  have xs: "snd (qt_rec (qs_thr q t)) = taccs (tp_cid P) t es"
    using rec_done_run(5) [OF inv d t] by (simp add: fold_debug)
  have vs: "qt_vals (qs_thr q t) = map ev_val (thr_evs t es)" using rec_done_run(4) [OF inv d t] .
  have len: "length (taccs (tp_cid P) t es) = thr_cnt t es" "length (thr_evs t es) = thr_cnt t es"
    by (simp_all add: length_taccs thr_cnt_def)
  have x: "taccs (tp_cid P) t es ! ?k = tacc_of (tp_cid P) es i" "thr_evs t es ! ?k = es ! i"
    using taccs_nth [OF i(1)] thr_evs_nth [OF i(1)] i(2) by simp_all
  then show ?thesis
    using k len i(1)
    by (simp add: check_access_def debug_access_log_def fold_log_access xs vs tacc_of_def ev_obj_def ev_ver_def Let_def)
qed

section \<open>The checks of a replay\<close>

text \<open>A thread with a check due is at an access of the run, at the version and with the value of the run.\<close>

lemma due_check_cur:
  assumes inv: "replay_inv P es s" and run: "run_of P es" and t: "t < tp_nthr P"
    and due: "due_check P s t = Some (acc, a, val)"
  shows "\<exists>i. i < length es \<and> ev_tid (es ! i) = t \<and> nat (rt_memop (rp_thr s t)) = ev_memop es i \<and>
    acc = acc_char (ev_write (es ! i)) \<and> tp_cid P a = ev_obj (tp_cid P) es i \<and>
    obj_version s ! tp_cid P a = ev_ver (tp_cid P) es i \<and> val = ev_val (es ! i)"
proof -
  have th: "rt_memop (rp_thr s t) = int (kt s t)" "rt_vals (rp_thr s t) = thr_vals t es (kt s t)"
    "kt s t = thr_cnt t es \<Longrightarrow> rt_pc (rp_thr s t) = Run \<or> rt_pc (rp_thr s t) = Done" "kt s t \<le> thr_cnt t es"
    using replay_invD(3) [OF inv t] by (simp_all add: thr_inv_def Let_def)
  have pc: "(\<exists>v. rt_pc (rp_thr s t) = Count v) \<or> rt_pc (rp_thr s t) = StoreMem"
    using due by (auto simp: due_check_def split: action.splits rpc.splits)
  then have "kt s t < thr_cnt t es" using th(3,4) by (cases "kt s t = thr_cnt t es") auto
  then obtain i where i: "i < length es" "ev_tid (es ! i) = t" "ev_memop es i = kt s t" by (rule thr_pos_ex)
  then have cur: "is_cur es s i" by (simp add: is_cur_def)
  have act: "tp_code P t (rt_vals (rp_thr s t)) = ev_act (es ! i)"
    using run_ofD(3) [OF run i(1)] i th(2) by simp
  have c: "cur_inv P es s i" "ord_inv P es s i" using replay_invD(4) [OF inv cur] replay_invD(5) [OF inv i(1)] by simp_all
  have "\<not> is_done es s i" using i by (simp add: is_done_def)
  moreover have "perf es s i" if "rt_pc (rp_thr s t) = Count v" for v using that cur i(2) by (simp add: perf_def)
  ultimately show ?thesis
    using due act c i th(1)
    by (intro exI [of _ i])
      (auto simp: due_check_def cur_inv_def ord_inv_def pc_at_def acc_char_def ev_obj_def ov_def ev_act_def Let_def
        split: action.splits rpc.splits if_splits)
qed

lemma inv_replay_check:
  assumes q: "recording_inv (debug_acc lg) (ini, []) P es q" "rec_done P q" and s: "replay_inv P es s" "t < tp_nthr P"
  shows "replay_check P (debug_access_log q) s t"
proof (cases "due_check P s t")
  case (Some c)
  obtain acc a val where c: "c = (acc, a, val)" by (cases c) auto
  from due_check_cur [OF s(1) rec_done_run(1) [OF q] s(2) Some [unfolded c]] debug_log_entry [OF q]
  show ?thesis by (auto simp: replay_check_def Some c)
qed (simp add: replay_check_def)

text \<open>C17: with \<open>DEBUG_ACCESS\<close>, no check of the replay ever reports an error or reads past the end of the
  debug log: whatever state the replay of a finished recording of the seqlock or rtmseq recorder has
  reached, the check a thread is about to make finds the access, the object, the value and the version
  that the recorder logged.\<close>

theorem debug_check_passes:
  assumes "min_queue memop_key que_gt sel" "tp_nthr P < 128" "prog_ok P"
    and r: "rec_reach rtm (debug_acc seqlock_acc) (mem_init_thr (tp_nobj P), []) P q" "rec_done P q"
    and s: "start_replay sel P (rec_logs (\<lambda>nobj. mem_finish_thr nobj before_finish_thr_default \<circ> fst) P q) = Some s0"
      "replay_reach P s0 s" "t < tp_nthr P"
  shows "replay_check P (debug_access_log q) s t"
proof -
  obtain es where es: "recording_inv (debug_acc seqlock_acc) (mem_init_thr (tp_nobj P), []) P es q" "replay_inv P es s0"
    using debug_seqlock.recording_replay [OF assms(1-3) r] s(1) by auto
  note d = rec_done_run [OF es(1) r(2)]
  from replay_reach_inv [OF s(2) d(1,2) es(2)] s(3) show ?thesis by (rule inv_replay_check [OF es(1) r(2)])
qed

definition demo_debug :: "(thr_rec \<times> tacc list) recording" where
  "demo_debug = rec_run (debug_acc seqlock_acc) demo_prog demo_sched (recording_init demo_prog (mem_init_thr 2, []))"

lemma demo_debug_reach:
  "rec_reach False (debug_acc seqlock_acc) (mem_init_thr (tp_nobj demo_prog), []) demo_prog demo_debug"
  unfolding demo_debug_def using rec_reach_run [OF rec_reach.init demo_sched_ok] by (simp add: demo_prog_def)

lemma demo_debug_done: "rec_done demo_prog demo_debug"
  by code_simp

definition demo_debug_start :: replay where
  "demo_debug_start = the (start_replay (first_least que_gt) demo_prog
     (rec_logs (\<lambda>nobj. mem_finish_thr nobj before_finish_thr_default \<circ> fst) demo_prog demo_debug))"

lemma demo_debug_start_eq:
  "start_replay (first_least que_gt) demo_prog
     (rec_logs (\<lambda>nobj. mem_finish_thr nobj before_finish_thr_default \<circ> fst) demo_prog demo_debug) = Some demo_debug_start"
  using debug_seqlock.recording_replay [OF memop_queue.min_queue_axioms demo_nthr demo_ok demo_debug_reach demo_debug_done]
  by (auto simp: demo_debug_start_def)

text \<open>Thread 1 has loaded its first value and is about to check it.\<close>

definition demo_debug_play :: replay where
  "demo_debug_play = replay_run demo_prog (replicate 2 1) demo_debug_start"

lemma demo_debug_due: "due_check demo_prog demo_debug_play 1 = Some (CHR ''R'', 0, 1)"
  by code_simp

theorem debug_check_passes_witness:
  "check_access (debug_access_log demo_debug 1) 0 (CHR ''R'') 0 (obj_version demo_debug_play ! 0) 1 = Some []"
proof -
  have "replay_reach demo_prog demo_debug_start demo_debug_play"
    unfolding demo_debug_play_def by (rule replay_reach_run [OF replay_reach.init]) (simp add: demo_prog_def)
  from debug_check_passes [OF memop_queue.min_queue_axioms demo_nthr demo_ok demo_debug_reach demo_debug_done
      demo_debug_start_eq this, of 1]
  have "replay_check demo_prog (debug_access_log demo_debug) demo_debug_play 1" by (simp add: demo_prog_def)
  moreover have "nat (rt_memop (rp_thr demo_debug_play 1)) = 0" by code_simp
  moreover have "tp_cid demo_prog 0 = 0" by (simp add: demo_prog_def)
  ultimately show ?thesis unfolding replay_check_def demo_debug_due option.case prod.case by simp
qed

end
