(* ===== verification/Log_Entries.thy ===== *)
theory Log_Entries
  imports Log_Files
begin

text \<open>
  The entries of the recorders' logs as bytes: \<open>struct wait_version\<close> and \<open>struct wait_memop\<close> of
  \<open>src/mem.h\<close> as the compiler lays them out (little-endian, 64-bit \<open>long\<close>, fields aligned to their
  size), and the threads of a recording writing them to the files \<open>version-<tid>\<close> and
  \<open>memop-<tid>\<close>. This connects the lists of entries in the other theories with the files.
\<close>

section \<open>Integers in memory\<close>

primrec le_bytes :: "nat \<Rightarrow> int \<Rightarrow> byte list" where
  "le_bytes 0 x = []"
| "le_bytes (Suc n) x = word_of_int x # le_bytes n (x div 256)"

primrec le_val :: "byte list \<Rightarrow> int" where
  "le_val [] = 0"
| "le_val (b # bs) = uint b + 256 * le_val bs"

definition load_int :: "nat \<Rightarrow> byte list \<Rightarrow> int" where
  "load_int n bs = signed_take_bit (8 * n - 1) (le_val (take n bs))"

definition fits :: "nat \<Rightarrow> int \<Rightarrow> bool" where
  "fits n x \<longleftrightarrow> - (2 ^ (8 * n - 1)) \<le> x \<and> x < 2 ^ (8 * n - 1)"

lemma length_le_bytes [simp]: "length (le_bytes n x) = n"
  by (induction n arbitrary: x) simp_all

lemma le_val_bytes: "le_val (le_bytes n x) = x mod 256 ^ n"
proof (induction n arbitrary: x)
  case (Suc n)
  have "uint (word_of_int x :: byte) = x mod 256" by (simp add: unsigned_of_int take_bit_eq_mod)
  then show ?case by (simp add: Suc zmod_zmult2_eq)
qed simp

lemma load_le_bytes:
  assumes "fits n x" "0 < n"
  shows "load_int n (le_bytes n x @ bs) = x"
proof -
  have e: "Suc (8 * n - 1) = 8 * n" using assms(2) by simp
  have "le_val (le_bytes n x) = take_bit (8 * n) x"
    by (simp add: le_val_bytes take_bit_eq_mod power_mult)
  then have "load_int n (le_bytes n x @ bs) = signed_take_bit (8 * n - 1) (take_bit (Suc (8 * n - 1)) x)"
    unfolding e by (simp add: load_int_def)
  also have "\<dots> = signed_take_bit (8 * n - 1) x" by (rule signed_take_bit_take_bit [THEN trans]) simp
  also have "\<dots> = x" using assms(1) by (intro signed_take_bit_int_eq_self) (simp_all add: fits_def)
  finally show ?thesis .
qed

section \<open>The entries\<close>

definition store_wait_version :: "wait_version \<Rightarrow> byte list" where
  "store_wait_version l = le_bytes 8 (wv_memop l) @ le_bytes 8 (wv_version l)"

definition load_wait_version :: "byte list \<Rightarrow> wait_version" where
  "load_wait_version b = \<lparr>wv_memop = load_int 8 b, wv_version = load_int 8 (drop 8 b)\<rparr>"

text \<open>The four bytes after \<open>objid\<close> are not written; the file holds zeros there.\<close>

definition store_wait_memop :: "wait_memop \<Rightarrow> byte list" where
  "store_wait_memop l = le_bytes 4 (wm_objid l) @ replicate 4 0 @ le_bytes 8 (wm_version l) @ le_bytes 8 (wm_memop l)"

definition load_wait_memop :: "byte list \<Rightarrow> wait_memop" where
  "load_wait_memop b =
     \<lparr>wm_objid = load_int 4 b, wm_version = load_int 8 (drop 8 b), wm_memop = load_int 8 (drop 16 b)\<rparr>"

definition version_fits :: "wait_version \<Rightarrow> bool" where
  "version_fits l \<longleftrightarrow> fits 8 (wv_memop l) \<and> fits 8 (wv_version l)"

definition memop_fits :: "wait_memop \<Rightarrow> bool" where
  "memop_fits l \<longleftrightarrow> fits 4 (wm_objid l) \<and> fits 8 (wm_version l) \<and> fits 8 (wm_memop l)"

lemma wait_version_roundtrip:
  assumes "version_fits l"
  shows "load_wait_version (store_wait_version l) = l"
  using assms load_le_bytes [of 8 _ "[]"]
  by (cases l) (simp add: load_wait_version_def store_wait_version_def version_fits_def load_le_bytes)

lemma wait_memop_roundtrip:
  assumes "memop_fits l"
  shows "load_wait_memop (store_wait_memop l) = l"
  using assms load_le_bytes [of 8 _ "[]"]
  by (cases l) (simp add: load_wait_memop_def store_wait_memop_def memop_fits_def load_le_bytes)

section \<open>The logs of a recording on disk\<close>

text \<open>What the threads write, in the order they write it: thread and entry. \<open>log_wait_version\<close> and
  \<open>log_other_wait_memop\<close> of \<open>src/mem-record.c\<close> write to the thread's two logs.\<close>

datatype order_entry = Version wait_version | Memop wait_memop

fun write_entry :: "tid_t \<times> order_entry \<Rightarrow> (string \<times> int) \<times> byte list" where
  "write_entry (t, Version l) = ((''version'', int t), store_wait_version l)"
| "write_entry (t, Memop l) = ((''memop'', int t), store_wait_memop l)"

definition order_log_keys :: "nat \<Rightarrow> (string \<times> int) list" where
  "order_log_keys nthr =
     map (\<lambda>t. (''version'', int t)) [0..<nthr] @ map (\<lambda>t. (''memop'', int t)) [0..<nthr]"

fun versions_of :: "tid_t \<Rightarrow> (tid_t \<times> order_entry) list \<Rightarrow> wait_version list" where
  "versions_of u [] = []"
| "versions_of u ((t, Version l) # xs) = (if t = u then l # versions_of u xs else versions_of u xs)"
| "versions_of u ((t, Memop l) # xs) = versions_of u xs"

fun memops_of :: "tid_t \<Rightarrow> (tid_t \<times> order_entry) list \<Rightarrow> wait_memop list" where
  "memops_of u [] = []"
| "memops_of u ((t, Memop l) # xs) = (if t = u then l # memops_of u xs else memops_of u xs)"
| "memops_of u ((t, Version l) # xs) = memops_of u xs"

fun entry_fits :: "order_entry \<Rightarrow> bool" where
  "entry_fits (Version l) = version_fits l"
| "entry_fits (Memop l) = memop_fits l"

definition entry_size :: "string \<times> int \<Rightarrow> nat" where
  "entry_size k = (if fst k = ''version'' then 16 else 24)"

text \<open>A thread's number has at most three digits, so the names of its logs are short.\<close>

lemma decimal_length: "n < 1000 \<Longrightarrow> length (decimal n) \<le> 3"
  by (subst decimal.simps, subst decimal.simps, subst decimal.simps) simp

lemma short_logpath: "t < 1000 \<Longrightarrow> length name \<le> 100 \<Longrightarrow> logpath name (int t) \<noteq> None"
  using decimal_length [of t] by (simp add: logpath_def format_ld_def LOGDIR_def MAX_PATH_LEN_def Let_def)

lemma order_log_keys_ok: "nthr \<le> 1000 \<Longrightarrow> log_keys_ok (set (order_log_keys nthr))"
  using short_logpath by (auto simp: log_keys_ok_def order_log_keys_def)

lemma version_entries:
  "entries_of (''version'', int u) (map write_entry xs) = map store_wait_version (versions_of u xs)"
  by (induction u xs rule: versions_of.induct) (auto simp: entries_of_def)

lemma memop_entries:
  "entries_of (''memop'', int u) (map write_entry xs) = map store_wait_memop (memops_of u xs)"
  by (induction u xs rule: memops_of.induct) (auto simp: entries_of_def)

lemma versions_fit: "\<forall>x \<in> set xs. entry_fits (snd x) \<Longrightarrow> \<forall>l \<in> set (versions_of u xs). version_fits l"
  by (induction u xs rule: versions_of.induct) auto

lemma memops_fit: "\<forall>x \<in> set xs. entry_fits (snd x) \<Longrightarrow> \<forall>l \<in> set (memops_of u xs). memop_fits l"
  by (induction u xs rule: memops_of.induct) auto

lemma write_entry_key:
  "fst x < nthr \<Longrightarrow> fst (write_entry x) \<in> set (order_log_keys nthr) \<and> length (snd (write_entry x)) = entry_size (fst (write_entry x))"
  by (cases x rule: write_entry.cases)
    (auto simp: order_log_keys_def entry_size_def store_wait_version_def store_wait_memop_def)

text \<open>The order logs of a recording survive the way through the files. The threads write the
  entries of their version and memop logs in any interleaving; afterwards the file \<open>version-<tid>\<close> of
  every thread that wrote one, read in entries of 16 bytes, gives its version entries in order, and
  the file \<open>memop-<tid>\<close>, in entries of 24 bytes, its memop entries, provided that the numbers in them
  fit their fields.\<close>

lemma order_logs_on_disk:
  assumes "mmap_aligned mm" "nthr \<le> 1000" and x: "\<forall>x \<in> set xs. fst x < nthr \<and> entry_fits (snd x)"
  shows "\<exists>dir0 dir. dir_new mm (order_log_keys nthr) Map.empty = Some dir0 \<and>
    dir_log_all mm (map write_entry xs) dir0 = Some dir \<and>
    (\<forall>t < nthr. versions_of t xs \<noteq> [] \<longrightarrow>
       (\<exists>r. open_mapped_log mm' ''version'' (int t) dir = Some (0, r) \<and>
          map load_wait_version (read_all 16 (Suc (length (versions_of t xs))) r) = versions_of t xs)) \<and>
    (\<forall>t < nthr. memops_of t xs \<noteq> [] \<longrightarrow>
       (\<exists>r. open_mapped_log mm' ''memop'' (int t) dir = Some (0, r) \<and>
          map load_wait_memop (read_all 24 (Suc (length (memops_of t xs))) r) = memops_of t xs))"
proof -
  let ?ks = "order_log_keys nthr" and ?xs = "map write_entry xs"
  have keys: "\<forall>y \<in> set ?xs. fst y \<in> set ?ks \<and> length (snd y) = entry_size (fst y)"
    using write_entry_key x by auto
  have size: "\<forall>k \<in> set ?ks. 0 < entry_size k \<and> entry_size k \<le> 4096" by (simp add: entry_size_def)
  obtain dir0 dir where d: "dir_new mm ?ks Map.empty = Some dir0" "dir_log_all mm ?xs dir0 = Some dir"
    "\<forall>k \<in> set ?ks. entries_of k ?xs \<noteq> [] \<longrightarrow> (\<exists>r. open_mapped_log mm' (fst k) (snd k) dir = Some (0, r) \<and>
       read_all (entry_size k) (Suc (length (entries_of k ?xs))) r = entries_of k ?xs)"
    using log_files_roundtrip [OF assms(1) order_log_keys_ok [OF assms(2)] keys size] by blast
  have v: "\<exists>r. open_mapped_log mm' ''version'' (int t) dir = Some (0, r) \<and>
      map load_wait_version (read_all 16 (Suc (length (versions_of t xs))) r) = versions_of t xs"
    if t: "t < nthr" "versions_of t xs \<noteq> []" for t
  proof -
    have "(''version'', int t) \<in> set ?ks" using t(1) by (auto simp: order_log_keys_def)
    moreover have "map load_wait_version (map store_wait_version (versions_of t xs)) = versions_of t xs"
      using versions_fit [of xs t] x by (simp add: map_idI wait_version_roundtrip)
    ultimately show ?thesis
      using bspec [OF d(3), of "(''version'', int t)"] t(2) by (auto simp: version_entries entry_size_def)
  qed
  have m: "\<exists>r. open_mapped_log mm' ''memop'' (int t) dir = Some (0, r) \<and>
      map load_wait_memop (read_all 24 (Suc (length (memops_of t xs))) r) = memops_of t xs"
    if t: "t < nthr" "memops_of t xs \<noteq> []" for t
  proof -
    have "(''memop'', int t) \<in> set ?ks" using t(1) by (auto simp: order_log_keys_def)
    moreover have "map load_wait_memop (map store_wait_memop (memops_of t xs)) = memops_of t xs"
      using memops_fit [of xs t] x by (simp add: map_idI wait_memop_roundtrip)
    ultimately show ?thesis
      using bspec [OF d(3), of "(''memop'', int t)"] t(2) by (auto simp: memop_entries entry_size_def)
  qed
  show ?thesis using d(1,2) v m by blast
qed

end
