(* ===== verification/Arguments.thy ===== *)
theory Arguments
  imports Log_Files
begin

text \<open>
  The numbers on the programs' command lines. The log processors read them with
  \<open>istringstream >> int\<close>, the test programs with \<open>atoi\<close>; the scripts write them in decimal. The theory
  models both conversions of the standard library and shows that a number comes back as it was
  written.
\<close>

definition is_space :: "char \<Rightarrow> bool" where
  "is_space c \<longleftrightarrow> c = CHR '' '' \<or> 9 \<le> (of_char c :: nat) \<and> (of_char c :: nat) \<le> 13"

definition is_digit :: "char \<Rightarrow> bool" where
  "is_digit c \<longleftrightarrow> 48 \<le> (of_char c :: nat) \<and> (of_char c :: nat) \<le> 57"

definition digits_value :: "string \<Rightarrow> int" where
  "digits_value ds = foldl (\<lambda>n c. 10 * n + (int (of_char c) - 48)) 0 ds"

text \<open>An optional sign and the digits after it.\<close>

fun sign_digits :: "string \<Rightarrow> bool \<times> string" where
  "sign_digits [] = (False, [])"
| "sign_digits (c # cs) =
     (if c = CHR ''-'' then (True, takeWhile is_digit cs)
      else if c = CHR ''+'' then (False, takeWhile is_digit cs)
      else (False, takeWhile is_digit (c # cs)))"

definition signed_value :: "bool \<times> string \<Rightarrow> int" where
  "signed_value p = (if fst p then - digits_value (snd p) else digits_value (snd p))"

text \<open>\<open>atoi\<close>, whose result is defined when the value is an \<open>int\<close>.\<close>

definition atoi :: "string \<Rightarrow> int" where
  "atoi str = signed_value (sign_digits (dropWhile is_space str))"

text \<open>\<open>istringstream >> x\<close>: a value that is too large becomes the largest \<open>int\<close>, one without digits
  \<open>0\<close>; nothing but white space leaves \<open>x\<close> as it was.\<close>

definition extract_int :: "int \<Rightarrow> string \<Rightarrow> int" where
  "extract_int x str =
     (case dropWhile is_space str of
        [] \<Rightarrow> x
      | c # cs \<Rightarrow> max (- (2 ^ 31)) (min (2 ^ 31 - 1) (signed_value (sign_digits (c # cs)))))"

section \<open>Numbers as the scripts write them\<close>

lemma digit_value: "d < 10 \<Longrightarrow> (of_char (digit d) :: nat) = 48 + d"
  by (simp add: digit_def of_char_of)

lemma digit_is_digit: "d < 10 \<Longrightarrow> is_digit (digit d)"
  by (simp add: is_digit_def digit_value)

lemma decimal_digits: "list_all is_digit (decimal n)"
proof (induction n rule: decimal.induct)
  case (1 n)
  then show ?case by (subst decimal.simps) (auto simp: digit_is_digit)
qed

lemma decimal_value: "digits_value (decimal n) = int n"
proof (induction n rule: decimal.induct)
  case (1 n)
  show ?case
  proof (cases "n < 10")
    case True
    then show ?thesis by (subst decimal.simps) (simp add: digits_value_def digit_value)
  next
    case False
    then have "digits_value (decimal n) = 10 * digits_value (decimal (n div 10)) + int (n mod 10)"
      by (subst decimal.simps) (simp add: digits_value_def digit_value)
    moreover have "int n = 10 * int (n div 10) + int (n mod 10)" by presburger
    ultimately show ?thesis using 1 [OF False] by simp
  qed
qed

lemma decimal_scan: "\<exists>c cs. decimal n = c # cs \<and> dropWhile is_space (decimal n) = c # cs \<and> sign_digits (c # cs) = (False, c # cs)"
proof -
  obtain c cs where c: "decimal n = c # cs" using decimal_nonempty [of n] by (cases "decimal n") auto
  have d: "is_digit c" "list_all is_digit cs" using decimal_digits [of n] c by simp_all
  then have "\<not> is_space c" "c \<noteq> CHR ''-''" "c \<noteq> CHR ''+''" by (auto simp: is_digit_def is_space_def)
  moreover have "takeWhile is_digit cs = cs" using d(2) by (simp add: takeWhile_eq_all_conv list_all_iff)
  ultimately show ?thesis using c d(1) by simp
qed

lemma atoi_decimal: "atoi (decimal n) = int n"
  using decimal_scan [of n] decimal_value [of n] by (auto simp: atoi_def signed_value_def)

lemma extract_decimal: "n < 2 ^ 31 \<Longrightarrow> extract_int x (decimal n) = int n"
  using decimal_scan [of n] decimal_value [of n] by (auto simp: extract_int_def signed_value_def)

end
