(* ===== verification/Memop_Files.thy ===== *)
theory Memop_Files
  imports Log_Calls Log_Entries Arguments Record_Replay
begin

text \<open>
  The processing of the order logs with its files: \<open>main\<close> of \<open>src/reorder-memop.cpp\<close> and
  \<open>src/merge-memop.cpp\<close> from their command lines to the bytes they write, the loading of the logs in
  \<open>src/mem-replay.c\<close>, and the shell function \<open>process_memorder_log\<close> of \<open>src/test.sh\<close> that runs the
  programs. The theory shows that the files give a replay the logs that the list-level programs of
  \<open>Reorder_Memop\<close> and \<open>Merge_Memop\<close> compute.
\<close>

section \<open>Structures in files\<close>

text \<open>The three bytes counts below are \<open>sizeof\<close> of \<open>struct wait_memop\<close>, \<open>struct replay_wait_memop\<close> and
  \<open>struct wait_version\<close>.\<close>

definition store_replay_wait_memop :: "replay_wait_memop \<Rightarrow> byte list" where
  "store_replay_wait_memop l =
     le_bytes 8 (rwm_version l) @ le_bytes 8 (rwm_memop l) @ le_bytes 1 (int (rwm_tid l)) @ replicate 7 0"

definition load_replay_wait_memop :: "byte list \<Rightarrow> replay_wait_memop" where
  "load_replay_wait_memop b =
     \<lparr>rwm_version = load_int 8 b, rwm_memop = load_int 8 (drop 8 b), rwm_tid = nat (load_int 1 (drop 16 b))\<rparr>"

text \<open>Bytes seen as an array of structures of \<open>n\<close> bytes.\<close>

fun struct_array :: "nat \<Rightarrow> byte list \<Rightarrow> byte list list" where
  "struct_array n bs = (if n = 0 \<or> length bs < n then [] else take n bs # struct_array n (drop n bs))"

declare struct_array.simps [simp del]

text \<open>The bytes of a log from its read position on; a log that could not be opened has none.\<close>

definition mapped_bytes :: "log_ptr \<Rightarrow> os \<Rightarrow> byte list" where
  "mapped_bytes l s =
     (case fd_file s (lp_fd l) of
        None \<Rightarrow> []
      | Some f \<Rightarrow> take (lp_end l - lp_buf l) (drop (lp_off l + (lp_buf l - lp_start l)) f))"

text \<open>Blocks of bytes written one after the other through a pointer that moves on.\<close>

fun memcpy_all :: "byte list list \<Rightarrow> log_ptr \<Rightarrow> os \<Rightarrow> log_ptr outcome" where
  "memcpy_all [] l s = Ret l s"
| "memcpy_all (b # bs) l s =
     os_bind (store_os (lp_buf l) b l s) (\<lambda>_ s. memcpy_all bs (l\<lparr>lp_buf := lp_buf l + length b\<rparr>) s)"

section \<open>reorder-memop\<close>

definition load_wait_memop_log_os ::
  "kernel \<Rightarrow> nat \<Rightarrow> int \<Rightarrow> os \<Rightarrow> (wait_memop list list \<times> nat) outcome" where
  "load_wait_memop_log_os k nobj tid s =
     os_bind (open_mapped_log_os k ''memop'' tid s) (\<lambda>(ret, log) s.
     case load_wait_memop_log nobj (map load_wait_memop (struct_array 24 (mapped_bytes log s))) (replicate nobj []) 0 of
       Inl Objid_assert \<Rightarrow> Exit ''assert'' s
     | Inl Past_end_of_log \<Rightarrow> Exit ''Segmentation fault'' s
     | Inr all \<Rightarrow> os_bind (unmap_log_os k log s) (\<lambda>_ s. Ret all s))"

definition write_out_memop_log_os :: "kernel \<Rightarrow> wait_memop list list \<Rightarrow> nat \<Rightarrow> int \<Rightarrow> os \<Rightarrow> unit outcome" where
  "write_out_memop_log_os k all tot tid s =
     os_bind (logpath_os ''sorted-memop'' tid s) (\<lambda>path s.
     os_bind (create_mapped_file_os k path (int tot * 24) s) (\<lambda>buf s.
     os_bind (memcpy_all (map (\<lambda>v. concat (map store_wait_memop v)) all) buf s) (\<lambda>_ s. Ret () s)))"

text \<open>\<open>main\<close>; \<open>tid0\<close> is what the uninitialised variable holds. The constructor of \<open>vector\<close> throws on a
  negative length.\<close>

definition reorder_main_os :: "kernel \<Rightarrow> int \<Rightarrow> string list \<Rightarrow> os \<Rightarrow> unit outcome" where
  "reorder_main_os k tid0 argv s =
     (if length argv \<noteq> 3 then Exit ''Usage: reorder-memop <nobj> <tid>'' s
      else let g_nobj = extract_int 0 (argv ! 1); tid = to_tid_t (extract_int tid0 (argv ! 2))
           in if g_nobj < 0 then Exit ''std::length_error'' s
              else os_bind (load_wait_memop_log_os k (nat g_nobj) tid s) (\<lambda>(all, tot) s.
                   if tot \<noteq> 0 then write_out_memop_log_os k all tot tid s else Ret () s))"

section \<open>merge-memop\<close>

fun open_logs_os :: "kernel \<Rightarrow> string \<Rightarrow> nat list \<Rightarrow> os \<Rightarrow> log_ptr list outcome" where
  "open_logs_os k name [] s = Ret [] s"
| "open_logs_os k name (i # is) s =
     os_bind (open_mapped_log_os k name (int i) s) (\<lambda>(ret, l) s.
     os_bind (open_logs_os k name is s) (\<lambda>ls s. Ret (l # ls) s))"

fun total_size_os :: "kernel \<Rightarrow> log_ptr list \<Rightarrow> os \<Rightarrow> int outcome" where
  "total_size_os k [] s = Ret 0 s"
| "total_size_os k (l # ls) s =
     (if lp_fd l \<noteq> -1
      then os_bind (perror_exit ''fstat in merge_memop'' (sys_fstat k (lp_fd l) s)) (\<lambda>st_size s.
           os_bind (total_size_os k ls s) (\<lambda>total_size s. Ret (st_size + total_size) s))
      else total_size_os k ls s)"

definition log_structs :: "os \<Rightarrow> log_ptr \<Rightarrow> wait_memop list option" where
  "log_structs s l =
     (if lp_fd l = -1 then None else Some (map load_wait_memop (struct_array 24 (mapped_bytes l s))))"

text \<open>The part after the computation of \<open>total_size\<close>: the two files are created, and the merge writes them.\<close>

definition merge_to_files_os ::
  "kernel \<Rightarrow> (wait_memop que_ent list \<Rightarrow> nat) \<Rightarrow> int \<Rightarrow> log_ptr list \<Rightarrow> int \<Rightarrow> int \<Rightarrow> os \<Rightarrow> unit outcome" where
  "merge_to_files_os k sel nobj log nthr total_size s =
     (if total_size = 0 then Ret () s
      else if total_size mod 24 \<noteq> 0 then Exit ''assert'' s
      else
      os_bind (create_mapped_file_os k (LOGDIR @ ''memop'') (total_size div 24 * 24) s) (\<lambda>next_mwm s.
      os_bind (create_mapped_file_os k (LOGDIR @ ''memop-index'') (nobj * 4 * 2) s) (\<lambda>indexbuf s.
      case merge_memop sel (nat nobj) (map (log_structs s) log) nthr of
        None \<Rightarrow> Exit ''assert'' s
      | Some None \<Rightarrow> Ret () s
      | Some (Some (mwm, index)) \<Rightarrow>
          os_bind (memcpy_all (map store_replay_wait_memop mwm) next_mwm s) (\<lambda>_ s.
          os_bind (memcpy_all (map (le_bytes 4) index) indexbuf s) (\<lambda>_ s. Ret () s)))))"

definition merge_memop_os ::
  "kernel \<Rightarrow> (wait_memop que_ent list \<Rightarrow> nat) \<Rightarrow> int \<Rightarrow> log_ptr list \<Rightarrow> int \<Rightarrow> os \<Rightarrow> unit outcome" where
  "merge_memop_os k sel nobj log nthr s =
     (if int (length log) \<noteq> nthr then Exit ''assert'' s
      else os_bind (total_size_os k log s) (merge_to_files_os k sel nobj log nthr))"

definition merge_main_os ::
  "kernel \<Rightarrow> (wait_memop que_ent list \<Rightarrow> nat) \<Rightarrow> int \<Rightarrow> string list \<Rightarrow> os \<Rightarrow> unit outcome" where
  "merge_main_os k sel nthr0 argv s =
     (if length argv \<noteq> 3 then Exit ''Usage: merge-memop <nobj> <nthr>'' s
      else let g_nobj = extract_int 0 (argv ! 1); nthr = extract_int nthr0 (argv ! 2)
           in os_bind (open_logs_os k ''sorted-memop'' [0..<nat nthr] s) (\<lambda>log s.
              merge_memop_os k sel g_nobj log (to_tid_t nthr) s))"

section \<open>The script\<close>

text \<open>The exit status of \<open>reorder-memop\<close> is not looked at.\<close>

fun reorder_all :: "kernel \<Rightarrow> int \<Rightarrow> nat \<Rightarrow> nat list \<Rightarrow> os \<Rightarrow> os" where
  "reorder_all k v0 nobj [] s = s"
| "reorder_all k v0 nobj (t # ts) s =
     reorder_all k v0 nobj ts
       (case reorder_main_os k v0 [''./reorder-memop'', decimal nobj, decimal t] s of
          Exit msg s1 \<Rightarrow> s1
        | Ret u s1 \<Rightarrow> s1)"

definition process_memorder_log_os ::
  "kernel \<Rightarrow> int \<Rightarrow> (wait_memop que_ent list \<Rightarrow> nat) \<Rightarrow> nat \<Rightarrow> nat \<Rightarrow> os \<Rightarrow> unit outcome" where
  "process_memorder_log_os k v0 sel nobj nthr s =
     merge_main_os k sel v0 [''./merge-memop'', decimal nobj, decimal nthr] (reorder_all k v0 nobj [0..<nthr] s)"

section \<open>The replayer's logs\<close>

definition load_wait_reader_log_os :: "kernel \<Rightarrow> nat \<Rightarrow> os \<Rightarrow> replay_wait_memop_log list outcome" where
  "load_wait_reader_log_os k nobj s =
     os_bind (calloc_check k (int nobj) ''Can't allocate wait_memop'' s) (\<lambda>_ s.
     os_bind (open_mapped_log_path_os k (LOGDIR @ ''memop'') s) (\<lambda>(ret, memop_log) s.
     if ret \<noteq> 0 then Ret (replicate nobj no_reader_log) s
     else
     os_bind (open_mapped_log_path_os k (LOGDIR @ ''memop-index'') s) (\<lambda>(ret, index_log) s.
     if ret \<noteq> 0 then Exit ''Can't open memop-index log'' s
     else
     case load_index nobj (map (load_int 4) (struct_array 4 (mapped_bytes index_log s)))
            (map load_replay_wait_memop (struct_array 24 (mapped_bytes memop_log s))) of
       None \<Rightarrow> Exit ''Segmentation fault'' s
     | Some ls \<Rightarrow> os_bind (unmap_log_os k index_log s) (\<lambda>_ s. Ret ls s))))"

text \<open>The version log of a thread, as \<open>mem_init_thr\<close> opens it.\<close>

definition version_log_os :: "kernel \<Rightarrow> tid_t \<Rightarrow> os \<Rightarrow> wait_version list outcome" where
  "version_log_os k tid s =
     os_bind (open_mapped_log_os k ''version'' (int tid) s) (\<lambda>(ret, log) s.
     if ret \<noteq> 0 then Exit ''Error opening version log'' s
     else Ret (map load_wait_version (struct_array 16 (mapped_bytes log s))) s)"

fun version_logs_os :: "kernel \<Rightarrow> tid_t list \<Rightarrow> os \<Rightarrow> wait_version list list outcome" where
  "version_logs_os k [] s = Ret [] s"
| "version_logs_os k (t # ts) s =
     os_bind (version_log_os k t s) (\<lambda>l s. os_bind (version_logs_os k ts s) (\<lambda>ls s. Ret (l # ls) s))"

text \<open>\<open>mem_init\<close>, and the \<open>mem_init_thr\<close> of all threads.\<close>

definition replay_mem_init_os :: "kernel \<Rightarrow> int \<Rightarrow> nat \<Rightarrow> os \<Rightarrow> replay_wait_memop_log list outcome" where
  "replay_mem_init_os k nthr nobj s =
     os_bind (load_wait_reader_log_os k nobj s) (\<lambda>rls s.
     os_bind (calloc_check k (int nobj) ''Can't allocate obj_version'' s) (\<lambda>_ s.
     os_bind (calloc_check k nthr ''Can't allocate memop_cnt'' s) (\<lambda>_ s. Ret rls s)))"

definition replay_init_thrs_os :: "kernel \<Rightarrow> replay_wait_memop_log list \<Rightarrow> test_prog \<Rightarrow> os \<Rightarrow> replay outcome" where
  "replay_init_thrs_os k rls P s =
     os_bind (version_logs_os k [0..<tp_nthr P] s) (\<lambda>vlogs s.
     Ret (replay_init P (\<lambda>t. if t < tp_nthr P then vlogs ! t else []) rls) s)"

definition replay_init_os :: "kernel \<Rightarrow> test_prog \<Rightarrow> os \<Rightarrow> replay outcome" where
  "replay_init_os k P s =
     os_bind (replay_mem_init_os k (int (tp_nthr P)) (tp_nobj P) s) (\<lambda>rls s. replay_init_thrs_os k rls P s)"

definition start_replay_os ::
  "kernel \<Rightarrow> int \<Rightarrow> (wait_memop que_ent list \<Rightarrow> nat) \<Rightarrow> test_prog \<Rightarrow> os \<Rightarrow> replay outcome" where
  "start_replay_os k v0 sel P s =
     os_bind (process_memorder_log_os k v0 sel (tp_nobj P) (tp_nthr P) s) (\<lambda>_ s. replay_init_os k P s)"

end
