(* ===== verification/Disk_Logs.thy ===== *)
theory Disk_Logs
  imports Memop_Files
begin

text \<open>
  The processing of the order logs through the files, when no system call is refused: what the
  programs of \<open>Memop_Files\<close> leave in the files and load from them is what the list-level programs
  compute, so a replay that starts from the files replays the recording.
\<close>

section \<open>Structures in files\<close>

lemma struct_array_concat:
  assumes "\<forall>b \<in> set xs. length b = n" "0 < n"
  shows "struct_array n (concat xs) = xs"
  using assms
proof (induction xs)
  case Nil
  then show ?case by (subst struct_array.simps) simp
next
  case (Cons b xs)
  then show ?case by (subst struct_array.simps) simp
qed

lemma struct_array_map:
  assumes "\<And>x. length (f x) = n" "0 < n" "\<forall>x \<in> set xs. g (f x) = x"
  shows "map g (struct_array n (concat (map f xs))) = xs"
  using assms by (subst struct_array_concat) (auto intro: map_idI)

lemma length_store [simp]:
  "length (store_wait_memop w) = 24" "length (store_replay_wait_memop r) = 24" "length (store_wait_version v) = 16"
  by (simp_all add: store_wait_memop_def store_replay_wait_memop_def store_wait_version_def)

lemma length_concat_const: "(\<And>x. length (f x) = n) \<Longrightarrow> length (concat (map f xs)) = n * length xs"
  by (induction xs) simp_all

lemma concat_map_nonempty:
  assumes "\<And>x. length (f x) = n" "0 < n" "xs \<noteq> []"
  shows "concat (map f xs) \<noteq> []"
proof -
  obtain x xs' where "xs = x # xs'" using assms(3) by (cases xs) auto
  moreover have "f x \<noteq> []" using assms(1) [of x] assms(2) by auto
  ultimately show ?thesis by simp
qed

definition replay_memop_fits :: "replay_wait_memop \<Rightarrow> bool" where
  "replay_memop_fits r \<longleftrightarrow> fits 8 (rwm_version r) \<and> fits 8 (rwm_memop r) \<and> rwm_tid r < 128"

lemma replay_wait_memop_roundtrip:
  assumes "replay_memop_fits r"
  shows "load_replay_wait_memop (store_replay_wait_memop r) = r"
proof -
  have "fits 1 (int (rwm_tid r))" using assms by (simp add: replay_memop_fits_def fits_def)
  then show ?thesis
    using assms load_le_bytes [of 8] load_le_bytes [of 1 "int (rwm_tid r)"]
    by (cases r) (simp add: load_replay_wait_memop_def store_replay_wait_memop_def replay_memop_fits_def)
qed

lemma int_roundtrip: "fits 4 i \<Longrightarrow> load_int 4 (le_bytes 4 i) = i"
  using load_le_bytes [of 4 i "[]"] by simp

section \<open>File names\<close>

definition tpath :: "string \<Rightarrow> nat \<Rightarrow> string" where
  "tpath name t = LOGDIR @ name @ ''-'' @ decimal t"

lemma logpath_tpath: "t < 1000 \<Longrightarrow> length name \<le> 100 \<Longrightarrow> logpath name (int t) = Some (tpath name t)"
  using short_logpath [of t name] by (auto simp: logpath_def tpath_def format_ld_def Let_def split: if_splits)

lemma tpath_inj [simp]: "tpath name t = tpath name' u \<longleftrightarrow> name = name' \<and> t = u"
  using dash_split [of name "decimal t" name' "decimal u"] decimal_dash decimal_inj by (auto simp: tpath_def)

lemma tpath_other [simp]:
  "tpath name t \<noteq> LOGDIR @ ''memop''" "LOGDIR @ ''memop'' \<noteq> tpath name t"
  "tpath name t \<noteq> LOGDIR @ ''memop-index''" "LOGDIR @ ''memop-index'' \<noteq> tpath name t"
proof -
  have a: "name @ CHR ''-'' # decimal t \<noteq> ''memop''"
  proof
    assume "name @ CHR ''-'' # decimal t = ''memop''"
    then have "CHR ''-'' \<in> set ''memop''" by (metis in_set_conv_decomp)
    then show False by simp
  qed
  have b: "name @ CHR ''-'' # decimal t \<noteq> ''memop-index''"
  proof
    assume "name @ CHR ''-'' # decimal t = ''memop-index''"
    then have "name @ CHR ''-'' # decimal t = ''memop'' @ CHR ''-'' # ''index''" by simp
    then have "decimal t = ''index''" using dash_split [OF _ decimal_dash [of t], of name "''memop''" "''index''"] by simp
    then show False using decimal_digits [of t] by (simp add: is_digit_def)
  qed
  show "tpath name t \<noteq> LOGDIR @ ''memop''" "LOGDIR @ ''memop'' \<noteq> tpath name t"
    "tpath name t \<noteq> LOGDIR @ ''memop-index''" "LOGDIR @ ''memop-index'' \<noteq> tpath name t"
    using a b by (auto simp: tpath_def)
qed

section \<open>Calls that are not refused\<close>

definition willing :: "kernel \<Rightarrow> bool" where
  "willing k \<longleftrightarrow> (\<forall>n. \<not> k_refuse k n)"

text \<open>Descriptors are numbers of calls that were made, and stay what they are.\<close>

definition os_ok :: "os \<Rightarrow> bool" where
  "os_ok s \<longleftrightarrow> (\<forall>fd. os_fd s fd \<noteq> None \<longrightarrow> 0 \<le> fd \<and> fd < int (os_calls s))"

definition ext :: "os \<Rightarrow> os \<Rightarrow> bool" where
  "ext s s1 \<longleftrightarrow> (os_ok s \<longrightarrow> os_ok s1) \<and> (\<forall>fd p. os_ok s \<and> os_fd s fd = Some p \<longrightarrow> os_fd s1 fd = Some p)"

lemma ext_refl [simp]: "ext s s"
  by (simp add: ext_def)

lemma ext_trans: "ext s s1 \<Longrightarrow> ext s1 s2 \<Longrightarrow> ext s s2"
  by (auto simp: ext_def)

lemma ext_ok: "ext s s1 \<Longrightarrow> os_ok s \<Longrightarrow> os_ok s1"
  by (simp add: ext_def)

lemma ext_tick [simp]: "ext s (tick s)"
  by (auto simp: ext_def os_ok_def)

text \<open>The same files in a later state: calls that write no file have been made in between.\<close>

definition later :: "os \<Rightarrow> os \<Rightarrow> bool" where
  "later s s1 \<longleftrightarrow> ext s s1 \<and> os_file s1 = os_file s"

lemma later_simps [simp]: "later s s" "later s (tick s)"
  by (simp_all add: later_def)

lemma later_trans: "later s s1 \<Longrightarrow> later s1 s2 \<Longrightarrow> later s s2"
  by (auto simp: later_def intro: ext_trans)

lemma later_tick: "later s s1 \<Longrightarrow> later s (tick s1)"
  by (erule later_trans) simp

text \<open>The log \<open>l\<close> has the whole of a file as its window, or there is no file.\<close>

definition log_is :: "string \<Rightarrow> os \<Rightarrow> log_ptr \<Rightarrow> bool" where
  "log_is path s l \<longleftrightarrow>
     (case os_file s path of
        None \<Rightarrow> lp_fd l = -1
      | Some f \<Rightarrow> lp_fd l \<noteq> -1 \<and> os_fd s (lp_fd l) = Some path \<and> lp_off l = 0 \<and> lp_buf l = lp_start l \<and>
          lp_end l = lp_start l + length f)"

lemma log_is_bytes: "log_is path s l \<Longrightarrow> os_file s path = Some f \<Longrightarrow> mapped_bytes l s = f"
  by (simp add: log_is_def mapped_bytes_def fd_file_def)

lemma log_is_ext: "log_is path s l \<Longrightarrow> ext s s1 \<Longrightarrow> os_ok s \<Longrightarrow> os_file s1 path = os_file s path \<Longrightarrow> log_is path s1 l"
  by (auto simp: log_is_def ext_def split: option.splits)

lemma sys_open_ok:
  assumes "willing k" "creat \<or> os_file s path \<noteq> None"
  shows "\<exists>fd s1. sys_open k path creat s = (fd, s1) \<and> fd \<noteq> -1 \<and> os_fd s1 fd = Some path \<and> ext s s1 \<and>
    os_file s1 = (if creat then (os_file s)(path \<mapsto> []) else os_file s)"
proof -
  define s1 where "s1 = (tick s)\<lparr>os_file := (if creat then (os_file s)(path \<mapsto> []) else os_file s),
    os_fd := (os_fd s)(int (os_calls s) \<mapsto> path)\<rparr>"
  have "sys_open k path creat s = (int (os_calls s), s1)"
    using assms by (simp add: sys_open_def sys_call_def willing_def s1_def)
  moreover have "ext s s1" by (auto simp: ext_def os_ok_def s1_def)
  ultimately show ?thesis by (auto simp: s1_def)
qed

lemma open_path_ok:
  assumes k: "willing k" and s: "os_file s path \<noteq> Some []"
  shows "os_wp (\<lambda>(r, l) s1. (r = 0 \<longleftrightarrow> os_file s path \<noteq> None) \<and> log_is path s1 l \<and> ext s s1 \<and> os_file s1 = os_file s)
    (\<lambda>_ _. False) (open_mapped_log_path_os k path s)"
proof (cases "os_file s path")
  case None
  then have "sys_open k path False s = (-1, tick s)" by (simp add: sys_open_def sys_call_def)
  then show ?thesis using None by (simp add: open_mapped_log_path_os_def log_is_def)
next
  case (Some f)
  then obtain fd s1 where o: "sys_open k path False s = (fd, s1)" "fd \<noteq> -1" "os_fd s1 fd = Some path" "ext s s1" "os_file s1 = os_file s"
    using sys_open_ok [OF k, of False s path] by auto
  have "ext s (tick (tick (tick s1)))" using o(4) by (meson ext_tick ext_trans)
  moreover have "fd_file s1 fd = Some f" using o(3,5) Some by (simp add: fd_file_def)
  ultimately show ?thesis
    using o Some s k
    by (auto simp: open_mapped_log_path_os_def sys_wp willing_def log_is_def window_def)
qed

lemma open_log_ok:
  assumes k: "willing k" and s: "os_file s (tpath name t) \<noteq> Some []" and t: "t < 1000" "length name \<le> 100"
  shows "os_wp (\<lambda>(r, l) s1. (r = 0 \<longleftrightarrow> os_file s (tpath name t) \<noteq> None) \<and> log_is (tpath name t) s1 l \<and> ext s s1 \<and> os_file s1 = os_file s)
    (\<lambda>_ _. False) (open_mapped_log_os k name (int t) s)"
  using open_path_ok [OF k s] logpath_tpath [OF t] by (simp add: open_mapped_log_os_def logpath_os_def)

lemma create_ok:
  assumes k: "willing k" and n: "0 < n"
  shows "os_wp (\<lambda>l s1. log_is path s1 l \<and> ext s s1 \<and> os_file s1 = (os_file s)(path \<mapsto> replicate (nat n) 0))
    (\<lambda>_ _. False) (create_mapped_file_os k path n s)"
proof -
  obtain fd s1 where o: "sys_open k path True s = (fd, s1)" "fd \<noteq> -1" "os_fd s1 fd = Some path" "ext s s1"
    "os_file s1 = (os_file s)(path \<mapsto> [])"
    using sys_open_ok [OF k, of True s path] by auto
  define s2 where "s2 = set_fd_file fd (replicate (nat n) 0) (tick s1)"
  have s2: "os_fd s2 = os_fd s1" "os_file s2 = (os_file s)(path \<mapsto> replicate (nat n) 0)" "os_calls s2 = Suc (os_calls s1)"
    using o(3,5) by (simp_all add: s2_def set_fd_file_def)
  have "ext s1 (tick s2)" using s2 by (auto simp: ext_def os_ok_def)
  then have "ext s (tick s2)" by (rule ext_trans [OF o(4)])
  moreover have "sys_ftruncate k fd n s1 = (0, s2)"
    using o(3,5) k n by (simp add: sys_ftruncate_def sys_call_def willing_def fd_file_def resize_def s2_def)
  moreover have "sys_mmap k fd (nat n) 0 s2 = (int (k_addr k (nat n) 0), tick s2)"
    using o(3) s2 k n by (simp add: sys_mmap_def sys_call_def willing_def fd_file_def)
  ultimately show ?thesis
    using o(1-3) s2 by (simp add: create_mapped_file_os_def perror_exit_def log_is_def window_def)
qed

text \<open>Writing through such a log.\<close>

lemma memcpy_all_ok:
  assumes "os_fd s (lp_fd l) = Some path" "os_file s path = Some f" "lp_off l = 0" "lp_buf l = lp_start l + i"
    "lp_end l = lp_start l + length f" "i + length (concat bs) \<le> length f"
  shows "os_wp (\<lambda>_ s1. os_fd s1 = os_fd s \<and> os_calls s1 = os_calls s \<and>
      os_file s1 = (os_file s)(path \<mapsto> take i f @ concat bs @ drop (i + length (concat bs)) f))
    (\<lambda>_ _. False) (memcpy_all bs l s)"
  using assms
proof (induction bs arbitrary: l s f i)
  case Nil
  then show ?case by (simp add: fun_upd_idem)
next
  case (Cons b bs)
  let ?f = "take i f @ b @ drop (i + length b) f"
  define s1 where "s1 = s\<lparr>os_file := (os_file s)(path \<mapsto> ?f)\<rparr>"
  have st: "store_os (lp_buf l) b l s = Ret () s1"
    using Cons.prems by (auto simp: store_os_def fd_file_def set_fd_file_def Let_def s1_def)
  have i: "i + length b \<le> length f" using Cons.prems(6) by simp
  have "os_wp (\<lambda>_ s2. os_fd s2 = os_fd s1 \<and> os_calls s2 = os_calls s1 \<and>
      os_file s2 = (os_file s1)(path \<mapsto> take (i + length b) ?f @ concat bs @ drop (i + length b + length (concat bs)) ?f))
    (\<lambda>_ _. False) (memcpy_all bs (l\<lparr>lp_buf := lp_buf l + length b\<rparr>) s1)"
    using Cons.prems i by (intro Cons.IH) (simp_all add: s1_def)
  moreover have "take (i + length b) ?f @ concat bs @ drop (i + length b + length (concat bs)) ?f =
      take i f @ concat (b # bs) @ drop (i + length (concat (b # bs))) f"
    using i by (simp add: ac_simps)
  ultimately show ?case unfolding memcpy_all.simps os_wp_simps st by (simp add: s1_def)
qed

lemma memcpy_file:
  assumes "log_is path s l" "os_file s path = Some f" "length (concat bs) = length f"
  shows "os_wp (\<lambda>_ s1. ext s s1 \<and> os_file s1 = (os_file s)(path \<mapsto> concat bs)) (\<lambda>_ _. False) (memcpy_all bs l s)"
proof -
  have "os_wp (\<lambda>_ s1. os_fd s1 = os_fd s \<and> os_calls s1 = os_calls s \<and>
      os_file s1 = (os_file s)(path \<mapsto> take 0 f @ concat bs @ drop (0 + length (concat bs)) f)) (\<lambda>_ _. False) (memcpy_all bs l s)"
    using assms by (intro memcpy_all_ok) (simp_all add: log_is_def)
  then show ?thesis by (rule os_wp_mono) (use assms(3) in \<open>auto simp: ext_def os_ok_def\<close>)
qed

section \<open>reorder-memop\<close>

lemma concat_concat_map: "concat (map (\<lambda>v. concat (map f v)) xss) = concat (map f (concat xss))"
  by (induction xss) simp_all

lemma unmap_ok: "os_wp (\<lambda>_ s1. ext s s1 \<and> os_file s1 = os_file s) (\<lambda>_ _. False) (unmap_log_os k l s)"
  by (simp add: unmap_log_os_def sys_plain_def sys_call_def split: prod.splits if_splits)

definition memop_file :: "wait_memop list \<Rightarrow> byte list" where
  "memop_file ws = concat (map store_wait_memop ws)"

lemma memop_file_structs: "\<forall>w \<in> set ws. memop_fits w \<Longrightarrow> map load_wait_memop (struct_array 24 (memop_file ws)) = ws"
  unfolding memop_file_def by (rule struct_array_map) (auto simp: wait_memop_roundtrip)

lemma memop_file_nonempty: "memop_file ws = [] \<longleftrightarrow> ws = []"
  by (cases ws) (auto simp: memop_file_def store_wait_memop_def)

lemma length_memop_file: "length (memop_file ws) = 24 * length ws"
  unfolding memop_file_def by (rule length_concat_const) simp

lemma memop_end_fits: "memop_fits memop_end"
  by (simp add: memop_fits_def fits_def)

lemma load_memop_os_ok:
  assumes k: "willing k" and s: "os_ok s" "os_file s (tpath ''memop'' t) = Some (memop_file (ws @ [memop_end]))"
    and t: "t < 1000" and ws: "\<forall>w \<in> set ws. entry_ok nobj w \<and> memop_fits w"
  shows "os_wp (\<lambda>r s1. r = (map (\<lambda>o'. of_obj o' ws) [0..<nobj], length ws) \<and> ext s s1 \<and> os_file s1 = os_file s)
    (\<lambda>_ _. False) (load_wait_memop_log_os k nobj (int t) s)"
proof -
  have ne: "os_file s (tpath ''memop'' t) \<noteq> Some []" using s(2) by (simp add: memop_file_nonempty)
  have load: "load_wait_memop_log nobj (ws @ [memop_end]) (replicate nobj []) 0 = Inr (map (\<lambda>o'. of_obj o' ws) [0..<nobj], length ws)"
    using load_wait_memop_log_ok [of ws nobj "replicate nobj []" 0] ws by (simp cong: map_cong)
  have structs: "map load_wait_memop (struct_array 24 (memop_file (ws @ [memop_end]))) = ws @ [memop_end]"
    using ws memop_end_fits by (intro memop_file_structs) simp
  have "os_wp (\<lambda>r s2. r = (map (\<lambda>o'. of_obj o' ws) [0..<nobj], length ws) \<and> ext s s2 \<and> os_file s2 = os_file s) (\<lambda>_ _. False)
      (case load_wait_memop_log nobj (map load_wait_memop (struct_array 24 (mapped_bytes l s1))) (replicate nobj []) 0 of
       Inl Objid_assert \<Rightarrow> Exit ''assert'' s1
     | Inl Past_end_of_log \<Rightarrow> Exit ''Segmentation fault'' s1
     | Inr all \<Rightarrow> os_bind (unmap_log_os k l s1) (\<lambda>_ s. Ret all s))"
    if l: "log_is (tpath ''memop'' t) s1 l" "ext s s1" "os_file s1 = os_file s" for l s1
  proof -
    have "mapped_bytes l s1 = memop_file (ws @ [memop_end])" using log_is_bytes [OF l(1)] s(2) l(3) by simp
    moreover have "os_wp (\<lambda>r s2. ext s s2 \<and> os_file s2 = os_file s) (\<lambda>_ _. False) (unmap_log_os k l s1)"
      using unmap_ok by (rule os_wp_mono) (use l(2,3) ext_trans in auto)
    ultimately show ?thesis using structs load by simp
  qed
  then show ?thesis
    unfolding load_wait_memop_log_os_def os_wp_simps
    by (intro os_wp_mono [OF open_log_ok [OF k ne t]]) auto
qed

lemma write_out_os_ok:
  assumes k: "willing k" and t: "t < 1000" and n: "length (concat all) = n" "0 < n"
  shows "os_wp (\<lambda>_ s1. ext s s1 \<and> os_file s1 = (os_file s)(tpath ''sorted-memop'' t \<mapsto> memop_file (concat all)))
    (\<lambda>_ _. False) (write_out_memop_log_os k all n (int t) s)"
proof -
  let ?p = "tpath ''sorted-memop'' t" and ?bs = "map (\<lambda>v. concat (map store_wait_memop v)) all"
  have bs: "concat ?bs = memop_file (concat all)" by (simp add: memop_file_def concat_concat_map)
  have "os_wp (\<lambda>_ s2. ext s s2 \<and> os_file s2 = (os_file s)(?p \<mapsto> memop_file (concat all))) (\<lambda>_ _. False) (memcpy_all ?bs l s1)"
    if l: "log_is ?p s1 l" "ext s s1" "os_file s1 = (os_file s)(?p \<mapsto> replicate (nat (int n * 24)) 0)" for l s1
  proof -
    have "os_file s1 ?p = Some (replicate (nat (int n * 24)) 0)" using l(3) by simp
    moreover have "length (concat ?bs) = length (replicate (nat (int n * 24)) (0 :: byte))"
      unfolding bs length_memop_file n(1) by simp
    ultimately have "os_wp (\<lambda>_ s2. ext s1 s2 \<and> os_file s2 = (os_file s1)(?p \<mapsto> concat ?bs)) (\<lambda>_ _. False) (memcpy_all ?bs l s1)"
      by (rule memcpy_file [OF l(1)])
    then show ?thesis by (rule os_wp_mono) (use l(2,3) bs ext_trans in auto)
  qed
  then have "os_wp (\<lambda>l s1. os_wp (\<lambda>_ s2. ext s s2 \<and> os_file s2 = (os_file s)(?p \<mapsto> memop_file (concat all))) (\<lambda>_ _. False) (memcpy_all ?bs l s1))
      (\<lambda>_ _. False) (create_mapped_file_os k ?p (int n * 24) s)"
    using n(2) by (intro os_wp_mono [OF create_ok [OF k]]) auto
  then show ?thesis
    using logpath_tpath [OF t, of "''sorted-memop''"] by (simp add: write_out_memop_log_os_def logpath_os_def)
qed

lemma reorder_ok:
  assumes k: "willing k" and s: "os_ok s" "os_file s (tpath ''memop'' t) = Some (memop_file (ws @ [memop_end]))"
    and t: "t < 128" and nobj: "nobj < 2 ^ 31" and ws: "\<forall>w \<in> set ws. entry_ok nobj w \<and> memop_fits w"
  shows "os_wp (\<lambda>_ s1. ext s s1 \<and> os_file s1 =
      (if ws = [] then os_file s else (os_file s)(tpath ''sorted-memop'' t \<mapsto> memop_file (by_object nobj ws))))
    (\<lambda>_ _. False) (reorder_main_os k v0 [prog, decimal nobj, decimal t] s)"
proof -
  have t': "t < 1000" "to_tid_t (extract_int v0 (decimal t)) = int t"
    using t extract_decimal [of t v0] to_tid_t_small [of "int t"] by simp_all
  let ?all = "map (\<lambda>o'. of_obj o' ws) [0..<nobj]"
  have all: "concat ?all = by_object nobj ws" by (simp add: by_object_def)
  have len: "length (concat ?all) = length ws" unfolding all using ws by (intro length_by_object) auto
  have "os_wp (\<lambda>_ s2. ext s s2 \<and> os_file s2 =
        (if ws = [] then os_file s else (os_file s)(tpath ''sorted-memop'' t \<mapsto> memop_file (by_object nobj ws)))) (\<lambda>_ _. False)
      (if length ws \<noteq> 0 then write_out_memop_log_os k ?all (length ws) (int t) s1 else Ret () s1)"
    if s1: "ext s s1" "os_file s1 = os_file s" for s1
  proof (cases "ws = []")
    case False
    then have "os_wp (\<lambda>_ s2. ext s1 s2 \<and> os_file s2 = (os_file s1)(tpath ''sorted-memop'' t \<mapsto> memop_file (concat ?all)))
        (\<lambda>_ _. False) (write_out_memop_log_os k ?all (length ws) (int t) s1)"
      by (intro write_out_os_ok [OF k t'(1) len]) simp
    then have "os_wp (\<lambda>_ s2. ext s s2 \<and> os_file s2 = (os_file s)(tpath ''sorted-memop'' t \<mapsto> memop_file (by_object nobj ws)))
        (\<lambda>_ _. False) (write_out_memop_log_os k ?all (length ws) (int t) s1)"
      by (rule os_wp_mono) (use s1 all ext_trans in auto)
    then show ?thesis using False by simp
  qed (use s1 in simp)
  then have "os_wp (\<lambda>r s1. os_wp (\<lambda>_ s2. ext s s2 \<and> os_file s2 =
        (if ws = [] then os_file s else (os_file s)(tpath ''sorted-memop'' t \<mapsto> memop_file (by_object nobj ws)))) (\<lambda>_ _. False)
      (case r of (all, tot) \<Rightarrow> if tot \<noteq> 0 then write_out_memop_log_os k all tot (int t) s1 else Ret () s1)) (\<lambda>_ _. False)
    (load_wait_memop_log_os k nobj (int t) s)"
    by (intro os_wp_mono [OF load_memop_os_ok [OF k s t'(1) ws]]) auto
  moreover have "reorder_main_os k v0 [prog, decimal nobj, decimal t] s = os_bind (load_wait_memop_log_os k nobj (int t) s)
      (\<lambda>(all, tot) s. if tot \<noteq> 0 then write_out_memop_log_os k all tot (int t) s else Ret () s)"
    using extract_decimal [OF nobj, of 0] t'(2) by (simp add: reorder_main_os_def Let_def)
  ultimately show ?thesis by (simp add: case_prod_beta)
qed

text \<open>The script runs it for every thread; \<open>W t\<close> are the entries of thread \<open>t\<close>.\<close>

definition memops_ok :: "nat \<Rightarrow> wait_memop list \<Rightarrow> bool" where
  "memops_ok nobj ws \<longleftrightarrow>
     (\<forall>w \<in> set ws. entry_ok nobj w \<and> memop_fits w) \<and> (\<forall>o'. sorted (map wm_version (of_obj o' ws)))"

abbreviation sorted_path :: "nat \<Rightarrow> string" where "sorted_path \<equiv> tpath ''sorted-memop''"

definition sorted_of :: "nat \<Rightarrow> wait_memop list \<Rightarrow> wait_memop list option" where
  "sorted_of nobj ws = (if ws = [] then None else Some (by_object nobj ws))"

lemma reorder_all_ok:
  assumes k: "willing k" and nobj: "nobj < 2 ^ 31"
    and "os_ok s" "distinct ts"
    and "\<forall>t \<in> set ts. t < 128 \<and> memops_ok nobj (W t) \<and> os_file s (tpath ''memop'' t) = Some (memop_file (W t @ [memop_end])) \<and>
      os_file s (sorted_path t) = None"
  shows "ext s (reorder_all k v0 nobj ts s)"
    and "t \<in> set ts \<Longrightarrow> os_file (reorder_all k v0 nobj ts s) (sorted_path t) = map_option memop_file (sorted_of nobj (W t))"
    and "p \<notin> sorted_path ` set ts \<Longrightarrow> os_file (reorder_all k v0 nobj ts s) p = os_file s p"
proof -
  have "ext s (reorder_all k v0 nobj ts s) \<and>
    (\<forall>t \<in> set ts. os_file (reorder_all k v0 nobj ts s) (sorted_path t) = map_option memop_file (sorted_of nobj (W t))) \<and>
    (\<forall>p. p \<notin> sorted_path ` set ts \<longrightarrow> os_file (reorder_all k v0 nobj ts s) p = os_file s p)"
    using assms(3-5)
  proof (induction ts arbitrary: s)
    case (Cons t ts)
    have W: "\<forall>w \<in> set (W t). entry_ok nobj w \<and> memop_fits w" using Cons.prems(3) by (simp add: memops_ok_def)
    define s1 where "s1 = (case reorder_main_os k v0 [''./reorder-memop'', decimal nobj, decimal t] s of Exit msg s1 \<Rightarrow> s1 | Ret u s1 \<Rightarrow> s1)"
    have s1: "ext s s1" "os_file s1 =
        (if W t = [] then os_file s else (os_file s)(sorted_path t \<mapsto> memop_file (by_object nobj (W t))))"
      using reorder_ok [OF k Cons.prems(1) _ _ nobj W, of t v0 "''./reorder-memop''"] Cons.prems(3)
      by (auto simp: s1_def os_wp_def split: outcome.splits)
    have ih: "ext s1 (reorder_all k v0 nobj ts s1) \<and>
      (\<forall>t \<in> set ts. os_file (reorder_all k v0 nobj ts s1) (sorted_path t) = map_option memop_file (sorted_of nobj (W t))) \<and>
      (\<forall>p. p \<notin> sorted_path ` set ts \<longrightarrow> os_file (reorder_all k v0 nobj ts s1) p = os_file s1 p)"
    proof (rule Cons.IH)
      show "\<forall>u \<in> set ts. u < 128 \<and> memops_ok nobj (W u) \<and> os_file s1 (tpath ''memop'' u) = Some (memop_file (W u @ [memop_end])) \<and>
        os_file s1 (sorted_path u) = None"
        using Cons.prems(2,3) s1(2) by auto
    qed (use Cons.prems ext_ok [OF s1(1)] in simp_all)
    have all: "reorder_all k v0 nobj (t # ts) s = reorder_all k v0 nobj ts s1" by (simp add: s1_def)
    have "sorted_path t \<notin> sorted_path ` set ts" using Cons.prems(2) by auto
    then have "os_file (reorder_all k v0 nobj ts s1) (sorted_path t) = os_file s1 (sorted_path t)" using ih by blast
    also have "\<dots> = map_option memop_file (sorted_of nobj (W t))" using Cons.prems(3) s1(2) by (simp add: sorted_of_def)
    finally have "\<forall>u \<in> set (t # ts). os_file (reorder_all k v0 nobj ts s1) (sorted_path u) = map_option memop_file (sorted_of nobj (W u))"
      using ih by simp
    moreover have "\<forall>p. p \<notin> sorted_path ` set (t # ts) \<longrightarrow> os_file (reorder_all k v0 nobj ts s1) p = os_file s p"
      using ih s1(2) by simp
    ultimately show ?case unfolding all using ih ext_trans [OF s1(1)] by blast
  qed simp
  then show "ext s (reorder_all k v0 nobj ts s)"
    "t \<in> set ts \<Longrightarrow> os_file (reorder_all k v0 nobj ts s) (sorted_path t) = map_option memop_file (sorted_of nobj (W t))"
    "p \<notin> sorted_path ` set ts \<Longrightarrow> os_file (reorder_all k v0 nobj ts s) p = os_file s p" by blast+
qed

section \<open>merge-memop\<close>

lemma open_logs_ok:
  assumes k: "willing k" and name: "length name \<le> 100"
    and "os_ok s" "\<forall>t \<in> set ts. t < 1000 \<and> os_file s (tpath name t) \<noteq> Some []"
  shows "os_wp (\<lambda>ls s1. list_all2 (\<lambda>t. log_is (tpath name t) s1) ts ls \<and> ext s s1 \<and> os_file s1 = os_file s)
    (\<lambda>_ _. False) (open_logs_os k name ts s)"
  using assms(3,4)
proof (induction ts arbitrary: s)
  case (Cons t ts)
  have rest: "os_wp (\<lambda>ls s2. list_all2 (\<lambda>t. log_is (tpath name t) s2) (t # ts) (l # ls) \<and> ext s s2 \<and> os_file s2 = os_file s)
      (\<lambda>_ _. False) (open_logs_os k name ts s1)"
    if l: "log_is (tpath name t) s1 l" "ext s s1" "os_file s1 = os_file s" for l s1
  proof -
    have ok: "os_ok s1" using ext_ok l(2) Cons.prems(1) by blast
    have "os_wp (\<lambda>ls s2. list_all2 (\<lambda>t. log_is (tpath name t) s2) ts ls \<and> ext s1 s2 \<and> os_file s2 = os_file s1)
        (\<lambda>_ _. False) (open_logs_os k name ts s1)"
      using Cons.prems(2) l(3) by (intro Cons.IH [OF ok]) simp
    then show ?thesis by (rule os_wp_mono) (use l log_is_ext [OF l(1) _ ok] ext_trans in auto)
  qed
  have "os_wp (\<lambda>(r, l) s1. (r = 0 \<longleftrightarrow> os_file s (tpath name t) \<noteq> None) \<and> log_is (tpath name t) s1 l \<and> ext s s1 \<and> os_file s1 = os_file s)
      (\<lambda>_ _. False) (open_mapped_log_os k name (int t) s)"
    using Cons.prems name by (intro open_log_ok [OF k]) simp_all
  then show ?case
    unfolding open_logs_os.simps os_wp_simps by (rule os_wp_mono) (use rest in auto)
qed simp

text \<open>A file of length zero is opened, but \<open>mmap\<close> fails on it.\<close>

lemma open_empty_exits:
  assumes k: "willing k" and s: "os_file s (tpath name t) = Some []" and t: "t < 1000" "length name \<le> 100"
  shows "\<exists>s1. open_mapped_log_os k name (int t) s = Exit ''mmap'' s1"
proof -
  obtain fd s1 where o: "sys_open k (tpath name t) False s = (fd, s1)" "fd \<noteq> -1" "os_fd s1 fd = Some (tpath name t)" "os_file s1 = os_file s"
    using sys_open_ok [OF k, of False s "tpath name t"] s by auto
  have "fd_file s1 fd = Some []" using o(3,4) s by (simp add: fd_file_def)
  then have "sys_fstat k fd s1 = (0, tick s1)" "sys_mmap k fd 0 0 (tick s1) = (-1, tick (tick s1))"
    using k by (simp_all add: sys_fstat_def sys_mmap_def sys_call_def willing_def)
  then show ?thesis
    using o(1,2) logpath_tpath [OF t] by (simp add: open_mapped_log_os_def logpath_os_def open_mapped_log_path_os_def perror_exit_def)
qed

lemma open_logs_empty:
  assumes k: "willing k" and name: "length name \<le> 100"
    and "\<forall>t \<in> set ts. t < 1000" "\<exists>t \<in> set ts. os_file s (tpath name t) = Some []"
  shows "\<exists>s1. open_logs_os k name ts s = Exit ''mmap'' s1"
  using assms(3,4)
proof (induction ts arbitrary: s)
  case (Cons t ts)
  show ?case
  proof (cases "os_file s (tpath name t) = Some []")
    case True
    then obtain s1 where "open_mapped_log_os k name (int t) s = Exit ''mmap'' s1"
      using open_empty_exits [OF k True] Cons.prems(1) name by auto
    then show ?thesis by simp
  next
    case False
    then obtain r l s1 where o: "open_mapped_log_os k name (int t) s = Ret (r, l) s1" "os_file s1 = os_file s"
      using open_log_ok [OF k False] Cons.prems(1) name by (cases "open_mapped_log_os k name (int t) s") auto
    obtain s2 where "open_logs_os k name ts s1 = Exit ''mmap'' s2" using Cons.IH [of s1] Cons.prems o(2) False by auto
    then show ?thesis using o(1) by simp
  qed
qed simp

definition file_len :: "os \<Rightarrow> string \<Rightarrow> nat" where
  "file_len s path = (case os_file s path of None \<Rightarrow> 0 | Some f \<Rightarrow> length f)"

lemma total_size_ok:
  assumes k: "willing k" and "os_ok s" "list_all2 (\<lambda>t. log_is (tp t) s) ts ls"
  shows "os_wp (\<lambda>n s1. n = int (\<Sum>t\<leftarrow>ts. file_len s (tp t)) \<and> ext s s1 \<and> os_file s1 = os_file s)
    (\<lambda>_ _. False) (total_size_os k ls s)"
  using assms(2,3)
proof (induction ts arbitrary: ls s)
  case (Cons t ts)
  then obtain l ls' where ls: "ls = l # ls'" "log_is (tp t) s l" "list_all2 (\<lambda>t. log_is (tp t) s) ts ls'"
    by (auto simp: list_all2_Cons1)
  show ?case
  proof (cases "os_file s (tp t)")
    case None
    then show ?thesis using Cons.IH [OF Cons.prems(1) ls(3)] ls(1,2) by (simp add: log_is_def file_len_def)
  next
    case (Some f)
    then have f: "lp_fd l \<noteq> -1" "fd_file s (lp_fd l) = Some f" using ls(2) by (simp_all add: log_is_def fd_file_def)
    have ok: "os_ok (tick s)" using ext_ok Cons.prems(1) ext_tick by blast
    have "list_all2 (\<lambda>t. log_is (tp t) (tick s)) ts ls'"
      using ls(3) by (rule list_all2_mono) (use log_is_ext [OF _ ext_tick Cons.prems(1)] in simp)
    from Cons.IH [OF ok this] have "os_wp (\<lambda>n s1. n = int (\<Sum>t\<leftarrow>ts. file_len s (tp t)) \<and> ext s s1 \<and> os_file s1 = os_file s)
        (\<lambda>_ _. False) (total_size_os k ls' (tick s))"
      by (rule os_wp_mono) (auto simp: file_len_def intro: ext_trans [OF ext_tick])
    then have "os_wp (\<lambda>n s1. int (length f) + n = int (\<Sum>t\<leftarrow>t # ts. file_len s (tp t)) \<and> ext s s1 \<and> os_file s1 = os_file s)
        (\<lambda>_ _. False) (total_size_os k ls' (tick s))"
      by (rule os_wp_mono) (use Some in \<open>auto simp: file_len_def\<close>)
    then show ?thesis using k f by (simp add: ls(1) sys_fstat_wp willing_def)
  qed
qed simp

end
