(* ===== verification/Write_Logs.thy ===== *)
theory Write_Logs
  imports Disk_Logs
begin

text \<open>
  The logs of all threads while they are written: every thread opens its logs, writes entries and
  closes the logs, and the threads do so in any order. Any system call may be refused at any time;
  the theory shows what the files hold then, and that they hold all entries when no call is refused.
\<close>

section \<open>Opening, writing and closing\<close>

type_synonym log_key = "string \<times> int"

datatype log_event = Open log_key | Entry log_key "byte list" | Close log_key

primrec event_key :: "log_event \<Rightarrow> log_key" where
  "event_key (Open key) = key"
| "event_key (Entry key b) = key"
| "event_key (Close key) = key"

text \<open>The calls of \<open>new_mapped_log\<close> in \<open>mem_init_thr\<close>, of \<open>next_log_entry\<close> in \<open>log_order\<close> and
  \<open>mark_log_end\<close>, and of \<open>unmap_truncate_log\<close> in \<open>mem_finish_thr\<close>, which does not look at its result.
  A thread's variables of type \<open>struct mapped_log\<close> are the values of \<open>ls\<close> at its keys.\<close>

fun log_event_os :: "kernel \<Rightarrow> log_event \<Rightarrow> (log_key \<Rightarrow> log_ptr option) \<Rightarrow> os \<Rightarrow> (log_key \<Rightarrow> log_ptr option) outcome" where
  "log_event_os k (Open key) ls s =
     os_bind (new_mapped_log_os k (fst key) (snd key) s) (\<lambda>l s. Ret (ls(key \<mapsto> l)) s)"
| "log_event_os k (Entry key b) ls s =
     (case ls key of
        None \<Rightarrow> Exit ''Segmentation fault'' s
      | Some l \<Rightarrow> os_bind (log_entry_os k b l s) (\<lambda>l s. Ret (ls(key \<mapsto> l)) s))"
| "log_event_os k (Close key) ls s =
     (case ls key of
        None \<Rightarrow> Exit ''Segmentation fault'' s
      | Some l \<Rightarrow> os_bind (unmap_truncate_log_os k l s) (\<lambda>_ s. Ret ls s))"

fun log_events_os ::
  "kernel \<Rightarrow> log_event list \<Rightarrow> (log_key \<Rightarrow> log_ptr option) \<Rightarrow> os \<Rightarrow> (log_key \<Rightarrow> log_ptr option) outcome" where
  "log_events_os k [] ls s = Ret ls s"
| "log_events_os k (e # es) ls s = os_bind (log_event_os k e ls s) (log_events_os k es)"

text \<open>What was written to a log.\<close>

fun written_to :: "log_key \<Rightarrow> log_event list \<Rightarrow> byte list" where
  "written_to key [] = []"
| "written_to key (Entry key' b # es) = (if key' = key then b @ written_to key es else written_to key es)"
| "written_to key (e # es) = written_to key es"

definition events_of :: "log_key \<Rightarrow> log_event list \<Rightarrow> log_event list" where
  "events_of key es = filter (\<lambda>e. event_key e = key) es"

text \<open>Every log is opened, then written, then closed, in entries of at most a page.\<close>

definition log_use :: "log_key \<Rightarrow> byte list list \<Rightarrow> log_event list" where
  "log_use key bs = Open key # map (Entry key) bs @ [Close key]"

definition logs_used :: "log_key set \<Rightarrow> (log_key \<Rightarrow> byte list list) \<Rightarrow> log_event list \<Rightarrow> bool" where
  "logs_used K B es \<longleftrightarrow>
     event_key ` set es \<subseteq> K \<and> (\<forall>key \<in> K. events_of key es = log_use key (B key) \<and> (\<forall>b \<in> set (B key). length b \<le> 4096))"

lemma written_to_append [simp]: "written_to key (es @ es') = written_to key es @ written_to key es'"
  by (induction key es rule: written_to.induct) auto

lemma events_of_simps [simp]:
  "events_of key [] = []" "events_of key (e # es) = (if event_key e = key then e # events_of key es else events_of key es)"
  "events_of key (es @ es') = events_of key es @ events_of key es'"
  by (simp_all add: events_of_def)

lemma written_to_events: "written_to key es = written_to key (events_of key es)"
  by (induction key es rule: written_to.induct) auto

lemma written_to_entries: "written_to key (map (Entry key) bs) = concat bs"
  by (induction bs) auto

lemma written_to_use: "events_of key es = log_use key bs \<Longrightarrow> written_to key es = concat bs"
  by (subst written_to_events) (simp add: log_use_def written_to_entries)

section \<open>Descriptors while logs are written\<close>

abbreviation keeps_fds :: "os \<Rightarrow> 'a outcome \<Rightarrow> bool" where
  "keeps_fds s \<equiv> os_wp (\<lambda>_. ext s) (\<lambda>_. ext s)"

lemma keeps_bind: "keeps_fds s m \<Longrightarrow> (\<And>x s1. keeps_fds s1 (f x s1)) \<Longrightarrow> keeps_fds s (os_bind m f)"
  unfolding os_wp_simps
proof (rule os_wp_mono)
  fix x s1 assume f: "\<And>x s1. keeps_fds s1 (f x s1)" and "ext s s1"
  then show "keeps_fds s (f x s1)" by (auto intro: os_wp_mono [OF f] ext_trans)
qed auto

lemma sys_call_ext:
  assumes "\<And>s1 r s2. f s1 = (r, s2) \<Longrightarrow> os_fd s2 = os_fd s1 \<and> os_calls s1 \<le> os_calls s2"
  shows "ext s (snd (sys_call k ok f s))"
proof (cases "f (tick s)")
  case (Pair r s2)
  then show ?thesis using assms [OF Pair] by (auto simp: sys_call_def ext_def os_ok_def tick_def)
qed

lemma sys_ext:
  "ext s (snd (sys_ftruncate k fd n s))" "ext s (snd (sys_mmap k fd len off s))" "ext s (snd (sys_plain k s))"
  "ext s (snd (sys_fstat k fd s))"
  unfolding sys_ftruncate_def sys_mmap_def sys_plain_def sys_fstat_def by (rule sys_call_ext, auto)+

lemma sys_open_ext: "ext s (snd (sys_open k path creat s))"
  by (force simp: sys_open_def sys_call_def ext_def os_ok_def)

lemma keeps_perror: "ext s (snd r) \<Longrightarrow> keeps_fds s (perror_exit msg r)"
  by (simp add: perror_exit_def split: prod.split)

lemma keeps_if: "(b \<Longrightarrow> keeps_fds s r) \<Longrightarrow> (\<not> b \<Longrightarrow> keeps_fds s r') \<Longrightarrow> keeps_fds s (if b then r else r')"
  by simp

lemma keeps_pair: "(\<And>x y. keeps_fds s (f x y s1)) \<Longrightarrow> keeps_fds s ((case r of (x, y) \<Rightarrow> f x y) s1)"
  by (cases r) simp

lemma keeps_done: "keeps_fds s (Ret x s)" "keeps_fds s (Exit msg s)"
  by simp_all

lemmas keeps_rules =
  keeps_bind keeps_if keeps_pair keeps_done sys_ext [THEN keeps_perror] sys_open_ext [THEN keeps_perror]

lemma keeps_new_path: "keeps_fds s (new_mapped_log_path_os k path s)"
  unfolding new_mapped_log_path_os_def by (intro keeps_rules)

lemma keeps_new: "keeps_fds s (new_mapped_log_os k name i s)"
  unfolding new_mapped_log_os_def logpath_os_def
  by (intro keeps_bind keeps_new_path) (auto split: option.split)

lemma keeps_entry: "keeps_fds s (log_entry_os k b l s)"
proof -
  have st: "keeps_fds s (store_os p b l s)" for p l s
    by (auto simp: store_os_def Let_def ext_def os_ok_def split: option.split)
  show ?thesis
    unfolding log_entry_os_def next_log_entry_os_def enlarge_mapped_log_os_def Let_def
    by (intro keeps_rules st)
qed

lemma keeps_close: "keeps_fds s (unmap_truncate_log_os k l s)"
proof -
  have t: "keeps_fds s (case sys_ftruncate k fd n s of (ret, s) \<Rightarrow> Ret ret s)" for fd n s
    using sys_ext(1) [of s k fd n] by (cases "sys_ftruncate k fd n s") simp
  have u: "keeps_fds s (unmap_log_os k l s)"
    using sys_ext(3) [of s k] by (cases "sys_plain k s") (simp add: unmap_log_os_def)
  show ?thesis unfolding unmap_truncate_log_os_def truncate_log_os_def by (intro keeps_rules u t)
qed

section \<open>What the files hold\<close>

text \<open>The part \<open>es\<close> of the events has taken place: an open log has its entries behind it, and the file
  of a closed log holds them, unless a call was refused.\<close>

definition key_inv :: "kernel \<Rightarrow> os \<Rightarrow> log_event list \<Rightarrow> (log_key \<Rightarrow> log_ptr option) \<Rightarrow> os \<Rightarrow> log_key \<Rightarrow> bool" where
  "key_inv k s0 es ls s key \<longleftrightarrow>
     (Open key \<in> set es \<longrightarrow>
        (if Close key \<in> set es
         then file_begins (path_of key) (written_to key es) s \<and>
           (refused k s0 s \<or> os_file s (path_of key) = Some (written_to key es))
         else \<exists>l. ls key = Some l \<and> written (path_of key) (written_to key es) l s))"

definition logs_inv :: "kernel \<Rightarrow> os \<Rightarrow> log_key set \<Rightarrow> log_event list \<Rightarrow> (log_key \<Rightarrow> log_ptr option) \<Rightarrow> os \<Rightarrow> bool" where
  "logs_inv k s0 K es ls s \<longleftrightarrow>
     os_ok s \<and> os_calls s0 \<le> os_calls s \<and> (\<forall>p. p \<notin> path_of ` K \<longrightarrow> os_file s p = os_file s0 p) \<and>
     (\<forall>key \<in> K. key_inv k s0 es ls s key)"

text \<open>The files of the logs that were opened begin with what was written to them.\<close>

definition logs_safe :: "log_key set \<Rightarrow> log_event list \<Rightarrow> os \<Rightarrow> bool" where
  "logs_safe K es s \<longleftrightarrow> (\<forall>key \<in> K. Open key \<in> set es \<longrightarrow> file_begins (path_of key) (written_to key es) s)"

lemma key_inv_begins: "key_inv k s0 es ls s key \<Longrightarrow> Open key \<in> set es \<Longrightarrow> file_begins (path_of key) (written_to key es) s"
  using written_begins by (auto simp: key_inv_def split: if_splits)

lemma file_begins_other: "file_begins p w s \<Longrightarrow> os_file s1 p = os_file s p \<Longrightarrow> file_begins p w s1"
  by (simp add: file_begins_def)

lemma written_ext:
  assumes "written p w l s" "ext s s1" "os_ok s" "os_file s1 p = os_file s p"
  shows "written p w l s1"
proof -
  have fd: "os_fd s (lp_fd l) = Some p" using assms(1) by (simp add: written_def log_open_def)
  then have "os_fd s1 (lp_fd l) = Some p" using assms(2,3) by (simp add: ext_def)
  then show ?thesis using assms(1,4) fd by (simp add: written_def log_open_def log_view_def fd_file_def)
qed

lemma written_to_other: "event_key e \<noteq> key \<Longrightarrow> written_to key [e] = []"
  by (cases e) auto

lemma key_inv_other:
  assumes inv: "key_inv k s0 es ls s key" and s: "os_ok s" "ext s s1" "os_calls s \<le> os_calls s1"
    and p: "os_file s1 (path_of key) = os_file s (path_of key)" and e: "event_key e \<noteq> key" "ls1 key = ls key"
  shows "key_inv k s0 (es @ [e]) ls1 s1 key"
proof -
  have "Open key \<noteq> e" "Close key \<noteq> e" using e(1) by auto
  moreover have "refused k s0 s \<Longrightarrow> refused k s0 s1" using s(3) unfolding refused_def by (meson order_less_le_trans)
  ultimately show ?thesis
    using inv e written_ext [OF _ s(2,1) p] file_begins_other [OF _ p] p
    by (auto simp: key_inv_def written_to_other)
qed

section \<open>One event\<close>

text \<open>When an event may take place, after the events \<open>es\<close>.\<close>

fun event_ok :: "log_event list \<Rightarrow> log_event \<Rightarrow> bool" where
  "event_ok es (Open key) \<longleftrightarrow> events_of key es = []"
| "event_ok es (Entry key b) \<longleftrightarrow> Open key \<in> set es \<and> Close key \<notin> set es \<and> length b \<le> 4096"
| "event_ok es (Close key) \<longleftrightarrow> Open key \<in> set es \<and> Close key \<notin> set es"

text \<open>An event at its own log.\<close>

lemma log_event_key:
  assumes k: "k_aligned k" and K: "log_keys_ok K" "event_key e \<in> K" and inv: "key_inv k s0 es ls s (event_key e)"
    and e: "event_ok es e" and c: "os_calls s0 \<le> os_calls s"
  shows "os_wp (\<lambda>ls1 s1. key_inv k s0 (es @ [e]) ls1 s1 (event_key e) \<and> only_file (path_of (event_key e)) s s1 \<and>
      (\<forall>key. key \<noteq> event_key e \<longrightarrow> ls1 key = ls key))
    (\<lambda>_ s1. refused k s s1 \<and> only_file (path_of (event_key e)) s s1 \<and>
      (Open (event_key e) \<in> set es \<longrightarrow> file_begins (path_of (event_key e)) (written_to (event_key e) es) s1))
    (log_event_os k e ls s)"
proof (cases e)
  case (Open key)
  have ne: "Open key \<notin> set es" "Close key \<notin> set es" "written_to key es = []"
    using e Open written_to_events [of key es] by (auto simp: events_of_def filter_empty_conv)
  have "logpath (fst key) (snd key) = Some (path_of key)" using log_keys_path [OF K(1)] K(2) Open by simp
  then show ?thesis
    unfolding Open log_event_os.simps new_mapped_log_os_def logpath_os_def using new_mapped_log_outcome [OF k, of "path_of key" s]
    by simp (rule os_wp_mono, assumption, use ne in \<open>auto simp: key_inv_def\<close>)
next
  case (Entry key b)
  then obtain l where l: "ls key = Some l" "written (path_of key) (written_to key es) l s" "Open key \<in> set es" "Close key \<notin> set es"
    using inv e by (auto simp: key_inv_def)
  show ?thesis
    using log_entry_outcome [OF l(2) k, of b] e
    unfolding Entry by (simp add: l(1)) (rule os_wp_mono, assumption, use l in \<open>auto simp: key_inv_def\<close>)
next
  case (Close key)
  then obtain l where l: "ls key = Some l" "written (path_of key) (written_to key es) l s" "Open key \<in> set es" "Close key \<notin> set es"
    using inv e by (auto simp: key_inv_def)
  have b: "file_begins (path_of key) (written_to key es) s" by (rule written_begins [OF l(2)])
  show ?thesis
    using unmap_truncate_outcome [OF l(2), of k] unfolding Close
    by (simp add: l(1)) (rule os_wp_mono, assumption,
      use l b file_begins_other [OF b] refused_mono [OF _ c] in \<open>auto simp: key_inv_def file_begins_def split: if_splits\<close>)
qed

lemma os_wp_conj: "os_wp R E r \<Longrightarrow> os_wp R' E' r \<Longrightarrow> os_wp (\<lambda>x s. R x s \<and> R' x s) (\<lambda>m s. E m s \<and> E' m s) r"
  by (cases r) simp_all

lemma keeps_event: "keeps_fds s (log_event_os k e ls s)"
  by (cases e) (auto split: option.split intro!: keeps_bind keeps_new keeps_entry keeps_close)

lemma log_event_inv:
  assumes k: "k_aligned k" and K: "log_keys_ok K" "event_key e \<in> K" and inv: "logs_inv k s0 K es ls s" and e: "event_ok es e"
  shows "os_wp (logs_inv k s0 K (es @ [e])) (\<lambda>_ s1. refused k s0 s1 \<and> refused k s s1 \<and> logs_safe K es s1) (log_event_os k e ls s)"
proof -
  let ?p = "path_of (event_key e)"
  have s: "os_ok s" "os_calls s0 \<le> os_calls s" "\<forall>p. p \<notin> path_of ` K \<longrightarrow> os_file s p = os_file s0 p"
    and ki: "\<And>key. key \<in> K \<Longrightarrow> key_inv k s0 es ls s key"
    using inv by (auto simp: logs_inv_def)
  have other: "os_file s1 (path_of key) = os_file s (path_of key)"
    if "only_file ?p s s1" "key \<in> K" "key \<noteq> event_key e" for s1 key
    using that path_of_inj [OF K(1) that(2) K(2)] by (auto simp: only_file_def)
  show ?thesis
    using os_wp_conj [OF log_event_key [OF k K ki [OF K(2)] e s(2)] keeps_event]
  proof (rule os_wp_mono)
    fix ls1 s1
    assume 1: "(key_inv k s0 (es @ [e]) ls1 s1 (event_key e) \<and> only_file ?p s s1 \<and>
      (\<forall>key. key \<noteq> event_key e \<longrightarrow> ls1 key = ls key)) \<and> ext s s1"
    then have c: "os_calls s \<le> os_calls s1" by (simp add: only_file_def)
    have "key_inv k s0 (es @ [e]) ls1 s1 key" if "key \<in> K" for key
    proof (cases "key = event_key e")
      case False
      then have "event_key e \<noteq> key" "ls1 key = ls key" using 1 by metis+
      then show ?thesis using 1 that False by (intro key_inv_other [OF ki [OF that] s(1) _ c other]) (assumption | blast)+
    qed (use 1 in simp)
    then show "logs_inv k s0 K (es @ [e]) ls1 s1"
      using 1 s c K(2) ext_ok by (auto simp: logs_inv_def only_file_def)
  next
    fix msg s1
    assume 1: "(refused k s s1 \<and> only_file ?p s s1 \<and>
      (Open (event_key e) \<in> set es \<longrightarrow> file_begins ?p (written_to (event_key e) es) s1)) \<and> ext s s1"
    have "file_begins (path_of key) (written_to key es) s1" if "key \<in> K" "Open key \<in> set es" for key
      using 1 that file_begins_other [OF key_inv_begins [OF ki [OF that(1)] that(2)] other] by (cases "key = event_key e") auto
    then show "refused k s0 s1 \<and> refused k s s1 \<and> logs_safe K es s1" using 1 refused_mono [OF _ s(2)] by (simp add: logs_safe_def)
  qed
qed

section \<open>All events\<close>

text \<open>The events in the order they take place; a log is used as in \<open>logs_used\<close>.\<close>

lemma used_event_ok:
  assumes "logs_used K B (es @ e # es')"
  shows "event_key e \<in> K \<and> event_ok es e"
proof -
  have K: "event_key e \<in> K" using assms by (auto simp: logs_used_def)
  then have u: "events_of (event_key e) es @ e # events_of (event_key e) es' = log_use (event_key e) (B (event_key e))"
    and b: "\<forall>b \<in> set (B (event_key e)). length b \<le> 4096"
    using assms by (auto simp: logs_used_def)
  have mem: "x \<in> set es \<longleftrightarrow> x \<in> set (events_of (event_key x) es)" for x by (simp add: events_of_def)
  have key: "event_key x = event_key e" if "x \<in> set (events_of (event_key e) es)" for x using that by (simp add: events_of_def)
  show ?thesis
  proof (cases "events_of (event_key e) es")
    case Nil
    then have "e = Open (event_key e)" using u by (simp add: log_use_def)
    then show ?thesis using K Nil by (cases e) auto
  next
    case (Cons x xs)
    then have x: "x = Open (event_key e)" and xs: "xs @ e # events_of (event_key e) es' = map (Entry (event_key e)) (B (event_key e)) @ [Close (event_key e)]"
      using u by (simp_all add: log_use_def)
    have "Close (event_key e) \<notin> set xs"
    proof
      assume "Close (event_key e) \<in> set xs"
      moreover have "set xs \<subseteq> Entry (event_key e) ` set (B (event_key e))"
        using arg_cong [OF xs, of butlast] by (auto simp: butlast_append dest!: arg_cong [of _ _ set])
      ultimately show False by auto
    qed
    moreover have "e \<in> Entry (event_key e) ` set (B (event_key e)) \<or> e = Close (event_key e)"
      using arg_cong [OF xs, of set] by auto
    ultimately show ?thesis
      using K b mem [of "Open (event_key e)"] mem [of "Close (event_key e)"] Cons x by (cases e) auto
  qed
qed

lemma log_events_inv:
  assumes k: "k_aligned k" and K: "log_keys_ok K" and u: "logs_used K B (es @ es' @ es'')" and inv: "logs_inv k s0 K es ls s"
  shows "os_wp (logs_inv k s0 K (es @ es')) (\<lambda>_ s1. refused k s0 s1) (log_events_os k es' ls s)"
  using u inv
proof (induction es' arbitrary: es ls s)
  case (Cons e es')
  have e: "event_key e \<in> K" "event_ok es e" using used_event_ok [of K B es e "es' @ es''"] Cons.prems(1) by auto
  have "os_wp (\<lambda>ls1 s1. os_wp (logs_inv k s0 K (es @ e # es')) (\<lambda>_ s1. refused k s0 s1) (log_events_os k es' ls1 s1))
    (\<lambda>_ s1. refused k s0 s1) (log_event_os k e ls s)"
  proof (rule os_wp_mono [OF log_event_inv [OF k K e(1) Cons.prems(2) e(2)]])
    fix ls1 s1 assume "logs_inv k s0 K (es @ [e]) ls1 s1"
    then show "os_wp (logs_inv k s0 K (es @ e # es')) (\<lambda>_ s1. refused k s0 s1) (log_events_os k es' ls1 s1)"
      using Cons.IH [of "es @ [e]" ls1 s1] Cons.prems(1) by simp
  qed blast
  then show ?case by simp
qed simp

lemma log_events_exit:
  assumes "log_events_os k es ls s = Exit msg s1"
  shows "\<exists>es1 e es2 ls1 s2. es = es1 @ e # es2 \<and> log_events_os k es1 ls s = Ret ls1 s2 \<and> log_event_os k e ls1 s2 = Exit msg s1"
  using assms
proof (induction es arbitrary: ls s)
  case (Cons e es)
  show ?case
  proof (cases "log_event_os k e ls s")
    case (Exit m s2)
    then have "log_events_os k [] ls s = Ret ls s \<and> log_event_os k e ls s = Exit msg s1" using Cons.prems by simp
    then show ?thesis by (metis append_Nil)
  next
    case (Ret ls2 s2)
    then have "log_events_os k es ls2 s2 = Exit msg s1" using Cons.prems by simp
    from Cons.IH [OF this] obtain es1 e' es2 ls1 s3 where "es = es1 @ e' # es2" "log_events_os k es1 ls2 s2 = Ret ls1 s3"
      "log_event_os k e' ls1 s3 = Exit msg s1" by blast
    then have "e # es = (e # es1) @ e' # es2 \<and> log_events_os k (e # es1) ls s = Ret ls1 s3 \<and> log_event_os k e' ls1 s3 = Exit msg s1"
      using Ret by simp
    then show ?thesis by blast
  qed
qed simp

text \<open>All logs in use, and the files afterwards or at an exit.\<close>

lemma logs_inv_done:
  assumes u: "logs_used K B es" and i: "logs_inv k s K es ls1 s1" and key: "key \<in> K"
  shows "file_begins (path_of key) (concat (B key)) s1 \<and>
    (refused k s s1 \<or> os_file s1 (path_of key) = Some (concat (B key)))"
proof -
  have ev: "events_of key es = log_use key (B key)" using u key by (simp add: logs_used_def)
  then have "{Open key, Close key} \<subseteq> set (events_of key es)" by (simp add: log_use_def)
  then have "Open key \<in> set es \<and> Close key \<in> set es \<and> written_to key es = concat (B key)"
    using written_to_use [OF ev] by (auto simp: events_of_def)
  then show ?thesis using i key by (auto simp: logs_inv_def key_inv_def)
qed

lemma log_events_outcome:
  assumes k: "k_aligned k" and K: "log_keys_ok K" and u: "logs_used K B es" and s: "os_ok s"
  shows "os_wp
    (\<lambda>_ s1. os_ok s1 \<and> (\<forall>p. p \<notin> path_of ` K \<longrightarrow> os_file s1 p = os_file s p) \<and>
       (\<forall>key \<in> K. file_begins (path_of key) (concat (B key)) s1 \<and>
          (refused k s s1 \<or> os_file s1 (path_of key) = Some (concat (B key)))))
    (\<lambda>msg s1. refused k s s1 \<and>
       (\<exists>es1 e es2 ls1 s2. es = es1 @ e # es2 \<and> log_events_os k es1 ls s = Ret ls1 s2 \<and>
          log_event_os k e ls1 s2 = Exit msg s1 \<and> refused k s2 s1 \<and> logs_safe K es1 s1)) (log_events_os k es ls s)"
proof -
  have i0: "logs_inv k s K [] ls s" using s by (simp add: logs_inv_def key_inv_def)
  show ?thesis
  proof (cases "log_events_os k es ls s")
    case (Ret ls1 s1)
    then have i: "logs_inv k s K es ls1 s1" using log_events_inv [OF k K _ i0, of B es "[]"] u by simp
    show ?thesis using i Ret logs_inv_done [OF u i] by (auto simp: logs_inv_def)
  next
    case (Exit msg s1)
    obtain es1 e es2 ls1 s2 where x: "es = es1 @ e # es2" "log_events_os k es1 ls s = Ret ls1 s2" "log_event_os k e ls1 s2 = Exit msg s1"
      using log_events_exit [OF Exit] by blast
    have i: "logs_inv k s K es1 ls1 s2" using log_events_inv [OF k K _ i0, of B es1 "e # es2"] u x(1,2) by simp
    have e: "event_key e \<in> K" "event_ok es1 e" using used_event_ok [of K B es1 e es2] u x(1) by auto
    have "refused k s s1 \<and> refused k s2 s1 \<and> logs_safe K es1 s1" using log_event_inv [OF k K e(1) i e(2)] x(3) by simp
    then show ?thesis using Exit x by auto
  qed
qed

lemma willing_refused: "willing k \<Longrightarrow> \<not> refused k s s1"
  by (simp add: willing_def refused_def)

lemma log_events_ok:
  assumes "willing k" "k_aligned k" "log_keys_ok K" "logs_used K B es" "os_ok s"
  shows "\<exists>ls1 s1. log_events_os k es ls s = Ret ls1 s1 \<and> os_ok s1 \<and> (\<forall>p. p \<notin> path_of ` K \<longrightarrow> os_file s1 p = os_file s p) \<and>
    (\<forall>key \<in> K. os_file s1 (path_of key) = Some (concat (B key)))"
  using log_events_outcome [OF assms(2-5), of ls] willing_refused [OF assms(1)]
  by (cases "log_events_os k es ls s") auto

text \<open>One of the orders of events: the logs are written one after the other.\<close>

lemma logs_used_in_turn:
  assumes "distinct ks" "\<forall>key \<in> set ks. \<forall>b \<in> set (B key). length b \<le> 4096"
  shows "logs_used (set ks) B (concat (map (\<lambda>key. log_use key (B key)) ks))"
proof -
  have own: "events_of key (log_use key' bs) = (if key = key' then log_use key' bs else [])" for key key' bs
    by (auto simp: log_use_def events_of_def filter_empty_conv)
  have "events_of key (concat (map (\<lambda>key. log_use key (B key)) ks)) = (if key \<in> set ks then log_use key (B key) else [])" for key
    using assms(1) by (induction ks) (auto simp: own)
  moreover have "event_key x = key" if "x \<in> set (log_use key bs)" for x key bs using that by (auto simp: log_use_def)
  then have "event_key ` set (concat (map (\<lambda>key. log_use key (B key)) ks)) \<subseteq> set ks" by fastforce
  ultimately show ?thesis using assms(2) by (simp add: logs_used_def)
qed

lemma path_of_tpath: "t < 1000 \<Longrightarrow> length name \<le> 100 \<Longrightarrow> path_of (name, int t) = tpath name t"
  by (simp add: path_of_def logpath_tpath)

end
