(* ===== verification/Disk_Replay.thy ===== *)
theory Disk_Replay
  imports Write_Logs
begin

text \<open>
  The rest of the way through the files: \<open>merge-memop\<close> writes the merged log and its index, the
  replayer loads them and the version logs, and the replay that starts from the files replays the
  recording.
\<close>

section \<open>merge-memop\<close>

lemma sorted_by_object: "memops_ok nobj ws \<Longrightarrow> sorted (map memop_key (by_object nobj ws))"
  by (intro by_object_keys) (simp add: memops_ok_def)

lemma by_object_ok:
  assumes "memops_ok nobj ws"
  shows "set (by_object nobj ws) = set ws" "length (by_object nobj ws) = length ws"
  using mset_by_object [of ws nobj] length_by_object [of ws nobj] assms
  by (auto simp: memops_ok_def dest: mset_eq_setD)

lemma sorted_of_entries: "log_entries (sorted_of nobj ws) = (if ws = [] then [] else by_object nobj ws)"
  by (simp add: log_entries_def sorted_of_def)

lemma sorted_of_facts:
  assumes "memops_ok nobj ws"
  shows "sorted (map memop_key (log_entries (sorted_of nobj ws)))"
    "set (log_entries (sorted_of nobj ws)) = set ws" "length (log_entries (sorted_of nobj ws)) = length ws"
  using sorted_by_object [OF assms] by_object_ok [OF assms] by (auto simp: sorted_of_entries)

lemma sum_list_upt: "(\<Sum>t\<leftarrow>[0..<n]. f t) = (\<Sum>t<n. f t :: nat)"
  by (induction n) simp_all

text \<open>The two files of a merge, with entries that fit their fields.\<close>

definition merged_files :: "(replay_wait_memop list \<times> int list) option \<Rightarrow> os \<Rightarrow> os \<Rightarrow> bool" where
  "merged_files files s s1 \<longleftrightarrow>
     (case files of
        None \<Rightarrow> os_file s1 = os_file s
      | Some (mwm, index) \<Rightarrow>
          os_file s1 = (os_file s)(LOGDIR @ ''memop'' \<mapsto> concat (map store_replay_wait_memop mwm),
            LOGDIR @ ''memop-index'' \<mapsto> concat (map (le_bytes 4) index)) \<and>
          mwm \<noteq> [] \<and> index \<noteq> [] \<and> (\<forall>r \<in> set mwm. replay_memop_fits r) \<and> (\<forall>i \<in> set index. fits 4 i))"

lemma index_fits: "length es < 2 ^ 31 \<Longrightarrow> i \<in> set (index_of es nobj) \<Longrightarrow> fits 4 i"
  using index_of_bounds [of es i nobj] by (simp add: fits_def)

lemma merge_files_ok:
  assumes q: "min_queue memop_key que_gt sel" and n: "nthr < 128" and W: "\<forall>t < nthr. memops_ok nobj (W t)"
    and small: "(\<Sum>t<nthr. length (W t)) < 2 ^ 31" and some: "(\<Sum>t<nthr. length (W t)) \<noteq> 0"
  obtains mwm index where
    "merge_memop sel nobj (map (\<lambda>t. sorted_of nobj (W t)) [0..<nthr]) (int nthr) = Some (Some (mwm, index))"
    "length mwm = (\<Sum>t<nthr. length (W t))" "length index = 2 * nobj" "0 < nobj"
    "\<forall>r \<in> set mwm. replay_memop_fits r" "\<forall>i \<in> set index. fits 4 i"
proof -
  let ?log = "map (\<lambda>t. sorted_of nobj (W t)) [0..<nthr]"
  have ent: "sorted (map memop_key (log_entries (?log ! t)))" "set (log_entries (?log ! t)) = set (W t)"
    "length (log_entries (?log ! t)) = length (W t)" if "t < nthr" for t
    using that sorted_of_facts W by simp_all
  have ok: "entry_ok nobj w \<and> memop_fits w" if "t < nthr" "w \<in> set (W t)" for t w
    using that W by (simp add: memops_ok_def)
  have sum: "sum_list (map length (map log_entries ?log)) = (\<Sum>t<nthr. length (W t))"
    using ent(3) by (simp add: comp_def sum_list_upt)
  obtain es where es: "merge_memop sel nobj ?log (int nthr) = Some (Some (map to_rwm es, index_of es nobj))"
    "mset es = (\<Sum>t<length ?log. mset (map (Pair t) (log_entries (?log ! t))))"
    by (rule merge_memop_eq [OF q, of ?log nobj "int nthr"]) (use ent ok sum some n in \<open>auto simp: to_tid_t_small\<close>)
  have "size (mset es) = (\<Sum>t<nthr. length (log_entries (?log ! t)))" unfolding es(2) by (simp add: size_mset_sum)
  then have len: "length es = (\<Sum>t<nthr. length (W t))" using ent(3) by simp
  have mem: "fst e < nthr \<and> snd e \<in> set (W (fst e))" if "e \<in> set es" for e
  proof -
    have "e \<in># (\<Sum>t<length ?log. mset (map (Pair t) (log_entries (?log ! t))))" using that es(2) by (metis set_mset_mset)
    then show ?thesis using ent(2) by (auto simp: set_mset_sum)
  qed
  have "replay_memop_fits (to_rwm e)" if "e \<in> set es" for e
    using mem [OF that] ok n by (force simp: replay_memop_fits_def to_rwm_def memop_fits_def)
  moreover have "0 < nobj"
  proof -
    obtain e where "e \<in> set es" using len some by (cases es) auto
    from mem [OF this] ok show ?thesis by (force simp: entry_ok_def)
  qed
  ultimately show ?thesis
    using that [OF es(1)] len small index_fits [of es] length_index_of by auto
qed

text \<open>The structures that the merge reads from a log are the entries of the file.\<close>

lemma log_structs_ok:
  assumes "log_is (sorted_path t) s l" "os_file s (sorted_path t) = map_option memop_file (sorted_of nobj ws)" "memops_ok nobj ws"
  shows "log_structs s l = sorted_of nobj ws"
proof (cases "ws = []")
  case True
  then show ?thesis using assms(1,2) by (simp add: log_structs_def log_is_def sorted_of_def)
next
  case False
  then have f: "os_file s (sorted_path t) = Some (memop_file (by_object nobj ws))" using assms(2) by (simp add: sorted_of_def)
  have "\<forall>w \<in> set (by_object nobj ws). memop_fits w" using by_object_ok(1) [OF assms(3)] assms(3) by (simp add: memops_ok_def)
  then show ?thesis
    using log_is_bytes [OF assms(1) f] memop_file_structs [of "by_object nobj ws"] assms(1) f False
    by (simp add: log_structs_def log_is_def sorted_of_def)
qed

lemma file_len_sorted:
  assumes "os_file s (sorted_path t) = map_option memop_file (sorted_of nobj ws)" "memops_ok nobj ws"
  shows "file_len s (sorted_path t) = 24 * length ws"
  using assms(1) by_object_ok(2) [OF assms(2)] by (auto simp: file_len_def sorted_of_def length_memop_file)

text \<open>Creating two files, and writing them.\<close>

lemma create_two_ok:
  assumes k: "willing k" and s: "os_ok s" and ne: "p \<noteq> r" and n: "0 < m" "0 < n"
    and F: "\<And>a b s2. log_is p s2 a \<Longrightarrow> log_is r s2 b \<Longrightarrow> ext s s2 \<Longrightarrow>
      os_file s2 = (os_file s)(p \<mapsto> replicate (nat m) 0, r \<mapsto> replicate (nat n) 0) \<Longrightarrow> os_wp R (\<lambda>_ _. False) (F a b s2)"
  shows "os_wp R (\<lambda>_ _. False) (os_bind (create_mapped_file_os k p m s) (\<lambda>a s. os_bind (create_mapped_file_os k r n s) (\<lambda>b s. F a b s)))"
proof -
  have "os_wp (\<lambda>b s2. os_wp R (\<lambda>_ _. False) (F a b s2)) (\<lambda>_ _. False) (create_mapped_file_os k r n s1)"
    if a: "log_is p s1 a" "ext s s1" "os_file s1 = (os_file s)(p \<mapsto> replicate (nat m) 0)" for a s1
    using create_ok [OF k n(2)]
  proof (rule os_wp_mono)
    fix b s2 assume b: "log_is r s2 b \<and> ext s1 s2 \<and> os_file s2 = (os_file s1)(r \<mapsto> replicate (nat n) 0)"
    then have "log_is p s2 a" using a ext_ok [OF a(2) s] ne by (intro log_is_ext [OF a(1)]) auto
    then show "os_wp R (\<lambda>_ _. False) (F a b s2)" using F a(2,3) b ext_trans by metis
  qed
  then show ?thesis unfolding os_wp_simps by (intro os_wp_mono [OF create_ok [OF k n(1)]]) auto
qed

lemma write_two_ok:
  assumes "log_is p s a" "log_is r s b" "os_ok s" "p \<noteq> r" "os_file s p = Some f" "os_file s r = Some g"
    and len: "length (concat xs) = length f" "length (concat ys) = length g"
  shows "os_wp (\<lambda>_ s1. ext s s1 \<and> os_file s1 = (os_file s)(p \<mapsto> concat xs, r \<mapsto> concat ys)) (\<lambda>_ _. False)
    (os_bind (memcpy_all xs a s) (\<lambda>_ s. os_bind (memcpy_all ys b s) (\<lambda>_ s. Ret () s)))"
proof -
  have "os_wp (\<lambda>_ s2. ext s s2 \<and> os_file s2 = (os_file s)(p \<mapsto> concat xs, r \<mapsto> concat ys)) (\<lambda>_ _. False) (memcpy_all ys b s1)"
    if s1: "ext s s1" "os_file s1 = (os_file s)(p \<mapsto> concat xs)" for s1
  proof -
    have "log_is r s1 b" using s1 assms(3,4) by (intro log_is_ext [OF assms(2)]) auto
    then have "os_wp (\<lambda>_ s2. ext s1 s2 \<and> os_file s2 = (os_file s1)(r \<mapsto> concat ys)) (\<lambda>_ _. False) (memcpy_all ys b s1)"
      by (rule memcpy_file [OF _ _ len(2)]) (use s1(2) assms(4,6) in simp)
    then show ?thesis by (rule os_wp_mono) (use s1 ext_trans in auto)
  qed
  then show ?thesis
    unfolding os_wp_simps by (intro os_wp_mono [OF memcpy_file [OF assms(1,5) len(1)]]) auto
qed

lemma merge_to_files_ok:
  assumes k: "willing k" and s: "os_ok s" and m: "0 < length mwm" and i: "length index = 2 * nobj" "0 < nobj"
    and f: "\<forall>r \<in> set mwm. replay_memop_fits r" "\<forall>i \<in> set index. fits 4 i"
    and mg: "\<And>s1. ext s s1 \<Longrightarrow> (\<And>t. os_file s1 (sorted_path t) = os_file s (sorted_path t)) \<Longrightarrow>
      merge_memop sel nobj (map (log_structs s1) log) nthr = Some (Some (mwm, index))"
  shows "os_wp (\<lambda>_ s1. ext s s1 \<and> merged_files (Some (mwm, index)) s s1) (\<lambda>_ _. False)
    (merge_to_files_os k sel (int nobj) log nthr (int (24 * length mwm)) s)"
proof -
  let ?mp = "LOGDIR @ ''memop''" and ?ip = "LOGDIR @ ''memop-index''"
  let ?m = "map store_replay_wait_memop mwm" and ?i = "map (le_bytes 4) index"
  have lm: "length (concat ?m) = 24 * length mwm" by (rule length_concat_const) simp
  have li: "length (concat ?i) = 8 * nobj" using length_concat_const [of "le_bytes 4" 4 index] i(1) by simp
  have "os_wp (\<lambda>_ s1. ext s s1 \<and> merged_files (Some (mwm, index)) s s1) (\<lambda>_ _. False)
      (case merge_memop sel nobj (map (log_structs s2) log) nthr of
         None \<Rightarrow> Exit ''assert'' s2 | Some None \<Rightarrow> Ret () s2
       | Some (Some (mwm, index)) \<Rightarrow> os_bind (memcpy_all (map store_replay_wait_memop mwm) a s2) (\<lambda>_ s.
           os_bind (memcpy_all (map (le_bytes 4) index) b s) (\<lambda>_ s. Ret () s)))"
    if s2: "log_is ?mp s2 a" "log_is ?ip s2 b" "ext s s2"
      "os_file s2 = (os_file s)(?mp \<mapsto> replicate (nat (int (length mwm) * 24)) 0, ?ip \<mapsto> replicate (nat (int nobj * 4 * 2)) 0)" for a b s2
  proof -
    have "os_wp (\<lambda>_ s1. ext s2 s1 \<and> os_file s1 = (os_file s2)(?mp \<mapsto> concat ?m, ?ip \<mapsto> concat ?i)) (\<lambda>_ _. False)
        (os_bind (memcpy_all ?m a s2) (\<lambda>_ s. os_bind (memcpy_all ?i b s) (\<lambda>_ s. Ret () s)))"
      by (rule write_two_ok [OF s2(1,2) ext_ok [OF s2(3) s], of
          "replicate (nat (int (length mwm) * 24)) 0" "replicate (nat (int nobj * 4 * 2)) 0"]) (use s2(4) lm li in auto)
    then have "os_wp (\<lambda>_ s1. ext s s1 \<and> merged_files (Some (mwm, index)) s s1) (\<lambda>_ _. False)
        (os_bind (memcpy_all ?m a s2) (\<lambda>_ s. os_bind (memcpy_all ?i b s) (\<lambda>_ s. Ret () s)))"
      by (rule os_wp_mono) (use s2(3,4) ext_trans f i m in \<open>auto simp: merged_files_def fun_upd_twist\<close>)
    moreover have "merge_memop sel nobj (map (log_structs s2) log) nthr = Some (Some (mwm, index))"
      using s2(3,4) by (intro mg) simp_all
    ultimately show ?thesis by simp
  qed
  then have "os_wp (\<lambda>_ s1. ext s s1 \<and> merged_files (Some (mwm, index)) s s1) (\<lambda>_ _. False)
      (os_bind (create_mapped_file_os k ?mp (int (length mwm) * 24) s) (\<lambda>a s.
       os_bind (create_mapped_file_os k ?ip (int nobj * 4 * 2) s) (\<lambda>b s.
       case merge_memop sel nobj (map (log_structs s) log) nthr of
         None \<Rightarrow> Exit ''assert'' s | Some None \<Rightarrow> Ret () s
       | Some (Some (mwm, index)) \<Rightarrow> os_bind (memcpy_all (map store_replay_wait_memop mwm) a s) (\<lambda>_ s.
           os_bind (memcpy_all (map (le_bytes 4) index) b s) (\<lambda>_ s. Ret () s)))))"
    using m i(2) by (intro create_two_ok [OF k s]) auto
  then show ?thesis using m by (simp add: merge_to_files_os_def)
qed

lemma sorted_structs_ok:
  assumes ls: "list_all2 (\<lambda>t. log_is (sorted_path t) s) [0..<nthr] ls" and s: "os_ok s"
    and F: "\<forall>t < nthr. os_file s (sorted_path t) = map_option memop_file (sorted_of nobj (W t))" "\<forall>t < nthr. memops_ok nobj (W t)"
    and s2: "ext s s2" "\<And>t. os_file s2 (sorted_path t) = os_file s (sorted_path t)"
  shows "map (log_structs s2) ls = map (\<lambda>t. sorted_of nobj (W t)) [0..<nthr]"
proof (rule nth_equalityI)
  have len: "length ls = nthr" using list_all2_lengthD [OF ls] by simp
  then show "length (map (log_structs s2) ls) = length (map (\<lambda>t. sorted_of nobj (W t)) [0..<nthr])" by simp
  fix t assume "t < length (map (log_structs s2) ls)"
  then have t: "t < nthr" using len by simp
  then have "log_is (sorted_path t) s (ls ! t)" using list_all2_nthD [OF ls, of t] by simp
  then have "log_is (sorted_path t) s2 (ls ! t)" by (rule log_is_ext) (use s2 s in auto)
  then show "map (log_structs s2) ls ! t = map (\<lambda>t. sorted_of nobj (W t)) [0..<nthr] ! t"
    using log_structs_ok [of t s2 "ls ! t" nobj "W t"] s2(2) F t len by simp
qed

lemma merge_os_ok:
  assumes k: "willing k" and q: "min_queue memop_key que_gt sel" and n: "nthr < 128" and s: "os_ok s"
    and ls: "list_all2 (\<lambda>t. log_is (sorted_path t) s) [0..<nthr] ls"
    and F: "\<forall>t < nthr. os_file s (sorted_path t) = map_option memop_file (sorted_of nobj (W t))"
    and W: "\<forall>t < nthr. memops_ok nobj (W t)" and small: "(\<Sum>t<nthr. length (W t)) < 2 ^ 31"
  shows "os_wp (\<lambda>_ s1. ext s s1 \<and> (\<exists>files.
      merge_memop sel nobj (map (\<lambda>t. sorted_of nobj (W t)) [0..<nthr]) (int nthr) = Some files \<and> merged_files files s s1))
    (\<lambda>_ _. False) (merge_memop_os k sel (int nobj) ls (int nthr) s)"
proof -
  let ?N = "\<Sum>t<nthr. length (W t)" and ?log = "map (\<lambda>t. sorted_of nobj (W t)) [0..<nthr]"
  have len: "length ls = nthr" using list_all2_lengthD [OF ls] by simp
  have "(\<Sum>t\<leftarrow>[0..<nthr]. file_len s (sorted_path t)) = (\<Sum>t<nthr. 24 * length (W t))"
    unfolding sum_list_upt using F W file_len_sorted by (intro sum.cong) auto
  then have total: "int (\<Sum>t\<leftarrow>[0..<nthr]. file_len s (sorted_path t)) = int (24 * ?N)" by (simp add: sum_distrib_left)
  note structs = sorted_structs_ok [OF ls s F W]
  have "os_wp (\<lambda>_ s2. ext s s2 \<and> (\<exists>files. merge_memop sel nobj ?log (int nthr) = Some files \<and> merged_files files s s2)) (\<lambda>_ _. False)
      (merge_to_files_os k sel (int nobj) ls (int nthr) (int (24 * ?N)) s1)"
    if s1: "ext s s1" "os_file s1 = os_file s" for s1
  proof (cases "?N = 0")
    case True
    then have "merge_memop sel nobj ?log (int nthr) = Some None"
      using n by (intro merge_memop_none) (auto simp: sum_list_eq_0_iff sorted_of_entries to_tid_t_small)
    then show ?thesis using True s1 by (simp add: merge_to_files_os_def merged_files_def)
  next
    case False
    obtain mwm index where mi: "merge_memop sel nobj ?log (int nthr) = Some (Some (mwm, index))"
      "length mwm = ?N" "length index = 2 * nobj" "0 < nobj" "\<forall>r \<in> set mwm. replay_memop_fits r" "\<forall>i \<in> set index. fits 4 i"
      by (rule merge_files_ok [OF q n W small False])
    have "os_wp (\<lambda>_ s2. ext s1 s2 \<and> merged_files (Some (mwm, index)) s1 s2) (\<lambda>_ _. False)
        (merge_to_files_os k sel (int nobj) ls (int nthr) (int (24 * length mwm)) s1)"
    proof (rule merge_to_files_ok [OF k ext_ok [OF s1(1) s] _ mi(3-6)])
      show "0 < length mwm" using False mi(2) by linarith
    qed (use mi(1) structs ext_trans [OF s1(1)] s1(2) in auto)
    then show ?thesis
      unfolding mi(2) by (rule os_wp_mono) (use mi(1) s1 ext_trans in \<open>auto simp: merged_files_def\<close>)
  qed
  then show ?thesis
    unfolding merge_memop_os_def using len
    by (simp, intro os_wp_mono [OF total_size_ok [OF k s ls]]) (auto simp: total)
qed

section \<open>The script\<close>

text \<open>What the list-level programs compute is in the files.\<close>

definition files_on_disk :: "(replay_wait_memop list \<times> int list) option \<Rightarrow> os \<Rightarrow> bool" where
  "files_on_disk files s \<longleftrightarrow>
     (case files of
        None \<Rightarrow> os_file s (LOGDIR @ ''memop'') = None
      | Some (mwm, index) \<Rightarrow>
          os_file s (LOGDIR @ ''memop'') = Some (concat (map store_replay_wait_memop mwm)) \<and>
          os_file s (LOGDIR @ ''memop-index'') = Some (concat (map (le_bytes 4) index)) \<and>
          mwm \<noteq> [] \<and> index \<noteq> [] \<and> (\<forall>r \<in> set mwm. replay_memop_fits r) \<and> (\<forall>i \<in> set index. fits 4 i))"

lemma sorted_memop_of:
  assumes "memops_ok nobj ws"
  shows "sorted_memop nobj (ws @ [memop_end]) = sorted_of nobj ws"
  using reorder_main_eq [of ws nobj] assms by (simp add: memops_ok_def sorted_memop_def sorted_of_def)

lemma sorted_of_nonempty: "memops_ok nobj ws \<Longrightarrow> map_option memop_file (sorted_of nobj ws) \<noteq> Some []"
  by (metis by_object_ok(2) length_0_conv memop_file_nonempty option.map(2) option.sel option.simps(3) option.simps(8) sorted_of_def)

lemma process_list_eq:
  assumes "nthr < 128" "\<forall>t < nthr. memops_ok nobj (W t)"
  shows "process_memorder_log sel nobj (map (\<lambda>t. W t @ [memop_end]) [0..<nthr]) =
    merge_memop sel nobj (map (\<lambda>t. sorted_of nobj (W t)) [0..<nthr]) (int nthr)"
proof -
  have eq: "map (\<lambda>t. sorted_memop nobj (W t @ [memop_end])) [0..<nthr] = map (\<lambda>t. sorted_of nobj (W t)) [0..<nthr]"
    using assms(2) sorted_memop_of by simp
  have "sorted_of nobj (W t) \<noteq> Some []" if "t < nthr" for t using sorted_of_nonempty [of nobj "W t"] assms(2) that by (auto simp: memop_file_def)
  then have "Some [] \<notin> set (map (\<lambda>t. sorted_of nobj (W t)) [0..<nthr])" by fastforce
  then show ?thesis
    using assms(1) to_tid_t_small [of "int nthr"] by (simp add: process_memorder_log_def merge_main_def comp_def eq)
qed

text \<open>The state of the files after \<open>merge-memop\<close>: its output is there, and the version logs are as before.\<close>

definition merged_on_disk :: "(replay_wait_memop list \<times> int list) option option \<Rightarrow> os \<Rightarrow> os \<Rightarrow> bool" where
  "merged_on_disk r s s1 \<longleftrightarrow>
     ext s s1 \<and> (\<forall>t. os_file s1 (tpath ''version'' t) = os_file s (tpath ''version'' t)) \<and>
     (\<exists>files. r = Some files \<and> files_on_disk files s1)"

lemma merge_on_disk_ok:
  assumes k: "willing k" and q: "min_queue memop_key que_gt sel" and n: "nthr < 128" and s: "os_ok s"
    and W: "\<forall>t < nthr. memops_ok nobj (W t)" and small: "(\<Sum>t<nthr. length (W t)) < 2 ^ 31"
    and F: "\<forall>t < nthr. os_file s2 (sorted_path t) = map_option memop_file (sorted_of nobj (W t))"
    and s2: "list_all2 (\<lambda>t. log_is (sorted_path t) s2) [0..<nthr] ls" "ext s s2"
    and other: "os_file s2 (LOGDIR @ ''memop'') = None" "\<forall>t. os_file s2 (tpath ''version'' t) = os_file s (tpath ''version'' t)"
  shows "os_wp (\<lambda>_. merged_on_disk (merge_memop sel nobj (map (\<lambda>t. sorted_of nobj (W t)) [0..<nthr]) (int nthr)) s) (\<lambda>_ _. False)
    (merge_memop_os k sel (int nobj) ls (int nthr) s2)"
proof (rule os_wp_mono [OF merge_os_ok [OF k q n ext_ok [OF s2(2) s] s2(1) F W small]])
  let ?log = "map (\<lambda>t. sorted_of nobj (W t)) [0..<nthr]"
  fix s3 assume "ext s2 s3 \<and> (\<exists>files. merge_memop sel nobj ?log (int nthr) = Some files \<and> merged_files files s2 s3)"
  then obtain files where s3: "ext s2 s3" "merge_memop sel nobj ?log (int nthr) = Some files" "merged_files files s2 s3" by blast
  moreover have "files_on_disk files s3"
    using s3(3) other(1) by (auto simp: merged_files_def files_on_disk_def split: option.splits)
  moreover have "os_file s3 (tpath ''version'' t) = os_file s (tpath ''version'' t)" for t
    using s3(3) other(2) by (auto simp: merged_files_def split: option.splits)
  ultimately show "merged_on_disk (merge_memop sel nobj ?log (int nthr)) s s3"
    using s2(2) ext_trans by (auto simp: merged_on_disk_def)
qed simp

lemma process_os_ok:
  assumes k: "willing k" and q: "min_queue memop_key que_gt sel" and n: "nthr < 128" "nobj < 2 ^ 31" and s: "os_ok s"
    and W: "\<forall>t < nthr. memops_ok nobj (W t) \<and> os_file s (tpath ''memop'' t) = Some (memop_file (W t @ [memop_end])) \<and>
      os_file s (sorted_path t) = None"
    and fresh: "os_file s (LOGDIR @ ''memop'') = None" and small: "(\<Sum>t<nthr. length (W t)) < 2 ^ 31"
  shows "os_wp (\<lambda>_. merged_on_disk (process_memorder_log sel nobj (map (\<lambda>t. W t @ [memop_end]) [0..<nthr])) s)
    (\<lambda>_ _. False) (process_memorder_log_os k v0 sel nobj nthr s)"
proof -
  define s1 where "s1 = reorder_all k v0 nobj [0..<nthr] s"
  have "\<forall>t \<in> set [0..<nthr]. t < 128 \<and> memops_ok nobj (W t) \<and>
      os_file s (tpath ''memop'' t) = Some (memop_file (W t @ [memop_end])) \<and> os_file s (sorted_path t) = None"
    using W n(1) by simp
  note ra = reorder_all_ok [OF k n(2) s distinct_upt this]
  have r: "ext s s1" "\<And>t. t < nthr \<Longrightarrow> os_file s1 (sorted_path t) = map_option memop_file (sorted_of nobj (W t))"
    "\<And>p. p \<notin> sorted_path ` {0..<nthr} \<Longrightarrow> os_file s1 p = os_file s p"
    unfolding s1_def using ra by simp_all
  have "LOGDIR @ ''memop'' \<notin> sorted_path ` {0..<nthr}" "tpath ''version'' t \<notin> sorted_path ` {0..<nthr}" for t by auto
  then have other: "os_file s1 (LOGDIR @ ''memop'') = None" "\<forall>t. os_file s1 (tpath ''version'' t) = os_file s (tpath ''version'' t)"
    using r(3) fresh by simp_all
  have W1: "\<forall>t < nthr. os_file s1 (sorted_path t) = map_option memop_file (sorted_of nobj (W t))" "\<forall>t < nthr. memops_ok nobj (W t)"
    using r(2) W by simp_all
  have ne: "\<forall>t \<in> set [0..<nthr]. t < 1000 \<and> os_file s1 (sorted_path t) \<noteq> Some []"
    using W1 n(1) sorted_of_nonempty by auto
  let ?log = "map (\<lambda>t. sorted_of nobj (W t)) [0..<nthr]"
  have sn: "length ''sorted-memop'' \<le> 100" by simp
  have "os_wp (\<lambda>_. merged_on_disk (merge_memop sel nobj ?log (int nthr)) s) (\<lambda>_ _. False)
      (merge_memop_os k sel (int nobj) ls (int nthr) s2)"
    if s2: "list_all2 (\<lambda>t. log_is (sorted_path t) s2) [0..<nthr] ls" "ext s1 s2" "os_file s2 = os_file s1" for ls s2
    by (rule merge_on_disk_ok [OF k q n(1) s W1(2) small _ s2(1) ext_trans [OF r(1) s2(2)]]) (use s2(3) W1(1) other in simp_all)
  then have "os_wp (\<lambda>ls s2. os_wp (\<lambda>_. merged_on_disk (merge_memop sel nobj ?log (int nthr)) s) (\<lambda>_ _. False)
      (merge_memop_os k sel (int nobj) ls (int nthr) s2)) (\<lambda>_ _. False) (open_logs_os k ''sorted-memop'' [0..<nthr] s1)"
    by (intro os_wp_mono [OF open_logs_ok [OF k sn ext_ok [OF r(1) s] ne]]) auto
  moreover have "extract_int 0 (decimal nobj) = int nobj" "extract_int v0 (decimal nthr) = int nthr" "to_tid_t (int nthr) = int nthr"
    using extract_decimal [OF n(2)] extract_decimal [of nthr] n(1) to_tid_t_small by simp_all
  ultimately show ?thesis
    unfolding process_list_eq [OF n(1) W1(2)] by (simp add: process_memorder_log_os_def merge_main_os_def s1_def [symmetric] Let_def)
qed

section \<open>Loading\<close>

lemma calloc_ok: "willing k \<Longrightarrow> calloc_check k (int n) msg s = Ret () (tick s)"
  by (simp add: calloc_check_def sys_call_def willing_def)

text \<open>The two files are open and their contents are loaded.\<close>

lemma load_index_ok:
  assumes k: "willing k" and f: "files_on_disk (Some (mwm, index)) s" "load_index nobj index mwm = Some rls"
    and l: "log_is (LOGDIR @ ''memop'') s2 ml" "log_is (LOGDIR @ ''memop-index'') s2 il" "ext s s2" "os_file s2 = os_file s"
  shows "os_wp (\<lambda>r s3. r = rls \<and> ext s s3 \<and> os_file s3 = os_file s) (\<lambda>_ _. False)
    (case load_index nobj (map (load_int 4) (struct_array 4 (mapped_bytes il s2)))
        (map load_replay_wait_memop (struct_array 24 (mapped_bytes ml s2))) of
       None \<Rightarrow> Exit ''Segmentation fault'' s2 | Some ls \<Rightarrow> os_bind (unmap_log_os k il s2) (\<lambda>_ s. Ret ls s))"
proof -
  have "mapped_bytes ml s2 = concat (map store_replay_wait_memop mwm)" "mapped_bytes il s2 = concat (map (le_bytes 4) index)"
    using log_is_bytes [OF l(1)] log_is_bytes [OF l(2)] l(4) f(1) by (simp_all add: files_on_disk_def)
  moreover have "map load_replay_wait_memop (struct_array 24 (concat (map store_replay_wait_memop mwm))) = mwm"
    "map (load_int 4) (struct_array 4 (concat (map (le_bytes 4) index))) = index"
    using f(1) by (auto intro!: struct_array_map simp: replay_wait_memop_roundtrip int_roundtrip files_on_disk_def)
  moreover have "os_wp (\<lambda>_ s3. ext s s3 \<and> os_file s3 = os_file s) (\<lambda>_ _. False) (unmap_log_os k il s2)"
    by (rule os_wp_mono [OF unmap_ok]) (use l(3,4) ext_trans in auto)
  ultimately show ?thesis using f(2) by simp
qed

text \<open>The opening of a file that is there, and of one that is not.\<close>

lemma open_present:
  assumes k: "willing k" and f: "os_file s p = Some bs" "bs \<noteq> []"
  shows "os_wp (\<lambda>(r, l) s1. r = 0 \<and> log_is p s1 l \<and> ext s s1 \<and> os_file s1 = os_file s) (\<lambda>_ _. False) (open_mapped_log_path_os k p s)"
proof -
  have "os_file s p \<noteq> Some []" using f by simp
  from open_path_ok [OF k this] show ?thesis by (rule os_wp_mono) (use f in auto)
qed

lemma open_absent:
  assumes k: "willing k" and f: "os_file s p = None"
  shows "os_wp (\<lambda>(r, l) s1. r \<noteq> 0 \<and> ext s s1 \<and> os_file s1 = os_file s) (\<lambda>_ _. False) (open_mapped_log_path_os k p s)"
proof -
  have "os_file s p \<noteq> Some []" using f by simp
  from open_path_ok [OF k this] show ?thesis by (rule os_wp_mono) (use f in auto)
qed

lemma load_reader_os_ok:
  assumes k: "willing k" and s: "os_ok s" and f: "files_on_disk files s" "load_wait_reader_log nobj files = Some rls"
  shows "os_wp (\<lambda>r s1. r = rls \<and> ext s s1 \<and> os_file s1 = os_file s) (\<lambda>_ _. False) (load_wait_reader_log_os k nobj s)"
proof (cases files)
  let ?mp = "LOGDIR @ ''memop''" and ?ip = "LOGDIR @ ''memop-index''"
  case None
  then have rls: "rls = replicate nobj no_reader_log" and "os_file (tick s) ?mp = None"
    using f by (simp_all add: load_wait_reader_log_def files_on_disk_def)
  from open_absent [OF k this(2)] show ?thesis
    unfolding load_wait_reader_log_os_def calloc_ok [OF k] os_bind.simps os_wp_simps
    by (rule os_wp_mono) (use rls ext_trans [OF ext_tick] in auto)
next
  let ?mp = "LOGDIR @ ''memop''" and ?ip = "LOGDIR @ ''memop-index''"
  case (Some mi)
  obtain mwm index where mi: "mi = (mwm, index)" by fastforce
  have fd: "files_on_disk (Some (mwm, index)) s" and load: "load_index nobj index mwm = Some rls"
    using f Some mi by (simp_all add: load_wait_reader_log_def)
  let ?m = "concat (map store_replay_wait_memop mwm)" and ?i = "concat (map (le_bytes 4) index)"
  have m: "os_file s ?mp = Some ?m" "os_file s ?ip = Some ?i" and ne: "?m \<noteq> []" "?i \<noteq> []"
    using fd concat_map_nonempty [of store_replay_wait_memop 24 mwm] concat_map_nonempty [of "le_bytes 4" 4 index]
    by (simp_all add: files_on_disk_def)
  have two: "os_wp (\<lambda>(r, il) s2. r = 0 \<and> log_is ?mp s2 ml \<and> log_is ?ip s2 il \<and> ext s s2 \<and> os_file s2 = os_file s)
      (\<lambda>_ _. False) (open_mapped_log_path_os k ?ip s1)"
    if l: "log_is ?mp s1 ml" "ext s s1" "os_file s1 = os_file s" for ml s1
    by (rule os_wp_mono [OF open_present [OF k _ ne(2)]]) (use l m(2) ext_trans log_is_ext [OF l(1) _ ext_ok [OF l(2) s]] in auto)
  have "os_file (tick s) ?mp = Some ?m" using m(1) by simp
  from open_present [OF k this ne(1)] show ?thesis
    unfolding load_wait_reader_log_os_def calloc_ok [OF k] os_bind.simps os_wp_simps
    by (rule os_wp_mono) (use ext_trans [OF ext_tick] in \<open>auto intro!: os_wp_mono [OF two] load_index_ok [OF k fd load]\<close>)
qed

lemma version_logs_ok:
  assumes k: "willing k" and "os_ok s"
    and "\<forall>t \<in> set ts. t < 1000 \<and> V t \<noteq> [] \<and> (\<forall>v \<in> set (V t). version_fits v) \<and>
      os_file s (tpath ''version'' t) = Some (concat (map store_wait_version (V t)))"
  shows "os_wp (\<lambda>r s1. r = map V ts) (\<lambda>_ _. False) (version_logs_os k ts s)"
  using assms(2,3)
proof (induction ts arbitrary: s)
  case (Cons t ts)
  let ?f = "concat (map store_wait_version (V t))"
  have f: "os_file s (tpath ''version'' t) = Some ?f" using Cons.prems(2) by simp
  have ne: "os_file s (tpath ''version'' t) \<noteq> Some []"
    using f Cons.prems(2) concat_map_nonempty [of store_wait_version 16 "V t"] by simp
  have vs: "map load_wait_version (struct_array 16 ?f) = V t"
    using Cons.prems(2) by (intro struct_array_map) (auto simp: wait_version_roundtrip)
  have "os_wp (\<lambda>(r, l) s1. r = 0 \<and> mapped_bytes l s1 = ?f \<and> ext s s1 \<and> os_file s1 = os_file s) (\<lambda>_ _. False)
      (open_mapped_log_os k ''version'' (int t) s)"
    using Cons.prems(2) f log_is_bytes by (intro os_wp_mono [OF open_log_ok [OF k ne]]) auto
  then have "os_wp (\<lambda>r s1. r = V t \<and> ext s s1 \<and> os_file s1 = os_file s) (\<lambda>_ _. False) (version_log_os k t s)"
    unfolding version_log_os_def os_wp_simps by (rule os_wp_mono) (use vs in auto)
  then show ?case
    unfolding version_logs_os.simps os_wp_simps
    by (rule os_wp_mono) (use Cons.prems ext_ok in \<open>auto intro!: os_wp_mono [OF Cons.IH]\<close>)
qed simp

text \<open>The files are those from which a replay starts in \<open>replay_init P V rls\<close>.\<close>

definition version_logs_on_disk :: "test_prog \<Rightarrow> (tid_t \<Rightarrow> wait_version list) \<Rightarrow> os \<Rightarrow> bool" where
  "version_logs_on_disk P V s \<longleftrightarrow>
     os_ok s \<and>
     (\<forall>t < tp_nthr P. V t \<noteq> [] \<and> (\<forall>v \<in> set (V t). version_fits v) \<and>
        os_file s (tpath ''version'' t) = Some (concat (map store_wait_version (V t))))"

definition readers_on_disk :: "test_prog \<Rightarrow> replay_wait_memop_log list \<Rightarrow> os \<Rightarrow> bool" where
  "readers_on_disk P rls s \<longleftrightarrow>
     os_ok s \<and> (\<exists>files. files_on_disk files s \<and> load_wait_reader_log (tp_nobj P) files = Some rls)"

definition replay_start :: "test_prog \<Rightarrow> (tid_t \<Rightarrow> wait_version list) \<Rightarrow> replay_wait_memop_log list \<Rightarrow> replay" where
  "replay_start P V rls = replay_init P (\<lambda>t. if t < tp_nthr P then V t else []) rls"

lemma later_version_logs: "later s s1 \<Longrightarrow> version_logs_on_disk P V s \<Longrightarrow> version_logs_on_disk P V s1"
  by (auto simp: later_def version_logs_on_disk_def ext_ok)

lemma replay_mem_init_ok:
  assumes k: "willing k" and f: "readers_on_disk P rls s"
  shows "os_wp (\<lambda>r s1. r = rls \<and> later s s1) (\<lambda>_ _. False) (replay_mem_init_os k (int n) (tp_nobj P) s)"
proof -
  obtain files where f: "files_on_disk files s" "load_wait_reader_log (tp_nobj P) files = Some rls" "os_ok s"
    using f by (auto simp: readers_on_disk_def)
  have "os_wp (\<lambda>r s1. r = rls \<and> later s s1) (\<lambda>_ _. False) (load_wait_reader_log_os k (tp_nobj P) s)"
    using load_reader_os_ok [OF k f(3,1,2)] by (simp add: later_def)
  then show ?thesis
    unfolding replay_mem_init_os_def os_wp_simps calloc_ok [OF k] os_bind.simps
    by (rule os_wp_mono) (simp_all add: later_tick)
qed

lemma replay_init_thrs_ok:
  assumes k: "willing k" and n: "tp_nthr P < 128" and V: "version_logs_on_disk P V s"
  shows "os_wp (\<lambda>s0 _. s0 = replay_start P V rls) (\<lambda>_ _. False) (replay_init_thrs_os k rls P s)"
proof -
  have vers: "os_wp (\<lambda>r _. r = map V [0..<tp_nthr P]) (\<lambda>_ _. False) (version_logs_os k [0..<tp_nthr P] s)"
    using V n by (intro version_logs_ok [OF k]) (simp_all add: version_logs_on_disk_def)
  have eq: "(\<lambda>t. if t < tp_nthr P then map V [0..<tp_nthr P] ! t else []) = (\<lambda>t. if t < tp_nthr P then V t else [])" by auto
  show ?thesis
    unfolding replay_init_thrs_os_def os_wp_simps replay_start_def
    by (rule os_wp_mono [OF vers]) (simp_all only: eq)
qed

lemma replay_init_os_ok:
  assumes k: "willing k" and n: "tp_nthr P < 128" and "version_logs_on_disk P V s" "readers_on_disk P rls s"
  shows "os_wp (\<lambda>s0 _. s0 = replay_start P V rls) (\<lambda>_ _. False) (replay_init_os k P s)"
  unfolding replay_init_os_def os_wp_simps
  by (rule os_wp_mono [OF replay_mem_init_ok [OF k assms(4)]])
    (use replay_init_thrs_ok [OF k n] later_version_logs assms(3) in auto)

section \<open>From the files to a replay\<close>

text \<open>The logs of a recording in the files, and no files of an earlier run; \<open>src/test.sh\<close> removes them.\<close>

definition logs_on_disk :: "test_prog \<Rightarrow> (tid_t \<Rightarrow> thr_rec) \<Rightarrow> os \<Rightarrow> bool" where
  "logs_on_disk P lg s \<longleftrightarrow>
     os_ok s \<and> os_file s (LOGDIR @ ''memop'') = None \<and>
     (\<forall>t < tp_nthr P.
        os_file s (tpath ''version'' t) = Some (concat (map store_wait_version (log_version (lg t)))) \<and>
        os_file s (tpath ''memop'' t) = Some (memop_file (log_memop (lg t))) \<and>
        os_file s (sorted_path t) = None)"

text \<open>Numbers that fit the fields of the entries.\<close>

definition logs_fit :: "test_prog \<Rightarrow> (tid_t \<Rightarrow> thr_rec) \<Rightarrow> bool" where
  "logs_fit P lg \<longleftrightarrow>
     tp_nobj P < 2 ^ 31 \<and> (\<Sum>t<tp_nthr P. length (log_memop (lg t))) < 2 ^ 31 \<and>
     (\<forall>t < tp_nthr P. (\<forall>v \<in> set (log_version (lg t)). version_fits v) \<and> (\<forall>w \<in> set (log_memop (lg t)). memop_fits w))"

text \<open>The recorder writes the two logs of every thread.\<close>

definition order_log_bytes :: "(tid_t \<Rightarrow> thr_rec) \<Rightarrow> log_key \<Rightarrow> byte list list" where
  "order_log_bytes lg key =
     (if fst key = ''version'' then map store_wait_version (log_version (lg (nat (snd key))))
      else map store_wait_memop (log_memop (lg (nat (snd key)))))"

definition no_old_files :: "test_prog \<Rightarrow> os \<Rightarrow> bool" where
  "no_old_files P s \<longleftrightarrow> os_ok s \<and> os_file s (LOGDIR @ ''memop'') = None \<and> (\<forall>t < tp_nthr P. os_file s (sorted_path t) = None)"

lemma order_files_on_disk:
  assumes n: "tp_nthr P \<le> 1000" and s: "no_old_files P s" and s1: "os_ok s1"
    and other: "\<forall>p. p \<notin> path_of ` set (order_log_keys (tp_nthr P)) \<longrightarrow> os_file s1 p = os_file s p"
    and own: "\<forall>key \<in> set (order_log_keys (tp_nthr P)). os_file s1 (path_of key) = Some (concat (order_log_bytes lg key))"
  shows "logs_on_disk P lg s1"
proof -
  let ?K = "set (order_log_keys (tp_nthr P))"
  have "\<exists>t. path_of key = tpath ''version'' t \<or> path_of key = tpath ''memop'' t" if key: "key \<in> ?K" for key
  proof -
    obtain name t where "key = (name, int t)" "t < 1000" "name = ''version'' \<or> name = ''memop''"
      using key n by (auto simp: order_log_keys_def)
    then show ?thesis using path_of_tpath [of t name] by auto
  qed
  then have K: "path_of ` ?K \<subseteq> {p. \<exists>t. p = tpath ''version'' t \<or> p = tpath ''memop'' t}" by blast
  have "LOGDIR @ ''memop'' \<notin> path_of ` ?K" "sorted_path t \<notin> path_of ` ?K" for t using subsetD [OF K] by fastforce+
  then have fresh: "os_file s1 (LOGDIR @ ''memop'') = None" "\<forall>t < tp_nthr P. os_file s1 (sorted_path t) = None"
    using s other by (simp_all add: no_old_files_def)
  have "os_file s1 (tpath ''version'' t) = Some (concat (map store_wait_version (log_version (lg t)))) \<and>
    os_file s1 (tpath ''memop'' t) = Some (memop_file (log_memop (lg t)))" if t: "t < tp_nthr P" for t
  proof -
    have "(''version'', int t) \<in> ?K" "(''memop'', int t) \<in> ?K" using t by (auto simp: order_log_keys_def)
    then show ?thesis using own n t path_of_tpath [of t] by (fastforce simp: order_log_bytes_def memop_file_def)
  qed
  then show ?thesis using s1 fresh by (auto simp: logs_on_disk_def)
qed

lemma order_logs_written:
  assumes "willing k" "k_aligned k" and n: "tp_nthr P \<le> 1000" and s: "no_old_files P s"
    and "logs_used (set (order_log_keys (tp_nthr P))) (order_log_bytes lg) es"
  shows "\<exists>ls1 s1. log_events_os k es ls s = Ret ls1 s1 \<and> logs_on_disk P lg s1"
proof -
  have "os_ok s" using s by (simp add: no_old_files_def)
  from log_events_ok [OF assms(1,2) order_log_keys_ok [OF n] assms(5) this, of ls] order_files_on_disk [OF n s]
  show ?thesis by blast
qed

text \<open>After the script, the files are there from which the run can be replayed.\<close>

lemma process_logs_ok:
  assumes k: "willing k" and q: "min_queue memop_key que_gt sel" and n: "tp_nthr P < 128" and run: "run_of P es"
    and lg: "spec_logs P es lg" and fit: "logs_fit P lg" and d: "logs_on_disk P lg s"
  shows "os_wp (\<lambda>_ s1. \<exists>rls. version_logs_on_disk P (\<lambda>t. log_version (lg t)) s1 \<and> readers_on_disk P rls s1 \<and>
      replay_inv P es (replay_start P (\<lambda>t. log_version (lg t)) rls)) (\<lambda>_ _. False)
    (process_memorder_log_os k v0 sel (tp_nobj P) (tp_nthr P) s)"
proof -
  let ?W = "\<lambda>t. memop_body (tp_nobj P) (taccs (tp_cid P) t es)" and ?n = "tp_nthr P"
  note mono = taccs_mono [OF run_ofD(2) [OF run]]
  have log: "log_version (lg t) = version_spec (taccs (tp_cid P) t es) @ [version_end]" "log_memop (lg t) = ?W t @ [memop_end]"
    if "t < ?n" for t
    using lg that by (simp_all add: spec_logs_def)
  have W: "\<forall>t < ?n. memops_ok (tp_nobj P) (?W t) \<and> os_file s (tpath ''memop'' t) = Some (memop_file (?W t @ [memop_end])) \<and>
      os_file s (sorted_path t) = None"
    using d fit log memop_body_ok [OF mono] memop_body_versions [OF mono]
    by (auto simp: logs_on_disk_def logs_fit_def memops_ok_def)
  have "(\<Sum>t<?n. length (?W t)) \<le> (\<Sum>t<?n. length (log_memop (lg t)))" using log(2) by (intro sum_mono) simp
  then have small: "(\<Sum>t<?n. length (?W t)) < 2 ^ 31" using fit by (simp add: logs_fit_def)
  have os: "os_ok s" "os_file s (LOGDIR @ ''memop'') = None" "tp_nobj P < 2 ^ 31"
    using d fit by (simp_all add: logs_on_disk_def logs_fit_def)
  obtain files rls where p: "process_memorder_log sel (tp_nobj P) (map (\<lambda>t. ?W t @ [memop_end]) [0..<?n]) = Some files"
    "load_wait_reader_log (tp_nobj P) files = Some rls" "readers_ok (tp_cid P) (tp_nobj P) es rls"
    using processed_logs_ok [OF q n run_ofD(1,2) [OF run] refl] by blast
  have V: "\<forall>t < ?n. log_version (lg t) \<noteq> [] \<and> (\<forall>v \<in> set (log_version (lg t)). version_fits v) \<and>
      os_file s (tpath ''version'' t) = Some (concat (map store_wait_version (log_version (lg t))))"
    using d fit log(1) by (auto simp: logs_on_disk_def logs_fit_def)
  have init: "replay_inv P es (replay_start P (\<lambda>t. log_version (lg t)) rls)"
    unfolding replay_start_def using p(3) log(1) by (intro replay_init_inv [OF run]) (simp add: logs_for_def)
  have "version_logs_on_disk P (\<lambda>t. log_version (lg t)) s1 \<and> readers_on_disk P rls s1" if "merged_on_disk (Some files) s s1" for s1
    using that V p(2) ext_ok [OF _ os(1)] by (auto simp: merged_on_disk_def version_logs_on_disk_def readers_on_disk_def)
  then show ?thesis
    using init by (intro os_wp_mono [OF process_os_ok [OF k q n os(3,1) W os(2) small, unfolded p(1)]]) auto
qed

lemma start_replay_os_ok:
  assumes k: "willing k" and q: "min_queue memop_key que_gt sel" and n: "tp_nthr P < 128" and run: "run_of P es"
    and lg: "spec_logs P es lg" and fit: "logs_fit P lg" and d: "logs_on_disk P lg s"
  shows "os_wp (\<lambda>s0 _. replay_inv P es s0) (\<lambda>_ _. False) (start_replay_os k v0 sel P s)"
  unfolding start_replay_os_def os_wp_simps
proof (rule os_wp_mono [OF process_logs_ok [OF assms]])
  fix s1
  assume "\<exists>rls. version_logs_on_disk P (\<lambda>t. log_version (lg t)) s1 \<and> readers_on_disk P rls s1 \<and>
    replay_inv P es (replay_start P (\<lambda>t. log_version (lg t)) rls)"
  then show "os_wp (\<lambda>s0 _. replay_inv P es s0) (\<lambda>_ _. False) (replay_init_os k P s1)"
    by (elim exE conjE) (rule os_wp_mono [OF replay_init_os_ok [OF k n]], auto)
qed simp

end
