(* ===== verification/Disk_Test.thy ===== *)
theory Disk_Test
  imports Disk_Replay Test_Run
begin

text \<open>
  Record and replay through the files. The numbers in the logs of a recording are bounded by its number
  of accesses, so they fit their fields when there are not too many; then a recording that is written,
  processed and loaded again is replayed, and under fair schedules the whole of a test comes to its end.
\<close>

section \<open>The numbers in the logs\<close>

lemma length_concat_le:
  assumes "\<And>x. length (f x) \<le> 1"
  shows "length (concat (map f xs)) \<le> length xs"
proof (induction xs)
  case (Cons x xs)
  then show ?case using assms [of x] by simp
qed simp

lemma length_read_entry: "length (read_entry xs q) \<le> Suc 0"
  by (simp add: read_entry_def split: option.split)

lemma length_memop_body: "length (memop_body nobj xs) \<le> length xs + nobj"
proof -
  have "length (memop_spec xs) \<le> length [0..<length xs]"
    unfolding memop_spec_def by (rule length_concat_le) (simp add: memop_at_def length_read_entry)
  moreover have "length (memop_finish_spec nobj xs) \<le> length [0..<nobj]"
    unfolding memop_finish_spec_def by (rule length_concat_le) (simp add: length_read_entry)
  ultimately show ?thesis by (simp add: memop_body_def)
qed

lemma taccs_version:
  assumes "x \<in> set (taccs cid t es)"
  shows "0 \<le> ta_ver x \<and> ta_ver x \<le> 2 * int (length es)"
proof -
  have "nwrites cid o' (take i es) \<le> length es" for o' i
    unfolding nwrites_def by (metis length_filter_le length_take le_trans min.cobounded1)
  then show ?thesis using assms by (auto simp: taccs_def tacc_of_def ev_ver_def)
qed

lemma thr_cnt_total:
  assumes "\<forall>e \<in> set es. ev_tid e < n"
  shows "(\<Sum>t<n. thr_cnt t es) = length es"
  using assms
proof (induction es)
  case (Cons e es)
  have "(\<Sum>t<n. thr_cnt t (e # es)) = (\<Sum>t<n. (if t = ev_tid e then 1 else 0) + thr_cnt t es)"
    by (rule sum.cong) (auto simp: thr_cnt_def thr_evs_def)
  also have "\<dots> = 1 + length es" using Cons by (simp add: sum.distrib)
  finally show ?case by simp
qed (simp add: thr_cnt_def thr_evs_def)

text \<open>With fewer than \<open>2 ^ 31\<close> entries at most, everything fits.\<close>

lemma spec_logs_fit:
  assumes run: "run_of P es" and lg: "spec_logs P es lg" and small: "(\<Sum>t<tp_nthr P. thr_cnt t es + tp_nobj P + 1) < 2 ^ 31"
    and nobj: "tp_nobj P < 2 ^ 31"
  shows "logs_fit P lg"
proof -
  let ?xs = "\<lambda>t. taccs (tp_cid P) t es" and ?n = "tp_nthr P"
  have log: "log_version (lg t) = version_spec (?xs t) @ [version_end]"
    "log_memop (lg t) = memop_body (tp_nobj P) (?xs t) @ [memop_end]" if "t < ?n" for t
    using lg that by (simp_all add: spec_logs_def)
  have "\<forall>e \<in> set es. ev_tid e < ?n" using run_ofD(1) [OF run] by (metis in_set_conv_nth)
  from thr_cnt_total [OF this] have "length es \<le> (\<Sum>t<?n. thr_cnt t es + tp_nobj P + 1)"
    by (metis (no_types, lifting) le_add1 add.assoc sum_mono)
  then have len: "length es < 2 ^ 31" using small by simp
  have cnt: "length (?xs t) \<le> length es" for t by (simp add: length_taccs thr_cnt_def thr_evs_def)
  have acc: "fits 8 (ta_ver (?xs t ! p)) \<and> fits 8 (int p) \<and> ta_obj (?xs t ! p) < tp_nobj P" if "p < length (?xs t)" for t p
    using taccs_version [OF nth_mem [OF that]] cnt [of t] len that taccs_mono [OF run_ofD(2) [OF run], of t]
    by (auto simp: mono_accs_def fits_def)
  have "fits 8 (-1)" by (simp add: fits_def)
  then have "version_fits v" if "t < ?n" "v \<in> set (log_version (lg t))" for t v
    using that acc [of _ t] by (auto simp: log version_spec_def version_entry_def version_fits_def)
  moreover have "memop_fits w" if t: "t < ?n" "w \<in> set (log_memop (lg t))" for t w
  proof (cases "w = memop_end")
    case False
    then obtain p where "p < length (?xs t)"
      "w = \<lparr>wm_objid = int (ta_obj (?xs t ! p)), wm_version = ta_ver (?xs t ! p), wm_memop = int p\<rparr>"
      using t memop_body_sound [of w "tp_nobj P" "?xs t"] by (auto simp: log)
    then show ?thesis using acc [of p t] nobj by (auto simp: memop_fits_def fits_def)
  qed (simp add: memop_end_fits)
  moreover have "(\<Sum>t<?n. length (log_memop (lg t))) \<le> (\<Sum>t<?n. thr_cnt t es + tp_nobj P + 1)"
    using length_memop_body [of "tp_nobj P" "?xs _"] by (intro sum_mono) (simp add: log length_taccs)
  ultimately show ?thesis using small nobj by (auto simp: logs_fit_def)
qed

text \<open>The number of accesses of a recording, and room for the entries that \<open>mem_finish_thr\<close> adds.\<close>

definition rec_size :: "test_prog \<Rightarrow> 's recording \<Rightarrow> nat" where
  "rec_size P q = (\<Sum>t<tp_nthr P. length (qt_vals (qs_thr q t)) + tp_nobj P + 1)"

text \<open>Threads that end have made no more accesses than they are allowed.\<close>

lemma ends_thr_cnt:
  assumes run: "run_of P es" and "ends P N" "t < tp_nthr P"
  shows "thr_cnt t es \<le> N t"
proof (rule ccontr)
  assume "\<not> thr_cnt t es \<le> N t"
  then have N: "N t < thr_cnt t es" by simp
  then obtain i where i: "i < length es" "ev_tid (es ! i) = t" "ev_memop es i = N t" by (rule thr_pos_ex)
  have "length (thr_vals t es (N t)) = N t" using N by (simp add: thr_vals_def thr_cnt_def)
  then have "tp_code P t (thr_vals t es (N t)) = Finish" using assms(2,3) by (simp add: ends_def)
  then show False using run_ofD(3) [OF run i(1)] i(2,3) by (simp add: ev_act_def split: if_splits)
qed

lemma replay_reach_sched: "fair (tp_nthr P) g \<Longrightarrow> replay_reach P s0 (sched_state (replay_step P) g s0 m)"
  by (induction m) (auto simp: fair_def intro: replay_reach.intros)

section \<open>From a recording to its replay\<close>

context order_recorder
begin

lemma recording_logs_fit:
  assumes ok: "prog_ok P" and r: "rec_reach rtm rec_acc (rec_init (tp_nobj P)) P q" "rec_done P q"
    and size: "tp_nobj P < 2 ^ 31" "rec_size P q < 2 ^ 31"
  shows "\<exists>es. recording_inv rec_acc (rec_init (tp_nobj P)) P es q \<and> run_of P es \<and> complete P es \<and>
    spec_logs P es (rec_logs rec_finish P q) \<and> logs_fit P (rec_logs rec_finish P q)"
proof -
  obtain es where es: "recording_inv rec_acc (rec_init (tp_nobj P)) P es q" using rec_reach_inv [OF r(1) ok] by blast
  note run = rec_done_run [OF es r(2)]
  have spec: "spec_logs P es (rec_logs rec_finish P q)"
    using run_logs [OF taccs_mono [OF run_ofD(2) [OF run(1)]]] run(5)
    by (simp add: spec_logs_def rec_logs_def memop_body_def)
  have "(\<Sum>t<tp_nthr P. thr_cnt t es + tp_nobj P + 1) = rec_size P q"
    unfolding rec_size_def using run(4) by (intro sum.cong) (simp_all add: thr_cnt_def)
  then have "logs_fit P (rec_logs rec_finish P q)" using spec_logs_fit [OF run(1) spec] size by simp
  with es run(1,2) spec show ?thesis by blast
qed

lemma recording_from_disk:
  assumes k: "willing k" and q: "min_queue memop_key que_gt sel" and n: "tp_nthr P < 128" and ok: "prog_ok P"
    and r: "rec_reach rtm rec_acc (rec_init (tp_nobj P)) P q" "rec_done P q"
    and size: "tp_nobj P < 2 ^ 31" "rec_size P q < 2 ^ 31" and d: "logs_on_disk P (rec_logs rec_finish P q) d"
  shows "\<exists>es s0 d1. recording_inv rec_acc (rec_init (tp_nobj P)) P es q \<and> start_replay_os k v0 sel P d = Ret s0 d1 \<and>
    replay_inv P es s0"
proof -
  obtain es where es: "recording_inv rec_acc (rec_init (tp_nobj P)) P es q" "run_of P es"
    "spec_logs P es (rec_logs rec_finish P q)" "logs_fit P (rec_logs rec_finish P q)"
    using recording_logs_fit [OF ok r size] by blast
  from start_replay_os_ok [OF k q n es(2-4) d]
  have "os_wp (\<lambda>s0 _. replay_inv P es s0) (\<lambda>_ _. False) (start_replay_os k v0 sel P d)" .
  with es show ?thesis by (cases "start_replay_os k v0 sel P d") auto
qed

text \<open>From the writing of the logs on: what the replay can reach, and where it gets under a fair schedule.\<close>

lemma recording_through_files:
  assumes k: "willing k" "k_aligned k" and q: "min_queue memop_key que_gt sel" and n: "tp_nthr P < 128" and ok: "prog_ok P"
    and r: "rec_reach rtm rec_acc (rec_init (tp_nobj P)) P q" "rec_done P q"
    and size: "tp_nobj P < 2 ^ 31" "rec_size P q < 2 ^ 31"
    and es: "logs_used (set (order_log_keys (tp_nthr P))) (order_log_bytes (rec_logs rec_finish P q)) es" and d: "no_old_files P d"
  shows "\<exists>ls d1 s0 d2. log_events_os k es Map.empty d = Ret ls d1 \<and> start_replay_os k v0 sel P d1 = Ret s0 d2 \<and>
    (\<forall>s. replay_reach P s0 s \<longrightarrow> replays P q s) \<and>
    (\<forall>g. fair (tp_nthr P) g \<longrightarrow> (\<exists>m. all_done P (sched_state (replay_step P) g s0 m)))"
proof -
  obtain ls d1 where d1: "log_events_os k es Map.empty d = Ret ls d1" "logs_on_disk P (rec_logs rec_finish P q) d1"
    using order_logs_written [OF k _ d es, of Map.empty] n by auto
  obtain es s0 d2 where s0: "recording_inv rec_acc (rec_init (tp_nobj P)) P es q" "start_replay_os k v0 sel P d1 = Ret s0 d2"
    "replay_inv P es s0"
    using recording_from_disk [OF k(1) q n ok r size d1(2), of v0] by blast
  note run = rec_done_run [OF s0(1) r(2)]
  have "\<exists>m. all_done P (sched_state (replay_step P) g s0 m)" if "fair (tp_nthr P) g" for g
    using replayer.fair_finishes [of P es s0 g] s0(3) run(1,2) that by blast
  moreover have "replays P q s" if "replay_reach P s0 s" for s
    using replay_reach_inv [OF that run(1,2) s0(3)] by (rule inv_replays [OF s0(1) r(2)])
  ultimately show ?thesis using d1(1) s0(2) by blast
qed

text \<open>Under a fair schedule a recording ends, and its numbers fit the fields of the entries.\<close>

lemma recording_small:
  assumes ok: "prog_ok P" and N: "ends P N" "(\<Sum>t<tp_nthr P. N t + tp_nobj P + 1) < 2 ^ 31" and f: "fair (tp_nthr P) f"
  obtains j where "rec_done P (rec_sched rec_acc (rec_init (tp_nobj P)) P tx f j)"
    "rec_reach True rec_acc (rec_init (tp_nobj P)) P (rec_sched rec_acc (rec_init (tp_nobj P)) P tx f j)"
    "rec_size P (rec_sched rec_acc (rec_init (tp_nobj P)) P tx f j) < 2 ^ 31"
proof -
  obtain j where j: "rec_done P (rec_sched rec_acc (rec_init (tp_nobj P)) P tx f j)"
    "rec_reach True rec_acc (rec_init (tp_nobj P)) P (rec_sched rec_acc (rec_init (tp_nobj P)) P tx f j)"
    using recording_ends [OF ok N(1) f(1), of tx True] by blast
  let ?q = "rec_sched rec_acc (rec_init (tp_nobj P)) P tx f j"
  obtain es where "recording_inv rec_acc (rec_init (tp_nobj P)) P es ?q" using rec_reach_inv [OF j(2) ok] by blast
  note run = rec_done_run [OF this j(1)]
  have "rec_size P ?q \<le> (\<Sum>t<tp_nthr P. N t + tp_nobj P + 1)"
    unfolding rec_size_def using run(4) ends_thr_cnt [OF run(1) N(1)] by (intro sum_mono) (simp add: thr_cnt_def)
  then have "rec_size P ?q < 2 ^ 31" using N(2) by simp
  with j show thesis by (rule that)
qed

end

end
