(* ===== verification/Commit_Blocks.thy ===== *)
theory Commit_Blocks
  imports Test_Program Record_Log_Impl
begin

text \<open>
  The second way of recording (\<open>src/mem-record-rtmcommit.c\<close>, \<open>src/mem-replay-rtmcommit.c\<close>): a thread's
  accesses form blocks of \<open>RTM_BATCH_N\<close> accesses, a block is atomic, and only the order of the blocks
  is recorded. The theory is the abstract specification that the recorder and the replayer of the
  next theories refine: a sequence of thread numbers, each of which runs one block.
\<close>

section \<open>One block\<close>

text \<open>One access of a thread on its values and the memory.\<close>

definition do_access :: "test_prog \<Rightarrow> tid_t \<Rightarrow> val_t list \<times> mem \<Rightarrow> val_t list \<times> mem" where
  "do_access P t vm =
     (case tp_code P t (fst vm) of
        Read a \<Rightarrow> (fst vm @ [snd vm a], snd vm)
      | Write a v \<Rightarrow> (fst vm @ [v], (snd vm)(a := v))
      | Finish \<Rightarrow> vm)"

text \<open>The first \<open>n\<close> accesses of a block; a thread that ends makes none.\<close>

primrec part_block :: "test_prog \<Rightarrow> tid_t \<Rightarrow> nat \<Rightarrow> val_t list \<times> mem \<Rightarrow> val_t list \<times> mem" where
  "part_block P t 0 vm = vm"
| "part_block P t (Suc n) vm = do_access P t (part_block P t n vm)"

definition run_block :: "test_prog \<Rightarrow> tid_t \<Rightarrow> val_t list \<times> mem \<Rightarrow> val_t list \<times> mem" where
  "run_block P t vm = part_block P t RTM_BATCH_N vm"

lemma N_pos [simp]: "0 < RTM_BATCH_N" "RTM_BATCH_N \<noteq> 0"
  by (simp_all add: RTM_BATCH_N_def)

lemmas part_block_Suc = part_block.simps(2)

declare part_block.simps(2) [simp del]

lemma do_access_Finish [simp]: "tp_code P t (fst vm) = Finish \<Longrightarrow> do_access P t vm = vm"
  by (simp add: do_access_def)

lemma part_block_stop:
  assumes "tp_code P t (fst (part_block P t n vm)) = Finish" "n \<le> m"
  shows "part_block P t m vm = part_block P t n vm"
  using assms(2)
proof (induction m rule: dec_induct)
  case (step m)
  then show ?case using assms(1) by (simp add: part_block_Suc)
qed simp

lemma do_access_length:
  "length (fst (do_access P t vm)) =
     (if tp_code P t (fst vm) = Finish then length (fst vm) else Suc (length (fst vm)))"
  by (simp add: do_access_def split: action.splits)

lemma part_block_grows: "length (fst vm) \<le> length (fst (part_block P t n vm))"
  by (induction n) (auto simp: part_block_Suc do_access_length)

section \<open>A sequence of blocks\<close>

type_synonym cview = "(tid_t \<Rightarrow> val_t list) \<times> mem"

definition part_view :: "test_prog \<Rightarrow> tid_t \<Rightarrow> nat \<Rightarrow> cview \<Rightarrow> cview" where
  "part_view P t n w =
     (let vm = part_block P t n (fst w t, snd w) in ((fst w)(t := fst vm), snd vm))"

definition run_blocks :: "test_prog \<Rightarrow> tid_t list \<Rightarrow> cview" where
  "run_blocks P bs = fold (\<lambda>t. part_view P t RTM_BATCH_N) bs (\<lambda>_. [], tp_mem P)"

lemma run_blocks_Nil [simp]: "run_blocks P [] = (\<lambda>_. [], tp_mem P)"
  by (simp add: run_blocks_def)

lemma run_blocks_snoc: "run_blocks P (bs @ [t]) = part_view P t RTM_BATCH_N (run_blocks P bs)"
  by (simp add: run_blocks_def)

lemma part_view_0 [simp]: "part_view P t 0 w = w"
  by (simp add: part_view_def)

lemma part_view_stop:
  assumes "tp_code P t (fst (part_view P t n w) t) = Finish" "n \<le> m"
  shows "part_view P t m w = part_view P t n w"
  using part_block_stop [OF _ assms(2), of P t "(fst w t, snd w)"] assms(1)
  by (simp add: part_view_def Let_def)

lemma part_view_other: "u \<noteq> t \<Longrightarrow> fst (part_view P t n w) u = fst w u"
  by (simp add: part_view_def Let_def)

lemma part_view_Suc:
  "part_view P t (Suc n) w =
     ((fst (part_view P t n w))(t := fst (do_access P t (fst (part_view P t n w) t, snd (part_view P t n w)))),
      snd (do_access P t (fst (part_view P t n w) t, snd (part_view P t n w))))"
  by (simp add: part_view_def Let_def part_block_Suc)

text \<open>No block is empty, and a block is short only when its thread ends in it.\<close>

definition blocks_ok :: "test_prog \<Rightarrow> tid_t list \<Rightarrow> bool" where
  "blocks_ok P bs \<longleftrightarrow>
     (\<forall>j < length bs. bs ! j < tp_nthr P \<and>
        tp_code P (bs ! j) (fst (run_blocks P (take j bs)) (bs ! j)) \<noteq> Finish)"

lemma blocks_ok_Nil [simp]: "blocks_ok P []"
  by (simp add: blocks_ok_def)

lemma blocks_ok_snoc:
  "blocks_ok P (bs @ [t]) \<longleftrightarrow>
     blocks_ok P bs \<and> t < tp_nthr P \<and> tp_code P t (fst (run_blocks P bs) t) \<noteq> Finish"
  by (auto simp: blocks_ok_def nth_append less_Suc_eq)

text \<open>The positions of a thread's blocks.\<close>

definition blocks_of :: "tid_t \<Rightarrow> tid_t list \<Rightarrow> nat list" where
  "blocks_of t bs = filter (\<lambda>i. bs ! i = t) [0..<length bs]"

lemma blocks_of_Nil [simp]: "blocks_of t [] = []"
  by (simp add: blocks_of_def)

lemma blocks_of_snoc: "blocks_of t (bs @ [u]) = blocks_of t bs @ (if u = t then [length bs] else [])"
proof -
  have "filter (\<lambda>i. (bs @ [u]) ! i = t) [0..<length bs] = filter (\<lambda>i. bs ! i = t) [0..<length bs]"
    by (rule filter_upt_cong_snoc) (simp add: nth_append)
  then show ?thesis by (simp add: blocks_of_def)
qed

text \<open>The number of accesses of a thread, as far as a sequence of blocks goes: a thread that has not
  ended has made whole blocks.\<close>

lemma part_block_length:
  "length (fst (part_block P t n vm)) \<le> length (fst vm) + n \<and>
   (tp_code P t (fst (part_block P t n vm)) \<noteq> Finish \<longrightarrow> length (fst (part_block P t n vm)) = length (fst vm) + n)"
proof (induction n)
  case (Suc n)
  show ?case
  proof (cases "tp_code P t (fst (part_block P t n vm)) = Finish")
    case True
    with Suc show ?thesis by (simp add: part_block_Suc)
  next
    case False
    with Suc show ?thesis by (simp add: part_block_Suc do_access_length)
  qed
qed simp

lemma run_blocks_length:
  assumes "tp_code P t (fst (run_blocks P bs) t) \<noteq> Finish"
  shows "length (fst (run_blocks P bs) t) mod RTM_BATCH_N = 0"
  using assms
proof (induction bs rule: rev_induct)
  case (snoc u bs)
  show ?case
  proof (cases "u = t")
    case True
    let ?w = "run_blocks P bs"
    let ?p = "part_block P t RTM_BATCH_N (fst ?w t, snd ?w)"
    have p: "fst (run_blocks P (bs @ [u])) t = fst ?p" using True by (simp add: run_blocks_snoc part_view_def Let_def)
    then have nf: "tp_code P t (fst ?p) \<noteq> Finish" using snoc.prems by simp
    then have "tp_code P t (fst ?w t) \<noteq> Finish"
      using part_block_stop [of P t 0 "(fst ?w t, snd ?w)" RTM_BATCH_N] by auto
    then have "length (fst ?w t) mod RTM_BATCH_N = 0" by (rule snoc.IH)
    with part_block_length [of P t RTM_BATCH_N "(fst ?w t, snd ?w)"] nf p show ?thesis by simp
  next
    case False
    with snoc show ?thesis by (simp add: run_blocks_snoc part_view_other)
  qed
qed simp

end
