(* ===== verification/Commit_Record.thy ===== *)
theory Commit_Record
  imports Commit_Blocks Spin_Locks
begin

text \<open>
  The recorder of \<open>src/mem-record-rtmcommit.c\<close>. A block runs in a hardware transaction, which is one
  step that commits or aborts; after an abort the block runs under the global ticket lock, access by
  access, while a transaction that finds the lock taken aborts. A block takes its time stamp before
  it commits or unlocks and logs it afterwards.
\<close>

section \<open>The machine\<close>

text \<open>Where a thread stands. In \<open>CRun\<close> it is between two accesses: outside a block when its access
  count is a multiple of \<open>RTM_BATCH_N\<close>, otherwise in a block that runs under the lock. The last four
  belong to \<open>bb_end\<close> under the lock; they carry the value of the access that ends the block, or none
  when \<open>mem_finish_thr\<close> ends it.\<close>

datatype cpc =
    CRun
  | CLock
  | CSpin "16 word"
  | CAccess
  | CTime "val_t option"
  | CTimeStore "val_t option" "64 word"
  | CUnlock "val_t option" "64 word"
  | CLog "val_t option" "64 word"
  | CDone

record cthr =
  ct_pc :: cpc
  ct_vals :: "val_t list"
  g_sim_bbcnt :: nat
  g_commit_log :: "64 word list"

record cstate =
  cs_mem :: mem
  g_time :: "64 word"
  g_lock :: ticketlock
  cs_thr :: "tid_t \<Rightarrow> cthr"

definition commit_init :: "test_prog \<Rightarrow> cstate" where
  "commit_init P =
     \<lparr>cs_mem = tp_mem P, g_time = 0, g_lock = \<lparr>tk_ticket = 0, tk_users = 0\<rparr>,
      cs_thr = (\<lambda>t. \<lparr>ct_pc = CRun, ct_vals = [], g_sim_bbcnt = 0, g_commit_log = []\<rparr>)\<rparr>"

definition set_cthr :: "tid_t \<Rightarrow> cthr \<Rightarrow> cstate \<Rightarrow> cstate" where
  "set_cthr t r s = s\<lparr>cs_thr := (cs_thr s)(t := r)\<rparr>"

definition cgoto :: "tid_t \<Rightarrow> cpc \<Rightarrow> cstate \<Rightarrow> cstate" where
  "cgoto t pc s = set_cthr t ((cs_thr s t)\<lparr>ct_pc := pc\<rparr>) s"

definition log_commit :: "64 word \<Rightarrow> cthr \<Rightarrow> cthr" where
  "log_commit ts r = r\<lparr>g_commit_log := g_commit_log r @ [ts]\<rparr>"

text \<open>A block in a transaction: \<open>bb_start\<close>, the accesses, and \<open>bb_end\<close>, which is called by the last
  access of the block or, when the thread ends inside the block, by \<open>mem_finish_thr\<close>.\<close>

definition commit_tx :: "test_prog \<Rightarrow> tid_t \<Rightarrow> cstate \<Rightarrow> cstate" where
  "commit_tx P t s =
     (let r = cs_thr s t;
          (vs, m) = run_block P t (ct_vals r, cs_mem s);
          cnt = g_sim_bbcnt r + (length vs - length (ct_vals r))
      in if \<not> ticket_lockable (g_lock s) then cgoto t CLock s
         else set_cthr t (log_commit (g_time s)
                (r\<lparr>ct_vals := vs, g_sim_bbcnt := cnt,
                  ct_pc := (if cnt mod RTM_BATCH_N \<noteq> 0 then CDone else CRun)\<rparr>))
                (s\<lparr>cs_mem := m, g_time := g_time s + 1\<rparr>))"

text \<open>The access itself under the lock, and what follows it in \<open>mem_read\<close> and \<open>mem_write\<close>.\<close>

definition after_access :: "tid_t \<Rightarrow> val_t \<Rightarrow> cstate \<Rightarrow> cstate" where
  "after_access t v s =
     (let r = cs_thr s t
      in if g_sim_bbcnt r mod RTM_BATCH_N = RTM_BATCH_N - 1 then cgoto t (CTime (Some v)) s
         else set_cthr t (r\<lparr>ct_vals := ct_vals r @ [v], g_sim_bbcnt := g_sim_bbcnt r + 1, ct_pc := CRun\<rparr>) s)"

definition commit_access :: "test_prog \<Rightarrow> tid_t \<Rightarrow> cstate \<Rightarrow> cstate" where
  "commit_access P t s =
     (case tp_code P t (ct_vals (cs_thr s t)) of
        Read a \<Rightarrow> after_access t (cs_mem s a) s
      | Write a v \<Rightarrow> after_access t v (s\<lparr>cs_mem := (cs_mem s)(a := v)\<rparr>)
      | Finish \<Rightarrow> s)"

text \<open>The return from \<open>bb_end\<close>.\<close>

definition block_return :: "tid_t \<Rightarrow> val_t option \<Rightarrow> 64 word \<Rightarrow> cstate \<Rightarrow> cstate" where
  "block_return t x ts s =
     (let r = log_commit ts (cs_thr s t)
      in case x of
           Some v \<Rightarrow> set_cthr t (r\<lparr>ct_vals := ct_vals r @ [v], g_sim_bbcnt := g_sim_bbcnt r + 1, ct_pc := CRun\<rparr>) s
         | None \<Rightarrow> set_cthr t (r\<lparr>ct_pc := CDone\<rparr>) s)"

text \<open>One step of thread \<open>t\<close>; \<open>tx\<close> says whether a transaction that the thread begins runs to its end.\<close>

definition commit_step :: "test_prog \<Rightarrow> bool \<Rightarrow> tid_t \<Rightarrow> cstate \<Rightarrow> cstate" where
  "commit_step P tx t s =
     (let r = cs_thr s t
      in case ct_pc r of
           CRun \<Rightarrow>
             if tp_code P t (ct_vals r) = Finish
             then if g_sim_bbcnt r mod RTM_BATCH_N \<noteq> 0 then cgoto t (CTime None) s else cgoto t CDone s
             else if g_sim_bbcnt r mod RTM_BATCH_N = 0
             then if tx then commit_tx P t s else cgoto t CLock s
             else cgoto t CAccess s
         | CLock \<Rightarrow> (let (me, l) = ticket_draw (g_lock s) in cgoto t (CSpin me) (s\<lparr>g_lock := l\<rparr>))
         | CSpin me \<Rightarrow> if tk_ticket (g_lock s) \<noteq> me then s else cgoto t CAccess s
         | CAccess \<Rightarrow> commit_access P t s
         | CTime x \<Rightarrow> cgoto t (CTimeStore x (g_time s)) s
         | CTimeStore x ts \<Rightarrow> cgoto t (CUnlock x ts) (s\<lparr>g_time := ts + 1\<rparr>)
         | CUnlock x ts \<Rightarrow> cgoto t (CLog x ts) (s\<lparr>g_lock := ticket_unlock (g_lock s)\<rparr>)
         | CLog x ts \<Rightarrow> block_return t x ts s
         | CDone \<Rightarrow> s)"

inductive commit_reach :: "test_prog \<Rightarrow> cstate \<Rightarrow> bool" for P where
  init: "commit_reach P (commit_init P)"
| step: "commit_reach P s \<Longrightarrow> t < tp_nthr P \<Longrightarrow> commit_reach P (commit_step P tx t s)"

definition commit_done :: "test_prog \<Rightarrow> cstate \<Rightarrow> bool" where
  "commit_done P s \<longleftrightarrow> (\<forall>t < tp_nthr P. ct_pc (cs_thr s t) = CDone)"

definition commit_run :: "test_prog \<Rightarrow> (tid_t \<times> bool) list \<Rightarrow> cstate \<Rightarrow> cstate" where
  "commit_run P sch s = fold (\<lambda>(t, tx). commit_step P tx t) sch s"

lemma commit_reach_run:
  assumes "commit_reach P s" "\<forall>(t, tx) \<in> set sch. t < tp_nthr P"
  shows "commit_reach P (commit_run P sch s)"
  using assms by (induction sch arbitrary: s) (auto simp: commit_run_def intro: commit_reach.step)

section \<open>The invariant\<close>

fun pend_val :: "cpc \<Rightarrow> val_t list" where
  "pend_val (CTime (Some v)) = [v]"
| "pend_val (CTimeStore (Some v) ts) = [v]"
| "pend_val (CUnlock (Some v) ts) = [v]"
| "pend_val (CLog (Some v) ts) = [v]"
| "pend_val pc = []"

fun pend_ts :: "cpc \<Rightarrow> 64 word list" where
  "pend_ts (CUnlock x ts) = [ts]"
| "pend_ts (CLog x ts) = [ts]"
| "pend_ts pc = []"

text \<open>The values of all accesses whose effect is in memory.\<close>

definition cview_of :: "cstate \<Rightarrow> cview" where
  "cview_of s = (\<lambda>u. ct_vals (cs_thr s u) @ pend_val (ct_pc (cs_thr s u)), cs_mem s)"

text \<open>Inside a block under the lock, before and after its last access.\<close>

definition in_block :: "cthr \<Rightarrow> bool" where
  "in_block r \<longleftrightarrow> ct_pc r = CRun \<and> g_sim_bbcnt r mod RTM_BATCH_N \<noteq> 0 \<or> ct_pc r = CAccess"

fun at_time :: "cpc \<Rightarrow> bool" where
  "at_time (CTime x) = True"
| "at_time (CTimeStore x ts) = True"
| "at_time pc = False"

fun at_unlock :: "cpc \<Rightarrow> bool" where
  "at_unlock (CUnlock x ts) = True"
| "at_unlock pc = False"

fun at_spin :: "cpc \<Rightarrow> bool" where
  "at_spin (CSpin me) = True"
| "at_spin pc = False"

definition has_lock :: "cthr \<Rightarrow> bool" where
  "has_lock r \<longleftrightarrow> in_block r \<or> at_time (ct_pc r) \<or> at_unlock (ct_pc r)"

text \<open>The lock's queue: threads with the numbers they have drawn and not yet given back. Only the
  first is past the wait.\<close>

definition queue_inv :: "test_prog \<Rightarrow> cstate \<Rightarrow> (tid_t \<times> 16 word) list \<Rightarrow> bool" where
  "queue_inv P s ql \<longleftrightarrow>
     distinct (map fst ql) \<and> tk_holds (map snd ql) (g_lock s) \<and>
     (\<forall>u. u \<in> fst ` set ql \<longleftrightarrow> u < tp_nthr P \<and> (has_lock (cs_thr s u) \<or> at_spin (ct_pc (cs_thr s u)))) \<and>
     (\<forall>u me m. (u, me) \<in> set ql \<longrightarrow> ct_pc (cs_thr s u) = CSpin m \<longrightarrow> m = me) \<and>
     (\<forall>u < tp_nthr P. has_lock (cs_thr s u) \<longrightarrow> ql \<noteq> [] \<and> fst (hd ql) = u)"

text \<open>A thread: its count, its log, and where it may stand.\<close>

definition ends_block :: "test_prog \<Rightarrow> tid_t \<Rightarrow> val_t option \<Rightarrow> cthr \<Rightarrow> bool" where
  "ends_block P t x r \<longleftrightarrow>
     (case x of
        Some v \<Rightarrow> g_sim_bbcnt r mod RTM_BATCH_N = RTM_BATCH_N - 1
      | None \<Rightarrow> tp_code P t (ct_vals r) = Finish)"

definition cthr_inv :: "test_prog \<Rightarrow> tid_t list \<Rightarrow> tid_t \<Rightarrow> cthr \<Rightarrow> bool" where
  "cthr_inv P bs t r \<longleftrightarrow>
     g_sim_bbcnt r = length (ct_vals r) \<and>
     map of_nat (blocks_of t bs) = g_commit_log r @ pend_ts (ct_pc r) \<and>
     (case ct_pc r of
        CRun \<Rightarrow> True
      | CLock \<Rightarrow> tp_code P t (ct_vals r) \<noteq> Finish \<and> g_sim_bbcnt r mod RTM_BATCH_N = 0
      | CSpin me \<Rightarrow> tp_code P t (ct_vals r) \<noteq> Finish \<and> g_sim_bbcnt r mod RTM_BATCH_N = 0
      | CAccess \<Rightarrow> tp_code P t (ct_vals r) \<noteq> Finish
      | CTime x \<Rightarrow> ends_block P t x r
      | CTimeStore x ts \<Rightarrow> ends_block P t x r
      | CUnlock x ts \<Rightarrow> ends_block P t x r
      | CLog x ts \<Rightarrow> ends_block P t x r
      | CDone \<Rightarrow> tp_code P t (ct_vals r) = Finish)"

text \<open>The blocks so far, and the part of the block that runs under the lock.\<close>

definition view_inv :: "test_prog \<Rightarrow> tid_t list \<Rightarrow> cstate \<Rightarrow> bool" where
  "view_inv P bs s \<longleftrightarrow>
     (let w = run_blocks P bs
      in (\<forall>t < tp_nthr P. in_block (cs_thr s t) \<longrightarrow>
            cview_of s = part_view P t (g_sim_bbcnt (cs_thr s t) mod RTM_BATCH_N) w \<and>
            tp_code P t (fst w t) \<noteq> Finish) \<and>
         (\<forall>t < tp_nthr P. at_time (ct_pc (cs_thr s t)) \<longrightarrow>
            cview_of s = part_view P t RTM_BATCH_N w \<and> tp_code P t (fst w t) \<noteq> Finish \<and>
            (\<forall>x ts. ct_pc (cs_thr s t) = CTimeStore x ts \<longrightarrow> ts = g_time s)) \<and>
         ((\<forall>t < tp_nthr P. \<not> in_block (cs_thr s t) \<and> \<not> at_time (ct_pc (cs_thr s t))) \<longrightarrow> cview_of s = w))"

definition commit_inv :: "test_prog \<Rightarrow> tid_t list \<Rightarrow> (tid_t \<times> 16 word) list \<Rightarrow> cstate \<Rightarrow> bool" where
  "commit_inv P bs ql s \<longleftrightarrow>
     blocks_ok P bs \<and> g_time s = of_nat (length bs) \<and> queue_inv P s ql \<and>
     (\<forall>t < tp_nthr P. cthr_inv P bs t (cs_thr s t)) \<and> view_inv P bs s"

lemma commit_invD:
  assumes "commit_inv P bs ql s"
  shows "blocks_ok P bs" "g_time s = of_nat (length bs)" "queue_inv P s ql"
    and "t < tp_nthr P \<Longrightarrow> cthr_inv P bs t (cs_thr s t)" and "view_inv P bs s"
  using assms by (simp_all add: commit_inv_def)

lemma queue_invD:
  assumes "queue_inv P s ql"
  shows "distinct (map fst ql)" "tk_holds (map snd ql) (g_lock s)"
    and "u \<in> fst ` set ql \<longleftrightarrow> u < tp_nthr P \<and> (has_lock (cs_thr s u) \<or> at_spin (ct_pc (cs_thr s u)))"
    and "(u, me) \<in> set ql \<Longrightarrow> ct_pc (cs_thr s u) = CSpin m \<Longrightarrow> m = me"
    and "u < tp_nthr P \<Longrightarrow> has_lock (cs_thr s u) \<Longrightarrow> ql \<noteq> [] \<and> fst (hd ql) = u"
  using assms unfolding queue_inv_def by blast+

lemma holder_unique:
  assumes "queue_inv P s ql" "t < tp_nthr P" "u < tp_nthr P" "has_lock (cs_thr s t)" "has_lock (cs_thr s u)"
  shows "u = t"
  using assms unfolding queue_inv_def by metis

lemma stages:
  "in_block r \<Longrightarrow> has_lock r" "at_time (ct_pc r) \<Longrightarrow> has_lock r" "at_unlock (ct_pc r) \<Longrightarrow> has_lock r"
  by (simp_all add: has_lock_def)

section \<open>Frames\<close>

lemma set_cthr_view [simp]:
  "cs_mem (set_cthr t r s) = cs_mem s" "g_time (set_cthr t r s) = g_time s" "g_lock (set_cthr t r s) = g_lock s"
  "cs_thr (set_cthr t r s) = (cs_thr s)(t := r)"
  by (simp_all add: set_cthr_def)

lemma cview_set:
  "cview_of (set_cthr t r s) = ((fst (cview_of s))(t := ct_vals r @ pend_val (ct_pc r)), cs_mem s)"
  by (auto simp: cview_of_def fun_eq_iff)

lemma cview_same:
  "ct_vals r @ pend_val (ct_pc r) = fst (cview_of s) t \<Longrightarrow> cview_of (set_cthr t r s) = cview_of s"
  by (simp add: cview_set) (simp add: cview_of_def)

text \<open>The queue does not change when a thread keeps its place in it.\<close>

lemma queue_inv_keep:
  assumes inv: "queue_inv P s ql" and thr: "cs_thr s' = (cs_thr s)(t := r')" and lock: "g_lock s' = g_lock s"
    and same: "has_lock r' = has_lock (cs_thr s t)" "\<not> at_spin (ct_pc r')" "\<not> at_spin (ct_pc (cs_thr s t))"
  shows "queue_inv P s' ql"
proof -
  have h: "has_lock (cs_thr s' u) = has_lock (cs_thr s u)" "at_spin (ct_pc (cs_thr s' u)) = at_spin (ct_pc (cs_thr s u))" for u
    using thr same by simp_all
  have "ct_pc (cs_thr s' u) = CSpin m \<Longrightarrow> ct_pc (cs_thr s u) = CSpin m" for u m
    using thr same(2) by (cases "u = t") auto
  then show ?thesis using inv unfolding queue_inv_def lock h by blast
qed

lemma cthr_inv_frame:
  assumes inv: "\<forall>t < tp_nthr P. cthr_inv P bs t (cs_thr s t)" and thr: "cs_thr s' = (cs_thr s)(t := r')"
    and new: "cthr_inv P bs' t r'" and bs': "bs' = bs \<or> bs' = bs @ [t]"
  shows "\<forall>t < tp_nthr P. cthr_inv P bs' t (cs_thr s' t)"
  using assms by (auto simp: cthr_inv_def blocks_of_snoc)

text \<open>When no other thread is inside a block under the lock, only the thread itself matters.\<close>

definition alone :: "test_prog \<Rightarrow> cstate \<Rightarrow> tid_t \<Rightarrow> bool" where
  "alone P s t \<longleftrightarrow> (\<forall>u < tp_nthr P. u \<noteq> t \<longrightarrow> \<not> in_block (cs_thr s u) \<and> \<not> at_time (ct_pc (cs_thr s u)))"

lemma alone_holder:
  assumes "queue_inv P s ql" "t < tp_nthr P" "has_lock (cs_thr s t)"
  shows "alone P s t"
  using holder_unique [OF assms(1,2) _ assms(3)] stages unfolding alone_def by blast

lemma alone_head:
  assumes "queue_inv P s ql" "fst (hd ql) = t"
  shows "alone P s t"
  using assms stages unfolding queue_inv_def alone_def by blast

lemma view_inv_alone:
  assumes al: "alone P s t" and tn: "t < tp_nthr P" and thr: "cs_thr s' = (cs_thr s)(t := r')"
    and blk: "in_block r' \<Longrightarrow> cview_of s' = part_view P t (g_sim_bbcnt r' mod RTM_BATCH_N) (run_blocks P bs) \<and>
      tp_code P t (fst (run_blocks P bs) t) \<noteq> Finish"
    and tim: "at_time (ct_pc r') \<Longrightarrow> cview_of s' = part_view P t RTM_BATCH_N (run_blocks P bs) \<and>
      tp_code P t (fst (run_blocks P bs) t) \<noteq> Finish \<and> (\<forall>x ts. ct_pc r' = CTimeStore x ts \<longrightarrow> ts = g_time s')"
    and out: "\<not> in_block r' \<Longrightarrow> \<not> at_time (ct_pc r') \<Longrightarrow> cview_of s' = run_blocks P bs"
  shows "view_inv P bs s'"
proof -
  have o': "\<not> in_block (cs_thr s' u) \<and> \<not> at_time (ct_pc (cs_thr s' u))" if "u < tp_nthr P" "u \<noteq> t" for u
    using al that thr by (simp add: alone_def)
  have r: "cs_thr s' t = r'" using thr by simp
  show ?thesis
    unfolding view_inv_def Let_def
  proof (intro conjI allI impI, goal_cases)
    case (1 u)
    with o' r blk show ?case by (cases "u = t") auto
  next
    case (2 u)
    with o' r blk show ?case by (cases "u = t") auto
  next
    case (3 u)
    with o' r tim show ?case by (cases "u = t") auto
  next
    case (4 u)
    with o' r tim show ?case by (cases "u = t") auto
  next
    case (5 u x ts)
    have "u = t" using o' [of u] 5 by auto
    with 5 r tim show ?case by auto
  next
    case 6
    with r tn out show ?case by auto
  qed
qed

lemma view_inv_out:
  assumes inv: "view_inv P bs s" and thr: "cs_thr s' = (cs_thr s)(t := r')"
    and out: "\<not> in_block (cs_thr s t)" "\<not> at_time (ct_pc (cs_thr s t))" "\<not> in_block r'" "\<not> at_time (ct_pc r')"
    and same: "cview_of s' = cview_of s" "g_time s' = g_time s"
  shows "view_inv P bs s'"
proof -
  have eq: "in_block (cs_thr s' u) = in_block (cs_thr s u)" "at_time (ct_pc (cs_thr s' u)) = at_time (ct_pc (cs_thr s u))" for u
    using thr out by simp_all
  have "in_block (cs_thr s u) \<or> at_time (ct_pc (cs_thr s u)) \<Longrightarrow> cs_thr s' u = cs_thr s u" for u
    using thr out by auto
  then show ?thesis
    using inv unfolding view_inv_def Let_def eq same by metis
qed

lemma view_invD:
  assumes "view_inv P bs s" "t < tp_nthr P"
  shows "in_block (cs_thr s t) \<Longrightarrow>
      cview_of s = part_view P t (g_sim_bbcnt (cs_thr s t) mod RTM_BATCH_N) (run_blocks P bs)"
    "in_block (cs_thr s t) \<Longrightarrow> tp_code P t (fst (run_blocks P bs) t) \<noteq> Finish"
    "at_time (ct_pc (cs_thr s t)) \<Longrightarrow> cview_of s = part_view P t RTM_BATCH_N (run_blocks P bs)"
    "at_time (ct_pc (cs_thr s t)) \<Longrightarrow> tp_code P t (fst (run_blocks P bs) t) \<noteq> Finish"
    "ct_pc (cs_thr s t) = CTimeStore x ts \<Longrightarrow> ts = g_time s"
  using assms by (auto simp: view_inv_def Let_def)

lemma view_inv_none:
  assumes "view_inv P bs s" "alone P s t" "\<not> in_block (cs_thr s t)" "\<not> at_time (ct_pc (cs_thr s t))"
  shows "cview_of s = run_blocks P bs"
  using assms unfolding view_inv_def alone_def Let_def by metis

text \<open>A step that commits nothing.\<close>

lemma commit_inv_frame:
  assumes inv: "commit_inv P bs ql s" and thr: "cs_thr s' = (cs_thr s)(t := r')" and time: "g_time s' = g_time s"
    and "cthr_inv P bs t r'" "queue_inv P s' ql'" "view_inv P bs s'"
  shows "commit_inv P bs ql' s'"
proof -
  have "\<forall>t < tp_nthr P. cthr_inv P bs t (cs_thr s' t)"
    using cthr_inv_frame [OF _ thr assms(4)] commit_invD(4) [OF inv] by blast
  then show ?thesis using assms(5,6) commit_invD(1,2) [OF inv] time by (simp add: commit_inv_def)
qed

section \<open>Steps outside a block\<close>

lemma out_step:
  assumes inv: "commit_inv P bs ql s" and tn: "t < tp_nthr P" and s'': "s' = set_cthr t r' s"
    and old: "\<not> has_lock (cs_thr s t)" "\<not> at_spin (ct_pc (cs_thr s t))"
    and new: "\<not> has_lock r'" "\<not> at_spin (ct_pc r')"
    and same: "ct_vals r' @ pend_val (ct_pc r') = ct_vals (cs_thr s t) @ pend_val (ct_pc (cs_thr s t))"
    and thr: "cthr_inv P bs t r'"
  shows "commit_inv P bs ql s'"
proof -
  have view: "cs_thr s' = (cs_thr s)(t := r')" "g_lock s' = g_lock s" "g_time s' = g_time s" using s'' by simp_all
  have "cview_of s' = cview_of s" unfolding s'' using same by (intro cview_same) (simp add: cview_of_def)
  then have "view_inv P bs s'"
    using old new stages(1,2) view by (intro view_inv_out [OF commit_invD(5) [OF inv] view(1)]) auto
  moreover have "queue_inv P s' ql"
    using old new by (intro queue_inv_keep [OF commit_invD(3) [OF inv] view(1,2)]) simp_all
  ultimately show ?thesis using commit_inv_frame [OF inv view(1,3) thr] by blast
qed

lemma lockable_free:
  assumes "queue_inv P s ql" "ticket_lockable (g_lock s)" "u < tp_nthr P"
  shows "\<not> has_lock (cs_thr s u)"
  using assms ticket.holds_lockable [of "map snd ql" "g_lock s"] by (auto simp: queue_inv_def)

lemma tx_step:
  assumes inv: "commit_inv P bs ql s" and tn: "t < tp_nthr P" and nthr: "tp_nthr P < 65536"
    and pc: "ct_pc (cs_thr s t) = CRun" "g_sim_bbcnt (cs_thr s t) mod RTM_BATCH_N = 0"
    and code: "tp_code P t (ct_vals (cs_thr s t)) \<noteq> Finish" and free: "ticket_lockable (g_lock s)"
  shows "\<exists>bs' ql'. commit_inv P bs' ql' (commit_tx P t s)"
proof -
  let ?r = "cs_thr s t" and ?w = "run_blocks P bs"
  note th = commit_invD(4) [OF inv tn]
  note nl = lockable_free [OF commit_invD(3) [OF inv] free]
  then have al: "alone P s t" using stages by (auto simp: alone_def)
  have w: "cview_of s = ?w"
    using view_inv_none [OF commit_invD(5) [OF inv] al] nl [OF tn] stages by blast
  have vm: "fst ?w t = ct_vals ?r" "snd ?w = cs_mem s" using pc by (simp_all add: w [symmetric] cview_of_def)
  obtain vs m where blk: "run_block P t (ct_vals ?r, cs_mem s) = (vs, m)" by fastforce
  have pv: "part_view P t RTM_BATCH_N ?w = ((fst ?w)(t := vs), m)"
    using blk vm by (simp add: part_view_def run_block_def)
  have len: "length (ct_vals ?r) \<le> length vs"
    using part_block_grows [of "(ct_vals ?r, cs_mem s)" P t RTM_BATCH_N] blk by (simp add: run_block_def)
  let ?cnt = "g_sim_bbcnt ?r + (length vs - length (ct_vals ?r))"
  have cnt: "?cnt = length vs" using th len by (simp add: cthr_inv_def)
  let ?pc' = "if ?cnt mod RTM_BATCH_N \<noteq> 0 then CDone else CRun"
  define r' where "r' = log_commit (g_time s) (?r\<lparr>ct_vals := vs, g_sim_bbcnt := ?cnt, ct_pc := ?pc'\<rparr>)"
  define s' where "s' = commit_tx P t s"
  have s'': "s' = set_cthr t r' (s\<lparr>cs_mem := m, g_time := g_time s + 1\<rparr>)"
    using free blk by (simp add: s'_def r'_def commit_tx_def Let_def)
  have view: "cs_thr s' = (cs_thr s)(t := r')" "g_lock s' = g_lock s" "g_time s' = g_time s + 1" using s'' by simp_all
  have rv: "ct_vals r' = vs" "ct_pc r' = ?pc'" "g_sim_bbcnt r' = length vs" "g_commit_log r' = g_commit_log ?r @ [g_time s]"
    using cnt by (simp_all add: r'_def log_commit_def)
  have ok: "blocks_ok P (bs @ [t])" using commit_invD(1) [OF inv] tn code vm by (simp add: blocks_ok_snoc)
  have fin: "tp_code P t vs = Finish" if "length vs mod RTM_BATCH_N \<noteq> 0"
    using run_blocks_length [of P t "bs @ [t]"] that pv by (auto simp: run_blocks_snoc)
  have cth: "cthr_inv P (bs @ [t]) t r'"
    using th rv pc fin commit_invD(2) [OF inv] cnt
    by (cases "length vs mod RTM_BATCH_N = 0") (simp_all add: cthr_inv_def blocks_of_snoc)
  have nb: "\<not> in_block r'" "\<not> at_time (ct_pc r')" "\<not> at_unlock (ct_pc r')"
    using rv cnt by (simp_all add: in_block_def)
  have "fst (cview_of (s\<lparr>cs_mem := m, g_time := g_time s + 1\<rparr>)) = fst ?w"
    by (simp add: w [symmetric] cview_of_def)
  then have "cview_of s' = ((fst ?w)(t := vs), m)"
    using rv by (simp add: s'' cview_set)
  then have vi: "view_inv P (bs @ [t]) s'"
    using nb pv by (intro view_inv_alone [OF al tn view(1)]) (simp_all add: run_blocks_snoc)
  have "queue_inv P s' ql"
    using nb nl [OF tn] pc rv by (intro queue_inv_keep [OF commit_invD(3) [OF inv] view(1,2)]) (simp_all add: has_lock_def)
  moreover have "\<forall>u < tp_nthr P. cthr_inv P (bs @ [t]) u (cs_thr s' u)"
    using cthr_inv_frame [OF _ view(1) cth] commit_invD(4) [OF inv] by blast
  ultimately have "commit_inv P (bs @ [t]) ql s'"
    using ok vi commit_invD(2) [OF inv] view(3) by (simp add: commit_inv_def)
  then show ?thesis unfolding s'_def by blast
qed

section \<open>Steps on the lock\<close>

text \<open>The queue of the threads that wait for the lock, when a thread draws a number.\<close>

lemma queue_length:
  assumes q: "queue_inv P s ql" and t: "t < tp_nthr P" "t \<notin> fst ` set ql"
  shows "length ql < tp_nthr P"
proof -
  have "fst ` set ql \<subseteq> {..<tp_nthr P}" using q by (auto simp: queue_inv_def)
  then have "card (fst ` set ql) < card {..<tp_nthr P}" using t by (intro psubset_card_mono) auto
  moreover have "card (fst ` set ql) = length ql"
    using q distinct_card [of "map fst ql"] by (simp add: queue_inv_def)
  ultimately show ?thesis by simp
qed

lemma queue_draw:
  assumes q: "queue_inv P s ql" and tn: "t < tp_nthr P" "tp_nthr P < 65536" and pc: "ct_pc (cs_thr s t) = CLock"
    and dr: "ticket_draw (g_lock s) = (me, g_lock s')"
    and thr: "cs_thr s' = (cs_thr s)(t := r')" "\<not> has_lock r'" "ct_pc r' = CSpin me"
  shows "queue_inv P s' (ql @ [(t, me)])"
  unfolding queue_inv_def
proof (intro conjI allI impI)
  have nt: "t \<notin> fst ` set ql" using q pc by (simp add: queue_inv_def has_lock_def in_block_def)
  show "distinct (map fst (ql @ [(t, me)]))" using queue_invD(1) [OF q] nt by simp
  have cap: "length (map snd ql) < 65535" using queue_length [OF q tn(1) nt] tn(2) by simp
  show "tk_holds (map snd (ql @ [(t, me)])) (g_lock s')"
    using ticket.holds_draw [OF _ cap dr] q by (simp add: queue_inv_def)
  show "u \<in> fst ` set (ql @ [(t, me)]) \<longleftrightarrow> u < tp_nthr P \<and> (has_lock (cs_thr s' u) \<or> at_spin (ct_pc (cs_thr s' u)))" for u
    using queue_invD(3) [OF q, of u] tn thr by (cases "u = t") simp_all
  show "m = n" if "(u, n) \<in> set (ql @ [(t, me)])" "ct_pc (cs_thr s' u) = CSpin m" for u m n
    using that queue_invD(4) [OF q] thr nt by (cases "u = t") (auto, force)
  fix u assume u: "u < tp_nthr P" "has_lock (cs_thr s' u)"
  then have "u \<noteq> t" using thr by auto
  then have "ql \<noteq> [] \<and> fst (hd ql) = u" using u queue_invD(5) [OF q] thr(1) by simp
  then show "ql @ [(t, me)] \<noteq> []" "fst (hd (ql @ [(t, me)])) = u" by simp_all
qed

lemma draw_step:
  assumes inv: "commit_inv P bs ql s" and tn: "t < tp_nthr P" and nthr: "tp_nthr P < 65536"
    and pc: "ct_pc (cs_thr s t) = CLock" and dr: "ticket_draw (g_lock s) = (me, l)"
  shows "commit_inv P bs (ql @ [(t, me)]) (cgoto t (CSpin me) (s\<lparr>g_lock := l\<rparr>))"
proof -
  let ?r' = "(cs_thr s t)\<lparr>ct_pc := CSpin me\<rparr>"
  define s' where "s' = cgoto t (CSpin me) (s\<lparr>g_lock := l\<rparr>)"
  have view: "cs_thr s' = (cs_thr s)(t := ?r')" "g_lock s' = l" "g_time s' = g_time s" "cs_mem s' = cs_mem s"
    by (simp_all add: s'_def cgoto_def)
  have r': "\<not> has_lock ?r'" by (simp add: has_lock_def in_block_def)
  have "cview_of s' = cview_of s" using pc view by (auto simp: cview_of_def fun_eq_iff)
  then have vi: "view_inv P bs s'"
    using pc r' view by (intro view_inv_out [OF commit_invD(5) [OF inv] view(1)]) (auto simp: in_block_def)
  have "queue_inv P s' (ql @ [(t, me)])"
    using dr view(2) by (intro queue_draw [OF commit_invD(3) [OF inv] tn nthr pc _ view(1) r']) simp_all
  moreover have "cthr_inv P bs t ?r'" using commit_invD(4) [OF inv tn] pc by (auto simp: cthr_inv_def)
  ultimately show ?thesis using commit_inv_frame [OF inv view(1,3) _ _ vi] by (simp add: s'_def)
qed

text \<open>The thread whose number is shown is the first in the queue; it takes the lock.\<close>

lemma queue_turn:
  assumes q: "queue_inv P s ql" and tn: "t < tp_nthr P"
    and pc: "ct_pc (cs_thr s t) = CSpin me" and tk: "tk_ticket (g_lock s) = me"
  shows "ql \<noteq> []" "hd ql = (t, me)"
proof -
  have "t \<in> fst ` set ql" using q pc tn by (simp add: queue_inv_def)
  then obtain n where n: "(t, n) \<in> set ql" by auto
  then have nme: "n = me" using q pc by (auto simp: queue_inv_def)
  show ne: "ql \<noteq> []" using n by auto
  have "me \<in> set (map snd ql)" using n nme by force
  then have "me = hd (map snd ql)" using ticket.holds_turn [of "map snd ql" "g_lock s" me] q tk by (simp add: queue_inv_def)
  then have "snd (hd ql) = me" using ne by (simp add: hd_map)
  moreover have "tk_holds (map snd ql) (g_lock s)" using q by (simp add: queue_inv_def)
  note ticket.holds_distinct [OF this]
  moreover have "hd ql \<in> set ql" using ne by simp
  ultimately show "hd ql = (t, me)"
    using n nme by (metis (no_types) distinct_map inj_onD snd_conv)
qed

lemma queue_take:
  assumes q: "queue_inv P s ql" and tn: "t < tp_nthr P" and pc: "at_spin (ct_pc (cs_thr s t))" "\<not> has_lock (cs_thr s t)"
    and hd: "ql \<noteq> []" "fst (hd ql) = t"
    and view: "cs_thr s' = (cs_thr s)(t := r')" "g_lock s' = g_lock s" "has_lock r'" "\<not> at_spin (ct_pc r')"
  shows "queue_inv P s' ql"
  unfolding queue_inv_def
proof (intro conjI allI impI)
  show "distinct (map fst ql)" "tk_holds (map snd ql) (g_lock s')" using queue_invD(1,2) [OF q] view(2) by simp_all
  show "u \<in> fst ` set ql \<longleftrightarrow> u < tp_nthr P \<and> (has_lock (cs_thr s' u) \<or> at_spin (ct_pc (cs_thr s' u)))" for u
    using queue_invD(3) [OF q, of u] view pc by (cases "u = t") simp_all
  show "k = b" if "(u, b) \<in> set ql" "ct_pc (cs_thr s' u) = CSpin k" for u b k
    using that queue_invD(4) [OF q] view by (cases "u = t") auto
  fix u assume u: "u < tp_nthr P" "has_lock (cs_thr s' u)"
  show "ql \<noteq> []" using hd(1) .
  show "fst (hd ql) = u"
    using u queue_invD(5) [OF q, of u] view(1) hd(2) by (cases "u = t") auto
qed

lemma spin_step:
  assumes inv: "commit_inv P bs ql s" and tn: "t < tp_nthr P"
    and pc: "ct_pc (cs_thr s t) = CSpin me" and tk: "tk_ticket (g_lock s) = me"
  shows "commit_inv P bs ql (cgoto t CAccess s)"
proof -
  let ?r' = "(cs_thr s t)\<lparr>ct_pc := CAccess\<rparr>"
  define s' where "s' = cgoto t CAccess s"
  have s'': "s' = set_cthr t ?r' s" by (simp add: s'_def cgoto_def)
  have view: "cs_thr s' = (cs_thr s)(t := ?r')" "g_lock s' = g_lock s" "g_time s' = g_time s" using s'' by simp_all
  note q = commit_invD(3) [OF inv] and th = commit_invD(4) [OF inv tn]
  note hd = queue_turn [OF q tn pc tk]
  have al: "alone P s t" using alone_head [OF q] hd(2) by simp
  have nl: "\<not> in_block (cs_thr s t)" "\<not> at_time (ct_pc (cs_thr s t))" "\<not> has_lock (cs_thr s t)"
    using pc by (simp_all add: in_block_def has_lock_def)
  have w: "cview_of s = run_blocks P bs" using view_inv_none [OF commit_invD(5) [OF inv] al nl(1,2)] .
  have cs: "cview_of s' = cview_of s" unfolding s'' using pc by (intro cview_same) (simp add: cview_of_def)
  have fw: "fst (run_blocks P bs) t = ct_vals (cs_thr s t)" using pc by (simp add: w [symmetric] cview_of_def)
  have vi: "view_inv P bs s'"
    using th pc cs w fw by (intro view_inv_alone [OF al tn view(1)]) (auto simp: cthr_inv_def in_block_def)
  have "queue_inv P s' ql"
    using pc hd by (intro queue_take [OF q tn _ nl(3) hd(1) _ view(1,2)]) (simp_all add: has_lock_def in_block_def)
  moreover have "cthr_inv P bs t ?r'" using th pc by (simp add: cthr_inv_def)
  ultimately show ?thesis using commit_inv_frame [OF inv view(1,3) _ _ vi] by (simp add: s'_def)
qed

text \<open>The holder leaves the queue.\<close>

lemma queue_unlock:
  assumes q: "queue_inv P s ((t, me) # ql)" and tn: "t < tp_nthr P" and hl: "has_lock (cs_thr s t)"
    and view: "cs_thr s' = (cs_thr s)(t := r')" "g_lock s' = ticket_unlock (g_lock s)" "\<not> has_lock r'" "\<not> at_spin (ct_pc r')"
  shows "queue_inv P s' ql"
  unfolding queue_inv_def
proof (intro conjI allI impI)
  show "distinct (map fst ql)" using q by (simp add: queue_inv_def)
  show "tk_holds (map snd ql) (g_lock s')"
    using q view(2) ticket.holds_unlock [of me "map snd ql" "g_lock s"] by (simp add: queue_inv_def)
  have nt: "t \<notin> fst ` set ql" using queue_invD(1) [OF q] by simp
  show "u \<in> fst ` set ql \<longleftrightarrow> u < tp_nthr P \<and> (has_lock (cs_thr s' u) \<or> at_spin (ct_pc (cs_thr s' u)))" for u
    using queue_invD(3) [OF q, of u] nt view by (cases "u = t") simp_all
  show "k = b" if "(u, b) \<in> set ql" "ct_pc (cs_thr s' u) = CSpin k" for u b k
  proof -
    have "u \<noteq> t" using that(1) nt by force
    then show ?thesis using that view(1) queue_invD(4) [OF q, of u b k] by simp
  qed
  fix u assume u: "u < tp_nthr P" "has_lock (cs_thr s' u)"
  then have "u \<noteq> t \<and> has_lock (cs_thr s u)" using view by (cases "u = t") simp_all
  with holder_unique [OF q tn u(1) hl] have False by blast
  then show "ql \<noteq> []" "fst (hd ql) = u" by blast+
qed

lemma unlock_commit:
  assumes inv: "commit_inv P bs ql s" and tn: "t < tp_nthr P" and pc: "ct_pc (cs_thr s t) = CUnlock x ts"
  shows "commit_inv P bs (tl ql) (cgoto t (CLog x ts) (s\<lparr>g_lock := ticket_unlock (g_lock s)\<rparr>))"
proof -
  let ?r' = "(cs_thr s t)\<lparr>ct_pc := CLog x ts\<rparr>"
  define s' where "s' = cgoto t (CLog x ts) (s\<lparr>g_lock := ticket_unlock (g_lock s)\<rparr>)"
  have view: "cs_thr s' = (cs_thr s)(t := ?r')" "g_lock s' = ticket_unlock (g_lock s)" "g_time s' = g_time s"
    "cs_mem s' = cs_mem s" by (simp_all add: s'_def cgoto_def)
  note q = commit_invD(3) [OF inv] and th = commit_invD(4) [OF inv tn]
  have hl: "has_lock (cs_thr s t)" using pc by (simp add: has_lock_def)
  then have "ql \<noteq> []" "fst (hd ql) = t" using q tn by (auto simp: queue_inv_def)
  then obtain me ql' where ql: "ql = (t, me) # ql'" by (cases ql) auto
  have r': "\<not> has_lock ?r'" "\<not> at_spin (ct_pc ?r')" by (simp_all add: has_lock_def in_block_def)
  have "cview_of s' = cview_of s"
    using pc view by (cases x) (auto simp: cview_of_def fun_eq_iff)
  then have vi: "view_inv P bs s'"
    using pc r' view by (intro view_inv_out [OF commit_invD(5) [OF inv] view(1)]) (auto simp: in_block_def)
  have "cthr_inv P bs t ?r'" using th pc by (auto simp: cthr_inv_def ends_block_def split: option.splits)
  from commit_inv_frame [OF inv view(1,3) this queue_unlock [OF q [unfolded ql] tn hl view(1,2) r'] vi]
  show ?thesis using ql by (simp add: s'_def)
qed

section \<open>Steps of the holder of the lock\<close>

lemma held_step:
  assumes inv: "commit_inv P bs ql s" and tn: "t < tp_nthr P"
    and view: "cs_thr s' = (cs_thr s)(t := r')" "g_lock s' = g_lock s"
    and held: "has_lock (cs_thr s t)" "has_lock r'" "\<not> at_spin (ct_pc (cs_thr s t))" "\<not> at_spin (ct_pc r')"
    and bs': "bs' = bs \<or> bs' = bs @ [t]" "blocks_ok P bs'" "g_time s' = of_nat (length bs')"
    and thr: "cthr_inv P bs' t r'" and vi: "view_inv P bs' s'"
  shows "commit_inv P bs' ql s'"
proof -
  have "queue_inv P s' ql"
    using held by (intro queue_inv_keep [OF commit_invD(3) [OF inv] view]) simp_all
  moreover have "\<forall>t < tp_nthr P. cthr_inv P bs' t (cs_thr s' t)"
    using cthr_inv_frame [OF _ view(1) thr bs'(1)] commit_invD(4) [OF inv] by blast
  ultimately show ?thesis using bs' vi by (simp add: commit_inv_def)
qed

lemma held_alone:
  assumes "commit_inv P bs ql s" "t < tp_nthr P" "has_lock (cs_thr s t)"
  shows "alone P s t"
  using alone_holder [OF commit_invD(3) [OF assms(1)] assms(2,3)] .

text \<open>The thread ends inside the block.\<close>

lemma commit_finish_step:
  assumes inv: "commit_inv P bs ql s" and tn: "t < tp_nthr P"
    and pc: "ct_pc (cs_thr s t) = CRun" "g_sim_bbcnt (cs_thr s t) mod RTM_BATCH_N \<noteq> 0"
    and code: "tp_code P t (ct_vals (cs_thr s t)) = Finish"
  shows "commit_inv P bs ql (cgoto t (CTime None) s)"
proof -
  let ?r = "cs_thr s t" and ?w = "run_blocks P bs"
  let ?r' = "?r\<lparr>ct_pc := CTime None\<rparr>"
  define s' where "s' = cgoto t (CTime None) s"
  have s'': "s' = set_cthr t ?r' s" by (simp add: s'_def cgoto_def)
  have view: "cs_thr s' = (cs_thr s)(t := ?r')" "g_lock s' = g_lock s" "g_time s' = g_time s" using s'' by simp_all
  have ib: "in_block ?r" using pc by (simp add: in_block_def)
  note hl = stages(1) [OF ib] and th = commit_invD(4) [OF inv tn]
  note v = view_invD(1,2) [OF commit_invD(5) [OF inv] tn ib]
  have "fst (part_view P t (g_sim_bbcnt ?r mod RTM_BATCH_N) ?w) t = ct_vals ?r"
    using pc(1) by (simp add: v(1) [symmetric] cview_of_def)
  then have st: "part_view P t RTM_BATCH_N ?w = cview_of s"
    using part_view_stop [of P t "g_sim_bbcnt ?r mod RTM_BATCH_N" ?w RTM_BATCH_N] code by (simp add: v(1))
  have cs: "cview_of s' = cview_of s" unfolding s'' using pc by (intro cview_same) (simp add: cview_of_def)
  have vi: "view_inv P bs s'"
    using cs st v(2) by (intro view_inv_alone [OF held_alone [OF inv tn hl] tn view(1)]) (auto simp: in_block_def)
  have "commit_inv P bs ql s'"
    using th pc code view(3) commit_invD(1,2) [OF inv]
    by (intro held_step [OF inv tn view(1,2) hl _ _ _ _ _ _ _ vi]) (auto simp: has_lock_def cthr_inv_def ends_block_def)
  then show ?thesis by (simp add: s'_def)
qed

lemma commit_enter_step:
  assumes inv: "commit_inv P bs ql s" and tn: "t < tp_nthr P"
    and pc: "ct_pc (cs_thr s t) = CRun" "g_sim_bbcnt (cs_thr s t) mod RTM_BATCH_N \<noteq> 0"
    and code: "tp_code P t (ct_vals (cs_thr s t)) \<noteq> Finish"
  shows "commit_inv P bs ql (cgoto t CAccess s)"
proof -
  let ?r' = "(cs_thr s t)\<lparr>ct_pc := CAccess\<rparr>"
  define s' where "s' = cgoto t CAccess s"
  have s'': "s' = set_cthr t ?r' s" by (simp add: s'_def cgoto_def)
  have view: "cs_thr s' = (cs_thr s)(t := ?r')" "g_lock s' = g_lock s" "g_time s' = g_time s" using s'' by simp_all
  have ib: "in_block (cs_thr s t)" using pc by (simp add: in_block_def)
  note hl = stages(1) [OF ib] and th = commit_invD(4) [OF inv tn]
  note v = view_invD(1,2) [OF commit_invD(5) [OF inv] tn ib]
  have cs: "cview_of s' = cview_of s" unfolding s'' using pc by (intro cview_same) (simp add: cview_of_def)
  have vi: "view_inv P bs s'"
    using cs v by (intro view_inv_alone [OF held_alone [OF inv tn hl] tn view(1)]) (auto simp: in_block_def)
  have "commit_inv P bs ql s'"
    using th pc code view(3) commit_invD(1,2) [OF inv]
    by (intro held_step [OF inv tn view(1,2) hl _ _ _ _ _ _ _ vi]) (auto simp: has_lock_def in_block_def cthr_inv_def)
  then show ?thesis by (simp add: s'_def)
qed

text \<open>An access under the lock is the next access of the block.\<close>

lemma access_view:
  assumes inv: "commit_inv P bs ql s" and tn: "t < tp_nthr P" and pc: "ct_pc (cs_thr s t) = CAccess"
    and da: "do_access P t (ct_vals (cs_thr s t), cs_mem s) = (ct_vals (cs_thr s t) @ [v], m)"
  shows "part_view P t (Suc (g_sim_bbcnt (cs_thr s t) mod RTM_BATCH_N)) (run_blocks P bs) =
    ((fst (cview_of s))(t := ct_vals (cs_thr s t) @ [v]), m)"
proof -
  have ib: "in_block (cs_thr s t)" using pc by (simp add: in_block_def)
  have "(fst (cview_of s) t, snd (cview_of s)) = (ct_vals (cs_thr s t), cs_mem s)" using pc by (simp add: cview_of_def)
  then show ?thesis
    using view_invD(1) [OF commit_invD(5) [OF inv] tn ib] da by (simp add: part_view_Suc)
qed

lemma after_access_step:
  assumes inv: "commit_inv P bs ql s" and tn: "t < tp_nthr P" and pc: "ct_pc (cs_thr s t) = CAccess"
    and da: "do_access P t (ct_vals (cs_thr s t), cs_mem s) = (ct_vals (cs_thr s t) @ [v], m)"
    and code: "tp_code P t (ct_vals (cs_thr s t)) \<noteq> Finish"
  shows "commit_inv P bs ql (after_access t v (s\<lparr>cs_mem := m\<rparr>))"
proof -
  let ?r = "cs_thr s t" and ?w = "run_blocks P bs"
  let ?k = "g_sim_bbcnt ?r mod RTM_BATCH_N"
  define s' where "s' = after_access t v (s\<lparr>cs_mem := m\<rparr>)"
  have ib: "in_block ?r" using pc by (simp add: in_block_def)
  note hl = stages(1) [OF ib] and th = commit_invD(4) [OF inv tn]
  note v = view_invD(2) [OF commit_invD(5) [OF inv] tn ib]
  define r' where "r' = (if ?k = RTM_BATCH_N - 1 then ?r\<lparr>ct_pc := CTime (Some v)\<rparr>
     else ?r\<lparr>ct_vals := ct_vals ?r @ [v], g_sim_bbcnt := g_sim_bbcnt ?r + 1, ct_pc := CRun\<rparr>)"
  have s'': "s' = set_cthr t r' (s\<lparr>cs_mem := m\<rparr>)" by (simp add: s'_def r'_def after_access_def cgoto_def Let_def)
  have view: "cs_thr s' = (cs_thr s)(t := r')" "g_lock s' = g_lock s" "g_time s' = g_time s" using s'' by simp_all
  have r': "ct_vals r' @ pend_val (ct_pc r') = ct_vals ?r @ [v]" by (simp add: r'_def)
  have "fst (cview_of (s\<lparr>cs_mem := m\<rparr>)) = fst (cview_of s)" by (simp add: cview_of_def)
  then have cv: "cview_of s' = part_view P t (Suc ?k) ?w"
    unfolding s'' access_view [OF inv tn pc da] cview_set r' by simp
  have kN: "?k < RTM_BATCH_N" by simp
  have mod: "Suc (g_sim_bbcnt ?r) mod RTM_BATCH_N = Suc ?k" if "?k \<noteq> RTM_BATCH_N - 1"
    using that kN by (simp add: mod_Suc)
  have sk: "Suc ?k = RTM_BATCH_N" if "?k = RTM_BATCH_N - 1" using that by simp
  have al: "alone P s t" by (rule held_alone [OF inv tn hl])
  have vi: "view_inv P bs s'"
  proof (cases "?k = RTM_BATCH_N - 1")
    case True
    then show ?thesis
      using cv sk v by (intro view_inv_alone [OF al tn view(1)]) (simp_all add: r'_def in_block_def)
  next
    case False
    then show ?thesis
      using cv mod v by (intro view_inv_alone [OF al tn view(1)]) (simp_all add: r'_def in_block_def)
  qed
  have hl': "has_lock r'" using mod by (simp add: r'_def has_lock_def in_block_def)
  have "cthr_inv P bs t r'" using th pc by (auto simp: cthr_inv_def r'_def ends_block_def)
  then have "commit_inv P bs ql s'"
    using pc view(3) commit_invD(1,2) [OF inv] hl'
    by (intro held_step [OF inv tn view(1,2) hl hl' _ _ _ _ _ _ vi]) (simp_all add: r'_def)
  then show ?thesis by (simp add: s'_def)
qed

lemma access_step:
  assumes inv: "commit_inv P bs ql s" and tn: "t < tp_nthr P" and pc: "ct_pc (cs_thr s t) = CAccess"
  shows "commit_inv P bs ql (commit_access P t s)"
proof -
  have code: "tp_code P t (ct_vals (cs_thr s t)) \<noteq> Finish"
    using commit_invD(4) [OF inv tn] pc by (simp add: cthr_inv_def)
  show ?thesis
  proof (cases "tp_code P t (ct_vals (cs_thr s t))")
    case (Read a)
    have "commit_inv P bs ql (after_access t (cs_mem s a) (s\<lparr>cs_mem := cs_mem s\<rparr>))"
      using Read code by (intro after_access_step [OF inv tn pc]) (simp_all add: do_access_def)
    then show ?thesis using Read by (simp add: commit_access_def)
  next
    case (Write a v)
    have "commit_inv P bs ql (after_access t v (s\<lparr>cs_mem := (cs_mem s)(a := v)\<rparr>))"
      using Write code by (intro after_access_step [OF inv tn pc]) (simp_all add: do_access_def)
    then show ?thesis using Write by (simp add: commit_access_def)
  qed (use code in simp)
qed

text \<open>The time stamp.\<close>

lemma time_step:
  assumes inv: "commit_inv P bs ql s" and tn: "t < tp_nthr P" and pc: "ct_pc (cs_thr s t) = CTime x"
  shows "commit_inv P bs ql (cgoto t (CTimeStore x (g_time s)) s)"
proof -
  let ?r' = "(cs_thr s t)\<lparr>ct_pc := CTimeStore x (g_time s)\<rparr>"
  define s' where "s' = cgoto t (CTimeStore x (g_time s)) s"
  have s'': "s' = set_cthr t ?r' s" by (simp add: s'_def cgoto_def)
  have view: "cs_thr s' = (cs_thr s)(t := ?r')" "g_lock s' = g_lock s" "g_time s' = g_time s" using s'' by simp_all
  have at: "at_time (ct_pc (cs_thr s t))" using pc by simp
  note hl = stages(2) [OF at] and th = commit_invD(4) [OF inv tn]
  note v = view_invD(3,4) [OF commit_invD(5) [OF inv] tn at]
  have cs: "cview_of s' = cview_of s" unfolding s'' using pc by (intro cview_same) (cases x; simp add: cview_of_def)
  have vi: "view_inv P bs s'"
    using cs v view by (intro view_inv_alone [OF held_alone [OF inv tn hl] tn view(1)]) (auto simp: in_block_def)
  have "commit_inv P bs ql s'"
    using th pc view(3) commit_invD(1,2) [OF inv]
    by (intro held_step [OF inv tn view(1,2) hl _ _ _ _ _ _ _ vi])
      (auto simp: has_lock_def cthr_inv_def ends_block_def split: option.splits)
  then show ?thesis by (simp add: s'_def)
qed

lemma commit_store_step:
  assumes inv: "commit_inv P bs ql s" and tn: "t < tp_nthr P" and pc: "ct_pc (cs_thr s t) = CTimeStore x ts"
  shows "commit_inv P (bs @ [t]) ql (cgoto t (CUnlock x ts) (s\<lparr>g_time := ts + 1\<rparr>))"
proof -
  let ?r = "cs_thr s t"
  let ?r' = "?r\<lparr>ct_pc := CUnlock x ts\<rparr>"
  define s' where "s' = cgoto t (CUnlock x ts) (s\<lparr>g_time := ts + 1\<rparr>)"
  have view: "cs_thr s' = (cs_thr s)(t := ?r')" "g_lock s' = g_lock s" "g_time s' = ts + 1" "cs_mem s' = cs_mem s"
    by (simp_all add: s'_def cgoto_def)
  have at: "at_time (ct_pc ?r)" using pc by simp
  note hl = stages(2) [OF at] and th = commit_invD(4) [OF inv tn]
  note v = view_invD(3,4) [OF commit_invD(5) [OF inv] tn at]
  have ts: "ts = of_nat (length bs)"
    using view_invD(5) [OF commit_invD(5) [OF inv] tn pc] commit_invD(2) [OF inv] by simp
  have cs: "cview_of s' = cview_of s" using pc view by (cases x) (auto simp: cview_of_def fun_eq_iff)
  have vi: "view_inv P (bs @ [t]) s'"
    using cs v(1) by (intro view_inv_alone [OF held_alone [OF inv tn hl] tn view(1)]) (auto simp: in_block_def run_blocks_snoc)
  have "commit_inv P (bs @ [t]) ql s'"
    using th pc view(3) commit_invD(1) [OF inv] tn v(2) ts
    by (intro held_step [OF inv tn view(1,2) hl _ _ _ _ _ _ _ vi])
      (auto simp: has_lock_def cthr_inv_def ends_block_def blocks_ok_snoc blocks_of_snoc split: option.splits)
  then show ?thesis by (simp add: s'_def)
qed

lemma log_step:
  assumes inv: "commit_inv P bs ql s" and tn: "t < tp_nthr P" and pc: "ct_pc (cs_thr s t) = CLog x ts"
  shows "commit_inv P bs ql (block_return t x ts s)"
proof -
  note th = commit_invD(4) [OF inv tn]
  define r' where "r' = (case x of
      Some v \<Rightarrow> (log_commit ts (cs_thr s t))\<lparr>ct_vals := ct_vals (cs_thr s t) @ [v],
        g_sim_bbcnt := g_sim_bbcnt (cs_thr s t) + 1, ct_pc := CRun\<rparr>
    | None \<Rightarrow> (log_commit ts (cs_thr s t))\<lparr>ct_pc := CDone\<rparr>)"
  have s'': "block_return t x ts s = set_cthr t r' s"
    by (simp add: r'_def block_return_def log_commit_def Let_def split: option.splits)
  have mod: "Suc (g_sim_bbcnt (cs_thr s t)) mod RTM_BATCH_N = 0" if "x = Some v" for v
    using th pc that by (auto simp: cthr_inv_def ends_block_def mod_Suc)
  have nl: "\<not> has_lock (cs_thr s t)" using pc by (simp add: has_lock_def in_block_def)
  have nl': "\<not> has_lock r'" using mod by (auto simp: r'_def has_lock_def in_block_def split: option.splits)
  have c: "cthr_inv P bs t r'"
    using th pc by (auto simp: cthr_inv_def r'_def log_commit_def ends_block_def split: option.splits)
  have same: "ct_vals r' @ pend_val (ct_pc r') = ct_vals (cs_thr s t) @ pend_val (ct_pc (cs_thr s t))"
    using pc by (simp add: r'_def log_commit_def split: option.splits)
  show ?thesis
    using pc by (intro out_step [OF inv tn s'' nl _ nl' _ same c]) (simp_all add: r'_def split: option.splits)
qed

section \<open>The invariant holds\<close>

lemma goto_out_step:
  assumes inv: "commit_inv P bs ql s" and tn: "t < tp_nthr P"
    and pc: "ct_pc (cs_thr s t) = CRun" "g_sim_bbcnt (cs_thr s t) mod RTM_BATCH_N = 0"
    and pc': "pc' = CLock \<and> tp_code P t (ct_vals (cs_thr s t)) \<noteq> Finish \<or>
      pc' = CDone \<and> tp_code P t (ct_vals (cs_thr s t)) = Finish"
  shows "commit_inv P bs ql (cgoto t pc' s)"
proof (rule out_step [OF inv tn, of _ "(cs_thr s t)\<lparr>ct_pc := pc'\<rparr>"])
  show "cgoto t pc' s = set_cthr t ((cs_thr s t)\<lparr>ct_pc := pc'\<rparr>) s" by (simp add: cgoto_def)
  show "cthr_inv P bs t ((cs_thr s t)\<lparr>ct_pc := pc'\<rparr>)"
    using commit_invD(4) [OF inv tn] pc pc' by (auto simp: cthr_inv_def)
qed (use pc pc' in \<open>auto simp: has_lock_def in_block_def\<close>)

lemma commit_tx_abort: "\<not> ticket_lockable (g_lock s) \<Longrightarrow> commit_tx P t s = cgoto t CLock s"
  by (simp add: commit_tx_def split: prod.splits)

lemma commit_run_step:
  assumes inv: "commit_inv P bs ql s" and tn: "t < tp_nthr P" and nthr: "tp_nthr P < 65536"
    and pc: "ct_pc (cs_thr s t) = CRun"
  shows "\<exists>bs' ql'. commit_inv P bs' ql' (commit_step P tx t s)"
proof (cases "g_sim_bbcnt (cs_thr s t) mod RTM_BATCH_N = 0")
  case True
  note go = goto_out_step [OF inv tn pc True]
  show ?thesis
  proof (cases "tp_code P t (ct_vals (cs_thr s t)) \<noteq> Finish \<and> tx \<and> ticket_lockable (g_lock s)")
    case c: True
    with tx_step [OF inv tn nthr pc True] pc True show ?thesis by (simp add: commit_step_def)
  next
    case False
    then have "commit_step P tx t s =
        cgoto t (if tp_code P t (ct_vals (cs_thr s t)) = Finish then CDone else CLock) s"
      using pc True by (auto simp: commit_step_def commit_tx_abort Let_def)
    then have "commit_inv P bs ql (commit_step P tx t s)"
      using go [of "if tp_code P t (ct_vals (cs_thr s t)) = Finish then CDone else CLock"] by simp
    then show ?thesis by blast
  qed
next
  case False
  then have "commit_inv P bs ql (commit_step P tx t s)"
    using commit_finish_step [OF inv tn pc False] commit_enter_step [OF inv tn pc False] pc
    by (simp add: commit_step_def Let_def)
  then show ?thesis by blast
qed

lemma commit_step_inv:
  assumes inv: "commit_inv P bs ql s" and tn: "t < tp_nthr P" and nthr: "tp_nthr P < 65536"
  shows "\<exists>bs' ql'. commit_inv P bs' ql' (commit_step P tx t s)"
proof (cases "ct_pc (cs_thr s t)")
  case CRun
  then show ?thesis by (rule commit_run_step [OF inv tn nthr])
next
  case CLock
  obtain me l where dr: "ticket_draw (g_lock s) = (me, l)" by fastforce
  have "commit_step P tx t s = cgoto t (CSpin me) (s\<lparr>g_lock := l\<rparr>)"
    using CLock dr by (simp add: commit_step_def Let_def)
  then show ?thesis using draw_step [OF inv tn nthr CLock dr] by metis
next
  case (CSpin me)
  then have "commit_step P tx t s = (if tk_ticket (g_lock s) \<noteq> me then s else cgoto t CAccess s)"
    by (simp add: commit_step_def Let_def)
  then show ?thesis using spin_step [OF inv tn CSpin] inv by metis
next
  case CAccess
  then have "commit_step P tx t s = commit_access P t s" by (simp add: commit_step_def Let_def)
  then show ?thesis using access_step [OF inv tn CAccess] by metis
next
  case (CTime x)
  then have "commit_step P tx t s = cgoto t (CTimeStore x (g_time s)) s" by (simp add: commit_step_def Let_def)
  then show ?thesis using time_step [OF inv tn CTime] by metis
next
  case (CTimeStore x ts)
  then have "commit_step P tx t s = cgoto t (CUnlock x ts) (s\<lparr>g_time := ts + 1\<rparr>)"
    by (simp add: commit_step_def Let_def)
  then show ?thesis using commit_store_step [OF inv tn CTimeStore] by metis
next
  case (CUnlock x ts)
  then have "commit_step P tx t s = cgoto t (CLog x ts) (s\<lparr>g_lock := ticket_unlock (g_lock s)\<rparr>)"
    by (simp add: commit_step_def Let_def)
  then show ?thesis using unlock_commit [OF inv tn CUnlock] by metis
next
  case (CLog x ts)
  then have "commit_step P tx t s = block_return t x ts s" by (simp add: commit_step_def Let_def)
  then show ?thesis using log_step [OF inv tn CLog] by metis
next
  case CDone
  then have "commit_step P tx t s = s" by (simp add: commit_step_def Let_def)
  then show ?thesis using inv by metis
qed

lemma commit_init_inv: "commit_inv P [] [] (commit_init P)"
  by (simp add: commit_inv_def commit_init_def queue_inv_def tk_holds_def has_lock_def in_block_def
      cthr_inv_def view_inv_def cview_of_def)

lemma commit_reach_inv:
  assumes "commit_reach P s" "tp_nthr P < 65536"
  shows "\<exists>bs ql. commit_inv P bs ql s"
  using assms(1)
proof induction
  case init
  then show ?case using commit_init_inv by blast
next
  case (step s t tx)
  then show ?case using commit_step_inv [OF _ _ assms(2)] by blast
qed

text \<open>What a complete recording has seen.\<close>

definition commit_seen :: "test_prog \<Rightarrow> tid_t list \<Rightarrow> cstate \<Rightarrow> bool" where
  "commit_seen P bs s \<longleftrightarrow>
     blocks_ok P bs \<and> cs_mem s = snd (run_blocks P bs) \<and>
     (\<forall>t < tp_nthr P. ct_vals (cs_thr s t) = fst (run_blocks P bs) t \<and>
        tp_code P t (fst (run_blocks P bs) t) = Finish \<and>
        g_commit_log (cs_thr s t) = map of_nat (blocks_of t bs))"

lemma commit_done_seen:
  assumes reach: "commit_reach P s" and fin: "commit_done P s" and nthr: "tp_nthr P < 65536"
  shows "\<exists>bs. commit_seen P bs s"
proof -
  obtain bs ql where inv: "commit_inv P bs ql s" using commit_reach_inv [OF reach nthr] by blast
  have d: "ct_pc (cs_thr s t) = CDone" if "t < tp_nthr P" for t using fin that by (simp add: commit_done_def)
  then have cv: "cview_of s = run_blocks P bs"
    using commit_invD(5) [OF inv] by (simp add: view_inv_def Let_def in_block_def)
  have v: "ct_vals (cs_thr s t) = fst (run_blocks P bs) t" if "t < tp_nthr P" for t
    using d [OF that] by (simp add: cv [symmetric] cview_of_def)
  have "tp_code P t (ct_vals (cs_thr s t)) = Finish \<and> g_commit_log (cs_thr s t) = map of_nat (blocks_of t bs)"
    if "t < tp_nthr P" for t
    using commit_invD(4) [OF inv that] d [OF that] by (simp add: cthr_inv_def)
  moreover have "cs_mem s = snd (run_blocks P bs)" by (simp add: cv [symmetric] cview_of_def)
  ultimately show ?thesis using commit_invD(1) [OF inv] v by (auto simp: commit_seen_def)
qed

end
