(* ===== verification/Merge_Commit.thy ===== *)
theory Merge_Commit
  imports Commit_Blocks Merge_Memop
begin

text \<open>
  \<open>src/merge-commit.cpp\<close>: the threads' logs of commit time stamps are merged into one log, the order
  in which the threads run their blocks. The theory models \<open>main\<close> with the opening of the logs
  and shows that the logs of a sequence of blocks give the sequence back.
\<close>

section \<open>The program\<close>

text \<open>\<open>operator>\<close> of \<open>q_ent\<close>.\<close>

definition ts_gt :: "64 word que_ent \<Rightarrow> 64 word que_ent \<Rightarrow> bool" where
  "ts_gt a b \<longleftrightarrow> snd a > snd b"

datatype merge_commit_error = Nthr_assert | Mmap_empty_log

text \<open>A log file is missing (\<open>None\<close>), or \<open>open_mapped_log\<close> maps it. A file of length zero cannot be
  mapped: the program exits. (The theory \<open>Commit_Files\<close> has the calls of \<open>open_mapped_log\<close>, and the exit
  from them.)\<close>

definition open_commit_log :: "64 word list option \<Rightarrow> merge_commit_error + 64 word list option" where
  "open_commit_log file = (if file = Some [] then Inl Mmap_empty_log else Inr file)"

fun open_commit_logs :: "64 word list option list \<Rightarrow> merge_commit_error + 64 word list option list" where
  "open_commit_logs [] = Inr []"
| "open_commit_logs (file # files) =
     (case open_commit_log file of
        Inl e \<Rightarrow> Inl e
      | Inr l \<Rightarrow> (case open_commit_logs files of Inl e \<Rightarrow> Inl e | Inr ls \<Rightarrow> Inr (l # ls)))"

definition ts_entries :: "64 word list option \<Rightarrow> 64 word list" where
  "ts_entries l = (case l of None \<Rightarrow> [] | Some ts \<Rightarrow> ts)"

text \<open>The loop writes one thread number per time stamp; its body never stops the program.\<close>

definition merge_commit ::
  "(64 word que_ent list \<Rightarrow> nat) \<Rightarrow> 64 word list option list \<Rightarrow> int \<Rightarrow> merge_commit_error + tid_t list" where
  "merge_commit sel log nthr =
     (if int (length log) \<noteq> nthr then Inl Nthr_assert
      else let (q, rest) = queue_init (map ts_entries log)
           in Inr (the (pq_loop sel (\<lambda>e commitlog. Some (commitlog @ [fst e])) q rest [])))"

text \<open>\<open>main\<close>; \<open>nthr\<close> is the argument, \<open>files\<close> the logs of the threads below it.\<close>

definition merge_commit_main ::
  "(64 word que_ent list \<Rightarrow> nat) \<Rightarrow> int \<Rightarrow> 64 word list option list \<Rightarrow> merge_commit_error + tid_t list" where
  "merge_commit_main sel nthr files =
     (case open_commit_logs files of
        Inl e \<Rightarrow> Inl e
      | Inr log \<Rightarrow> merge_commit sel log (to_tid_t nthr))"

section \<open>The order of the blocks\<close>

interpretation ts_queue: min_queue id ts_gt "first_least ts_gt"
  by (rule first_least_min_queue) (simp add: ts_gt_def)

text \<open>The blocks with their time stamps.\<close>

definition stamped :: "tid_t list \<Rightarrow> 64 word que_ent list" where
  "stamped bs = map (\<lambda>i. (bs ! i, of_nat i)) [0..<length bs]"

lemma stamped_snoc: "stamped (bs @ [u]) = stamped bs @ [(u, of_nat (length bs))]"
  by (simp add: stamped_def nth_append)

lemma map_fst_stamped [simp]: "map fst (stamped bs) = bs"
  by (induction bs rule: rev_induct) (simp_all add: stamped_snoc, simp add: stamped_def)

lemma of_nat_64_mono:
  assumes "i < j" "j < 2 ^ 64"
  shows "(of_nat i :: 64 word) < of_nat j"
  using assms by (simp add: word_less_nat_alt unat_of_nat take_bit_nat_eq_self)

lemma stamped_sorted:
  assumes "length bs < 2 ^ 64"
  shows "sorted_wrt (<) (map snd (stamped bs))"
  using assms by (auto simp: stamped_def sorted_wrt_iff_nth_less intro!: of_nat_64_mono)

lemma blocks_mset:
  assumes "set bs \<subseteq> {..<n}"
  shows "(\<Sum>t<n. mset (map (Pair t) (map of_nat (blocks_of t bs)))) = mset (stamped bs)"
  using assms
proof (induction bs rule: rev_induct)
  case Nil
  then show ?case by (simp add: stamped_def)
next
  case (snoc u bs)
  let ?x = "(u, of_nat (length bs)) :: 64 word que_ent"
  have "(\<Sum>t<n. mset (map (Pair t) (map of_nat (blocks_of t (bs @ [u]))))) =
      (\<Sum>t<n. mset (map (Pair t) (map of_nat (blocks_of t bs))) + (if u = t then {#?x#} else {#}))"
    by (rule sum.cong) (simp_all add: blocks_of_snoc)
  also have "\<dots> = mset (stamped bs) + (\<Sum>t<n. if u = t then {#?x#} else {#})"
    using snoc by (simp add: sum.distrib)
  also have "(\<Sum>t<n. if u = t then {#?x#} else {#}) = {#?x#}" using snoc.prems by simp
  finally show ?case by (simp add: stamped_snoc)
qed

lemma blocks_of_sorted:
  assumes "length bs < 2 ^ 64"
  shows "sorted (map id (map of_nat (blocks_of t bs) :: 64 word list))"
proof -
  have "sorted_wrt (<) (blocks_of t bs)" unfolding blocks_of_def by (rule sorted_wrt_filter) simp
  moreover have "i < length bs" if "i \<in> set (blocks_of t bs)" for i using that by (simp add: blocks_of_def)
  ultimately show ?thesis
    using assms by (fastforce simp: sorted_map intro: less_imp_le of_nat_64_mono elim!: sorted_wrt_mono_rel [rotated])
qed

text \<open>Two lists with the same entries that are sorted by distinct keys are the same.\<close>

lemma sorted_keys_unique:
  fixes xs :: "('a \<times> 'k :: linorder) list"
  assumes "mset xs = mset ys" "sorted (map snd xs)" "sorted_wrt (<) (map snd ys)"
  shows "xs = ys"
proof -
  have sy: "sorted (map snd ys)" "distinct (map snd ys)" using assms(3) by (simp_all add: strict_sorted_iff)
  have "mset (map snd xs) = mset (map snd ys)" using assms(1) by simp
  then have "map snd xs = map snd ys" using assms(2) sy(1) by (metis properties_for_sort)
  moreover have "set xs = set ys" using assms(1) by (metis set_mset_mset)
  moreover have "inj_on snd (set ys)" using sy(2) by (simp add: distinct_map)
  ultimately show ?thesis by (metis map_inj_on sup.idem)
qed

lemma kmerge_blocks:
  assumes q: "min_queue id ts_gt sel" and bs: "set bs \<subseteq> {..<n}" "length bs < 2 ^ 64"
    and i: "queue_init (map (\<lambda>t. map of_nat (blocks_of t bs)) [0..<n]) = (pq, rest)"
  shows "kmerge sel pq rest = stamped bs"
proof (rule sorted_keys_unique)
  note m = min_queue.merged_sorted [OF q i]
  show "mset (kmerge sel pq rest) = mset (stamped bs)"
    using m(2) blocks_mset [OF bs(1)] blocks_of_sorted [OF bs(2)] by simp
  show "sorted (map snd (kmerge sel pq rest))"
    using m(1) blocks_of_sorted [OF bs(2)] by simp
  show "sorted_wrt (<) (map snd (stamped bs))" by (rule stamped_sorted [OF bs(2)])
qed

lemma fold_opt_fst: "fold_opt (\<lambda>e out. Some (out @ [fst e])) es acc = Some (acc @ map fst es)"
  by (induction es arbitrary: acc) simp_all

lemma open_commit_logs_ok: "Some [] \<notin> set files \<Longrightarrow> open_commit_logs files = Inr files"
  by (induction files) (auto simp: open_commit_log_def)

lemma open_commit_logs_empty: "Some [] \<in> set files \<Longrightarrow> open_commit_logs files = Inl Mmap_empty_log"
  by (induction files) (auto simp: open_commit_log_def split: sum.splits)

lemma merge_commit_ok:
  assumes q: "min_queue id ts_gt sel" and bs: "set bs = {..<n}" "length bs < 2 ^ 64" and n: "n < 128"
  shows "merge_commit_main sel (int n) (map (\<lambda>t. Some (map of_nat (blocks_of t bs))) [0..<n]) = Inr bs"
proof -
  let ?files = "map (\<lambda>t. Some (map of_nat (blocks_of t bs)) :: 64 word list option) [0..<n]"
  have "blocks_of t bs \<noteq> []" if "t < n" for t
  proof -
    have "t \<in> set bs" using bs(1) that by simp
    then obtain i where "i < length bs" "bs ! i = t" by (auto simp: in_set_conv_nth)
    then have "i \<in> set (blocks_of t bs)" by (simp add: blocks_of_def)
    then show ?thesis by auto
  qed
  then have o: "open_commit_logs ?files = Inr ?files" by (intro open_commit_logs_ok) auto
  obtain pq rest where i: "queue_init (map (\<lambda>t. map of_nat (blocks_of t bs) :: 64 word list) [0..<n]) = (pq, rest)"
    by fastforce
  have e: "map ts_entries ?files = map (\<lambda>t. map of_nat (blocks_of t bs)) [0..<n]" by (simp add: ts_entries_def)
  have "kmerge sel pq rest = stamped bs" using kmerge_blocks [OF q _ bs(2) i] bs(1) by simp
  then show ?thesis
    using n by (simp add: merge_commit_main_def merge_commit_def o e i pq_loop_kmerge fold_opt_fst to_tid_t_small
        del: map_map)
qed

section \<open>Properties\<close>

text \<open>C29: \<open>merge-commit\<close> recovers the order of the blocks. When the threads' logs hold the positions
  of their blocks in a sequence as 64-bit time stamps, and every thread has a block, the program
  writes exactly the sequence, whichever least entry its queue returns.\<close>

theorem merge_commit_order:
  assumes "min_queue id ts_gt sel" "set bs = {..<n}" "length bs < 2 ^ 64" "n < 128"
  shows "merge_commit_main sel (int n) (map (\<lambda>t. Some (map of_nat (blocks_of t bs))) [0..<n]) = Inr bs"
  using assms by (rule merge_commit_ok)

theorem merge_commit_order_witness:
  "merge_commit_main (first_least ts_gt) (int 3)
     (map (\<lambda>t. Some (map of_nat (blocks_of t [1, 0, 2, 1, 0]))) [0..<3]) = Inr [1, 0, 2, 1, 0]"
  by (rule merge_commit_order [OF ts_queue.min_queue_axioms]) auto

end
