(* ===== verification/Commit_Replay.thy ===== *)
theory Commit_Replay
  imports Commit_Blocks Fair_Schedule "HOL-Library.Sublist" "HOL-Library.Signed_Division"
begin

text \<open>
  The replayer of \<open>src/mem-replay-rtmcommit.c\<close>: a thread waits at the start of a block until the
  commit log says that it is its turn, and reads the next entry of the log at the end of the block.
  One step is one access to the data the threads share: \<open>g_next_thr\<close>, the read position of
  \<open>g_commit_log\<close>, and the memory.
\<close>

section \<open>The machine\<close>

text \<open>Between two accesses, at the assertion and the access of \<open>mem_read\<close> and \<open>mem_write\<close>, in
  \<open>read_next_thr\<close> (with the value of the access that ends the block, or none when \<open>mem_finish_thr\<close>
  ends it), and at the end.\<close>

datatype kpc =
    KRun
  | KAssert
  | KAccess
  | KRead "val_t option"
  | KAdvance "val_t option" nat
  | KSet "val_t option" nat
  | KDone
  | KFault

record kthr =
  kt_pc :: kpc
  kt_vals :: "val_t list"
  kt_bbcnt :: "32 word"

record kstate =
  ks_mem :: mem
  ks_log :: "tid_t list"
  ks_pos :: nat
  g_next_thr :: tid_t
  ks_thr :: "tid_t \<Rightarrow> kthr"

text \<open>\<open>g_sim_bbcnt % RTM_BATCH_N\<close>: the counter is an \<open>int\<close> here (the recorder has an \<open>int64_t\<close>), and the
  remainder of C has the sign of the counter, which wraps around.\<close>

definition bb_pos :: "kthr \<Rightarrow> int" where
  "bb_pos r = sint (kt_bbcnt r) smod int RTM_BATCH_N"

text \<open>\<open>mem_init\<close> with the first call of \<open>read_next_thr\<close>. A log that cannot be opened is empty; a file
  of length zero cannot be mapped and the program exits (\<open>None\<close>).\<close>

definition commit_replay_init :: "test_prog \<Rightarrow> tid_t list option \<Rightarrow> kstate option" where
  "commit_replay_init P file =
     (if file = Some [] then None
      else let log = (case file of None \<Rightarrow> [] | Some l \<Rightarrow> l)
           in Some \<lparr>ks_mem = tp_mem P, ks_log = log,
                ks_pos = (if log = [] then 0 else 1), g_next_thr = (if log = [] then 0 else hd log),
                ks_thr = (\<lambda>t. \<lparr>kt_pc = KRun, kt_vals = [], kt_bbcnt = 0\<rparr>)\<rparr>)"

definition set_kthr :: "tid_t \<Rightarrow> kthr \<Rightarrow> kstate \<Rightarrow> kstate" where
  "set_kthr t r s = s\<lparr>ks_thr := (ks_thr s)(t := r)\<rparr>"

definition kgoto :: "tid_t \<Rightarrow> kpc \<Rightarrow> kstate \<Rightarrow> kstate" where
  "kgoto t pc s = set_kthr t ((ks_thr s t)\<lparr>kt_pc := pc\<rparr>) s"

text \<open>The return from \<open>read_next_thr\<close>.\<close>

definition kreturn :: "tid_t \<Rightarrow> val_t option \<Rightarrow> kstate \<Rightarrow> kstate" where
  "kreturn t x s =
     (let r = ks_thr s t
      in case x of
           Some v \<Rightarrow> set_kthr t (r\<lparr>kt_vals := kt_vals r @ [v], kt_bbcnt := kt_bbcnt r + 1, kt_pc := KRun\<rparr>) s
         | None \<Rightarrow> set_kthr t (r\<lparr>kt_pc := KDone\<rparr>) s)"

definition read_next_thr :: "tid_t \<Rightarrow> kstate \<Rightarrow> kstate" where
  "read_next_thr t s =
     (case kt_pc (ks_thr s t) of
        KRead x \<Rightarrow> if length (ks_log s) \<le> ks_pos s then kreturn t x s else kgoto t (KAdvance x (ks_pos s)) s
      | KAdvance x n \<Rightarrow> kgoto t (KSet x n) (s\<lparr>ks_pos := n + 1\<rparr>)
      | KSet x n \<Rightarrow> kreturn t x (s\<lparr>g_next_thr := ks_log s ! n\<rparr>)
      | _ \<Rightarrow> s)"

text \<open>What follows the access in \<open>mem_read\<close> and \<open>mem_write\<close>.\<close>

definition kafter :: "tid_t \<Rightarrow> val_t \<Rightarrow> kstate \<Rightarrow> kstate" where
  "kafter t v s =
     (let r = ks_thr s t
      in if bb_pos r = int RTM_BATCH_N - 1 then kgoto t (KRead (Some v)) s
         else set_kthr t (r\<lparr>kt_vals := kt_vals r @ [v], kt_bbcnt := kt_bbcnt r + 1, kt_pc := KRun\<rparr>) s)"

definition commit_mem_read :: "tid_t \<Rightarrow> addr_t \<Rightarrow> kstate \<Rightarrow> kstate" where
  "commit_mem_read t addr s =
     (case kt_pc (ks_thr s t) of
        KRun \<Rightarrow>
          if bb_pos (ks_thr s t) = 0 \<and> g_next_thr s \<noteq> t then s else kgoto t KAssert s
      | KAssert \<Rightarrow> if g_next_thr s \<noteq> t then kgoto t KFault s else kgoto t KAccess s
      | KAccess \<Rightarrow> kafter t (ks_mem s addr) s
      | _ \<Rightarrow> read_next_thr t s)"

definition commit_mem_write :: "tid_t \<Rightarrow> addr_t \<Rightarrow> val_t \<Rightarrow> kstate \<Rightarrow> kstate" where
  "commit_mem_write t addr val s =
     (case kt_pc (ks_thr s t) of
        KRun \<Rightarrow>
          if bb_pos (ks_thr s t) = 0 \<and> g_next_thr s \<noteq> t then s else kgoto t KAssert s
      | KAssert \<Rightarrow> if g_next_thr s \<noteq> t then kgoto t KFault s else kgoto t KAccess s
      | KAccess \<Rightarrow> kafter t val (s\<lparr>ks_mem := (ks_mem s)(addr := val)\<rparr>)
      | _ \<Rightarrow> read_next_thr t s)"

definition commit_finish_thr :: "tid_t \<Rightarrow> kstate \<Rightarrow> kstate" where
  "commit_finish_thr t s =
     (case kt_pc (ks_thr s t) of
        KRun \<Rightarrow> if bb_pos (ks_thr s t) \<noteq> 0 then kgoto t (KRead None) s else kgoto t KDone s
      | _ \<Rightarrow> read_next_thr t s)"

text \<open>One step of thread \<open>t\<close>.\<close>

definition commit_replay_step :: "test_prog \<Rightarrow> tid_t \<Rightarrow> kstate \<Rightarrow> kstate" where
  "commit_replay_step P t s =
     (case kt_pc (ks_thr s t) of
        KDone \<Rightarrow> s
      | KFault \<Rightarrow> s
      | _ \<Rightarrow> (case tp_code P t (kt_vals (ks_thr s t)) of
                Read a \<Rightarrow> commit_mem_read t a s
              | Write a v \<Rightarrow> commit_mem_write t a v s
              | Finish \<Rightarrow> commit_finish_thr t s))"

inductive commit_replay_reach :: "test_prog \<Rightarrow> kstate \<Rightarrow> kstate \<Rightarrow> bool" for P s0 where
  init: "commit_replay_reach P s0 s0"
| step: "commit_replay_reach P s0 s \<Longrightarrow> t < tp_nthr P \<Longrightarrow> commit_replay_reach P s0 (commit_replay_step P t s)"

definition commit_replay_done :: "test_prog \<Rightarrow> kstate \<Rightarrow> bool" where
  "commit_replay_done P s \<longleftrightarrow> (\<forall>t < tp_nthr P. kt_pc (ks_thr s t) = KDone)"

lemmas commit_replay_defs =
  set_kthr_def kgoto_def read_next_thr_def commit_mem_read_def commit_mem_write_def commit_finish_thr_def
  commit_replay_step_def

section \<open>The invariant\<close>

text \<open>\<open>j\<close> blocks are complete. A thread that is not at block \<open>j\<close> stands between two blocks or is over.\<close>

definition counted :: "kthr \<Rightarrow> bool" where
  "counted r \<longleftrightarrow> kt_bbcnt r = of_nat (length (kt_vals r)) \<and> length (kt_vals r) < 2 ^ 31"

lemma RTM_pos: "0 < RTM_BATCH_N"
  by (simp add: RTM_BATCH_N_def)

lemma sint_of_nat_small: "n < 2 ^ 31 \<Longrightarrow> sint (of_nat n :: 32 word) = int n"
  by (simp add: signed_of_nat signed_take_bit_int_eq_self)

lemma bb_pos_counted: "counted r \<Longrightarrow> bb_pos r = int (length (kt_vals r) mod RTM_BATCH_N)"
  by (cases "kt_vals r = []") (simp_all add: counted_def bb_pos_def signed_modulo_int_def sint_of_nat_small zmod_int)

lemma bb_pos_iff:
  assumes "counted r"
  shows "bb_pos r = 0 \<longleftrightarrow> length (kt_vals r) mod RTM_BATCH_N = 0"
    and "bb_pos r = int RTM_BATCH_N - 1 \<longleftrightarrow> length (kt_vals r) mod RTM_BATCH_N = RTM_BATCH_N - 1"
  using bb_pos_counted [OF assms] by (auto simp: RTM_BATCH_N_def)

lemma counted_pc [simp]: "counted (r\<lparr>kt_pc := pc\<rparr>) = counted r"
  by (simp add: counted_def)

lemma bb_pos_pc [simp]: "bb_pos (r\<lparr>kt_pc := pc\<rparr>) = bb_pos r"
  by (simp add: bb_pos_def)

lemma counted_next:
  "counted r \<Longrightarrow> Suc (length (kt_vals r)) < 2 ^ 31 \<Longrightarrow>
     counted (r\<lparr>kt_vals := kt_vals r @ [v], kt_bbcnt := kt_bbcnt r + 1, kt_pc := pc\<rparr>)"
  by (simp add: counted_def)

definition resting :: "test_prog \<Rightarrow> cview \<Rightarrow> tid_t \<Rightarrow> kthr \<Rightarrow> bool" where
  "resting P w t r \<longleftrightarrow>
     kt_vals r = fst w t \<and> counted r \<and>
     (kt_pc r = KRun \<and> length (kt_vals r) mod RTM_BATCH_N = 0 \<or> kt_pc r = KDone \<and> tp_code P t (kt_vals r) = Finish)"

definition block_end :: "test_prog \<Rightarrow> tid_t \<Rightarrow> val_t option \<Rightarrow> kthr \<Rightarrow> bool" where
  "block_end P t x r \<longleftrightarrow>
     (case x of
        Some v \<Rightarrow> length (kt_vals r) mod RTM_BATCH_N = RTM_BATCH_N - 1 \<and> tp_code P t (kt_vals r) \<noteq> Finish
      | None \<Rightarrow> tp_code P t (kt_vals r) = Finish)"

definition whole_block :: "test_prog \<Rightarrow> tid_t \<Rightarrow> cview \<Rightarrow> val_t option \<Rightarrow> kthr \<Rightarrow> mem \<Rightarrow> bool" where
  "whole_block P t w x r m \<longleftrightarrow>
     (kt_vals r @ (case x of Some v \<Rightarrow> [v] | None \<Rightarrow> []), m) = run_block P t (fst w t, snd w) \<and> block_end P t x r"

definition busy :: "test_prog \<Rightarrow> tid_t list \<Rightarrow> nat \<Rightarrow> kstate \<Rightarrow> bool" where
  "busy P bs j s \<longleftrightarrow>
     (let t = bs ! j; r = ks_thr s t; w = run_blocks P (take j bs);
          part = (kt_vals r, ks_mem s) = part_block P t (length (kt_vals r) mod RTM_BATCH_N) (fst w t, snd w)
      in counted r \<and>
         (case kt_pc r of
            KRun \<Rightarrow> ks_pos s = j + 1 \<and> part
          | KAssert \<Rightarrow> ks_pos s = j + 1 \<and> part \<and> tp_code P t (kt_vals r) \<noteq> Finish
          | KAccess \<Rightarrow> ks_pos s = j + 1 \<and> part \<and> tp_code P t (kt_vals r) \<noteq> Finish
          | KRead x \<Rightarrow> ks_pos s = j + 1 \<and> whole_block P t w x r (ks_mem s)
          | KAdvance x n \<Rightarrow> n = j + 1 \<and> j + 1 < length bs \<and> whole_block P t w x r (ks_mem s)
          | KSet x n \<Rightarrow> n = j + 1 \<and> ks_pos s = j + 2 \<and> j + 1 < length bs \<and> whole_block P t w x r (ks_mem s)
          | KDone \<Rightarrow> False
          | KFault \<Rightarrow> False))"

text \<open>No thread makes so many accesses that its counter overflows.\<close>

definition blocks_small :: "test_prog \<Rightarrow> tid_t list \<Rightarrow> bool" where
  "blocks_small P bs \<longleftrightarrow> (\<forall>t < tp_nthr P. length (fst (run_blocks P bs) t) < 2 ^ 31)"

definition commit_replay_inv :: "test_prog \<Rightarrow> tid_t list \<Rightarrow> nat \<Rightarrow> kstate \<Rightarrow> bool" where
  "commit_replay_inv P bs j s \<longleftrightarrow>
     j \<le> length bs \<and> ks_log s = bs \<and> blocks_small P bs \<and>
     (j < length bs \<longrightarrow> g_next_thr s = bs ! j \<and> busy P bs j s) \<and>
     (j = length bs \<longrightarrow> ks_mem s = snd (run_blocks P bs)) \<and>
     (\<forall>t < tp_nthr P. (j < length bs \<longrightarrow> t \<noteq> bs ! j) \<longrightarrow> resting P (run_blocks P (take j bs)) t (ks_thr s t))"

text \<open>The sequences of blocks that are complete runs.\<close>

definition blocks_complete :: "test_prog \<Rightarrow> tid_t list \<Rightarrow> bool" where
  "blocks_complete P bs \<longleftrightarrow>
     blocks_ok P bs \<and> (\<forall>t < tp_nthr P. tp_code P t (fst (run_blocks P bs) t) = Finish)"

lemma commit_replay_invD:
  assumes "commit_replay_inv P bs j s"
  shows "j \<le> length bs" "ks_log s = bs" "j < length bs \<Longrightarrow> g_next_thr s = bs ! j" "j < length bs \<Longrightarrow> busy P bs j s"
    and "j = length bs \<Longrightarrow> ks_mem s = snd (run_blocks P bs)"
    and "t < tp_nthr P \<Longrightarrow> j = length bs \<or> t \<noteq> bs ! j \<Longrightarrow> resting P (run_blocks P (take j bs)) t (ks_thr s t)"
    and "blocks_small P bs"
  using assms by (auto simp: commit_replay_inv_def)

lemma blocks_okD:
  assumes "blocks_ok P bs" "j < length bs"
  shows "bs ! j < tp_nthr P" "tp_code P (bs ! j) (fst (run_blocks P (take j bs)) (bs ! j)) \<noteq> Finish"
  using assms by (simp_all add: blocks_ok_def)

lemma run_blocks_take_Suc:
  "j < length bs \<Longrightarrow> run_blocks P (take (Suc j) bs) = part_view P (bs ! j) RTM_BATCH_N (run_blocks P (take j bs))"
  by (simp add: take_Suc_conv_app_nth run_blocks_snoc)

lemma do_access_prefix: "prefix (fst vm) (fst (do_access P t vm))"
  by (simp add: do_access_def split: action.splits)

lemma part_block_prefix: "n \<le> m \<Longrightarrow> prefix (fst (part_block P t n vm)) (fst (part_block P t m vm))"
proof (induction m rule: dec_induct)
  case (step m)
  have "prefix (fst (part_block P t m vm)) (fst (part_block P t (Suc m) vm))"
    unfolding part_block_Suc by (rule do_access_prefix)
  with step.IH show ?case by (rule prefix_order.trans)
qed simp

lemma run_blocks_prefix: "prefix (fst (run_blocks P (take j bs)) t) (fst (run_blocks P bs) t)"
proof -
  have "prefix (fst (run_blocks P as) t) (fst (run_blocks P (as @ bs)) t)" for as bs
  proof (induction bs rule: rev_induct)
    case (snoc u bs)
    have "prefix (fst w t) (fst (part_view P u RTM_BATCH_N w) t)" for w
      using part_block_prefix [of 0 RTM_BATCH_N P t "(fst w t, snd w)"]
      by (cases "u = t") (simp_all add: part_view_def Let_def)
    then have "prefix (fst (run_blocks P (as @ bs)) t) (fst (run_blocks P ((as @ bs) @ [u])) t)"
      unfolding run_blocks_snoc .
    with snoc have "prefix (fst (run_blocks P as) t) (fst (run_blocks P ((as @ bs) @ [u])) t)"
      by (rule prefix_order.trans)
    then show ?case by simp
  qed simp
  from this [of "take j bs" "drop j bs"] show ?thesis by simp
qed

lemma block_prefix:
  assumes "j < length bs" "t = bs ! j"
  shows "prefix (fst (part_block P t RTM_BATCH_N (fst (run_blocks P (take j bs)) t, snd (run_blocks P (take j bs)))))
    (fst (run_blocks P bs) t)"
proof -
  have "fst (part_block P t RTM_BATCH_N (fst (run_blocks P (take j bs)) t, snd (run_blocks P (take j bs)))) =
      fst (run_blocks P (take (Suc j) bs)) t"
    using run_blocks_take_Suc [OF assms(1), of P] assms(2) by (simp add: part_view_def Let_def)
  then show ?thesis using run_blocks_prefix by metis
qed

lemma blocks_small_part:
  assumes "blocks_small P bs" "blocks_ok P bs" "j < length bs" "n \<le> RTM_BATCH_N"
  shows "length (fst (part_block P (bs ! j) n (fst (run_blocks P (take j bs)) (bs ! j), snd (run_blocks P (take j bs))))) < 2 ^ 31"
proof -
  have "length (fst (run_blocks P bs) (bs ! j)) < 2 ^ 31" using assms(1) blocks_okD(1) [OF assms(2,3)] by (simp add: blocks_small_def)
  moreover note prefix_length_le [OF block_prefix [OF assms(3) refl, of P]]
    prefix_length_le [OF part_block_prefix [OF assms(4), of P "bs ! j" "(fst (run_blocks P (take j bs)) (bs ! j), snd (run_blocks P (take j bs)))"]]
  ultimately show ?thesis by linarith
qed

lemma set_kthr_view [simp]:
  "ks_mem (set_kthr t r s) = ks_mem s" "ks_log (set_kthr t r s) = ks_log s" "ks_pos (set_kthr t r s) = ks_pos s"
  "g_next_thr (set_kthr t r s) = g_next_thr s" "ks_thr (set_kthr t r s) = (ks_thr s)(t := r)"
  by (simp_all add: set_kthr_def)

section \<open>Steps of the thread whose block it is\<close>

lemma busy_cong:
  assumes "ks_thr s' (bs ! j) = ks_thr s (bs ! j)" "ks_mem s' = ks_mem s" "ks_pos s' = ks_pos s"
  shows "busy P bs j s' = busy P bs j s"
  unfolding busy_def Let_def assms ..

lemma busy_frame:
  assumes inv: "commit_replay_inv P bs j s" and j: "j < length bs"
    and thr: "\<And>u. u \<noteq> bs ! j \<Longrightarrow> ks_thr s' u = ks_thr s u"
    and same: "ks_log s' = ks_log s" "g_next_thr s' = g_next_thr s" and b: "busy P bs j s'"
  shows "commit_replay_inv P bs j s'"
  using commit_replay_invD [OF inv] j b same thr by (simp add: commit_replay_inv_def)

lemma whole_block_view:
  assumes "whole_block P t w x r m"
  shows "part_view P t RTM_BATCH_N w = ((fst w)(t := kt_vals r @ (case x of Some v \<Rightarrow> [v] | None \<Rightarrow> [])), m)"
proof -
  have "part_block P t RTM_BATCH_N (fst w t, snd w) = (kt_vals r @ (case x of Some v \<Rightarrow> [v] | None \<Rightarrow> []), m)"
    using assms by (simp add: whole_block_def run_block_def)
  then show ?thesis by (simp add: part_view_def)
qed

lemma whole_block_pc [simp]: "whole_block P t w x (r\<lparr>kt_pc := pc\<rparr>) m = whole_block P t w x r m"
  by (simp add: whole_block_def block_end_def cong: option.case_cong)

text \<open>What a thread does does not depend on its next access once it is past the access.\<close>

lemma step_read_next:
  assumes "kt_pc (ks_thr s t) = KRead x \<or> kt_pc (ks_thr s t) = KAdvance x n \<or> kt_pc (ks_thr s t) = KSet x n"
  shows "commit_replay_step P t s = read_next_thr t s"
  using assms by (auto simp: commit_replay_step_def commit_mem_read_def commit_mem_write_def commit_finish_thr_def
      split: action.splits)

lemma step_before_access:
  assumes "tp_code P t (kt_vals (ks_thr s t)) \<noteq> Finish" "g_next_thr s = t"
  shows "kt_pc (ks_thr s t) = KRun \<Longrightarrow> commit_replay_step P t s = kgoto t KAssert s"
    and "kt_pc (ks_thr s t) = KAssert \<Longrightarrow> commit_replay_step P t s = kgoto t KAccess s"
  using assms by (simp_all add: commit_replay_step_def commit_mem_read_def commit_mem_write_def split: action.splits)

text \<open>The end of a block: the next one begins.\<close>

lemma next_block:
  assumes inv: "commit_replay_inv P bs j s" and ok: "blocks_ok P bs" and j: "j < length bs"
    and wb: "whole_block P (bs ! j) (run_blocks P (take j bs)) x (ks_thr s (bs ! j)) (ks_mem s)"
    and cnt: "counted (ks_thr s (bs ! j))"
    and s': "ks_thr s' = ks_thr (kreturn (bs ! j) x s)" "ks_log s' = ks_log s" "ks_mem s' = ks_mem s"
    and nx: "Suc j < length bs \<Longrightarrow> g_next_thr s' = bs ! Suc j \<and> ks_pos s' = j + 2"
  shows "commit_replay_inv P bs (Suc j) s'"
proof -
  let ?t = "bs ! j" and ?w' = "run_blocks P (take (Suc j) bs)"
  have w': "?w' = ((fst (run_blocks P (take j bs)))(?t := kt_vals (ks_thr s ?t) @ (case x of Some v \<Rightarrow> [v] | None \<Rightarrow> [])), ks_mem s)"
    using whole_block_view [OF wb] run_blocks_take_Suc [OF j] by simp
  have other: "ks_thr s' u = ks_thr s u" if "u \<noteq> ?t" for u
    using that by (simp add: s' kreturn_def Let_def split: option.splits)
  have be: "block_end P ?t x (ks_thr s ?t)" using wb by (simp add: whole_block_def)
  have mod: "Suc (length (kt_vals (ks_thr s ?t))) mod RTM_BATCH_N = 0" if "x = Some v" for v
    using be that by (simp add: block_end_def mod_Suc)
  have few: "Suc (length (kt_vals (ks_thr s ?t))) < 2 ^ 31" if "x = Some v" for v
    using blocks_small_part [OF commit_replay_invD(7) [OF inv] ok j order_refl] wb that
    by (cases "run_block P ?t (fst (run_blocks P (take j bs)) ?t, snd (run_blocks P (take j bs)))")
      (auto simp: whole_block_def run_block_def)
  have rest: "resting P ?w' u (ks_thr s' u)" if "u < tp_nthr P" for u
  proof (cases "u = ?t")
    case True
    show ?thesis
    proof (cases x)
      case None
      then show ?thesis using True w' be cnt by (simp add: resting_def s' kreturn_def Let_def block_end_def)
    next
      case (Some v)
      then show ?thesis using True w' counted_next [OF cnt few [OF Some]] mod [OF Some] by (simp add: resting_def s' kreturn_def Let_def)
    qed
  next
    case False
    then have "resting P (run_blocks P (take j bs)) u (ks_thr s u)" using commit_replay_invD(6) [OF inv that] by simp
    moreover have "fst ?w' u = fst (run_blocks P (take j bs)) u" using False w' by simp
    ultimately show ?thesis using other [OF False] by (auto simp: resting_def)
  qed
  have "busy P bs (Suc j) s'" if j': "Suc j < length bs"
  proof -
    note ok' = blocks_okD [OF ok j']
    note r = rest [OF ok'(1)]
    then have v: "kt_vals (ks_thr s' (bs ! Suc j)) = fst ?w' (bs ! Suc j)" by (simp add: resting_def)
    with r ok'(2) have "kt_pc (ks_thr s' (bs ! Suc j)) = KRun \<and> length (kt_vals (ks_thr s' (bs ! Suc j))) mod RTM_BATCH_N = 0"
      by (auto simp: resting_def)
    then show ?thesis using r v nx [OF j'] w' s'(3) by (simp add: busy_def Let_def resting_def)
  qed
  moreover have "ks_mem s' = snd (run_blocks P bs)" if "Suc j = length bs" using w' that s'(3) by simp
  ultimately show ?thesis
    using rest nx j s'(2) commit_replay_invD(2,7) [OF inv] by (auto simp: commit_replay_inv_def)
qed

lemma busy_access:
  assumes inv: "commit_replay_inv P bs j s" and ok: "blocks_ok P bs" and j: "j < length bs" and t: "t = bs ! j"
    and pc: "kt_pc (ks_thr s t) = KAccess"
    and da: "do_access P t (kt_vals (ks_thr s t), ks_mem s) = (kt_vals (ks_thr s t) @ [v], m)"
  shows "commit_replay_inv P bs j (kafter t v (s\<lparr>ks_mem := m\<rparr>))"
proof -
  let ?r = "ks_thr s t" and ?w = "run_blocks P (take j bs)" and ?s' = "kafter t v (s\<lparr>ks_mem := m\<rparr>)"
  let ?k = "length (kt_vals ?r) mod RTM_BATCH_N"
  have b: "(kt_vals ?r, ks_mem s) = part_block P t ?k (fst ?w t, snd ?w)" "ks_pos s = j + 1"
    "counted ?r" "tp_code P t (kt_vals ?r) \<noteq> Finish"
    using commit_replay_invD(4) [OF inv j] pc t by (simp_all add: busy_def Let_def)
  have st: "part_block P t (Suc ?k) (fst ?w t, snd ?w) = (kt_vals ?r @ [v], m)"
    using da by (simp add: part_block_Suc b(1) [symmetric])
  have "busy P bs j ?s'"
  proof (cases "?k = RTM_BATCH_N - 1")
    case True
    then have "Suc ?k = RTM_BATCH_N" by simp
    with st have "(kt_vals ?r @ [v], m) = run_block P t (fst ?w t, snd ?w)" by (simp add: run_block_def)
    then show ?thesis
      using True b t bb_pos_iff(2) [OF b(3)] by (simp add: busy_def Let_def kafter_def kgoto_def whole_block_def block_end_def)
  next
    case False
    have "?k < RTM_BATCH_N" by simp
    with False have "Suc (length (kt_vals ?r)) mod RTM_BATCH_N = Suc ?k" by (simp add: mod_Suc)
    moreover have "Suc (length (kt_vals ?r)) < 2 ^ 31"
      using blocks_small_part [OF commit_replay_invD(7) [OF inv] ok j, of "Suc ?k"] st t by (simp add: Suc_leI)
    ultimately show ?thesis
      using False b(2) t st counted_next [OF b(3)] bb_pos_iff(2) [OF b(3)] by (simp add: busy_def Let_def kafter_def)
  qed
  then show ?thesis
    using t by (intro busy_frame [OF inv j]) (simp_all add: kafter_def kgoto_def Let_def)
qed

lemma busy_goto:
  assumes inv: "commit_replay_inv P bs j s" and j: "j < length bs" and t: "t = bs ! j"
    and st: "commit_replay_step P t s = kgoto t pc s" and b: "busy P bs j (kgoto t pc s)"
  shows "\<exists>j'. commit_replay_inv P bs j' (commit_replay_step P t s)"
proof -
  have "commit_replay_inv P bs j (kgoto t pc s)" using b t by (intro busy_frame [OF inv j]) (simp_all add: kgoto_def)
  then show ?thesis using st by auto
qed

lemma busy_run_step:
  assumes inv: "commit_replay_inv P bs j s" and ok: "blocks_ok P bs" and j: "j < length bs" and t: "t = bs ! j"
    and pc: "kt_pc (ks_thr s t) = KRun"
  shows "\<exists>j'. commit_replay_inv P bs j' (commit_replay_step P t s)"
proof -
  let ?r = "ks_thr s t" and ?w = "run_blocks P (take j bs)"
  have part: "(kt_vals ?r, ks_mem s) = part_block P t (length (kt_vals ?r) mod RTM_BATCH_N) (fst ?w t, snd ?w)" "ks_pos s = j + 1"
    "counted ?r"
    using commit_replay_invD(4) [OF inv j] pc t by (simp_all add: busy_def Let_def)
  show ?thesis
  proof (cases "tp_code P t (kt_vals ?r) = Finish")
    case True
    have "length (kt_vals ?r) mod RTM_BATCH_N \<noteq> 0"
    proof
      assume "length (kt_vals ?r) mod RTM_BATCH_N = 0"
      with part(1) have "kt_vals ?r = fst ?w t" by simp
      with True blocks_okD(2) [OF ok j] t show False by simp
    qed
    then have st: "commit_replay_step P t s = kgoto t (KRead None) s"
      using True pc bb_pos_iff(1) [OF part(3)] by (simp add: commit_replay_step_def commit_finish_thr_def)
    have "part_block P t RTM_BATCH_N (fst ?w t, snd ?w) = (kt_vals ?r, ks_mem s)"
      using part_block_stop [of P t "length (kt_vals ?r) mod RTM_BATCH_N" "(fst ?w t, snd ?w)" RTM_BATCH_N]
      by (simp add: part(1) [symmetric] True)
    then have "whole_block P t ?w None ?r (ks_mem s)" using True by (simp add: whole_block_def block_end_def run_block_def)
    then have "busy P bs j (kgoto t (KRead None) s)" using part t by (simp add: busy_def Let_def kgoto_def)
    then show ?thesis by (rule busy_goto [OF inv j t st])
  next
    case False
    have "g_next_thr s = t" using commit_replay_invD(3) [OF inv j] t by simp
    note st = step_before_access(1) [OF False this pc]
    have "busy P bs j (kgoto t KAssert s)" using False part t by (simp add: busy_def Let_def kgoto_def)
    then show ?thesis by (rule busy_goto [OF inv j t st])
  qed
qed

text \<open>The steps of \<open>read_next_thr\<close>.\<close>

lemma busy_next_step:
  assumes inv: "commit_replay_inv P bs j s" and ok: "blocks_ok P bs" and j: "j < length bs" and t: "t = bs ! j"
    and pc: "kt_pc (ks_thr s t) = KRead x \<or> kt_pc (ks_thr s t) = KAdvance x n \<or> kt_pc (ks_thr s t) = KSet x n"
  shows "\<exists>j'. commit_replay_inv P bs j' (commit_replay_step P t s)"
proof -
  let ?r = "ks_thr s t" and ?w = "run_blocks P (take j bs)" and ?s' = "commit_replay_step P t s"
  note b = commit_replay_invD(4) [OF inv j]
  have log: "ks_log s = bs" by (rule commit_replay_invD(2) [OF inv])
  have wb: "whole_block P t ?w x ?r (ks_mem s)" and cnt: "counted ?r"
    using b t pc by (auto simp: busy_def Let_def)
  note st = step_read_next [OF pc, of P]
  have end_block: "\<exists>j'. commit_replay_inv P bs j' ?s'"
    if "?s' = kreturn t x s1" "s1 = s \<or> s1 = s\<lparr>g_next_thr := bs ! Suc j\<rparr>"
      "Suc j < length bs \<Longrightarrow> s1 = s\<lparr>g_next_thr := bs ! Suc j\<rparr> \<and> ks_pos s = j + 2" for s1
  proof -
    have "commit_replay_inv P bs (Suc j) ?s'"
      using that wb t cnt by (intro next_block [OF inv ok j]) (auto simp: kreturn_def Let_def split: option.splits)
    then show ?thesis by blast
  qed
  from pc show ?thesis
  proof (elim disjE)
    assume pc: "kt_pc ?r = KRead x"
    then have pos: "ks_pos s = j + 1" using b t by (simp add: busy_def Let_def)
    show ?thesis
    proof (cases "Suc j < length bs")
      case True
      have "busy P bs j (kgoto t (KAdvance x (j + 1)) s)"
        using True wb t cnt by (simp add: busy_def Let_def kgoto_def)
      moreover have "?s' = kgoto t (KAdvance x (j + 1)) s" using True pc pos st log by (simp add: read_next_thr_def)
      ultimately show ?thesis by (intro busy_goto [OF inv j t])
    next
      case False
      then show ?thesis using pc pos st log by (intro end_block [of s]) (simp_all add: read_next_thr_def)
    qed
  next
    assume pc: "kt_pc ?r = KAdvance x n"
    then have n: "n = j + 1" "j + 1 < length bs" using b t by (simp_all add: busy_def Let_def)
    define s2 where "s2 = kgoto t (KSet x n) (s\<lparr>ks_pos := n + 1\<rparr>)"
    have "busy P bs j s2" using n wb t cnt by (simp add: s2_def busy_def Let_def kgoto_def)
    then have "commit_replay_inv P bs j s2" using t by (intro busy_frame [OF inv j]) (simp_all add: s2_def kgoto_def)
    moreover have "?s' = s2" using pc st by (simp add: read_next_thr_def s2_def)
    ultimately show ?thesis by auto
  next
    assume pc: "kt_pc ?r = KSet x n"
    then show ?thesis
      using b st log t by (intro end_block [of "s\<lparr>g_next_thr := bs ! Suc j\<rparr>"]) (simp_all add: read_next_thr_def busy_def Let_def)
  qed
qed

lemma busy_access_step:
  assumes inv: "commit_replay_inv P bs j s" and ok: "blocks_ok P bs" and j: "j < length bs" and t: "t = bs ! j"
    and pc: "kt_pc (ks_thr s t) = KAccess"
  shows "commit_replay_inv P bs j (commit_replay_step P t s)"
proof (cases "tp_code P t (kt_vals (ks_thr s t))")
  case (Read a)
  have "commit_replay_inv P bs j (kafter t (ks_mem s a) (s\<lparr>ks_mem := ks_mem s\<rparr>))"
    using Read by (intro busy_access [OF inv ok j t pc]) (simp add: do_access_def)
  then show ?thesis using Read pc by (simp add: commit_replay_step_def commit_mem_read_def)
next
  case (Write a v)
  have "commit_replay_inv P bs j (kafter t v (s\<lparr>ks_mem := (ks_mem s)(a := v)\<rparr>))"
    using Write by (intro busy_access [OF inv ok j t pc]) (simp add: do_access_def)
  then show ?thesis using Write pc by (simp add: commit_replay_step_def commit_mem_write_def)
next
  case Finish
  with pc commit_replay_invD(4) [OF inv j] t show ?thesis by (simp add: busy_def Let_def)
qed

lemma busy_step:
  assumes inv: "commit_replay_inv P bs j s" and ok: "blocks_ok P bs" and j: "j < length bs" and t: "t = bs ! j"
  shows "\<exists>j'. commit_replay_inv P bs j' (commit_replay_step P t s)"
proof -
  note b = commit_replay_invD(4) [OF inv j]
  show ?thesis
  proof (cases "kt_pc (ks_thr s t)")
    case KRun
    then show ?thesis by (rule busy_run_step [OF inv ok j t])
  next
    case KAssert
    then have "tp_code P t (kt_vals (ks_thr s t)) \<noteq> Finish" using b t by (simp add: busy_def Let_def)
    moreover have "g_next_thr s = t" using commit_replay_invD(3) [OF inv j] t by simp
    ultimately have st: "commit_replay_step P t s = kgoto t KAccess s" by (rule step_before_access(2) [OF _ _ KAssert])
    have "busy P bs j (kgoto t KAccess s)" using KAssert b t by (simp add: busy_def Let_def kgoto_def)
    then show ?thesis by (rule busy_goto [OF inv j t st])
  next
    case KAccess
    then show ?thesis using busy_access_step [OF inv ok j t] by blast
  qed (use b t busy_next_step [OF inv ok j t] in \<open>auto simp: busy_def Let_def\<close>)
qed

section \<open>Every step\<close>

text \<open>A thread between two blocks waits, or comes to its end.\<close>

lemma rest_step:
  assumes inv: "commit_replay_inv P bs j s" and fin: "blocks_complete P bs" and t: "t < tp_nthr P" "j = length bs \<or> t \<noteq> bs ! j"
  shows "commit_replay_step P t s = s \<and> (j = length bs \<longrightarrow> kt_pc (ks_thr s t) = KDone) \<or>
    kt_pc (ks_thr s t) = KRun \<and> commit_replay_step P t s = kgoto t KDone s \<and> commit_replay_inv P bs j (kgoto t KDone s)"
proof -
  let ?r = "ks_thr s t"
  note rest = commit_replay_invD(6) [OF inv t]
  show ?thesis
  proof (cases "kt_pc ?r = KDone")
    case True
    then show ?thesis by (simp add: commit_replay_step_def)
  next
    case False
    then have pc: "kt_pc ?r = KRun" "length (kt_vals ?r) mod RTM_BATCH_N = 0" "counted ?r" using rest by (auto simp: resting_def)
    show ?thesis
    proof (cases "tp_code P t (kt_vals ?r) = Finish")
      case True
      then have "resting P (run_blocks P (take j bs)) t (?r\<lparr>kt_pc := KDone\<rparr>)" using rest by (auto simp: resting_def)
      moreover have "busy P bs j (kgoto t KDone s)" if "j < length bs"
        using commit_replay_invD(4) [OF inv that] busy_cong [of "kgoto t KDone s" bs j s] t(2) that by (simp add: kgoto_def)
      ultimately have "commit_replay_inv P bs j (kgoto t KDone s)"
        using inv unfolding commit_replay_inv_def by (simp add: kgoto_def)
      then show ?thesis using True pc bb_pos_iff(1) [OF pc(3)] by (simp add: commit_replay_step_def commit_finish_thr_def)
    next
      case False
      have j: "j < length bs"
      proof (rule ccontr)
        assume "\<not> j < length bs"
        then have "j = length bs" using commit_replay_invD(1) [OF inv] by simp
        then show False using False rest fin t(1) by (simp add: resting_def blocks_complete_def)
      qed
      then have "g_next_thr s \<noteq> t" using commit_replay_invD(3) [OF inv j] t(2) by simp
      then show ?thesis
        using False pc j bb_pos_iff(1) [OF pc(3)]
        by (simp add: commit_replay_step_def commit_mem_read_def commit_mem_write_def split: action.splits)
    qed
  qed
qed

lemma commit_replay_step_inv:
  assumes inv: "commit_replay_inv P bs j s" and fin: "blocks_complete P bs" and t: "t < tp_nthr P"
  shows "\<exists>j'. commit_replay_inv P bs j' (commit_replay_step P t s)"
proof (cases "j < length bs \<and> t = bs ! j")
  case True
  then show ?thesis using busy_step [OF inv] fin by (simp add: blocks_complete_def)
next
  case False
  then have "j = length bs \<or> t \<noteq> bs ! j" using commit_replay_invD(1) [OF inv] by auto
  from rest_step [OF inv fin t this] inv show ?thesis by metis
qed

lemma commit_replay_init_inv:
  assumes "blocks_complete P bs" "commit_replay_init P (Some bs) = Some s0" "blocks_small P bs"
  shows "commit_replay_inv P bs 0 s0"
proof -
  have bs: "bs \<noteq> []" using assms(2) by (auto simp: commit_replay_init_def)
  then have s0: "ks_mem s0 = tp_mem P" "ks_log s0 = bs" "ks_pos s0 = 1" "g_next_thr s0 = hd bs"
    "ks_thr s0 = (\<lambda>t. \<lparr>kt_pc = KRun, kt_vals = [], kt_bbcnt = 0\<rparr>)"
    using assms(2) by (auto simp: commit_replay_init_def)
  show ?thesis
    using bs assms(3) by (simp add: commit_replay_inv_def busy_def Let_def s0 resting_def counted_def hd_conv_nth)
qed

lemma commit_replay_reach_inv:
  assumes "commit_replay_reach P s0 s" "blocks_complete P bs" "commit_replay_init P (Some bs) = Some s0" "blocks_small P bs"
  shows "\<exists>j. commit_replay_inv P bs j s"
  using assms(1)
proof induction
  case init
  then show ?case using commit_replay_init_inv [OF assms(2-4)] by blast
next
  case (step s t)
  then show ?case using commit_replay_step_inv [OF _ assms(2)] by blast
qed

section \<open>The end of a replay\<close>

text \<open>The number of accesses of a thread in a sequence of blocks, and the steps that are left.\<close>

definition total_cnt :: "test_prog \<Rightarrow> tid_t list \<Rightarrow> tid_t \<Rightarrow> nat" where
  "total_cnt P bs t = length (fst (run_blocks P bs) t)"

fun kpc_rank :: "kpc \<Rightarrow> nat" where
  "kpc_rank KRun = 6"
| "kpc_rank KAssert = 5"
| "kpc_rank KAccess = 4"
| "kpc_rank (KRead x) = 3"
| "kpc_rank (KAdvance x n) = 2"
| "kpc_rank (KSet x n) = 1"
| "kpc_rank KDone = 0"
| "kpc_rank KFault = 0"

definition thr_left :: "test_prog \<Rightarrow> tid_t list \<Rightarrow> kstate \<Rightarrow> tid_t \<Rightarrow> nat" where
  "thr_left P bs s t = 7 * (total_cnt P bs t - length (kt_vals (ks_thr s t))) + kpc_rank (kt_pc (ks_thr s t))"

definition commit_steps_left :: "test_prog \<Rightarrow> tid_t list \<Rightarrow> kstate \<Rightarrow> nat" where
  "commit_steps_left P bs s = (\<Sum>t<tp_nthr P. thr_left P bs s t)"

text \<open>A thread that is about to complete an access has not yet made all of its accesses.\<close>

lemma busy_cnt:
  assumes inv: "commit_replay_inv P bs j s" and j: "j < length bs" and t: "t = bs ! j"
    and pc: "kt_pc (ks_thr s t) = KAccess \<or> kt_pc (ks_thr s t) = KRead (Some v) \<or> kt_pc (ks_thr s t) = KSet (Some v) n"
  shows "length (kt_vals (ks_thr s t)) < total_cnt P bs t"
proof -
  let ?r = "ks_thr s t" and ?w = "run_blocks P (take j bs)"
  let ?vm = "(fst ?w t, snd ?w)" and ?k = "length (kt_vals (ks_thr s t)) mod RTM_BATCH_N"
  note b = commit_replay_invD(4) [OF inv j]
  have "length (kt_vals ?r) < length (fst (part_block P t RTM_BATCH_N ?vm))"
  proof (cases "kt_pc ?r = KAccess")
    case True
    then have part: "(kt_vals ?r, ks_mem s) = part_block P t ?k ?vm" "tp_code P t (kt_vals ?r) \<noteq> Finish"
      using b t by (simp_all add: busy_def Let_def)
    have "length (fst (part_block P t (Suc ?k) ?vm)) = Suc (length (kt_vals ?r))"
      using part(2) by (simp add: part_block_Suc do_access_length part(1) [symmetric])
    moreover have "length (fst (part_block P t (Suc ?k) ?vm)) \<le> length (fst (part_block P t RTM_BATCH_N ?vm))"
      by (intro prefix_length_le part_block_prefix) (simp add: Suc_leI)
    ultimately show ?thesis by simp
  next
    case False
    then have "whole_block P t ?w (Some v) ?r (ks_mem s)" using b t pc by (auto simp: busy_def Let_def)
    then have "part_block P t RTM_BATCH_N ?vm = (kt_vals ?r @ [v], ks_mem s)" by (simp add: whole_block_def run_block_def)
    then show ?thesis by simp
  qed
  then show ?thesis using prefix_length_le [OF block_prefix [OF j t, of P]] by (simp add: total_cnt_def)
qed

lemma thr_left_sum:
  assumes "t < tp_nthr P" "\<And>u. u \<noteq> t \<Longrightarrow> ks_thr s' u = ks_thr s u" "thr_left P bs s' t < thr_left P bs s t"
  shows "commit_steps_left P bs s' < commit_steps_left P bs s"
  unfolding commit_steps_left_def
  using assms by (intro sum_lessThan_dec) (simp_all add: thr_left_def)

lemma kreturn_left:
  assumes "kt_pc (ks_thr s t) = KRead x \<or> kt_pc (ks_thr s t) = KSet x n" "ks_thr s1 = ks_thr s"
    and "x = None \<or> length (kt_vals (ks_thr s t)) < total_cnt P bs t"
  shows "thr_left P bs (kreturn t x s1) t < thr_left P bs s t"
  using assms by (cases x) (auto simp: kreturn_def Let_def thr_left_def)

text \<open>The thread whose block it is never waits.\<close>

lemma busy_left:
  assumes inv: "commit_replay_inv P bs j s" and ok: "blocks_ok P bs" and j: "j < length bs" and t: "t = bs ! j"
  shows "thr_left P bs (commit_replay_step P t s) t < thr_left P bs s t"
proof -
  note b = commit_replay_invD(4) [OF inv j] and nx = commit_replay_invD(3) [OF inv j]
  have go: "thr_left P bs (kgoto t pc s1) t < thr_left P bs s t"
    if "kpc_rank pc < kpc_rank (kt_pc (ks_thr s t))" "ks_thr s1 = ks_thr s" for pc s1
    using that by (simp add: thr_left_def kgoto_def)
  show ?thesis
  proof (cases "kt_pc (ks_thr s t)")
    case KRun
    show ?thesis
    proof (cases "tp_code P t (kt_vals (ks_thr s t)) = Finish")
      case True
      then show ?thesis using KRun go by (simp add: commit_replay_step_def commit_finish_thr_def)
    next
      case False
      then show ?thesis using KRun go step_before_access(1) [OF False _ KRun] nx t by simp
    qed
  next
    case KAssert
    then have "tp_code P t (kt_vals (ks_thr s t)) \<noteq> Finish" using b t by (simp add: busy_def Let_def)
    then show ?thesis using KAssert go step_before_access(2) [OF _ _ KAssert] nx t by simp
  next
    case KAccess
    have "tp_code P t (kt_vals (ks_thr s t)) \<noteq> Finish" using KAccess b t by (simp add: busy_def Let_def)
    moreover have "length (kt_vals (ks_thr s t)) < total_cnt P bs t" using busy_cnt [OF inv j t] KAccess by blast
    ultimately show ?thesis
      using KAccess by (auto simp: commit_replay_step_def commit_mem_read_def commit_mem_write_def kafter_def kgoto_def
          thr_left_def Let_def split: action.splits)
  next
    case (KRead x)
    have "x = None \<or> length (kt_vals (ks_thr s t)) < total_cnt P bs t" using busy_cnt [OF inv j t] KRead by (cases x) auto
    then show ?thesis
      using KRead go kreturn_left [of s t x 0 s] step_read_next [of s t x 0 P] by (simp add: read_next_thr_def)
  next
    case (KAdvance x n)
    then show ?thesis using go step_read_next [of s t x n P] by (simp add: read_next_thr_def)
  next
    case (KSet x n)
    have "x = None \<or> length (kt_vals (ks_thr s t)) < total_cnt P bs t" using busy_cnt [OF inv j t] KSet by (cases x) auto
    then show ?thesis
      using KSet kreturn_left [of s t x n] step_read_next [of s t x n P] by (simp add: read_next_thr_def)
  qed (use b t in \<open>simp_all add: busy_def Let_def\<close>)
qed

lemma step_other_thr: "u \<noteq> t \<Longrightarrow> ks_thr (commit_replay_step P t s) u = ks_thr s u"
  by (simp add: commit_replay_step_def commit_mem_read_def commit_mem_write_def commit_finish_thr_def
      read_next_thr_def kreturn_def kafter_def kgoto_def Let_def split: kpc.splits action.splits option.splits)

lemma commit_replay_left:
  assumes inv: "commit_replay_inv P bs j s" and fin: "blocks_complete P bs" and t: "t < tp_nthr P"
    and ch: "commit_replay_step P t s \<noteq> s"
  shows "commit_steps_left P bs (commit_replay_step P t s) < commit_steps_left P bs s"
proof (rule thr_left_sum [OF t step_other_thr])
  show "thr_left P bs (commit_replay_step P t s) t < thr_left P bs s t"
  proof (cases "j < length bs \<and> t = bs ! j")
    case True
    then show ?thesis using busy_left [OF inv] fin by (simp add: blocks_complete_def)
  next
    case False
    then have "j = length bs \<or> t \<noteq> bs ! j" using commit_replay_invD(1) [OF inv] by auto
    from rest_step [OF inv fin t this] ch show ?thesis by (auto simp: thr_left_def kgoto_def)
  qed
qed

lemma commit_replay_not_stuck:
  assumes inv: "commit_replay_inv P bs j s" and fin: "blocks_complete P bs" and nd: "\<not> commit_replay_done P s"
  shows "\<exists>t < tp_nthr P. commit_replay_step P t s \<noteq> s"
proof (cases "j < length bs")
  case True
  have ok: "blocks_ok P bs" using fin by (simp add: blocks_complete_def)
  have "commit_replay_step P (bs ! j) s \<noteq> s" using busy_left [OF inv ok True refl] by (metis less_irrefl)
  then show ?thesis using blocks_okD(1) [OF ok True] by blast
next
  case False
  then have j: "j = length bs" using commit_replay_invD(1) [OF inv] by simp
  obtain t where t: "t < tp_nthr P" "kt_pc (ks_thr s t) \<noteq> KDone" using nd by (auto simp: commit_replay_done_def)
  have "kt_pc (ks_thr (kgoto t KDone s) t) \<noteq> kt_pc (ks_thr s t)" using t(2) by (simp add: kgoto_def)
  then have "kgoto t KDone s \<noteq> s" by metis
  then show ?thesis using rest_step [OF inv fin t(1)] j t by metis
qed

interpretation commit_replayer: spin_machine "commit_replay_step P" "tp_nthr P"
  "\<lambda>s. blocks_complete P bs \<and> (\<exists>j. commit_replay_inv P bs j s)" "commit_replay_done P" "commit_steps_left P bs" for P bs
  by unfold_locales (use commit_replay_step_inv commit_replay_left commit_replay_not_stuck in blast)+

text \<open>At any time a thread has seen the first values that the sequence of blocks gives it.\<close>

lemma commit_vals_prefix:
  assumes inv: "commit_replay_inv P bs j s" and t: "t < tp_nthr P"
  shows "prefix (kt_vals (ks_thr s t)) (fst (run_blocks P bs) t)"
proof (cases "j < length bs \<and> t = bs ! j")
  case True
  let ?r = "ks_thr s t" and ?w = "run_blocks P (take j bs)"
  let ?vm = "(fst ?w t, snd ?w)" and ?k = "length (kt_vals (ks_thr s t)) mod RTM_BATCH_N"
  have "(kt_vals ?r, ks_mem s) = part_block P t ?k ?vm \<or> (\<exists>x. whole_block P t ?w x ?r (ks_mem s))"
    using commit_replay_invD(4) [OF inv] True by (cases "kt_pc ?r") (auto simp: busy_def Let_def)
  then have "prefix (kt_vals ?r) (fst (part_block P t RTM_BATCH_N ?vm))"
  proof
    assume "(kt_vals ?r, ks_mem s) = part_block P t ?k ?vm"
    then have "kt_vals ?r = fst (part_block P t ?k ?vm)" by (metis fst_conv)
    then show ?thesis by (metis part_block_prefix mod_le_divisor RTM_pos)
  next
    assume "\<exists>x. whole_block P t ?w x ?r (ks_mem s)"
    then obtain x where "whole_block P t ?w x ?r (ks_mem s)" by blast
    then have "part_block P t RTM_BATCH_N ?vm = (kt_vals ?r @ (case x of Some v \<Rightarrow> [v] | None \<Rightarrow> []), ks_mem s)"
      by (simp add: whole_block_def run_block_def)
    then show ?thesis by simp
  qed
  then show ?thesis using block_prefix [of j bs t P] True by (meson prefix_order.trans)
next
  case False
  then have "j = length bs \<or> t \<noteq> bs ! j" using commit_replay_invD(1) [OF inv] by auto
  then show ?thesis using commit_replay_invD(6) [OF inv t] run_blocks_prefix by (simp add: resting_def)
qed

text \<open>What a replay shows of a recording's values and memory.\<close>

definition commit_replays :: "test_prog \<Rightarrow> cview \<Rightarrow> kstate \<Rightarrow> bool" where
  "commit_replays P w s \<longleftrightarrow>
     (\<forall>t < tp_nthr P. kt_pc (ks_thr s t) \<noteq> KFault \<and> prefix (kt_vals (ks_thr s t)) (fst w t)) \<and>
     (commit_replay_done P s \<longrightarrow>
        ks_mem s = snd w \<and> (\<forall>t < tp_nthr P. kt_vals (ks_thr s t) = fst w t))"

lemma commit_inv_replays:
  assumes inv: "commit_replay_inv P bs j s" and ok: "blocks_ok P bs"
  shows "commit_replays P (run_blocks P bs) s"
proof -
  have "kt_pc (ks_thr s t) \<noteq> KFault" if "t < tp_nthr P" for t
  proof (cases "j < length bs \<and> t = bs ! j")
    case True
    then show ?thesis using commit_replay_invD(4) [OF inv] by (auto simp: busy_def Let_def)
  next
    case False
    then have "j = length bs \<or> t \<noteq> bs ! j" using commit_replay_invD(1) [OF inv] by auto
    then show ?thesis using commit_replay_invD(6) [OF inv that] by (auto simp: resting_def)
  qed
  moreover have "ks_mem s = snd (run_blocks P bs) \<and> (\<forall>t < tp_nthr P. kt_vals (ks_thr s t) = fst (run_blocks P bs) t)"
    if d: "commit_replay_done P s"
  proof -
    have "\<not> j < length bs"
      using commit_replay_invD(4) [OF inv] blocks_okD(1) [OF ok] d by (auto simp: busy_def Let_def commit_replay_done_def)
    then have j: "j = length bs" using commit_replay_invD(1) [OF inv] by simp
    then show ?thesis using commit_replay_invD(5,6) [OF inv] by (auto simp: resting_def)
  qed
  ultimately show ?thesis using commit_vals_prefix [OF inv] by (simp add: commit_replays_def)
qed

end
