(* ===== verification/Commit_Chain.thy ===== *)
theory Commit_Chain
  imports Commit_Record Merge_Commit Commit_Replay
begin

text \<open>
  From a recording with \<open>src/mem-record-rtmcommit.c\<close> through \<open>src/merge-commit.cpp\<close> to the replay with
  \<open>src/mem-replay-rtmcommit.c\<close>, as \<open>src/test.sh\<close> runs them, and a small program for the witnesses.
\<close>

section \<open>The chain\<close>

definition commit_files :: "test_prog \<Rightarrow> cstate \<Rightarrow> 64 word list option list" where
  "commit_files P q = map (\<lambda>t. Some (g_commit_log (cs_thr q t))) [0..<tp_nthr P]"

text \<open>\<open>None\<close> when \<open>merge-commit\<close> or the replayer's \<open>mem_init\<close> stops.\<close>

definition start_commit_replay :: "(64 word que_ent list \<Rightarrow> nat) \<Rightarrow> test_prog \<Rightarrow> cstate \<Rightarrow> kstate option" where
  "start_commit_replay sel P q =
     (case merge_commit_main sel (int (tp_nthr P)) (commit_files P q) of
        Inl e \<Rightarrow> None
      | Inr log \<Rightarrow> commit_replay_init P (Some log))"

text \<open>A program whose threads all make an access, and a recording in which no thread makes more accesses
  than the replayer's \<open>int\<close> counter \<open>g_sim_bbcnt\<close> can count.\<close>

definition commit_prog_ok :: "test_prog \<Rightarrow> bool" where
  "commit_prog_ok P \<longleftrightarrow> 0 < tp_nthr P \<and> tp_nthr P < 128 \<and> (\<forall>t < tp_nthr P. tp_code P t [] \<noteq> Finish)"

definition few_accesses :: "test_prog \<Rightarrow> cstate \<Rightarrow> bool" where
  "few_accesses P q \<longleftrightarrow> (\<forall>t < tp_nthr P. length (ct_vals (cs_thr q t)) < 2 ^ 31)"

text \<open>The number of blocks of a recording.\<close>

definition block_count :: "test_prog \<Rightarrow> cstate \<Rightarrow> nat" where
  "block_count P q = (\<Sum>t<tp_nthr P. length (g_commit_log (cs_thr q t)))"

lemma run_blocks_untouched: "t \<notin> set bs \<Longrightarrow> fst (run_blocks P bs) t = []"
  by (induction bs rule: rev_induct) (simp_all add: run_blocks_snoc part_view_other)

lemma blocks_ok_set: "blocks_ok P bs \<Longrightarrow> set bs \<subseteq> {..<tp_nthr P}"
  by (auto simp: blocks_ok_def in_set_conv_nth)

lemma blocks_count: "set bs \<subseteq> {..<n} \<Longrightarrow> (\<Sum>t<n. length (blocks_of t bs)) = length bs"
  using arg_cong [OF blocks_mset [of bs n], of size] by (simp add: size_multiset_sum stamped_def)

lemma commit_seenD:
  assumes seen: "commit_seen P bs q" and ok: "commit_prog_ok P"
  shows "set bs = {..<tp_nthr P}" "block_count P q = length bs" "blocks_complete P bs" "bs \<noteq> []"
    and "commit_files P q = map (\<lambda>t. Some (map of_nat (blocks_of t bs))) [0..<tp_nthr P]"
proof -
  have s: "set bs \<subseteq> {..<tp_nthr P}" using seen blocks_ok_set by (auto simp: commit_seen_def)
  moreover have "t \<in> set bs" if "t < tp_nthr P" for t
  proof (rule ccontr)
    assume "t \<notin> set bs"
    with run_blocks_untouched have "tp_code P t [] = Finish" using seen that by (metis commit_seen_def)
    with ok that show False by (simp add: commit_prog_ok_def)
  qed
  ultimately show st: "set bs = {..<tp_nthr P}" by auto
  then show "bs \<noteq> []" using ok by (auto simp: commit_prog_ok_def)
  show "block_count P q = length bs"
    using blocks_count [OF s] seen by (simp add: block_count_def commit_seen_def)
  show "blocks_complete P bs" using seen by (simp add: blocks_complete_def commit_seen_def)
  show "commit_files P q = map (\<lambda>t. Some (map of_nat (blocks_of t bs))) [0..<tp_nthr P]"
    using seen by (simp add: commit_files_def commit_seen_def)
qed

text \<open>A thread has no more blocks than accesses, so that 64 bits are enough for the time stamps.\<close>

lemma part_block_first: "part_block P t (Suc n) vm = part_block P t n (do_access P t vm)"
  by (induction n) (simp_all add: part_block_Suc)

lemma run_block_grows:
  assumes "tp_code P t (fst vm) \<noteq> Finish"
  shows "length (fst vm) < length (fst (run_block P t vm))"
proof -
  have "run_block P t vm = part_block P t 6 (do_access P t vm)"
    by (simp add: run_block_def RTM_BATCH_N_def part_block_first [symmetric])
  then show ?thesis
    using part_block_grows [of "do_access P t vm" P t 6] assms by (simp add: do_access_length)
qed

lemma blocks_of_le:
  "blocks_ok P bs \<Longrightarrow> length (blocks_of t bs) \<le> length (fst (run_blocks P bs) t)"
proof (induction bs rule: rev_induct)
  case (snoc u bs)
  then have IH: "length (blocks_of t bs) \<le> length (fst (run_blocks P bs) t)"
    and nf: "tp_code P u (fst (run_blocks P bs) u) \<noteq> Finish" by (simp_all add: blocks_ok_snoc)
  show ?case
  proof (cases "u = t")
    case True
    let ?vm = "(fst (run_blocks P bs) t, snd (run_blocks P bs))"
    have "fst (run_blocks P (bs @ [u])) t = fst (run_block P t ?vm)"
      using True by (simp add: run_blocks_snoc part_view_def run_block_def Let_def)
    then show ?thesis using IH True nf run_block_grows [of P t ?vm] by (simp add: blocks_of_snoc)
  next
    case False
    then show ?thesis using IH by (simp add: blocks_of_snoc run_blocks_snoc part_view_other)
  qed
qed simp

lemma few_accessesD:
  assumes seen: "commit_seen P bs q" and ok: "commit_prog_ok P" and few: "few_accesses P q"
  shows "blocks_small P bs" "block_count P q < 2 ^ 64"
proof -
  show "blocks_small P bs" using seen few by (simp add: blocks_small_def few_accesses_def commit_seen_def)
  have "length (g_commit_log (cs_thr q t)) \<le> 2 ^ 31" if "t < tp_nthr P" for t
    using seen few that blocks_of_le [of P bs t] by (fastforce simp: few_accesses_def commit_seen_def)
  then have "block_count P q \<le> tp_nthr P * 2 ^ 31"
    unfolding block_count_def using sum_bounded_above [of "{..<tp_nthr P}" _ "2 ^ 31 :: nat"] by simp
  then show "block_count P q < 2 ^ 64" using ok by (simp add: commit_prog_ok_def)
qed

lemma commit_replay_starts_at:
  assumes q: "min_queue id ts_gt sel" and ok: "commit_prog_ok P" and seen: "commit_seen P bs q"
    and n: "block_count P q < 2 ^ 64"
  shows "start_commit_replay sel P q = commit_replay_init P (Some bs)"
    and "\<exists>s0. commit_replay_init P (Some bs) = Some s0"
proof -
  note d = commit_seenD [OF seen ok]
  show "start_commit_replay sel P q = commit_replay_init P (Some bs)"
    using merge_commit_ok [OF q d(1)] n d(2,5) ok by (simp add: start_commit_replay_def commit_prog_ok_def)
  show "\<exists>s0. commit_replay_init P (Some bs) = Some s0" using d(4) by (simp add: commit_replay_init_def)
qed

text \<open>What the threads of a recording have seen, and the memory it leaves.\<close>

definition recorded_view :: "cstate \<Rightarrow> cview" where
  "recorded_view q = (\<lambda>t. ct_vals (cs_thr q t), cs_mem q)"

lemma seen_replays:
  assumes "commit_seen P bs q"
  shows "commit_replays P (recorded_view q) s \<longleftrightarrow> commit_replays P (run_blocks P bs) s"
  using assms by (auto simp: commit_replays_def commit_seen_def recorded_view_def)

text \<open>A replay of a recording keeps the invariant of the replayer, for the blocks of the recording.\<close>

lemma commit_chain:
  assumes q: "min_queue id ts_gt sel" and ok: "commit_prog_ok P"
    and r: "commit_reach P q" "commit_done P q" and few: "few_accesses P q"
  obtains bs s0 where "commit_seen P bs q" "blocks_complete P bs" "start_commit_replay sel P q = Some s0"
    "commit_replay_inv P bs 0 s0" "\<And>s. commit_replay_reach P s0 s \<Longrightarrow> \<exists>j. commit_replay_inv P bs j s"
proof -
  have "tp_nthr P < 65536" using ok by (simp add: commit_prog_ok_def)
  then obtain bs where seen: "commit_seen P bs q" using commit_done_seen [OF r] by blast
  note d = commit_seenD(3) [OF seen ok] and small = few_accessesD(1) [OF seen ok few]
    and n = few_accessesD(2) [OF seen ok few]
  obtain s0 where s0: "commit_replay_init P (Some bs) = Some s0" using commit_replay_starts_at(2) [OF q ok seen n] by blast
  show thesis
    by (rule that [OF seen d]) (use commit_replay_starts_at(1) [OF q ok seen n] s0 commit_replay_init_inv [OF d s0 small]
        commit_replay_reach_inv [OF _ d s0 small] in auto)
qed

text \<open>What the replay of a commit log can reach, and where it gets under a fair schedule.\<close>

lemma commit_started_replays:
  assumes "min_queue id ts_gt sel" "commit_prog_ok P" "commit_reach P q" "commit_done P q"
    and "few_accesses P q" "start_commit_replay sel P q = Some s0" "commit_replay_reach P s0 s"
  shows "commit_replays P (recorded_view q) s"
proof (rule commit_chain [OF assms(1-5)])
  fix bs s1
  assume bs: "commit_seen P bs q" "blocks_complete P bs" and s1: "start_commit_replay sel P q = Some s1"
    and inv: "\<And>s. commit_replay_reach P s1 s \<Longrightarrow> \<exists>j. commit_replay_inv P bs j s"
  obtain j where "commit_replay_inv P bs j s" using inv assms(6,7) s1 by auto
  then show ?thesis
    using commit_inv_replays seen_replays [OF bs(1)] bs(2) by (simp add: blocks_complete_def)
qed

lemma commit_started_ends:
  assumes "min_queue id ts_gt sel" "commit_prog_ok P" "commit_reach P q" "commit_done P q"
    and "few_accesses P q" "start_commit_replay sel P q = Some s0" "fair (tp_nthr P) f"
  shows "\<exists>n. commit_replay_done P (sched_state (commit_replay_step P) f s0 n) \<and>
    commit_replays P (recorded_view q) (sched_state (commit_replay_step P) f s0 n)"
proof (rule commit_chain [OF assms(1-5)])
  fix bs s1
  assume bs: "commit_seen P bs q" "blocks_complete P bs" and s1: "start_commit_replay sel P q = Some s1"
    and inv: "commit_replay_inv P bs 0 s1"
  have "s1 = s0" using assms(6) s1 by simp
  with commit_replayer.fair_finishes [of P bs s0 f] assms(7) inv bs(2)
  obtain n j where "commit_replay_done P (sched_state (commit_replay_step P) f s0 n)"
    "commit_replay_inv P bs j (sched_state (commit_replay_step P) f s0 n)" by blast
  then show ?thesis
    using commit_inv_replays seen_replays [OF bs(1)] bs(2) unfolding blocks_complete_def by blast
qed

section \<open>An example\<close>

text \<open>Thread 0 makes nine accesses, more than one block; thread 1 makes three.\<close>

definition bank_code :: "tid_t \<Rightarrow> val_t list \<Rightarrow> action" where
  "bank_code t vs =
     (if t = 0
      then (if length vs < 9 then (if even (length vs) then Read 0 else Write 0 (last vs + 1)) else Finish)
      else (if length vs = 0 then Read 0 else if length vs = 1 then Write 0 (hd vs + 10)
            else if length vs = 2 then Read 0 else Finish))"

definition bank_prog :: test_prog where
  "bank_prog = \<lparr>tp_code = bank_code, tp_cid = (\<lambda>a. 0), tp_nobj = 1, tp_nthr = 2, tp_mem = (\<lambda>a. 5)\<rparr>"

text \<open>Thread 1 runs its block under the lock; the first transaction of thread 0 finds the lock taken and
  aborts, its second block commits in a transaction.\<close>

definition bank_sched :: "(tid_t \<times> bool) list" where
  "bank_sched = replicate 4 (1, False) @ [(0, True)] @ replicate 12 (1, False) @ replicate 24 (0, True)"

definition bank_rec :: cstate where
  "bank_rec = commit_run bank_prog bank_sched (commit_init bank_prog)"

lemma bank_ok: "commit_prog_ok bank_prog"
  by (auto simp: commit_prog_ok_def bank_prog_def bank_code_def)

lemma bank_reach: "commit_reach bank_prog bank_rec"
  unfolding bank_rec_def by (rule commit_reach_run [OF commit_reach.init]) (simp add: bank_sched_def bank_prog_def)

lemma bank_done: "commit_done bank_prog bank_rec"
  by code_simp

lemma bank_few: "few_accesses bank_prog bank_rec"
proof -
  have "tp_nthr bank_prog = 2" "length (ct_vals (cs_thr bank_rec 0)) = 9" "length (ct_vals (cs_thr bank_rec 1)) = 3"
    by code_simp+
  then show ?thesis by (auto simp: few_accesses_def less_2_cases_iff)
qed

definition bank_start :: kstate where
  "bank_start = the (start_commit_replay (first_least ts_gt) bank_prog bank_rec)"

lemma bank_start_eq: "start_commit_replay (first_least ts_gt) bank_prog bank_rec = Some bank_start"
  by (rule commit_chain [OF ts_queue.min_queue_axioms bank_ok bank_reach bank_done bank_few])
    (simp add: bank_start_def)

definition bank_play :: kstate where
  "bank_play = fold (commit_replay_step bank_prog) [1, 0, 1, 1] bank_start"

lemma bank_play_reach: "commit_replay_reach bank_prog bank_start bank_play"
  by (auto simp: bank_play_def bank_prog_def intro!: commit_replay_reach.intros)

lemma bank_play_running: "\<not> commit_replay_done bank_prog bank_play"
  by code_simp

end
