(* ===== verification/Commit_Progress.thy ===== *)
theory Commit_Progress
  imports Commit_Chain
begin

text \<open>
  A recording with \<open>src/mem-record-rtmcommit.c\<close> comes to its end: a transaction that aborts leads to
  the lock, whose queue is served in order, and every step that is not a turn of the waiting loop
  brings its thread forward. With the replayer's progress this gives the whole run of
  \<open>src/test.sh\<close> for this recorder.
\<close>

section \<open>What is left\<close>

fun cpc_left :: "cpc \<Rightarrow> nat" where
  "cpc_left CRun = 9"
| "cpc_left CLock = 8"
| "cpc_left (CSpin me) = 7"
| "cpc_left CAccess = 6"
| "cpc_left (CTime x) = 5"
| "cpc_left (CTimeStore x ts) = 4"
| "cpc_left (CUnlock x ts) = 3"
| "cpc_left (CLog x ts) = 2"
| "cpc_left CDone = 0"

definition cthr_left :: "(tid_t \<Rightarrow> nat) \<Rightarrow> tid_t \<Rightarrow> cthr \<Rightarrow> nat" where
  "cthr_left N t r = 10 * (N t - length (ct_vals r)) + cpc_left (ct_pc r)"

definition commit_left :: "test_prog \<Rightarrow> (tid_t \<Rightarrow> nat) \<Rightarrow> cstate \<Rightarrow> nat" where
  "commit_left P N s = (\<Sum>t<tp_nthr P. cthr_left N t (cs_thr s t))"

text \<open>A thread that carries the value of an access had that access to make.\<close>

definition pend_inv :: "test_prog \<Rightarrow> cstate \<Rightarrow> bool" where
  "pend_inv P s \<longleftrightarrow>
     (\<forall>t. pend_val (ct_pc (cs_thr s t)) \<noteq> [] \<longrightarrow> tp_code P t (ct_vals (cs_thr s t)) \<noteq> Finish)"

lemmas commit_step_defs = commit_step_def commit_tx_def commit_access_def after_access_def block_return_def
  cgoto_def set_cthr_def log_commit_def ticket_draw_def Let_def

lemma pend_val_stages:
  "pend_val (CTimeStore x ts) = pend_val (CTime x)" "pend_val (CUnlock x ts) = pend_val (CTime x)"
  "pend_val (CLog x ts) = pend_val (CTime x)"
  by (cases x; simp)+

lemma pend_inv_other:
  assumes "pend_inv P s" "\<And>u. u \<noteq> t \<Longrightarrow> cs_thr s' u = cs_thr s u"
    and "pend_val (ct_pc (cs_thr s' t)) \<noteq> [] \<Longrightarrow> tp_code P t (ct_vals (cs_thr s' t)) \<noteq> Finish"
  shows "pend_inv P s'"
  using assms unfolding pend_inv_def by metis

lemma commit_step_others: "u \<noteq> t \<Longrightarrow> cs_thr (commit_step P tx t s) u = cs_thr s u"
  by (simp add: commit_step_defs split: cpc.splits action.splits option.splits prod.splits)

lemma commit_step_pend:
  assumes "pend_inv P s"
  shows "pend_inv P (commit_step P tx t s)"
proof (rule pend_inv_other [OF assms commit_step_others])
  have t: "pend_val (ct_pc (cs_thr s t)) \<noteq> [] \<Longrightarrow> tp_code P t (ct_vals (cs_thr s t)) \<noteq> Finish"
    using assms by (simp add: pend_inv_def)
  show "tp_code P t (ct_vals (cs_thr (commit_step P tx t s) t)) \<noteq> Finish"
    if "pend_val (ct_pc (cs_thr (commit_step P tx t s) t)) \<noteq> []"
    using that t by (cases "ct_pc (cs_thr s t)")
      (auto simp: commit_step_defs pend_val_stages split: action.splits option.splits prod.splits if_splits)
qed

lemma commit_reach_pend: "commit_reach P s \<Longrightarrow> pend_inv P s"
  by (induction rule: commit_reach.induct) (simp_all add: commit_step_pend, simp add: pend_inv_def commit_init_def)

section \<open>Blocks make progress\<close>

lemma part_block_le:
  assumes "ends P N" "t < tp_nthr P" "length (fst vm) \<le> N t"
  shows "length (fst (part_block P t n vm)) \<le> N t"
proof (induction n)
  case (Suc n)
  then show ?case using endsD [OF assms(1,2)] by (auto simp: part_block_Suc do_access_length Suc_le_eq)
qed (simp add: assms(3))

lemma run_blocks_le:
  assumes "ends P N" "t < tp_nthr P"
  shows "length (fst (run_blocks P bs) t) \<le> N t"
proof (induction bs rule: rev_induct)
  case (snoc u bs)
  then show ?case
    using part_block_le [OF assms, of "(fst (run_blocks P bs) t, snd (run_blocks P bs))"]
    by (cases "u = t") (simp_all add: run_blocks_snoc part_view_def Let_def)
qed simp

section \<open>Every step brings its thread forward\<close>

lemma commit_left_step:
  assumes "t < tp_nthr P" "cthr_left N t (cs_thr (commit_step P tx t s) t) < cthr_left N t (cs_thr s t)"
  shows "commit_left P N (commit_step P tx t s) < commit_left P N s"
  unfolding commit_left_def using assms by (intro sum_lessThan_dec [of t]) (simp_all add: commit_step_others)

lemma commit_tx_left:
  assumes n: "length (ct_vals (cs_thr s t)) < N t" and pc: "ct_pc (cs_thr s t) = CRun"
    and nf: "tp_code P t (ct_vals (cs_thr s t)) \<noteq> Finish"
  shows "cthr_left N t (cs_thr (commit_tx P t s) t) < cthr_left N t (cs_thr s t)"
proof -
  let ?r = "cs_thr s t"
  have "length (ct_vals ?r) < length (fst (run_block P t (ct_vals ?r, cs_mem s)))"
    using run_block_grows [of P t "(ct_vals ?r, cs_mem s)"] nf by simp
  then show ?thesis
    using n pc by (auto simp: commit_tx_def cgoto_def set_cthr_def log_commit_def cthr_left_def Let_def split: prod.splits)
qed

lemma commit_step_left:
  assumes r: "commit_reach P s" and n: "tp_nthr P < 65536" and e: "ends P N" and t: "t < tp_nthr P"
    and move: "commit_step P tx t s \<noteq> s"
  shows "commit_left P N (commit_step P tx t s) < commit_left P N s"
proof (rule commit_left_step [OF t])
  let ?r = "cs_thr s t"
  have l: "length (ct_vals ?r) < N t" if "tp_code P t (ct_vals ?r) \<noteq> Finish"
    using that endsD [OF e t] by simp
  have p: "pend_val (ct_pc ?r) \<noteq> [] \<Longrightarrow> tp_code P t (ct_vals ?r) \<noteq> Finish"
    using commit_reach_pend [OF r] by (simp add: pend_inv_def)
  show "cthr_left N t (cs_thr (commit_step P tx t s) t) < cthr_left N t ?r"
  proof (cases "ct_pc ?r")
    case CRun
    then show ?thesis
      using l commit_tx_left [OF _ CRun, of N P]
      by (auto simp: commit_step_def cgoto_def set_cthr_def cthr_left_def Let_def)
  next
    case CAccess
    then show ?thesis
      using l move by (auto simp: commit_step_defs cthr_left_def split: action.splits)
  next
    case (CLog x ts)
    then show ?thesis using l p by (cases x) (auto simp: commit_step_defs cthr_left_def)
  qed (use move in \<open>auto simp: commit_step_defs cthr_left_def split: if_splits\<close>)
qed

section \<open>Some thread can always go on\<close>

text \<open>Only a thread that waits for its number cannot.\<close>

lemma commit_moves_pc:
  "ct_pc (cs_thr (commit_step P tx t s) t) \<noteq> ct_pc (cs_thr s t) \<Longrightarrow> commit_step P tx t s \<noteq> s"
  by auto

lemma commit_tx_moves: "ct_pc (cs_thr s t) = CRun \<Longrightarrow> commit_tx P t s \<noteq> s"
proof
  assume pc: "ct_pc (cs_thr s t) = CRun" and eq: "commit_tx P t s = s"
  then have "g_commit_log (cs_thr (commit_tx P t s) t) = g_commit_log (cs_thr s t)"
    "ct_pc (cs_thr (commit_tx P t s) t) = CRun" by simp_all
  then show False
    by (auto simp: commit_tx_def cgoto_def set_cthr_def log_commit_def Let_def split: prod.splits if_splits)
qed

lemma commit_step_moves:
  assumes inv: "cthr_inv P bs t (cs_thr s t)" and pc: "ct_pc (cs_thr s t) \<noteq> CDone" "\<not> at_spin (ct_pc (cs_thr s t))"
  shows "commit_step P tx t s \<noteq> s"
proof (cases "ct_pc (cs_thr s t) = CRun \<and> tp_code P t (ct_vals (cs_thr s t)) \<noteq> Finish \<and>
    g_sim_bbcnt (cs_thr s t) mod RTM_BATCH_N = 0 \<and> tx")
  case True
  then show ?thesis using commit_tx_moves [of s t P] by (simp add: commit_step_def Let_def)
next
  case False
  then show ?thesis
    using inv pc by (intro commit_moves_pc, cases "ct_pc (cs_thr s t)")
      (auto simp: commit_step_def commit_access_def after_access_def block_return_def cgoto_def set_cthr_def log_commit_def
        ticket_draw_def cthr_inv_def Let_def split: action.splits option.splits)
qed

lemma commit_moves:
  assumes r: "commit_reach P s" and n: "tp_nthr P < 65536" and nd: "\<not> commit_done P s"
  shows "\<exists>t < tp_nthr P. commit_step P (tx t s) t s \<noteq> s"
proof -
  obtain bs ql where inv: "commit_inv P bs ql s" using commit_reach_inv [OF r n] by blast
  note q = commit_invD(3) [OF inv] and mv = commit_step_moves [OF commit_invD(4) [OF inv]]
  obtain t where t: "t < tp_nthr P" "ct_pc (cs_thr s t) \<noteq> CDone" using nd by (auto simp: commit_done_def)
  show ?thesis
  proof (cases "at_spin (ct_pc (cs_thr s t))")
    case False
    with mv [OF t(1) t(2)] t(1) show ?thesis by blast
  next
    case True
    then have "ql \<noteq> []" using queue_invD(3) [OF q, of t] t(1) by auto
    then obtain u me ql' where ql: "ql = (u, me) # ql'" by (metis neq_Nil_conv surj_pair)
    then have u: "u < tp_nthr P" "has_lock (cs_thr s u) \<or> at_spin (ct_pc (cs_thr s u))"
      using queue_invD(3) [OF q, of u] by auto
    have me: "tk_ticket (g_lock s) = me" using queue_invD(2) [OF q] by (auto simp: ql tk_holds_def)
    have "commit_step P (tx u s) u s \<noteq> s"
    proof (cases "at_spin (ct_pc (cs_thr s u))")
      case True
      then obtain m where m: "ct_pc (cs_thr s u) = CSpin m" by (cases "ct_pc (cs_thr s u)") auto
      then have "m = me" using queue_invD(4) [OF q, of u me] ql by simp
      with m me show ?thesis by (intro commit_moves_pc) (simp add: commit_step_def cgoto_def set_cthr_def)
    next
      case False
      with u(2) have "ct_pc (cs_thr s u) \<noteq> CDone" by (auto simp: has_lock_def in_block_def)
      with mv [OF u(1)] False show ?thesis by blast
    qed
    with u(1) show ?thesis by blast
  qed
qed

section \<open>The contract\<close>

interpretation commit_recorder: spin_machine "\<lambda>t s. commit_step P (tx t s) t s" "tp_nthr P"
  "\<lambda>s. commit_reach P s \<and> tp_nthr P < 65536 \<and> ends P N" "commit_done P" "commit_left P N"
  by unfold_locales (use commit_step_left commit_moves in \<open>auto intro: commit_reach.step\<close>)

section \<open>A whole run\<close>

definition commit_sched :: "test_prog \<Rightarrow> (tid_t \<Rightarrow> cstate \<Rightarrow> bool) \<Rightarrow> (nat \<Rightarrow> tid_t) \<Rightarrow> nat \<Rightarrow> cstate" where
  "commit_sched P tx f = sched_state (\<lambda>t s. commit_step P (tx t s) t s) f (commit_init P)"

lemma commit_recording_ends:
  assumes "tp_nthr P < 65536" "ends P N" "fair (tp_nthr P) f"
  shows "\<exists>k. commit_done P (commit_sched P tx f k) \<and> commit_reach P (commit_sched P tx f k)"
  unfolding commit_sched_def
  using commit_recorder.fair_finishes [of P "commit_init P" N f tx] commit_reach.init [of P] assms by blast

lemma commit_recording_small:
  assumes ok: "commit_prog_ok P" and e: "ends P N" and few: "\<forall>t < tp_nthr P. N t < 2 ^ 31" and f: "fair (tp_nthr P) f"
  shows "\<exists>k. commit_done P (commit_sched P tx f k) \<and> commit_reach P (commit_sched P tx f k) \<and>
    few_accesses P (commit_sched P tx f k)"
proof -
  have n: "tp_nthr P < 65536" using ok by (simp add: commit_prog_ok_def)
  obtain k where k: "commit_done P (commit_sched P tx f k)" "commit_reach P (commit_sched P tx f k)"
    using commit_recording_ends [OF n e f] by blast
  obtain bs0 where "commit_seen P bs0 (commit_sched P tx f k)" using commit_done_seen [OF k(2,1) n] by blast
  then have "few_accesses P (commit_sched P tx f k)"
    using few run_blocks_le [OF e] by (fastforce simp: few_accesses_def commit_seen_def intro: le_less_trans)
  with k show ?thesis by blast
qed

lemma commit_test_run:
  assumes q: "min_queue id ts_gt sel" and ok: "commit_prog_ok P" and e: "ends P N"
    and few: "\<forall>t < tp_nthr P. N t < 2 ^ 31" and f: "fair (tp_nthr P) f" "fair (tp_nthr P) g"
  shows "\<exists>k s0 m. commit_done P (commit_sched P tx f k) \<and> start_commit_replay sel P (commit_sched P tx f k) = Some s0 \<and>
    commit_replay_done P (sched_state (commit_replay_step P) g s0 m) \<and>
    commit_replays P (recorded_view (commit_sched P tx f k)) (sched_state (commit_replay_step P) g s0 m)"
proof -
  obtain k where k: "commit_done P (commit_sched P tx f k)" "commit_reach P (commit_sched P tx f k)"
    "few_accesses P (commit_sched P tx f k)"
    using commit_recording_small [OF ok e few f(1)] by blast
  obtain s0 where s0: "start_commit_replay sel P (commit_sched P tx f k) = Some s0"
    using commit_chain [OF q ok k(2,1,3)] by blast
  from commit_started_ends [OF q ok k(2,1,3) s0 f(2)] k(1) s0 show ?thesis by blast
qed

end
