(* ===== verification/Commit_Files.thy ===== *)
theory Commit_Files
  imports Write_Logs Commit_Progress
begin

text \<open>
  The commit logs with their files: \<open>main\<close> of \<open>src/merge-commit.cpp\<close> from its command line to the
  bytes of the merged log, and \<open>mem_init\<close> of \<open>src/mem-replay-rtmcommit.c\<close>. A replay that starts from
  the files replays the recording.
\<close>

section \<open>The programs\<close>

text \<open>Time stamps have eight bytes, thread numbers one.\<close>

definition store_ts :: "64 word \<Rightarrow> byte list" where
  "store_ts ts = le_bytes 8 (uint ts)"

definition load_ts :: "byte list \<Rightarrow> 64 word" where
  "load_ts b = word_of_int (le_val b)"

definition store_tid :: "tid_t \<Rightarrow> byte list" where
  "store_tid t = le_bytes 1 (int t)"

definition load_tid :: "byte list \<Rightarrow> tid_t" where
  "load_tid b = nat (load_int 1 b)"

definition ts_structs :: "os \<Rightarrow> log_ptr \<Rightarrow> 64 word list option" where
  "ts_structs s l = (if lp_fd l = -1 then None else Some (map load_ts (struct_array 8 (mapped_bytes l s))))"

fun log_all_os :: "kernel \<Rightarrow> byte list list \<Rightarrow> log_ptr \<Rightarrow> os \<Rightarrow> log_ptr outcome" where
  "log_all_os k [] l s = Ret l s"
| "log_all_os k (b # bs) l s = os_bind (log_entry_os k b l s) (log_all_os k bs)"

definition merge_commit_os ::
  "kernel \<Rightarrow> (64 word que_ent list \<Rightarrow> nat) \<Rightarrow> log_ptr list \<Rightarrow> int \<Rightarrow> os \<Rightarrow> unit outcome" where
  "merge_commit_os k sel log nthr s =
     (if int (length log) \<noteq> nthr then Exit ''assert'' s
      else
      os_bind (new_mapped_log_path_os k (LOGDIR @ ''commit'') s) (\<lambda>commitlog s.
      case merge_commit sel (map (ts_structs s) log) nthr of
        Inl e \<Rightarrow> Exit ''assert'' s
      | Inr tids \<Rightarrow>
          os_bind (log_all_os k (map store_tid tids) commitlog s) (\<lambda>commitlog s.
          os_bind (unmap_truncate_log_os k commitlog s) (\<lambda>_ s. Ret () s))))"

definition merge_commit_main_os ::
  "kernel \<Rightarrow> (64 word que_ent list \<Rightarrow> nat) \<Rightarrow> int \<Rightarrow> string list \<Rightarrow> os \<Rightarrow> unit outcome" where
  "merge_commit_main_os k sel nthr0 argv s =
     (if length argv \<noteq> 2 then Exit ''Usage: merge-tsc <nthr>'' s
      else let nthr = extract_int nthr0 (argv ! 1)
           in os_bind (open_logs_os k ''commit'' [0..<nat nthr] s) (\<lambda>log s.
              merge_commit_os k sel log (to_tid_t nthr) s))"

text \<open>\<open>mem_init\<close> of the replayer: the log that it maps, and the state in which the threads start.\<close>

definition commit_replay_mem_init_os :: "kernel \<Rightarrow> int \<Rightarrow> nat \<Rightarrow> os \<Rightarrow> tid_t list option outcome" where
  "commit_replay_mem_init_os k nthr nobj s =
     os_bind (open_mapped_log_path_os k (LOGDIR @ ''commit'') s) (\<lambda>(ret, log) s.
     Ret (if ret \<noteq> 0 then None else Some (map load_tid (struct_array 1 (mapped_bytes log s)))) s)"

definition commit_replay_init_os :: "kernel \<Rightarrow> test_prog \<Rightarrow> os \<Rightarrow> kstate outcome" where
  "commit_replay_init_os k P s =
     os_bind (commit_replay_mem_init_os k (int (tp_nthr P)) (tp_nobj P) s) (\<lambda>file s.
     case commit_replay_init P file of
       None \<Rightarrow> Exit ''mmap'' s
     | Some s0 \<Rightarrow> Ret s0 s)"

text \<open>The branch for rtmcommit of \<open>src/test.sh\<close>, and the start of the replay.\<close>

definition start_commit_replay_os ::
  "kernel \<Rightarrow> int \<Rightarrow> (64 word que_ent list \<Rightarrow> nat) \<Rightarrow> test_prog \<Rightarrow> os \<Rightarrow> kstate outcome" where
  "start_commit_replay_os k v0 sel P s =
     os_bind (merge_commit_main_os k sel v0 [''./merge-commit'', decimal (tp_nthr P)] s) (\<lambda>_ s.
     commit_replay_init_os k P s)"

section \<open>Bytes\<close>

lemma length_store_ts [simp]: "length (store_ts ts) = 8" "length (store_tid t) = 1"
  by (simp_all add: store_ts_def store_tid_def)

lemma ts_roundtrip: "load_ts (store_ts ts) = ts"
proof -
  have "uint ts mod 256 ^ 8 = uint ts" using uint_lt2p [of ts] by simp
  then show ?thesis by (simp add: load_ts_def store_ts_def le_val_bytes)
qed

lemma tid_roundtrip:
  assumes "t < 128"
  shows "load_tid (store_tid t) = t"
proof -
  have "fits 1 (int t)" using assms by (simp add: fits_def)
  from load_le_bytes [OF this, of "[]"] show ?thesis by (simp add: load_tid_def store_tid_def)
qed

definition commit_file :: "64 word list \<Rightarrow> byte list" where
  "commit_file ts = concat (map store_ts ts)"

lemma commit_file_structs: "map load_ts (struct_array 8 (commit_file ts)) = ts"
  unfolding commit_file_def by (rule struct_array_map) (simp_all add: ts_roundtrip)

lemma commit_file_nonempty: "ts \<noteq> [] \<Longrightarrow> commit_file ts \<noteq> []"
  unfolding commit_file_def by (rule concat_map_nonempty [of _ 8]) simp_all

lemma tpath_commit [simp]: "tpath name t \<noteq> LOGDIR @ ''commit''" "LOGDIR @ ''commit'' \<noteq> tpath name t"
proof -
  have "name @ CHR ''-'' # decimal t \<noteq> ''commit''"
  proof
    assume "name @ CHR ''-'' # decimal t = ''commit''"
    then have "CHR ''-'' \<in> set ''commit''" by (metis in_set_conv_decomp)
    then show False by simp
  qed
  then show "tpath name t \<noteq> LOGDIR @ ''commit''" "LOGDIR @ ''commit'' \<noteq> tpath name t" by (auto simp: tpath_def)
qed

section \<open>The merged log\<close>

lemma new_log_ext:
  assumes "willing k" "k_aligned k"
  shows "os_wp (\<lambda>l s1. written path [] l s1 \<and> ext s s1 \<and> only_file path s s1) (\<lambda>_ _. False) (new_mapped_log_path_os k path s)"
  using os_wp_conj [OF new_mapped_log_outcome [OF assms(2)] keeps_new_path]
  by (rule os_wp_mono) (use willing_refused [OF assms(1)] in auto)

lemma log_all_os_ok:
  assumes k: "willing k" "k_aligned k" and bs: "\<forall>b \<in> set bs. length b \<le> 4096" and "written path w l s"
  shows "os_wp (\<lambda>l1 s1. written path (w @ concat bs) l1 s1 \<and> only_file path s s1) (\<lambda>_ _. False) (log_all_os k bs l s)"
  using bs assms(4)
proof (induction bs arbitrary: w l s)
  case (Cons b bs)
  have "os_wp (\<lambda>l1 s1. written path (w @ b) l1 s1 \<and> only_file path s s1) (\<lambda>_ _. False) (log_entry_os k b l s)"
    using Cons.prems willing_refused [OF k(1)] by (intro os_wp_mono [OF log_entry_outcome [OF _ k(2)]]) auto
  then show ?case
    unfolding log_all_os.simps os_wp_simps
  proof (rule os_wp_mono)
    fix l1 s1 assume l1: "written path (w @ b) l1 s1 \<and> only_file path s s1"
    have "os_wp (\<lambda>l2 s2. written path ((w @ b) @ concat bs) l2 s2 \<and> only_file path s1 s2) (\<lambda>_ _. False) (log_all_os k bs l1 s1)"
      using Cons.prems(1) l1 by (intro Cons.IH) simp_all
    then show "os_wp (\<lambda>l1 s1. written path (w @ concat (b # bs)) l1 s1 \<and> only_file path s s1) (\<lambda>_ _. False) (log_all_os k bs l1 s1)"
      by (rule os_wp_mono) (use l1 only_file_trans in auto)
  qed
qed simp

text \<open>The merge on the files of the threads.\<close>

lemma merge_commit_os_ok:
  assumes k: "willing k" "k_aligned k" and s: "os_ok s"
    and ls: "list_all2 (\<lambda>t. log_is (tpath ''commit'' t) s) [0..<n] ls"
    and F: "\<forall>t < n. os_file s (tpath ''commit'' t) = Some (commit_file (C t))"
    and m: "merge_commit sel (map (\<lambda>t. Some (C t)) [0..<n]) (int n) = Inr tids"
  shows "os_wp (\<lambda>_ s1. os_file s1 (LOGDIR @ ''commit'') = Some (concat (map store_tid tids)))
    (\<lambda>_ _. False) (merge_commit_os k sel ls (int n) s)"
proof -
  let ?p = "LOGDIR @ ''commit''"
  have len: "length ls = n" using list_all2_lengthD [OF ls] by simp
  have structs: "map (ts_structs s1) ls = map (\<lambda>t. Some (C t)) [0..<n]" if s1: "ext s s1" "only_file ?p s s1" for s1
  proof (rule nth_equalityI)
    fix t assume "t < length (map (ts_structs s1) ls)"
    then have t: "t < n" using len by simp
    then have f: "os_file s1 (tpath ''commit'' t) = Some (commit_file (C t))" using F s1(2) by (simp add: only_file_def)
    have "log_is (tpath ''commit'' t) s (ls ! t)" using list_all2_nthD [OF ls, of t] t by simp
    then have "log_is (tpath ''commit'' t) s1 (ls ! t)" by (rule log_is_ext) (use s1 s F t f in auto)
    then show "map (ts_structs s1) ls ! t = map (\<lambda>t. Some (C t)) [0..<n] ! t"
      using log_is_bytes [of "tpath ''commit'' t" s1 "ls ! t"] f t len commit_file_structs
      by (simp add: ts_structs_def log_is_def)
  qed (simp add: len)
  have wr: "os_wp (\<lambda>l1 s2. os_wp (\<lambda>_ s3. os_file s3 ?p = Some (concat (map store_tid tids))) (\<lambda>_ _. False) (unmap_truncate_log_os k l1 s2))
      (\<lambda>_ _. False) (log_all_os k (map store_tid tids) l s1)" if l: "written ?p [] l s1" for l s1
  proof -
    have "\<forall>b \<in> set (map store_tid tids). length b \<le> 4096" by simp
    from log_all_os_ok [OF k this l] show ?thesis
    proof (rule os_wp_mono)
      fix l1 s2 assume "written ?p ([] @ concat (map store_tid tids)) l1 s2 \<and> only_file ?p s1 s2"
      then have "written ?p (concat (map store_tid tids)) l1 s2" by simp
      from unmap_truncate_outcome [OF this, of k]
      show "os_wp (\<lambda>_ s3. os_file s3 ?p = Some (concat (map store_tid tids))) (\<lambda>_ _. False) (unmap_truncate_log_os k l1 s2)"
        by (rule os_wp_mono) (use willing_refused [OF k(1)] in \<open>auto split: if_splits\<close>)
    qed simp
  qed
  show ?thesis
    unfolding merge_commit_os_def using len
    by (simp, intro os_wp_mono [OF new_log_ext [OF k]]) (use structs m wr in auto)
qed

section \<open>From the files to a replay\<close>

definition commit_logs_on_disk :: "test_prog \<Rightarrow> cstate \<Rightarrow> os \<Rightarrow> bool" where
  "commit_logs_on_disk P q s \<longleftrightarrow>
     os_ok s \<and> (\<forall>t < tp_nthr P. os_file s (tpath ''commit'' t) = Some (commit_file (g_commit_log (cs_thr q t))))"

lemma commit_mem_init_ok:
  assumes k: "willing k" and s: "os_file s (LOGDIR @ ''commit'') = Some (concat (map store_tid bs))"
    and bs: "bs \<noteq> []" "\<forall>t \<in> set bs. t < 128"
  shows "os_wp (\<lambda>r _. r = Some bs) (\<lambda>_ _. False) (commit_replay_mem_init_os k nthr nobj s)"
proof -
  have ne: "os_file s (LOGDIR @ ''commit'') \<noteq> Some []"
    using s concat_map_nonempty [of store_tid 1 bs] bs(1) by simp
  have "map load_tid (struct_array 1 (concat (map store_tid bs))) = bs"
    using bs(2) by (intro struct_array_map) (auto simp: tid_roundtrip)
  then show ?thesis
    unfolding commit_replay_mem_init_os_def os_wp_simps
    using s log_is_bytes by (intro os_wp_mono [OF open_path_ok [OF k ne]]) auto
qed

lemma commit_init_os_ok:
  assumes k: "willing k" and s: "os_file s (LOGDIR @ ''commit'') = Some (concat (map store_tid bs))"
    and bs: "bs \<noteq> []" "\<forall>t \<in> set bs. t < 128" "commit_replay_init P (Some bs) = Some s0"
  shows "os_wp (\<lambda>r _. r = s0) (\<lambda>_ _. False) (commit_replay_init_os k P s)"
  unfolding commit_replay_init_os_def os_wp_simps
  using bs(3) by (intro os_wp_mono [OF commit_mem_init_ok [OF k s bs(1,2)]]) auto

text \<open>No log of a finished recording is empty, so \<open>merge-commit\<close> opens them all and merges them.\<close>

lemma commit_logs_merge:
  assumes q: "min_queue id ts_gt sel" and ok: "commit_prog_ok P" and bs: "commit_seen P bs q" and n: "block_count P q < 2 ^ 64"
  defines "C \<equiv> \<lambda>t. g_commit_log (cs_thr q t)"
  shows "merge_commit_main sel (int (tp_nthr P)) (commit_files P q) = Inr bs"
    and "merge_commit sel (map (\<lambda>t. Some (C t)) [0..<tp_nthr P]) (int (tp_nthr P)) = Inr bs"
    and "t < tp_nthr P \<Longrightarrow> C t \<noteq> []"
proof -
  let ?n = "tp_nthr P"
  note c = commit_seenD [OF bs ok]
  have nthr: "?n < 128" "to_tid_t (int ?n) = int ?n" using ok to_tid_t_small [of "int ?n"] by (simp_all add: commit_prog_ok_def)
  have "merge_commit_main sel (int ?n) (map (\<lambda>t. Some (map of_nat (blocks_of t bs))) [0..<?n]) = Inr bs"
    using merge_commit_ok [OF q c(1)] n c(2) nthr(1) by simp
  then show mm: "merge_commit_main sel (int ?n) (commit_files P q) = Inr bs" unfolding c(5) .
  have ne: "Some [] \<notin> set (commit_files P q)" using mm open_commit_logs_empty by (auto simp: merge_commit_main_def)
  then have "open_commit_logs (commit_files P q) = Inr (commit_files P q)" by (rule open_commit_logs_ok)
  then show "merge_commit sel (map (\<lambda>t. Some (C t)) [0..<?n]) (int ?n) = Inr bs"
    using mm nthr(2) by (simp add: merge_commit_main_def commit_files_def C_def)
  show "C t \<noteq> []" if "t < ?n"
  proof -
    have "Some (C t) \<in> set (commit_files P q)" using that by (simp add: commit_files_def C_def)
    then show ?thesis using ne by metis
  qed
qed

lemma commit_main_os_ok:
  assumes k: "willing k" "k_aligned k" and q: "min_queue id ts_gt sel" and ok: "commit_prog_ok P" and bs: "commit_seen P bs q"
    and n: "block_count P q < 2 ^ 64" and d: "commit_logs_on_disk P q d"
  shows "os_wp (\<lambda>_ d2. os_file d2 (LOGDIR @ ''commit'') = Some (concat (map store_tid bs))) (\<lambda>_ _. False)
    (merge_commit_main_os k sel v0 [''./merge-commit'', decimal (tp_nthr P)] d)"
proof -
  let ?n = "tp_nthr P"
  note m = commit_logs_merge [OF q ok bs n]
  have nthr: "?n < 128" "to_tid_t (int ?n) = int ?n" "extract_int v0 (decimal ?n) = int ?n"
    using ok to_tid_t_small [of "int ?n"] extract_decimal [of ?n v0] by (simp_all add: commit_prog_ok_def)
  have F: "\<forall>t < ?n. os_file d (tpath ''commit'' t) = Some (commit_file (g_commit_log (cs_thr q t)))" and dok: "os_ok d"
    using d by (simp_all add: commit_logs_on_disk_def)
  have op: "\<forall>t \<in> set [0..<?n]. t < 1000 \<and> os_file d (tpath ''commit'' t) \<noteq> Some []"
    using F nthr(1) commit_file_nonempty [OF m(3)] by auto
  have cl: "length ''commit'' \<le> 100" by simp
  have "os_wp (\<lambda>_ d2. os_file d2 (LOGDIR @ ''commit'') = Some (concat (map store_tid bs))) (\<lambda>_ _. False)
      (merge_commit_os k sel ls (int ?n) d1)"
    if l: "list_all2 (\<lambda>t. log_is (tpath ''commit'' t) d1) [0..<?n] ls" "ext d d1" "os_file d1 = os_file d" for ls d1
    using F l(3) by (intro merge_commit_os_ok [OF k ext_ok [OF l(2) dok] l(1) _ m(2)]) simp
  then show ?thesis
    unfolding merge_commit_main_os_def using nthr(2,3)
    by (simp add: Let_def, intro os_wp_mono [OF open_logs_ok [OF k(1) cl dok op]]) auto
qed

text \<open>A replay that starts from the files starts as one that starts from the lists.\<close>

lemma commit_from_disk:
  assumes k: "willing k" "k_aligned k" and q: "min_queue id ts_gt sel" and ok: "commit_prog_ok P"
    and r: "commit_reach P q" "commit_done P q" and n: "few_accesses P q" and d: "commit_logs_on_disk P q d"
  shows "\<exists>s0 d1. start_commit_replay sel P q = Some s0 \<and> start_commit_replay_os k v0 sel P d = Ret s0 d1"
proof (rule commit_chain [OF q ok r n])
  fix bs s0
  assume bs: "commit_seen P bs q" and s0: "start_commit_replay sel P q = Some s0"
  note c = commit_seenD [OF bs ok] and bn = few_accessesD(2) [OF bs ok n]
  have init: "commit_replay_init P (Some bs) = Some s0"
    using s0 commit_logs_merge(1) [OF q ok bs bn] by (simp add: start_commit_replay_def)
  have small: "\<forall>t \<in> set bs. t < 128" using c(1) ok by (auto simp: commit_prog_ok_def)
  have "os_wp (\<lambda>r _. r = s0) (\<lambda>_ _. False) (start_commit_replay_os k v0 sel P d)"
    unfolding start_commit_replay_os_def os_wp_simps
    by (rule os_wp_mono [OF commit_main_os_ok [OF k q ok bs bn d]]) (rule commit_init_os_ok [OF k(1) _ c(4) small init], assumption+)
  with s0 show ?thesis by (cases "start_commit_replay_os k v0 sel P d") auto
qed

text \<open>The same from the writing of the logs on.\<close>

definition commit_log_keys :: "nat \<Rightarrow> log_key list" where
  "commit_log_keys nthr = map (\<lambda>t. (''commit'', int t)) [0..<nthr]"

definition commit_log_bytes :: "cstate \<Rightarrow> log_key \<Rightarrow> byte list list" where
  "commit_log_bytes q key = map store_ts (g_commit_log (cs_thr q (nat (snd key))))"

lemma commit_log_keys_ok: "n \<le> 1000 \<Longrightarrow> log_keys_ok (set (commit_log_keys n))"
  using short_logpath by (auto simp: log_keys_ok_def commit_log_keys_def)

lemma commit_files_on_disk:
  assumes n: "tp_nthr P \<le> 1000" and s1: "os_ok s1"
    and own: "\<forall>key \<in> set (commit_log_keys (tp_nthr P)). os_file s1 (path_of key) = Some (concat (commit_log_bytes q key))"
  shows "commit_logs_on_disk P q s1"
proof -
  have "os_file s1 (tpath ''commit'' t) = Some (commit_file (g_commit_log (cs_thr q t)))" if t: "t < tp_nthr P" for t
  proof -
    have "(''commit'', int t) \<in> set (commit_log_keys (tp_nthr P))" using t by (auto simp: commit_log_keys_def)
    then show ?thesis using own n t path_of_tpath [of t] by (fastforce simp: commit_log_bytes_def commit_file_def)
  qed
  then show ?thesis using s1 by (auto simp: commit_logs_on_disk_def)
qed

lemma commit_logs_written:
  assumes "willing k" "k_aligned k" and n: "tp_nthr P \<le> 1000" and s: "os_ok s"
    and "logs_used (set (commit_log_keys (tp_nthr P))) (commit_log_bytes q) es"
  shows "\<exists>ls1 s1. log_events_os k es ls s = Ret ls1 s1 \<and> commit_logs_on_disk P q s1"
  using log_events_ok [OF assms(1,2) commit_log_keys_ok [OF n] assms(5) s, of ls] commit_files_on_disk [OF n] by blast

lemma commit_logs_in_turn: "\<exists>es. logs_used (set (commit_log_keys n)) (commit_log_bytes q) es"
proof -
  have "distinct (commit_log_keys n)" by (simp add: commit_log_keys_def distinct_map inj_on_def)
  from logs_used_in_turn [OF this, of "commit_log_bytes q"] show ?thesis by (auto simp: commit_log_bytes_def)
qed

lemma commit_through_files:
  assumes k: "willing k" "k_aligned k" and q: "min_queue id ts_gt sel" and ok: "commit_prog_ok P"
    and r: "commit_reach P q" "commit_done P q" and n: "few_accesses P q"
    and es: "logs_used (set (commit_log_keys (tp_nthr P))) (commit_log_bytes q) es" and d: "os_ok d"
  shows "\<exists>ls d1 s0 d2. log_events_os k es Map.empty d = Ret ls d1 \<and> start_commit_replay_os k v0 sel P d1 = Ret s0 d2 \<and>
    (\<forall>s. commit_replay_reach P s0 s \<longrightarrow> commit_replays P (recorded_view q) s) \<and>
    (\<forall>g. fair (tp_nthr P) g \<longrightarrow> (\<exists>m. commit_replay_done P (sched_state (commit_replay_step P) g s0 m) \<and>
       commit_replays P (recorded_view q) (sched_state (commit_replay_step P) g s0 m)))"
proof -
  have "tp_nthr P \<le> 1000" using ok by (simp add: commit_prog_ok_def)
  then obtain ls d1 where d1: "log_events_os k es Map.empty d = Ret ls d1" "commit_logs_on_disk P q d1"
    using commit_logs_written [OF k _ d es, of Map.empty] by auto
  obtain s0 d2 where s0: "start_commit_replay sel P q = Some s0" "start_commit_replay_os k v0 sel P d1 = Ret s0 d2"
    using commit_from_disk [OF k q ok r n d1(2)] by blast
  show ?thesis
    using d1(1) s0(2) commit_started_replays [OF q ok r n s0(1)] commit_started_ends [OF q ok r n s0(1)] by blast
qed

section \<open>A thread without accesses\<close>

lemma no_block: "blocks_ok P bs \<Longrightarrow> tp_code P t [] = Finish \<Longrightarrow> t \<notin> set bs"
proof (induction bs rule: rev_induct)
  case (snoc u bs)
  then have t: "t \<notin> set bs" and u: "tp_code P u (fst (run_blocks P bs) u) \<noteq> Finish" by (simp_all add: blocks_ok_snoc)
  from run_blocks_untouched [OF t] u snoc.prems(2) have "u \<noteq> t" by auto
  with t show ?case by simp
qed simp

lemma no_access_no_stamp:
  assumes "commit_reach P q" "commit_done P q" "tp_nthr P < 65536" "t < tp_nthr P" "tp_code P t [] = Finish"
  shows "g_commit_log (cs_thr q t) = []"
proof -
  obtain bs where bs: "commit_seen P bs q" using commit_done_seen [OF assms(1-3)] by blast
  then have "t \<notin> set bs" using no_block assms(5) by (auto simp: commit_seen_def)
  then have "blocks_of t bs = []" by (auto simp: blocks_of_def filter_empty_conv in_set_conv_nth)
  with bs assms(4) show ?thesis by (simp add: commit_seen_def)
qed

lemma idle_thread_stops_merge:
  assumes k: "willing k" "k_aligned k" and d: "os_ok d" and n: "tp_nthr P < 128" and q: "commit_reach P q" "commit_done P q"
    and t: "t < tp_nthr P" "tp_code P t [] = Finish" and es: "logs_used (set (commit_log_keys (tp_nthr P))) (commit_log_bytes q) es"
  shows "\<exists>ls d1 d2. log_events_os k es Map.empty d = Ret ls d1 \<and> os_file d1 (tpath ''commit'' t) = Some [] \<and>
    merge_commit_main_os k sel v0 [''./merge-commit'', decimal (tp_nthr P)] d1 = Exit ''mmap'' d2"
proof -
  obtain ls d1 where d1: "log_events_os k es Map.empty d = Ret ls d1" "commit_logs_on_disk P q d1"
    using commit_logs_written [OF k _ d es, of Map.empty] n by auto
  have "g_commit_log (cs_thr q t) = []" using no_access_no_stamp [OF q _ t] n by simp
  then have e: "os_file d1 (tpath ''commit'' t) = Some []"
    using d1(2) t(1) by (simp add: commit_logs_on_disk_def commit_file_def)
  have "\<exists>d2. open_logs_os k ''commit'' [0..<tp_nthr P] d1 = Exit ''mmap'' d2"
    using n t(1) e by (intro open_logs_empty [OF k(1)]) auto
  moreover have "extract_int v0 (decimal (tp_nthr P)) = int (tp_nthr P)" using extract_decimal [of "tp_nthr P" v0] n by simp
  ultimately show ?thesis using d1(1) e by (auto simp: merge_commit_main_os_def)
qed

end
