(* ===== verification/Example_Files.thy ===== *)
theory Example_Files
  imports Disk_Test Commit_Files Example
begin

text \<open>
  The logs of the example recordings as files: a kernel that refuses no call, one that refuses calls
  from some number on, and an empty file system.
\<close>

definition demo_kernel :: kernel where
  "demo_kernel = \<lparr>k_refuse = (\<lambda>_. False), k_addr = (\<lambda>_ _. 8192)\<rparr>"

definition full_kernel :: "nat \<Rightarrow> kernel" where
  "full_kernel n = \<lparr>k_refuse = (\<lambda>i. n \<le> i), k_addr = (\<lambda>_ _. 8192)\<rparr>"

definition demo_disk :: os where
  "demo_disk = \<lparr>os_file = (\<lambda>_. None), os_fd = (\<lambda>_. None), os_calls = 0\<rparr>"

lemma demo_kernel_ok: "willing demo_kernel" "k_aligned demo_kernel" "k_aligned (full_kernel n)"
  by (simp_all add: willing_def k_aligned_def demo_kernel_def full_kernel_def mmap_aligned_def PAGE_SIZE_def)

lemma demo_disk_ok: "os_ok demo_disk" "no_old_files P demo_disk"
  by (simp_all add: os_ok_def no_old_files_def demo_disk_def)

definition demo_logs :: "tid_t \<Rightarrow> thr_rec" where
  "demo_logs = rec_logs (\<lambda>nobj. mem_finish_thr nobj before_finish_thr_default) demo_prog demo_rec"

definition demo_events :: "log_event list" where
  "demo_events = concat (map (\<lambda>key. log_use key (order_log_bytes demo_logs key)) (order_log_keys 2))"

lemma demo_events_used: "logs_used (set (order_log_keys 2)) (order_log_bytes demo_logs) demo_events"
  unfolding demo_events_def
  by (rule logs_used_in_turn) (auto simp: order_log_keys_def upt_rec order_log_bytes_def)

lemma demo_size: "tp_nobj demo_prog < 2 ^ 31" "rec_size demo_prog demo_rec < 2 ^ 31"
proof -
  have "rec_size demo_prog demo_rec < 99" by code_simp
  then show "rec_size demo_prog demo_rec < 2 ^ 31" by simp
  show "tp_nobj demo_prog < 2 ^ 31" by (simp add: demo_prog_def)
qed

definition bank_events :: "log_event list" where
  "bank_events = concat (map (\<lambda>key. log_use key (commit_log_bytes bank_rec key)) (commit_log_keys 2))"

lemma bank_events_used: "logs_used (set (commit_log_keys 2)) (commit_log_bytes bank_rec) bank_events"
  unfolding bank_events_def
  by (rule logs_used_in_turn) (auto simp: commit_log_keys_def upt_rec commit_log_bytes_def)

text \<open>A program whose thread 1 makes no access.\<close>

definition idle_prog :: test_prog where
  "idle_prog = \<lparr>tp_code = (\<lambda>t vs. if t = 0 \<and> vs = [] then Read 0 else Finish), tp_cid = (\<lambda>a. 0), tp_nobj = 1,
     tp_nthr = 2, tp_mem = (\<lambda>a. 5)\<rparr>"

definition idle_sched :: "(tid_t \<times> bool) list" where
  "idle_sched = replicate 3 (1, False) @ replicate 12 (0, False)"

definition idle_rec :: cstate where
  "idle_rec = commit_run idle_prog idle_sched (commit_init idle_prog)"

lemma idle_reach: "commit_reach idle_prog idle_rec"
  unfolding idle_rec_def by (rule commit_reach_run [OF commit_reach.init]) (simp add: idle_sched_def idle_prog_def)

lemma idle_done: "commit_done idle_prog idle_rec"
  by code_simp

text \<open>A log into which an entry is written before the system refuses all calls.\<close>

definition small_use :: "log_event list" where
  "small_use = log_use (''commit'', 0) [[1, 2, 3]]"

lemma small_use_used: "logs_used {(''commit'', 0)} (\<lambda>_. [[1, 2, 3]]) small_use"
  using logs_used_in_turn [of "[(''commit'', 0)]" "\<lambda>_. [[1, 2, 3]]"] by (simp add: small_use_def)

lemma small_use_keys: "log_keys_ok {(''commit'', 0)}"
  using short_logpath [of 0 "''commit''"] by (simp add: log_keys_ok_def)

lemma small_use_exits: "\<exists>s1. log_events_os (full_kernel 5) small_use Map.empty demo_disk = Exit ''fstat in unmap log'' s1"
proof -
  have p: "logpath ''commit'' 0 = Some (path_of (''commit'', 0))" using log_keys_path [OF small_use_keys] by simp
  have size: "3 \<le> LOG_BUFFER_SIZE" by (simp add: LOG_BUFFER_SIZE_def)
  show ?thesis
    using size
    by (simp add: small_use_def log_use_def new_mapped_log_os_def logpath_os_def p new_mapped_log_path_os_def perror_exit_def
      sys_open_def sys_ftruncate_def sys_mmap_def sys_plain_def sys_fstat_def sys_call_def full_kernel_def demo_disk_def fd_file_def set_fd_file_def
      window_def log_entry_os_def next_log_entry_os_def store_os_def resize_def unmap_truncate_log_os_def unmap_log_os_def truncate_log_os_def)
qed

end
