(* ===== verification/Thread_Barrier.thy ===== *)
theory Thread_Barrier
  imports Fair_Schedule
begin

text \<open>
  The barrier \<open>sync_thread\<close> that the threads of the test programs pass once, after
  \<open>mem_init_thr\<close> and before their first access (\<open>src/racey.c\<close>, \<open>src/addcnt.c\<close>, \<open>src/relay.c\<close>): an
  atomic increment of \<open>flag\<close> and a loop that waits until it is the number of threads. A step is one
  access to \<open>flag\<close>. The value of the increment is the result of the function.
\<close>

datatype bar_pc = BEnter | BWait int | BPassed int

record barrier =
  flag :: int
  bar_pc :: "tid_t \<Rightarrow> bar_pc"

definition barrier_init :: barrier where
  "barrier_init = \<lparr>flag = 0, bar_pc = (\<lambda>t. BEnter)\<rparr>"

definition sync_thread :: "nat \<Rightarrow> tid_t \<Rightarrow> barrier \<Rightarrow> barrier" where
  "sync_thread NumProcs t b =
     (case bar_pc b t of
        BEnter \<Rightarrow> b\<lparr>flag := flag b + 1, bar_pc := (bar_pc b)(t := BWait (flag b))\<rparr>
      | BWait v \<Rightarrow> if flag b \<noteq> int NumProcs then b else b\<lparr>bar_pc := (bar_pc b)(t := BPassed v)\<rparr>
      | BPassed v \<Rightarrow> b)"

fun passed :: "bar_pc \<Rightarrow> bool" where
  "passed (BPassed v) = True"
| "passed pc = False"

text \<open>The states the threads can reach.\<close>

inductive bar_reach :: "nat \<Rightarrow> barrier \<Rightarrow> bool" for n where
  init: "bar_reach n barrier_init"
| step: "bar_reach n b \<Longrightarrow> t < n \<Longrightarrow> bar_reach n (sync_thread n t b)"

section \<open>Invariant\<close>

text \<open>\<open>flag\<close> counts the threads that have arrived; each of them got a number of its own.\<close>

fun bar_num :: "bar_pc \<Rightarrow> int option" where
  "bar_num BEnter = None"
| "bar_num (BWait v) = Some v"
| "bar_num (BPassed v) = Some v"

definition arrived :: "nat \<Rightarrow> barrier \<Rightarrow> tid_t set" where
  "arrived n b = {t. t < n \<and> bar_pc b t \<noteq> BEnter}"

definition bar_inv :: "nat \<Rightarrow> barrier \<Rightarrow> bool" where
  "bar_inv n b \<longleftrightarrow>
     flag b = int (card (arrived n b)) \<and>
     (\<forall>t < n. passed (bar_pc b t) \<longrightarrow> arrived n b = {..<n}) \<and>
     (\<forall>t < n. \<forall>v. bar_num (bar_pc b t) = Some v \<longrightarrow> 0 \<le> v \<and> v < flag b) \<and>
     (\<forall>t < n. \<forall>u < n. \<forall>v. bar_num (bar_pc b t) = Some v \<longrightarrow> bar_num (bar_pc b u) = Some v \<longrightarrow> t = u)"

lemma finite_arrived [simp]: "finite (arrived n b)"
  by (simp add: arrived_def)

lemma arrived_sub: "arrived n b \<subseteq> {..<n}"
  by (auto simp: arrived_def)

lemma bar_numD: "bar_num pc = Some v \<Longrightarrow> pc \<noteq> BEnter"
  by (cases pc) auto

lemma arrived_all: "card (arrived n b) = n \<Longrightarrow> arrived n b = {..<n}"
  using card_subset_eq [OF finite_lessThan arrived_sub] by simp

lemma bar_invD:
  assumes "bar_inv n b" "t < n"
  shows "flag b = int (card (arrived n b))" "passed (bar_pc b t) \<Longrightarrow> arrived n b = {..<n}"
    "bar_num (bar_pc b t) = Some v \<Longrightarrow> 0 \<le> v \<and> v < flag b"
    "u < n \<Longrightarrow> bar_num (bar_pc b t) = Some v \<Longrightarrow> bar_num (bar_pc b u) = Some v \<Longrightarrow> t = u"
  using assms unfolding bar_inv_def by blast+

lemma bar_inv_init: "bar_inv n barrier_init"
  by (simp add: bar_inv_def barrier_init_def arrived_def)

lemma bar_inv_enter:
  assumes inv: "bar_inv n b" and t: "t < n" and pc: "bar_pc b t = BEnter"
  shows "bar_inv n (b\<lparr>flag := flag b + 1, bar_pc := (bar_pc b)(t := BWait (flag b))\<rparr>)" (is "bar_inv n ?b")
proof -
  have t': "t \<notin> arrived n b" using pc by (simp add: arrived_def)
  have ar: "arrived n ?b = insert t (arrived n b)" using t by (auto simp: arrived_def)
  have np: "\<not> passed (bar_pc b u)" if "u < n" for u
    using bar_invD(2) [OF inv that] t t' by blast
  have fl: "v < flag b" if "u < n" "bar_num (bar_pc b u) = Some v" for u v
    using bar_invD(3) [OF inv that] by blast
  show ?thesis
    unfolding bar_inv_def
  proof (intro conjI allI impI)
    show "flag ?b = int (card (arrived n ?b))" using ar t' bar_invD(1) [OF inv t] by simp
  next
    fix u assume "u < n" "passed (bar_pc ?b u)"
    then show "arrived n ?b = {..<n}" using np [of u] by (auto split: if_splits)
  next
    fix u v assume uv: "u < n" "bar_num (bar_pc ?b u) = Some v"
    then show "0 \<le> v" "v < flag ?b"
      using bar_invD(1) [OF inv t] bar_invD(3) [OF inv, of u v] by (auto split: if_splits)
  next
    fix u w v assume a: "u < n" "w < n" "bar_num (bar_pc ?b u) = Some v" "bar_num (bar_pc ?b w) = Some v"
    then show "u = w"
      using bar_invD(4) [OF inv, of u w v] fl [of u v] fl [of w v] by (auto split: if_splits)
  qed
qed

lemma bar_inv_pass:
  assumes inv: "bar_inv n b" and t: "t < n" and pc: "bar_pc b t = BWait v" and fl: "flag b = int n"
  shows "bar_inv n (b\<lparr>bar_pc := (bar_pc b)(t := BPassed v)\<rparr>)" (is "bar_inv n ?b")
proof -
  have num: "bar_num (bar_pc ?b u) = bar_num (bar_pc b u)" for u using pc by simp
  have ar: "arrived n ?b = arrived n b" using pc by (auto simp: arrived_def)
  have all: "arrived n b = {..<n}" using bar_invD(1) [OF inv t] fl by (intro arrived_all) simp
  show ?thesis using inv all fl unfolding bar_inv_def ar num by simp
qed

lemma sync_thread_inv: "bar_inv n b \<Longrightarrow> t < n \<Longrightarrow> bar_inv n (sync_thread n t b)"
  using bar_inv_enter [of n b t] bar_inv_pass [of n b t]
  by (simp add: sync_thread_def split: bar_pc.splits)

lemma bar_reach_inv: "bar_reach n b \<Longrightarrow> bar_inv n b"
  by (induction rule: bar_reach.induct) (auto intro: bar_inv_init sync_thread_inv)

section \<open>Progress\<close>

fun bar_todo :: "bar_pc \<Rightarrow> nat" where
  "bar_todo BEnter = 2"
| "bar_todo (BWait v) = 1"
| "bar_todo (BPassed v) = 0"

definition bar_left :: "nat \<Rightarrow> barrier \<Rightarrow> nat" where
  "bar_left n b = (\<Sum>t<n. bar_todo (bar_pc b t))"

definition all_passed :: "nat \<Rightarrow> barrier \<Rightarrow> bool" where
  "all_passed n b \<longleftrightarrow> (\<forall>t < n. passed (bar_pc b t))"

lemma sync_thread_left:
  assumes "t < n" "sync_thread n t b \<noteq> b"
  shows "bar_left n (sync_thread n t b) < bar_left n b"
  unfolding bar_left_def using assms
  by (intro sum_lessThan_dec) (auto simp: sync_thread_def split: bar_pc.splits if_splits)

lemma barrier_moves:
  assumes inv: "bar_inv n b" and nd: "\<not> all_passed n b"
  shows "\<exists>t < n. sync_thread n t b \<noteq> b"
proof (cases "arrived n b = {..<n}")
  case True
  obtain t where t: "t < n" "\<not> passed (bar_pc b t)" using nd by (auto simp: all_passed_def)
  then have "bar_pc b t \<noteq> BEnter" using True by (auto simp: arrived_def)
  then obtain v where v: "bar_pc b t = BWait v" using t(2) by (cases "bar_pc b t") auto
  have "flag b = int n" using bar_invD(1) [OF inv t(1)] True by simp
  with v have "bar_pc (sync_thread n t b) t \<noteq> bar_pc b t" by (simp add: sync_thread_def)
  with t(1) show ?thesis by metis
next
  case False
  then obtain t where t: "t < n" "bar_pc b t = BEnter" by (auto simp: arrived_def)
  then have "bar_pc (sync_thread n t b) t \<noteq> bar_pc b t" by (simp add: sync_thread_def)
  with t(1) show ?thesis by metis
qed

interpretation barrier: spin_machine "sync_thread n" n "bar_inv n" "all_passed n" "bar_left n"
  by unfold_locales (auto intro: sync_thread_inv sync_thread_left barrier_moves)

section \<open>Properties\<close>

text \<open>No thread leaves the barrier before every thread has entered it, and the number a thread
  gets there is its own: below the number of threads and different from every other thread's.\<close>

lemma barrier_safe:
  assumes "bar_reach n b" "t < n" "bar_pc b t = BPassed v"
  shows "(\<forall>u < n. bar_pc b u \<noteq> BEnter) \<and> 0 \<le> v \<and> v < int n \<and>
    (\<forall>u < n. u \<noteq> t \<longrightarrow> bar_num (bar_pc b u) \<noteq> Some v)"
proof -
  note inv = bar_invD [OF bar_reach_inv [OF assms(1)] assms(2)]
  have all: "arrived n b = {..<n}" using inv(2) assms(3) by simp
  then have "flag b = int n" using inv(1) by simp
  then show ?thesis using all inv(3) [of v] inv(4) [of _ v] assms(3) by (auto simp: arrived_def)
qed

end
