(* ===== verification/Thread_Start.thy ===== *)
theory Thread_Start
  imports Thread_Barrier Test_Run
begin

text \<open>
  The start of the threads of a test program (\<open>ThreadBody\<close> of \<open>src/racey.c\<close>, \<open>thr_start\<close> of
  \<open>src/addcnt.c\<close>): a thread calls \<open>mem_init_thr\<close>, passes the barrier and then makes its accesses, while
  other threads may not even have been created. The machines of the recorders and of the replayers begin
  where all threads are initialised. The theory adds the start to any of them and shows that nothing
  else can happen: a thread that makes an access finds all others initialised.
\<close>

section \<open>A machine with the start of its threads\<close>

record 's started =
  st_base :: 's
  st_ready :: "tid_t \<Rightarrow> bool"
  st_bar :: barrier

definition started_init :: "'s \<Rightarrow> 's started" where
  "started_init raw = \<lparr>st_base = raw, st_ready = (\<lambda>t. False), st_bar = barrier_init\<rparr>"

text \<open>\<open>mem_init_thr\<close>, then \<open>sync_thread\<close>, then the accesses.\<close>

definition started_step :: "(tid_t \<Rightarrow> 's \<Rightarrow> 's) \<Rightarrow> (tid_t \<Rightarrow> 's \<Rightarrow> 's) \<Rightarrow> nat \<Rightarrow> tid_t \<Rightarrow> 's started \<Rightarrow> 's started" where
  "started_step init_thr step n t s =
     (if \<not> st_ready s t then s\<lparr>st_base := init_thr t (st_base s), st_ready := (st_ready s)(t := True)\<rparr>
      else if \<not> passed (bar_pc (st_bar s) t) then s\<lparr>st_bar := sync_thread n t (st_bar s)\<rparr>
      else s\<lparr>st_base := step t (st_base s)\<rparr>)"

definition all_ready :: "nat \<Rightarrow> 's started \<Rightarrow> bool" where
  "all_ready n s \<longleftrightarrow> (\<forall>t < n. st_ready s t)"

lemma started_upd_same [simp]: "s\<lparr>st_bar := b\<rparr> = s \<longleftrightarrow> b = st_bar s" "s\<lparr>st_base := x\<rparr> = s \<longleftrightarrow> x = st_base s"
  by (cases s; auto)+

text \<open>The contract: \<open>part T\<close> is the state when the threads \<open>T\<close> are initialised.\<close>

locale thread_start = spin_machine step nthr inv finished left
  for step :: "tid_t \<Rightarrow> 's \<Rightarrow> 's" and nthr inv finished left +
  fixes init_thr :: "tid_t \<Rightarrow> 's \<Rightarrow> 's"
    and part :: "tid_t set \<Rightarrow> 's"
  assumes init_part: "t < nthr \<Longrightarrow> t \<notin> T \<Longrightarrow> T \<subseteq> {..<nthr} \<Longrightarrow> init_thr t (part T) = part (insert t T)"
begin

definition ready_set :: "'s started \<Rightarrow> tid_t set" where
  "ready_set s = {t. t < nthr \<and> st_ready s t}"

definition st_inv :: "'s started \<Rightarrow> bool" where
  "st_inv s \<longleftrightarrow> inv (part {..<nthr}) \<and> bar_inv nthr (st_bar s) \<and> (\<forall>t < nthr. bar_pc (st_bar s) t \<noteq> BEnter \<longrightarrow> st_ready s t) \<and>
     (if all_ready nthr s then inv (st_base s) else st_base s = part (ready_set s))"

definition st_left :: "'s started \<Rightarrow> nat" where
  "st_left s = card ({..<nthr} - ready_set s) + bar_left nthr (st_bar s) +
     left (if all_ready nthr s then st_base s else part {..<nthr})"

definition st_finished :: "'s started \<Rightarrow> bool" where
  "st_finished s \<longleftrightarrow> all_ready nthr s \<and> all_passed nthr (st_bar s) \<and> finished (st_base s)"

lemma all_ready_set: "all_ready nthr s \<longleftrightarrow> ready_set s = {..<nthr}"
  by (auto simp: all_ready_def ready_set_def)

lemma ready_same [simp]:
  "all_ready nthr (s\<lparr>st_bar := b\<rparr>) \<longleftrightarrow> all_ready nthr s" "all_ready nthr (s\<lparr>st_base := x\<rparr>) \<longleftrightarrow> all_ready nthr s"
  "ready_set (s\<lparr>st_bar := b\<rparr>) = ready_set s" "ready_set (s\<lparr>st_base := x\<rparr>) = ready_set s"
  by (simp_all add: all_ready_def ready_set_def)

lemma passed_all_ready:
  assumes "st_inv s" "t < nthr" "passed (bar_pc (st_bar s) t)"
  shows "all_ready nthr s"
proof -
  have "arrived nthr (st_bar s) = {..<nthr}" using assms by (auto simp: st_inv_def dest: bar_invD(2))
  then show ?thesis using assms(1) by (auto simp: st_inv_def all_ready_def arrived_def)
qed

lemma st_inv_init: "nthr \<noteq> 0 \<Longrightarrow> inv (part {..<nthr}) \<Longrightarrow> st_inv (started_init (part {}))"
  using bar_inv_init [of nthr] by (auto simp: st_inv_def started_init_def barrier_init_def all_ready_def ready_set_def)

text \<open>The step of \<open>mem_init_thr\<close>.\<close>

lemma st_ready_step:
  assumes inv: "st_inv s" and t: "t < nthr" "\<not> st_ready s t"
    and s': "s' = s\<lparr>st_base := init_thr t (st_base s), st_ready := (st_ready s)(t := True)\<rparr>"
  shows "ready_set s' = insert t (ready_set s)" "st_base s' = part (ready_set s')" "st_inv s'" "st_left s' < st_left s"
proof -
  have nr: "\<not> all_ready nthr s" using t by (auto simp: all_ready_def)
  show set: "ready_set s' = insert t (ready_set s)" using t s' by (auto simp: ready_set_def)
  have tn: "t \<notin> ready_set s" "ready_set s \<subseteq> {..<nthr}" using t by (auto simp: ready_set_def)
  show base: "st_base s' = part (ready_set s')"
    using inv nr init_part [OF t(1) tn] s' unfolding set by (simp add: st_inv_def)
  then show "st_inv s'" using inv s' by (auto simp: st_inv_def all_ready_set)
  have "card ({..<nthr} - ready_set s') < card ({..<nthr} - ready_set s)"
    using t tn unfolding set by (intro psubset_card_mono) auto
  moreover have "(if all_ready nthr s' then st_base s' else part {..<nthr}) = part {..<nthr}" using base by (simp add: all_ready_set)
  moreover have "st_bar s' = st_bar s" using s' by simp
  ultimately show "st_left s' < st_left s" using nr unfolding st_left_def by simp
qed

lemma started_step_inv:
  assumes inv: "st_inv s" and t: "t < nthr"
  shows "st_inv (started_step init_thr step nthr t s)"
proof -
  let ?b = "sync_thread nthr t (st_bar s)"
  have "bar_pc ?b u \<noteq> BEnter \<Longrightarrow> u = t \<or> bar_pc (st_bar s) u \<noteq> BEnter" for u
    by (auto simp: sync_thread_def split: bar_pc.splits if_splits)
  then have "st_inv (s\<lparr>st_bar := ?b\<rparr>)" if "st_ready s t"
    using inv sync_thread_inv [OF _ t, of "st_bar s"] that by (auto simp: st_inv_def all_ready_def ready_set_def)
  moreover have "st_inv (s\<lparr>st_base := step t (st_base s)\<rparr>)" if "passed (bar_pc (st_bar s) t)"
    using inv passed_all_ready [OF inv t that] step_inv [OF _ t, of "st_base s"] by (auto simp: st_inv_def all_ready_def)
  ultimately show ?thesis using st_ready_step(3) [OF inv t] by (simp add: started_step_def)
qed

lemma started_step_left:
  assumes inv: "st_inv s" and t: "t < nthr" and ne: "started_step init_thr step nthr t s \<noteq> s"
  shows "st_left (started_step init_thr step nthr t s) < st_left s"
proof -
  have "st_left (s\<lparr>st_bar := sync_thread nthr t (st_bar s)\<rparr>) < st_left s" if "sync_thread nthr t (st_bar s) \<noteq> st_bar s"
    using sync_thread_left [OF t that] by (simp add: st_left_def)
  moreover have "st_left (s\<lparr>st_base := step t (st_base s)\<rparr>) < st_left s"
    if p: "passed (bar_pc (st_bar s) t)" "step t (st_base s) \<noteq> st_base s"
  proof -
    have r: "all_ready nthr s" "inv (st_base s)"
      using passed_all_ready [OF inv t p(1)] inv by (simp_all add: st_inv_def)
    from step_left [OF r(2) t p(2)] r(1) show ?thesis by (simp add: st_left_def)
  qed
  ultimately show ?thesis using ne st_ready_step(4) [OF inv t] by (auto simp: started_step_def split: if_splits)
qed

lemma started_moves:
  assumes inv: "st_inv s" and nf: "\<not> st_finished s"
  shows "\<exists>t < nthr. started_step init_thr step nthr t s \<noteq> s"
proof (cases "all_ready nthr s")
  case False
  then obtain t where t: "t < nthr" "\<not> st_ready s t" by (auto simp: all_ready_def)
  then have "st_ready (started_step init_thr step nthr t s) t \<noteq> st_ready s t" by (simp add: started_step_def)
  with t(1) show ?thesis by metis
next
  case ready: True
  show ?thesis
  proof (cases "all_passed nthr (st_bar s)")
    case False
    then obtain t where t: "t < nthr" "sync_thread nthr t (st_bar s) \<noteq> st_bar s"
      using barrier_moves [of nthr "st_bar s"] inv by (auto simp: st_inv_def)
    then have "\<not> passed (bar_pc (st_bar s) t)" by (auto simp: sync_thread_def split: bar_pc.splits)
    then have "st_bar (started_step init_thr step nthr t s) \<noteq> st_bar s" using t ready by (simp add: started_step_def all_ready_def)
    with t(1) show ?thesis by metis
  next
    case True
    then obtain t where t: "t < nthr" "step t (st_base s) \<noteq> st_base s"
      using not_stuck [of "st_base s"] inv nf ready by (auto simp: st_finished_def st_inv_def)
    then have "st_base (started_step init_thr step nthr t s) \<noteq> st_base s"
      using True ready by (simp add: started_step_def all_ready_def all_passed_def)
    with t(1) show ?thesis by metis
  qed
qed

end

sublocale thread_start \<subseteq> started: spin_machine "started_step init_thr step nthr" nthr st_inv st_finished st_left
  by unfold_locales (rule started_step_inv started_step_left started_moves; assumption)+

context thread_start
begin

text \<open>Whatever the schedule, when a thread has passed the barrier, all are initialised and the machine is in
  one of the states it reaches from there.\<close>

lemma started_safe:
  fixes f k
  assumes "nthr \<noteq> 0" "inv (part {..<nthr})" "fair nthr f"
  defines "s \<equiv> sched_state (started_step init_thr step nthr) f (started_init (part {})) k"
  shows "t < nthr \<Longrightarrow> passed (bar_pc (st_bar s) t) \<Longrightarrow> all_ready nthr s"
    and "if all_ready nthr s then inv (st_base s) else st_base s = part (ready_set s)"
proof -
  have inv: "st_inv s" unfolding s_def by (rule started.sched_inv [OF st_inv_init [OF assms(1,2)] assms(3)])
  show "all_ready nthr s" if "t < nthr" "passed (bar_pc (st_bar s) t)" by (rule passed_all_ready [OF inv that])
  show "if all_ready nthr s then inv (st_base s) else st_base s = part (ready_set s)"
    using inv unfolding st_inv_def by blast
qed

lemma started_finishes:
  assumes "nthr \<noteq> 0" "inv (part {..<nthr})" "fair nthr f"
  shows "\<exists>k. let s = sched_state (started_step init_thr step nthr) f (started_init (part {})) k
    in all_passed nthr (st_bar s) \<and> finished (st_base s) \<and> inv (st_base s)"
  using started.fair_finishes [OF st_inv_init [OF assms(1,2)] assms(3)] by (auto simp: st_finished_def st_inv_def Let_def)

end

section \<open>Recording\<close>

text \<open>\<open>mem_init\<close> has run and the threads are not yet initialised; \<open>raw\<close> is their thread-local data then.\<close>

definition rec_part :: "test_prog \<Rightarrow> 's \<Rightarrow> 's rec_thr \<Rightarrow> tid_t set \<Rightarrow> 's recording" where
  "rec_part P ini raw T =
     (recording_init P ini)\<lparr>qs_thr := (\<lambda>t. if t < tp_nthr P \<and> t \<notin> T then raw else qs_thr (recording_init P ini) t)\<rparr>"

definition rec_init_thr :: "'s \<Rightarrow> tid_t \<Rightarrow> 's recording \<Rightarrow> 's recording" where
  "rec_init_thr ini t q = q\<lparr>qs_thr := (qs_thr q)(t := \<lparr>qt_pc = QRun, qt_vals = [], qt_rec = ini\<rparr>)\<rparr>"

interpretation recorder_start: thread_start "\<lambda>t s. rec_step lg P (tx t s) t s" "tp_nthr P"
  "\<lambda>s. rec_reach rtm lg ini P s \<and> prog_ok P \<and> ends P N \<and> (\<forall>t s. tx t s \<longrightarrow> rtm)" "rec_done P" "rec_left P N"
  "rec_init_thr ini" "rec_part P ini raw" for lg P tx rtm ini N raw
  by unfold_locales (auto simp: rec_init_thr_def rec_part_def recording_init_def fun_eq_iff)

lemma rec_part_all: "rec_part P ini raw {..<tp_nthr P} = recording_init P ini"
  by (simp add: rec_part_def)

section \<open>Replay\<close>

text \<open>The array \<open>memop_cnt\<close> of pointers to the counters of the threads, each null until \<open>mem_init_thr\<close> of
  its thread has set it. A wait reads \<open>*memop_cnt[log->tid]\<close>; \<open>None\<close> is the crash when that is no
  element of the array or a null pointer.\<close>

type_synonym replay_ptr = "(replay \<times> tid_t option list) option"

definition replay_ptr_step :: "test_prog \<Rightarrow> tid_t \<Rightarrow> replay_ptr \<Rightarrow> replay_ptr" where
  "replay_ptr_step P t x =
     (case x of
        None \<Rightarrow> None
      | Some (s, memop_cnt) \<Rightarrow>
          (case (tp_code P t (rt_vals (rp_thr s t)), rt_pc (rp_thr s t)) of
             (Write a v, WaitReader e) \<Rightarrow>
               if length memop_cnt \<le> rwm_tid e then None
               else (case memop_cnt ! rwm_tid e of
                       None \<Rightarrow> None
                     | Some u \<Rightarrow>
                         Some (if rt_memop (rp_thr s u) \<le> rwm_memop e then s else goto t NextReader s, memop_cnt))
           | _ \<Rightarrow> Some (replay_step P t s, memop_cnt)))"

text \<open>\<open>mem_init_thr\<close>, and the state after \<open>mem_init\<close> and the \<open>mem_init_thr\<close> of some threads.\<close>

definition replay_thr_raw :: replay_thr where
  "replay_thr_raw = \<lparr>rt_memop = 0, rt_wait_version = \<lparr>wv_memop = 0, wv_version = 0\<rparr>, rt_version_log = [], rt_pc = Run, rt_vals = []\<rparr>"

definition replay_ptr_init_thr :: "(tid_t \<Rightarrow> wait_version list) \<Rightarrow> tid_t \<Rightarrow> replay_ptr \<Rightarrow> replay_ptr" where
  "replay_ptr_init_thr vlogs t = map_option (\<lambda>(s, memop_cnt). (set_thr t (replay_init_thr (vlogs t)) s, memop_cnt[t := Some t]))"

definition replay_part :: "test_prog \<Rightarrow> (tid_t \<Rightarrow> wait_version list) \<Rightarrow> replay_wait_memop_log list \<Rightarrow> tid_t set \<Rightarrow> replay_ptr" where
  "replay_part P vlogs rls T =
     Some ((replay_init P vlogs rls)\<lparr>rp_thr := (\<lambda>t. if t < tp_nthr P \<and> t \<notin> T then replay_thr_raw else replay_init_thr (vlogs t))\<rparr>,
           map (\<lambda>t. if t \<in> T then Some t else None) [0..<tp_nthr P])"

definition ptr_inv :: "test_prog \<Rightarrow> event list \<Rightarrow> replay_ptr \<Rightarrow> bool" where
  "ptr_inv P es x \<longleftrightarrow> (\<exists>s. x = Some (s, map Some [0..<tp_nthr P]) \<and> replay_inv P es s \<and> run_of P es \<and> complete P es)"

text \<open>A wait is always for a thread of the program.\<close>

lemma wait_reader_tid:
  assumes inv: "replay_inv P es s" and run: "run_of P es" and t: "t < tp_nthr P" and pc: "rt_pc (rp_thr s t) = WaitReader e"
  shows "rwm_tid e < tp_nthr P"
proof -
  have "kt s t \<noteq> thr_cnt t es" using replay_invD(3) [OF inv t] pc by (auto simp: thr_inv_def Let_def)
  then obtain i where i: "is_cur es s i" "ev_tid (es ! i) = t" by (rule cur_ex [OF inv t])
  have o': "ev_obj (tp_cid P) es i < tp_nobj P" by (rule run_ofD(2) [OF run is_cur_length [OF i(1)]])
  have "e \<in> set (rs s (ev_obj (tp_cid P) es i))"
    using replay_invD(4) [OF inv i(1)] pc i(2) by (simp add: cur_inv_def pc_at_def Let_def)
  then obtain j where "read_at (tp_cid P) es (ev_obj (tp_cid P) es i) e j"
    using replay_invD(6) [OF inv o'] by (auto simp: obj_inv_def log_static_def rs_def Let_def)
  then show ?thesis using run_ofD(1) [OF run, of j] by (simp add: read_at_def)
qed

lemma replay_ptr_step_eq:
  assumes "replay_inv P es s" "run_of P es" "t < tp_nthr P"
  shows "replay_ptr_step P t (Some (s, map Some [0..<tp_nthr P])) = Some (replay_step P t s, map Some [0..<tp_nthr P])"
  using wait_reader_tid [OF assms]
  by (auto simp: replay_ptr_step_def replay_step_def mem_write_def wait_reader_def Let_def not_le split: action.splits rpc.splits)

definition ptr_left :: "test_prog \<Rightarrow> event list \<Rightarrow> replay_ptr \<Rightarrow> nat" where
  "ptr_left P es x = (case x of None \<Rightarrow> 0 | Some (s, _) \<Rightarrow> steps_left P es s)"

definition ptr_done :: "test_prog \<Rightarrow> replay_ptr \<Rightarrow> bool" where
  "ptr_done P x \<longleftrightarrow> (case x of None \<Rightarrow> False | Some (s, _) \<Rightarrow> all_done P s)"

interpretation replayer_start: thread_start "replay_ptr_step P" "tp_nthr P" "ptr_inv P es" "ptr_done P" "ptr_left P es"
  "replay_ptr_init_thr vlogs" "replay_part P vlogs rls" for P es vlogs rls
proof
  show "ptr_inv P es (replay_ptr_step P t x)" if "ptr_inv P es x" "t < tp_nthr P" for x t
    using that replay_ptr_step_eq replayer.step_inv [of P es _ t] by (fastforce simp: ptr_inv_def)
  show "ptr_left P es (replay_ptr_step P t x) < ptr_left P es x"
    if "ptr_inv P es x" "t < tp_nthr P" "replay_ptr_step P t x \<noteq> x" for x t
    using that replay_ptr_step_eq [of P es _ t] replayer.step_left [of P es _ t] by (auto simp: ptr_inv_def ptr_left_def)
  show "\<exists>t < tp_nthr P. replay_ptr_step P t x \<noteq> x" if h: "ptr_inv P es x" "\<not> ptr_done P x" for x
  proof -
    obtain s where s: "x = Some (s, map Some [0..<tp_nthr P])" "replay_inv P es s" "run_of P es" "complete P es"
      using h(1) by (auto simp: ptr_inv_def)
    have "\<not> all_done P s" using s(1) h(2) by (simp add: ptr_done_def)
    with replayer.not_stuck [of P es s] s obtain t where "t < tp_nthr P" "replay_step P t s \<noteq> s" by blast
    with replay_ptr_step_eq [OF s(2,3)] show ?thesis unfolding s(1) by auto
  qed
  show "replay_ptr_init_thr vlogs t (replay_part P vlogs rls T) = replay_part P vlogs rls (insert t T)"
    if "t < tp_nthr P" "t \<notin> T" "T \<subseteq> {..<tp_nthr P}" for t T
    using that by (auto simp: replay_ptr_init_thr_def replay_part_def set_thr_def fun_eq_iff list_eq_iff_nth_eq nth_list_update)
qed

section \<open>A test from the start of its threads\<close>

text \<open>The states of the two runs under a schedule.\<close>

definition rec_started ::
  "(tacc \<Rightarrow> 's \<Rightarrow> 's) \<Rightarrow> 's \<Rightarrow> 's rec_thr \<Rightarrow> test_prog \<Rightarrow> (tid_t \<Rightarrow> 's recording \<Rightarrow> bool) \<Rightarrow> (nat \<Rightarrow> tid_t) \<Rightarrow> nat \<Rightarrow>
     's recording started" where
  "rec_started lg ini raw P tx f =
     sched_state (started_step (rec_init_thr ini) (\<lambda>t s. rec_step lg P (tx t s) t s) (tp_nthr P)) f
       (started_init (rec_part P ini raw {}))"

definition replay_started ::
  "test_prog \<Rightarrow> (tid_t \<Rightarrow> wait_version list) \<Rightarrow> replay_wait_memop_log list \<Rightarrow> (nat \<Rightarrow> tid_t) \<Rightarrow> nat \<Rightarrow> replay_ptr started" where
  "replay_started P vlogs rls g =
     sched_state (started_step (replay_ptr_init_thr vlogs) (replay_ptr_step P) (tp_nthr P)) g
       (started_init (replay_part P vlogs rls {}))"

lemma start_replay_files:
  "start_replay sel P lg = Some s0 \<Longrightarrow> \<exists>rls. s0 = replay_init P (\<lambda>t. log_version (lg t)) rls"
  by (auto simp: start_replay_def split: option.splits)

lemma replay_part_all: "replay_part P vlogs rls {..<tp_nthr P} = Some (replay_init P vlogs rls, map Some [0..<tp_nthr P])"
  by (auto simp: replay_part_def replay_init_def intro!: map_cong)

lemma rec_started_ends:
  assumes "0 < tp_nthr P" "prog_ok P" "ends P N" "fair (tp_nthr P) f"
  shows "\<exists>k. rec_done P (st_base (rec_started lg ini raw P tx f k)) \<and> rec_reach True lg ini P (st_base (rec_started lg ini raw P tx f k))"
  using recorder_start.started_finishes [where P = P and rtm = True and lg = lg and ini = ini and N = N and tx = tx and raw = raw and f = f] assms rec_reach.init [of True lg ini P]
  unfolding rec_started_def Let_def rec_part_all by auto

lemma replay_started_safe:
  assumes "0 < tp_nthr P" "replay_inv P es (replay_init P vlogs rls)" "run_of P es" "complete P es" "fair (tp_nthr P) g"
  shows "st_base (replay_started P vlogs rls g j) \<noteq> None"
    "t < tp_nthr P \<Longrightarrow> passed (bar_pc (st_bar (replay_started P vlogs rls g j)) t) \<Longrightarrow> all_ready (tp_nthr P) (replay_started P vlogs rls g j)"
    "\<exists>m s memop_cnt. st_base (replay_started P vlogs rls g m) = Some (s, memop_cnt) \<and> all_done P s \<and> replay_inv P es s"
proof -
  have inv: "tp_nthr P \<noteq> 0" "ptr_inv P es (replay_part P vlogs rls {..<tp_nthr P})"
    using assms by (auto simp: replay_part_all ptr_inv_def)
  note safe = replayer_start.started_safe [OF inv assms(5), folded replay_started_def]
  show "st_base (replay_started P vlogs rls g j) \<noteq> None"
    using safe(2) [of j] by (auto simp: ptr_inv_def replay_part_def split: if_splits)
  show "t < tp_nthr P \<Longrightarrow> passed (bar_pc (st_bar (replay_started P vlogs rls g j)) t) \<Longrightarrow> all_ready (tp_nthr P) (replay_started P vlogs rls g j)"
    by (rule safe(1))
  show "\<exists>m s memop_cnt. st_base (replay_started P vlogs rls g m) = Some (s, memop_cnt) \<and> all_done P s \<and> replay_inv P es s"
    using replayer_start.started_finishes [OF inv assms(5), folded replay_started_def]
    unfolding Let_def ptr_inv_def ptr_done_def by (fastforce split: option.splits prod.splits)
qed

context order_recorder
begin

lemma test_run_from_start:
  assumes "min_queue memop_key que_gt sel" "0 < tp_nthr P" "tp_nthr P < 128" "prog_ok P" "ends P N"
    and "fair (tp_nthr P) f" "fair (tp_nthr P) g"
  shows "\<exists>k rls. let q = st_base (rec_started rec_acc (rec_init (tp_nobj P)) raw P tx f k);
      lgs = rec_logs rec_finish P q; S = replay_started P (\<lambda>t. log_version (lgs t)) rls g
    in rec_done P q \<and> start_replay sel P lgs = Some (replay_init P (\<lambda>t. log_version (lgs t)) rls) \<and>
      (\<forall>j. st_base (S j) \<noteq> None \<and> (\<forall>t < tp_nthr P. passed (bar_pc (st_bar (S j)) t) \<longrightarrow> all_ready (tp_nthr P) (S j))) \<and>
      (\<exists>m s memop_cnt. st_base (S m) = Some (s, memop_cnt) \<and> all_done P s \<and> replays P q s)"
proof -
  let ?q = "\<lambda>k. st_base (rec_started rec_acc (rec_init (tp_nobj P)) raw P tx f k)"
  obtain k where k: "rec_done P (?q k)" "rec_reach True rec_acc (rec_init (tp_nobj P)) P (?q k)"
    using rec_started_ends [OF assms(2,4-6), where lg = rec_acc and ini = "rec_init (tp_nobj P)" and raw = raw and tx = tx] by blast
  let ?lgs = "rec_logs rec_finish P (?q k)"
  obtain es s0 where es: "recording_inv rec_acc (rec_init (tp_nobj P)) P es (?q k)" "start_replay sel P ?lgs = Some s0" "replay_inv P es s0"
    using recording_replay [OF assms(1,3,4) k(2,1)] by blast
  obtain rls where rls: "s0 = replay_init P (\<lambda>t. log_version (?lgs t)) rls" using start_replay_files [OF es(2)] by blast
  note d = rec_done_run [OF es(1) k(1)]
  note safe = replay_started_safe [OF assms(2) es(3) [unfolded rls] d(1,2) assms(7)]
  from safe(3) inv_replays [OF es(1) k(1)] obtain m s mc where
    "st_base (replay_started P (\<lambda>t. log_version (?lgs t)) rls g m) = Some (s, mc)" "all_done P s" "replays P (?q k) s" by blast
  then show ?thesis using k(1) es(2) rls safe(1,2) unfolding Let_def by blast
qed

end

end
