(* ===== verification/Plain_Run.thy ===== *)
theory Plain_Run
  imports Record_Inv Commit_Chain
begin

text \<open>
  The build with \<open>DUMMY\<close> (\<open>src/mem.h\<close>), in which \<open>mem_read\<close> and \<open>mem_write\<close> are plain loads and stores
  without any barrier and nothing is recorded. On x86 a store waits in the store buffer of its
  processor before it reaches the memory, and a load of the same processor may overtake it; the comment
  in \<open>src/mem-record-seqlock.c\<close> on the order of accesses is about this. The theory shows that the recorders
  show just those results of the plain program in which no store waits: the recorders add nothing, and
  the barrier of \<open>mem_write\<close> takes the other results away.
\<close>

section \<open>The plain program\<close>

text \<open>The stores of a thread that have not reached the memory, the oldest first.\<close>

record plain =
  pl_mem :: mem
  pl_buf :: "tid_t \<Rightarrow> (addr_t \<times> val_t) list"
  pl_vals :: "tid_t \<Rightarrow> val_t list"

definition plain_init :: "test_prog \<Rightarrow> plain" where
  "plain_init P = \<lparr>pl_mem = tp_mem P, pl_buf = (\<lambda>t. []), pl_vals = (\<lambda>t. [])\<rparr>"

text \<open>A load finds the youngest store to its address in the buffer of its thread, or else the memory.\<close>

definition plain_read :: "tid_t \<Rightarrow> addr_t \<Rightarrow> plain \<Rightarrow> val_t" where
  "plain_read t addr s =
     (case filter (\<lambda>w. fst w = addr) (pl_buf s t) of
        [] \<Rightarrow> pl_mem s addr
      | w # ws \<Rightarrow> snd (last (w # ws)))"

definition plain_write :: "tid_t \<Rightarrow> addr_t \<Rightarrow> val_t \<Rightarrow> plain \<Rightarrow> plain" where
  "plain_write t addr val s = s\<lparr>pl_buf := (pl_buf s)(t := pl_buf s t @ [(addr, val)])\<rparr>"

text \<open>The oldest store of a thread reaches the memory, at a time of the processor's choice.\<close>

definition plain_flush :: "tid_t \<Rightarrow> plain \<Rightarrow> plain" where
  "plain_flush t s =
     (case pl_buf s t of
        [] \<Rightarrow> s
      | w # ws \<Rightarrow> s\<lparr>pl_mem := (pl_mem s)(fst w := snd w), pl_buf := (pl_buf s)(t := ws)\<rparr>)"

text \<open>One access of a thread, and the return to the test program with its value.\<close>

definition plain_return :: "tid_t \<Rightarrow> val_t \<Rightarrow> plain \<Rightarrow> plain" where
  "plain_return t v s = s\<lparr>pl_vals := (pl_vals s)(t := pl_vals s t @ [v])\<rparr>"

definition plain_step :: "test_prog \<Rightarrow> tid_t \<Rightarrow> plain \<Rightarrow> plain" where
  "plain_step P t s =
     (case tp_code P t (pl_vals s t) of
        Read a \<Rightarrow> plain_return t (plain_read t a s) s
      | Write a v \<Rightarrow> plain_return t v (plain_write t a v s)
      | Finish \<Rightarrow> s)"

datatype move = Access tid_t | Flush tid_t

primrec plain_move :: "test_prog \<Rightarrow> move \<Rightarrow> plain \<Rightarrow> plain" where
  "plain_move P (Access t) s = plain_step P t s"
| "plain_move P (Flush t) s = plain_flush t s"

definition plain_run :: "test_prog \<Rightarrow> move list \<Rightarrow> plain" where
  "plain_run P ms = fold (plain_move P) ms (plain_init P)"

text \<open>A thread that has ended and is joined has no store left in its buffer.\<close>

definition plain_done :: "test_prog \<Rightarrow> plain \<Rightarrow> bool" where
  "plain_done P s \<longleftrightarrow> (\<forall>t < tp_nthr P. tp_code P t (pl_vals s t) = Finish \<and> pl_buf s t = [])"

text \<open>A run in which no store waits: the threads make their accesses in the order \<open>ts\<close>.\<close>

definition at_once :: "tid_t list \<Rightarrow> move list" where
  "at_once ts = concat (map (\<lambda>t. [Access t, Flush t]) ts)"

section \<open>Sequential runs\<close>

text \<open>What such a run does to the memory and to what the threads have seen.\<close>

record seq =
  sq_mem :: mem
  sq_vals :: "tid_t \<Rightarrow> val_t list"

definition seq_init :: "test_prog \<Rightarrow> seq" where
  "seq_init P = \<lparr>sq_mem = tp_mem P, sq_vals = (\<lambda>t. [])\<rparr>"

definition seq_step :: "test_prog \<Rightarrow> tid_t \<Rightarrow> seq \<Rightarrow> seq" where
  "seq_step P t s =
     (case tp_code P t (sq_vals s t) of
        Read a \<Rightarrow> s\<lparr>sq_vals := (sq_vals s)(t := sq_vals s t @ [sq_mem s a])\<rparr>
      | Write a v \<Rightarrow> s\<lparr>sq_mem := (sq_mem s)(a := v), sq_vals := (sq_vals s)(t := sq_vals s t @ [v])\<rparr>
      | Finish \<Rightarrow> s)"

definition seq_run :: "test_prog \<Rightarrow> tid_t list \<Rightarrow> seq" where
  "seq_run P ts = fold (seq_step P) ts (seq_init P)"

definition seq_done :: "test_prog \<Rightarrow> seq \<Rightarrow> bool" where
  "seq_done P s \<longleftrightarrow> (\<forall>t < tp_nthr P. tp_code P t (sq_vals s t) = Finish)"

lemmas seq_defs = seq_step_def

lemma seq_run_Nil [simp]: "seq_run P [] = seq_init P"
  by (simp add: seq_run_def)

lemma seq_run_snoc: "seq_run P (ts @ [t]) = seq_step P t (seq_run P ts)"
  by (simp add: seq_run_def)

lemma plain_at_once_snoc: "plain_run P (at_once (ts @ [t])) = plain_flush t (plain_step P t (plain_run P (at_once ts)))"
  by (simp add: plain_run_def at_once_def)

lemma plain_at_once:
  "pl_buf (plain_run P (at_once ts)) = (\<lambda>t. []) \<and> pl_mem (plain_run P (at_once ts)) = sq_mem (seq_run P ts) \<and>
   pl_vals (plain_run P (at_once ts)) = sq_vals (seq_run P ts)"
proof (induction ts rule: rev_induct)
  case Nil
  show ?case by (simp add: plain_run_def at_once_def plain_init_def seq_init_def)
next
  case (snoc t ts)
  then show ?case
    by (auto simp: plain_at_once_snoc seq_run_snoc plain_step_def seq_step_def plain_flush_def plain_return_def plain_read_def
      plain_write_def split: action.split)
qed

lemma plain_done_at_once: "plain_done P (plain_run P (at_once ts)) = seq_done P (seq_run P ts)"
  by (simp add: plain_done_def seq_done_def plain_at_once)

section \<open>A recording is a sequential run\<close>

lemma run_take:
  assumes "run_of P es" "i < length es"
  shows "map ev_val (thr_evs (ev_tid (es ! i)) (take i es)) = thr_vals (ev_tid (es ! i)) es (ev_memop es i)"
proof -
  have "thr_evs t es = thr_evs t (take i es) @ thr_evs t (drop i es)" for t
    unfolding thr_evs_def by (metis append_take_drop_id filter_append)
  then show ?thesis by (simp add: thr_vals_def ev_memop_def thr_cnt_def)
qed

lemma seq_of_run:
  assumes run: "run_of P es" and k: "k \<le> length es"
  shows "sq_mem (seq_run P (map ev_tid (take k es))) = mem_after (tp_mem P) (take k es) \<and>
    (\<forall>t. sq_vals (seq_run P (map ev_tid (take k es))) t = map ev_val (thr_evs t (take k es)))"
  using k
proof (induction k)
  case 0
  show ?case by (simp add: seq_init_def trace_simps thr_evs_def)
next
  case (Suc k)
  let ?e = "es ! k" and ?s = "seq_run P (map ev_tid (take k es))"
  have k: "k < length es" using Suc.prems by simp
  have IH: "sq_mem ?s = mem_after (tp_mem P) (take k es)" "\<And>t. sq_vals ?s t = map ev_val (thr_evs t (take k es))"
    using Suc by simp_all
  have act: "tp_code P (ev_tid ?e) (sq_vals ?s (ev_tid ?e)) = ev_act ?e"
    using run_ofD(3) [OF run k] run_take [OF run k] IH(2) by simp
  have rd: "ev_val ?e = sq_mem ?s (ev_addr ?e)" if "\<not> ev_write ?e"
    using run k that IH(1) by (simp add: run_of_def reads_ok_def)
  show ?case using act rd IH
    by (cases "ev_write ?e")
      (auto simp: take_Suc_conv_app_nth [OF k] seq_run_snoc seq_defs trace_simps mem_upd_def ev_act_def)
qed

section \<open>A sequential run can be recorded\<close>

text \<open>Between two accesses of the sequential run, no thread of the recording is inside an access.\<close>

definition quiet :: "test_prog \<Rightarrow> 's recording \<Rightarrow> seq \<Rightarrow> bool" where
  "quiet P q s \<longleftrightarrow>
     qs_mem q = sq_mem s \<and> (\<forall>t < tp_nthr P. qt_pc (qs_thr q t) = QRun \<and> qt_vals (qs_thr q t) = sq_vals s t) \<and>
     length (g_objinfo q) = tp_nobj P \<and>
     (\<forall>o' < tp_nobj P. even (oi_version (g_objinfo q ! o')) \<and> oi_write_lock (g_objinfo q ! o') = 0)"

lemma alone_reach:
  assumes "rec_reach rtm lg ini P q" "t < tp_nthr P"
  shows "rec_reach rtm lg ini P ((rec_step lg P False t ^^ k) q)"
  using assms by (induction k) (auto intro: rec_reach.step)

lemmas alone_defs = rec_step_def rec_read_def rec_write_def spin_lock_step_def spin_lock_try_def xchg_8_def
  spin_unlock_def qgoto_def set_version_def set_lock_def set_mem_def log_step_def Let_def

lemma read_alone:
  assumes "quiet P q s" "t < tp_nthr P" "tp_code P t (sq_vals s t) = Read a" "tp_cid P a < tp_nobj P"
  shows "quiet P ((rec_step lg P False t ^^ 5) q) (seq_step P t s)"
  using assms by (simp add: quiet_def numeral_eq_Suc alone_defs seq_defs)

lemma write_alone:
  assumes "quiet P q s" "t < tp_nthr P" "tp_code P t (sq_vals s t) = Write a v" "tp_cid P a < tp_nobj P"
  shows "quiet P ((rec_step lg P False t ^^ 10) q) (seq_step P t s)"
  using assms by (simp add: quiet_def numeral_eq_Suc alone_defs seq_defs nth_list_update)

lemma seq_quiet:
  assumes "quiet P q s" "rec_reach rtm lg ini P q" "t < tp_nthr P" "prog_ok P"
  shows "\<exists>q1. rec_reach rtm lg ini P q1 \<and> quiet P q1 (seq_step P t s)"
proof (cases "tp_code P t (sq_vals s t)")
  case (Read a)
  have "tp_cid P a < tp_nobj P" using assms(3,4) Read by (metis prog_ok_def act_addr.simps(1) action.distinct(3))
  from read_alone [OF assms(1,3) Read this] alone_reach [OF assms(2,3)] show ?thesis by blast
next
  case (Write a v)
  have "tp_cid P a < tp_nobj P" using assms(3,4) Write by (metis prog_ok_def act_addr.simps(2) action.distinct(5))
  from write_alone [OF assms(1,3) Write this] alone_reach [OF assms(2,3)] show ?thesis by blast
next
  case Finish
  then show ?thesis using assms(1,2) by (auto simp: seq_step_def)
qed

lemma seq_recorded:
  assumes "\<forall>t \<in> set ts. t < tp_nthr P" "prog_ok P"
  shows "\<exists>q. rec_reach rtm lg ini P q \<and> quiet P q (seq_run P ts)"
  using assms(1)
proof (induction ts rule: rev_induct)
  case Nil
  have "quiet P (recording_init P ini) (seq_init P)" by (simp add: quiet_def recording_init_def seq_init_def)
  then show ?case using rec_reach.init [of rtm lg ini P] by auto
next
  case (snoc t ts)
  then obtain q where "rec_reach rtm lg ini P q" "quiet P q (seq_run P ts)" by auto
  with seq_quiet [OF this(2,1) _ assms(2), of t] snoc.prems show ?case by (simp add: seq_run_snoc)
qed

text \<open>At the end all threads return.\<close>

lemma quiet_ends:
  assumes q: "quiet P q s" "rec_reach rtm lg ini P q" and d: "seq_done P s" and k: "k \<le> tp_nthr P"
  shows "\<exists>q1. rec_reach rtm lg ini P q1 \<and> qs_mem q1 = sq_mem s \<and>
    (\<forall>t < tp_nthr P. qt_vals (qs_thr q1 t) = sq_vals s t \<and> qt_pc (qs_thr q1 t) = (if t < k then QDone else QRun))"
  using k
proof (induction k)
  case 0
  then show ?case using q by (auto simp: quiet_def)
next
  case (Suc k)
  then obtain q1 where q1: "rec_reach rtm lg ini P q1" "qs_mem q1 = sq_mem s"
    "\<And>t. t < tp_nthr P \<Longrightarrow> qt_vals (qs_thr q1 t) = sq_vals s t \<and> qt_pc (qs_thr q1 t) = (if t < k then QDone else QRun)" by auto
  have k: "k < tp_nthr P" using Suc.prems by simp
  have "rec_step lg P False k q1 = qgoto k QDone q1"
    using q1(3) [OF k] d k by (simp add: rec_step_def seq_done_def)
  with rec_reach.step [OF q1(1) k, of False] have "rec_reach rtm lg ini P (qgoto k QDone q1)" by simp
  then show ?case using q1(2,3) by (intro exI [of _ "qgoto k QDone q1"]) (auto simp: qgoto_def less_Suc_eq)
qed

section \<open>The same runs\<close>

lemma recording_is_seq:
  assumes "prog_ok P" "rec_reach rtm lg ini P q" "rec_done P q"
  shows "\<exists>ts. (\<forall>t \<in> set ts. t < tp_nthr P) \<and> seq_done P (seq_run P ts) \<and>
    (\<forall>t < tp_nthr P. sq_vals (seq_run P ts) t = qt_vals (qs_thr q t)) \<and> sq_mem (seq_run P ts) = qs_mem q"
proof -
  obtain es where "recording_inv lg ini P es q" using rec_reach_inv [OF assms(2,1)] by blast
  note d = rec_done_run [OF this assms(3)]
  let ?ts = "map ev_tid es"
  have r: "sq_mem (seq_run P ?ts) = qs_mem q" "\<And>t. sq_vals (seq_run P ?ts) t = map ev_val (thr_evs t es)"
    using seq_of_run [OF d(1), of "length es"] d(3) by (auto simp: fun_eq_iff)
  moreover have "\<forall>t \<in> set ?ts. t < tp_nthr P" using run_ofD(1) [OF d(1)] by (auto simp: in_set_conv_nth)
  moreover have "seq_done P (seq_run P ?ts)"
    using d(2) r(2) by (simp add: seq_done_def complete_def thr_vals_def thr_cnt_def)
  ultimately show ?thesis using d(4) by (intro exI [of _ ?ts]) simp
qed

lemma seq_is_recording:
  assumes "prog_ok P" "\<forall>t \<in> set ts. t < tp_nthr P" "seq_done P (seq_run P ts)"
  shows "\<exists>q. rec_reach rtm lg ini P q \<and> rec_done P q \<and>
    (\<forall>t < tp_nthr P. qt_vals (qs_thr q t) = sq_vals (seq_run P ts) t) \<and> qs_mem q = sq_mem (seq_run P ts)"
proof -
  obtain q where "rec_reach rtm lg ini P q" "quiet P q (seq_run P ts)"
    using seq_recorded [OF assms(2,1), where rtm = rtm and lg = lg and ini = ini] by blast
  from quiet_ends [OF this(2,1) assms(3) order_refl] show ?thesis by (fastforce simp: rec_done_def)
qed

section \<open>Blocks\<close>

text \<open>A sequence of atomic blocks is a sequential run as well: the one in which no thread is interrupted inside a
  block.\<close>

lemma seq_run_append: "seq_run P (ts @ us) = fold (seq_step P) us (seq_run P ts)"
  by (simp add: seq_run_def)

lemma seq_step_access:
  "sq_vals (seq_step P t s) u = (if u = t then fst (do_access P t (sq_vals s t, sq_mem s)) else sq_vals s u)"
  "sq_mem (seq_step P t s) = snd (do_access P t (sq_vals s t, sq_mem s))"
  by (simp_all add: seq_defs do_access_def split: action.split)

lemma seq_part_block:
  "sq_mem ((seq_step P t ^^ k) s) = snd (part_block P t k (sq_vals s t, sq_mem s)) \<and>
   (\<forall>u. sq_vals ((seq_step P t ^^ k) s) u =
      (if u = t then fst (part_block P t k (sq_vals s t, sq_mem s)) else sq_vals s u))"
  by (induction k) (simp_all add: seq_step_access part_block_Suc)

lemma seq_run_blocks:
  "sq_mem (seq_run P (concat (map (replicate RTM_BATCH_N) bs))) = snd (run_blocks P bs) \<and>
   (\<forall>u. sq_vals (seq_run P (concat (map (replicate RTM_BATCH_N) bs))) u = fst (run_blocks P bs) u)"
proof (induction bs rule: rev_induct)
  case Nil
  show ?case by (simp add: seq_init_def)
next
  case (snoc t bs)
  then show ?case
    using seq_part_block [where P = P and t = t and k = RTM_BATCH_N and s = "seq_run P (concat (map (replicate RTM_BATCH_N) bs))"]
    by (simp add: seq_run_append run_blocks_snoc part_view_def Let_def)
qed

lemma blocks_are_seq:
  assumes "commit_reach P q" "commit_done P q" "tp_nthr P < 65536"
  shows "\<exists>bs. let s = seq_run P (concat (map (replicate RTM_BATCH_N) bs)) in (\<forall>t \<in> set bs. t < tp_nthr P) \<and> seq_done P s \<and>
    (\<forall>t < tp_nthr P. sq_vals s t = ct_vals (cs_thr q t)) \<and> sq_mem s = cs_mem q"
proof -
  obtain bs where bs: "commit_seen P bs q" using commit_done_seen [OF assms] by blast
  then have "\<forall>t \<in> set bs. t < tp_nthr P" by (auto simp: commit_seen_def blocks_ok_def in_set_conv_nth)
  with bs seq_run_blocks [of P bs] show ?thesis by (auto simp: commit_seen_def seq_done_def Let_def)
qed

section \<open>A store that waits\<close>

text \<open>The program of the comment in \<open>src/mem-record-seqlock.c\<close>: each of two threads writes its object and then
  reads the object of the other.\<close>

definition sb_code :: "tid_t \<Rightarrow> val_t list \<Rightarrow> action" where
  "sb_code t vs =
     (if vs = [] then Write (if t = 0 then 0 else 4) 1
      else if length vs = 1 then Read (if t = 0 then 4 else 0) else Finish)"

definition sb_prog :: test_prog where
  "sb_prog = \<lparr>tp_code = sb_code, tp_cid = (\<lambda>a. if a = 0 then 0 else 1), tp_nobj = 2, tp_nthr = 2, tp_mem = (\<lambda>a. 0)\<rparr>"

text \<open>In the build with \<open>DUMMY\<close> both threads can read 0; in a recording at least one of them reads 1.\<close>

definition sb_inv :: "seq \<Rightarrow> bool" where
  "sb_inv s \<longleftrightarrow>
     (sq_vals s 0 = [] \<or> sq_mem s 0 = 1) \<and> (sq_vals s 1 = [] \<or> sq_mem s 4 = 1) \<and>
     \<not> (sq_vals s 0 = [1, 0] \<and> sq_vals s 1 = [1, 0])"

lemma sb_seq: "sb_inv (seq_run sb_prog ts)"
proof (induction ts rule: rev_induct)
  case Nil
  show ?case by (simp add: sb_inv_def seq_init_def)
next
  case (snoc t ts)
  then show ?case
    by (auto simp: sb_inv_def seq_run_snoc seq_step_def sb_prog_def sb_code_def)
qed

lemma sb_prog_ok: "prog_ok sb_prog"
  by (auto simp: prog_ok_def sb_prog_def sb_code_def)

lemma dummy_shows_more:
  "\<exists>ms. let s = plain_run sb_prog ms in plain_done sb_prog s \<and> pl_vals s 0 = [1, 0] \<and> pl_vals s 1 = [1, 0]"
  "rec_reach rtm lg ini sb_prog q \<Longrightarrow> rec_done sb_prog q \<Longrightarrow>
     \<not> (qt_vals (qs_thr q 0) = [1, 0] \<and> qt_vals (qs_thr q 1) = [1, 0])"
proof -
  let ?ms = "[Access 0, Access 1, Access 0, Access 1, Flush 0, Flush 1]"
  have "plain_done sb_prog (plain_run sb_prog ?ms)" "pl_vals (plain_run sb_prog ?ms) 0 = [1, 0]"
    "pl_vals (plain_run sb_prog ?ms) 1 = [1, 0]" by code_simp+
  then show "\<exists>ms. let s = plain_run sb_prog ms in plain_done sb_prog s \<and> pl_vals s 0 = [1, 0] \<and> pl_vals s 1 = [1, 0]"
    unfolding Let_def by blast
  assume "rec_reach rtm lg ini sb_prog q" "rec_done sb_prog q"
  from recording_is_seq [OF sb_prog_ok this] obtain ts
    where "\<forall>t < tp_nthr sb_prog. sq_vals (seq_run sb_prog ts) t = qt_vals (qs_thr q t)" by blast
  then have "sq_vals (seq_run sb_prog ts) 0 = qt_vals (qs_thr q 0)" "sq_vals (seq_run sb_prog ts) 1 = qt_vals (qs_thr q 1)"
    by (simp_all add: sb_prog_def)
  with sb_seq [of ts] show "\<not> (qt_vals (qs_thr q 0) = [1, 0] \<and> qt_vals (qs_thr q 1) = [1, 0])" by (simp add: sb_inv_def)
qed

end
