(* ===== verification/Thread_Code.thy ===== *)
theory Thread_Code
  imports Test_Run
begin

text \<open>
  Test programs written as thread functions with local variables. A thread function is a state of
  its local variables, the access it makes next in a state, and the state after the access has
  returned a value. The contract \<open>counted_thread\<close> says that the functions end after a number of
  accesses that does not depend on the values read, and what every state of them satisfies.
\<close>

definition thr_code ::
  "(tid_t \<Rightarrow> 'l) \<Rightarrow> (tid_t \<Rightarrow> 'l \<Rightarrow> action) \<Rightarrow> (tid_t \<Rightarrow> val_t \<Rightarrow> 'l \<Rightarrow> 'l) \<Rightarrow> tid_t \<Rightarrow> val_t list \<Rightarrow> action" where
  "thr_code start next resume t vs = next t (fold (resume t) vs (start t))"

locale counted_thread =
  fixes start :: "tid_t \<Rightarrow> 'l"
    and next_acc :: "tid_t \<Rightarrow> 'l \<Rightarrow> action"
    and resume :: "tid_t \<Rightarrow> val_t \<Rightarrow> 'l \<Rightarrow> 'l"
    and ok :: "tid_t \<Rightarrow> 'l \<Rightarrow> bool"
    and accs_left :: "tid_t \<Rightarrow> 'l \<Rightarrow> nat"
  assumes start_ok: "ok t (start t)"
    and resume_ok: "ok t l \<Longrightarrow> ok t (resume t v l)"
    and next_finish: "ok t l \<Longrightarrow> next_acc t l = Finish \<longleftrightarrow> accs_left t l = 0"
    and resume_left: "ok t l \<Longrightarrow> accs_left t (resume t v l) = accs_left t l - 1"
begin

lemma fold_ok: "ok t l \<Longrightarrow> ok t (fold (resume t) vs l)"
  by (induction vs arbitrary: l) (auto intro: resume_ok)

lemma fold_left: "ok t l \<Longrightarrow> accs_left t (fold (resume t) vs l) = accs_left t l - length vs"
  by (induction vs arbitrary: l) (auto simp: resume_ok resume_left)

lemma code_ok: "\<exists>l. ok t l \<and> thr_code start next_acc resume t vs = next_acc t l"
  using fold_ok [OF start_ok] unfolding thr_code_def by blast

lemma code_finish: "thr_code start next_acc resume t vs = Finish \<longleftrightarrow> accs_left t (start t) \<le> length vs"
  by (simp add: thr_code_def next_finish [OF fold_ok [OF start_ok]] fold_left [OF start_ok])

text \<open>The programs made of such functions name existing objects only if the accesses in all states do.\<close>

lemma code_prog_ok:
  assumes "tp_code P = thr_code start next_acc resume"
    and "\<And>t l. ok t l \<Longrightarrow> next_acc t l \<noteq> Finish \<Longrightarrow> tp_cid P (act_addr (next_acc t l)) < tp_nobj P"
  shows "prog_ok P"
  unfolding prog_ok_def assms(1) using assms(2) code_ok by metis

lemma code_ends:
  assumes "tp_code P = thr_code start next_acc resume"
  shows "ends P (\<lambda>t. accs_left t (start t))"
  unfolding ends_def assms by (simp add: code_finish)

end

end
