(* ===== verification/Racey.thy ===== *)
theory Racey
  imports Thread_Code Commit_Progress
begin

text \<open>
  The test program \<open>src/racey.c\<close>, whose result depends on the order of every two conflicting
  accesses: a thread reads two elements of the array \<open>g_m\<close>, mixes them into its signature and
  writes the result to the second. The address of \<open>g_m\<close> is a parameter, and so is the number of
  rounds, which is \<open>MAX_LOOP\<close> in the program.
\<close>

definition MAX_LOOP :: nat where "MAX_LOOP = 1000000"
definition MAX_ELEM :: nat where "MAX_ELEM = 64"
definition PRIME1 :: val_t where "PRIME1 = 103072243"
definition PRIME2 :: val_t where "PRIME2 = 103995407"

definition mix :: "val_t \<Rightarrow> val_t \<Rightarrow> val_t" where
  "mix i j = (i + j * PRIME2) mod PRIME1"

text \<open>The address of \<open>g_m[index].value\<close>; an element has 64 bytes.\<close>

definition g_m_addr :: "addr_t \<Rightarrow> val_t \<Rightarrow> addr_t" where
  "g_m_addr g_m index = g_m + 64 * uint index"

text \<open>The difference of the addresses is divided as an unsigned 64-bit number, since \<open>sizeof\<close> is one,
  and narrowed to \<open>int\<close>. \<open>None\<close> is the failed assertion.\<close>

definition calc_objid_racey :: "addr_t \<Rightarrow> addr_t \<Rightarrow> int option" where
  "calc_objid_racey g_m addr =
     (let id = signed_take_bit 31 ((addr - g_m) mod 2 ^ 64 div 64)
      in if id < int MAX_ELEM then Some id else None)"

section \<open>ThreadBody\<close>

text \<open>The local variables of the main loop and the element of \<open>g_sig\<close> of the thread, which no other
  thread touches. \<open>rc_pc\<close> is the access the thread makes next.\<close>

datatype racey_pc = First_Read | Second_Read | Write_Back

record racey_thr =
  rc_i :: nat
  rc_sigval :: val_t
  rc_num :: val_t
  rc_index2 :: val_t
  rc_pc :: racey_pc

definition racey_start :: "tid_t \<Rightarrow> racey_thr" where
  "racey_start t = \<lparr>rc_i = 0, rc_sigval = of_nat t, rc_num = 0, rc_index2 = 0, rc_pc = First_Read\<rparr>"

definition racey_next :: "nat \<Rightarrow> addr_t \<Rightarrow> tid_t \<Rightarrow> racey_thr \<Rightarrow> action" where
  "racey_next max_loop g_m t l =
     (case rc_pc l of
        First_Read \<Rightarrow>
          if rc_i l < max_loop then Read (g_m_addr g_m (rc_sigval l mod of_nat MAX_ELEM)) else Finish
      | Second_Read \<Rightarrow> Read (g_m_addr g_m (rc_index2 l))
      | Write_Back \<Rightarrow> Write (g_m_addr g_m (rc_index2 l)) (rc_num l))"

definition racey_resume :: "nat \<Rightarrow> tid_t \<Rightarrow> val_t \<Rightarrow> racey_thr \<Rightarrow> racey_thr" where
  "racey_resume max_loop t val l =
     (case rc_pc l of
        First_Read \<Rightarrow>
          if rc_i l < max_loop
          then let num = mix (rc_sigval l) val
               in l\<lparr>rc_num := num, rc_index2 := num mod of_nat MAX_ELEM, rc_pc := Second_Read\<rparr>
          else l
      | Second_Read \<Rightarrow> l\<lparr>rc_num := mix (rc_num l) val, rc_pc := Write_Back\<rparr>
      | Write_Back \<Rightarrow> l\<lparr>rc_sigval := rc_num l, rc_i := rc_i l + 1, rc_pc := First_Read\<rparr>)"

section \<open>main\<close>

text \<open>The initial contents of \<open>g_m\<close>.\<close>

definition racey_mem :: "addr_t \<Rightarrow> mem" where
  "racey_mem g_m a =
     (let i = (a - g_m) div 64
      in if 0 \<le> i \<and> i < int MAX_ELEM \<and> a = g_m + 64 * i then mix (of_int i) (of_int i) else 0)"

definition racey_prog :: "nat \<Rightarrow> nat \<Rightarrow> addr_t \<Rightarrow> test_prog" where
  "racey_prog max_loop NumProcs g_m =
     \<lparr>tp_code = thr_code racey_start (racey_next max_loop g_m) (racey_resume max_loop),
      tp_cid = (\<lambda>a. case calc_objid_racey g_m a of Some i \<Rightarrow> nat i | None \<Rightarrow> MAX_ELEM),
      tp_nobj = MAX_ELEM, tp_nthr = NumProcs, tp_mem = racey_mem g_m\<rparr>"

text \<open>The signature that the program prints: the signatures of the threads, mixed. The argument gives
  the values of the accesses of every thread.\<close>

definition g_sig :: "nat \<Rightarrow> (tid_t \<Rightarrow> val_t list) \<Rightarrow> tid_t \<Rightarrow> val_t" where
  "g_sig max_loop vals t = rc_sigval (fold (racey_resume max_loop t) (vals t) (racey_start t))"

definition mix_sig :: "nat \<Rightarrow> nat \<Rightarrow> (tid_t \<Rightarrow> val_t list) \<Rightarrow> val_t" where
  "mix_sig max_loop NumProcs vals =
     fold (\<lambda>i sig. mix (g_sig max_loop vals i) sig) [1..<NumProcs] (g_sig max_loop vals 0)"

section \<open>Invariant\<close>

lemma uint_mod: "uint (v mod w :: val_t) = uint v mod uint w"
  by (simp add: uint_mod_distrib)

lemma mod_elem: "uint (v mod of_nat MAX_ELEM :: val_t) = uint v mod 64"
  by (simp add: uint_mod MAX_ELEM_def)

lemma mix_less: "uint (mix i j) < uint PRIME1"
  by (simp add: mix_def uint_mod) (simp add: PRIME1_def)

definition racey_ok :: "nat \<Rightarrow> tid_t \<Rightarrow> racey_thr \<Rightarrow> bool" where
  "racey_ok max_loop t l \<longleftrightarrow>
     uint (rc_index2 l) < 64 \<and> (rc_pc l \<noteq> First_Read \<longrightarrow> rc_i l < max_loop \<and> uint (rc_num l) < uint PRIME1)"

definition racey_left :: "nat \<Rightarrow> tid_t \<Rightarrow> racey_thr \<Rightarrow> nat" where
  "racey_left max_loop t l =
     3 * (max_loop - rc_i l) - (case rc_pc l of First_Read \<Rightarrow> 0 | Second_Read \<Rightarrow> 1 | Write_Back \<Rightarrow> 2)"

interpretation racey: counted_thread racey_start "racey_next max_loop g_m" "racey_resume max_loop"
  "racey_ok max_loop" "racey_left max_loop"
proof
  fix t l v assume ok: "racey_ok max_loop t l"
  show "racey_ok max_loop t (racey_resume max_loop t v l)"
    using ok by (cases "rc_pc l") (auto simp: racey_ok_def racey_resume_def Let_def mod_elem mix_less)
  show "racey_next max_loop g_m t l = Finish \<longleftrightarrow> racey_left max_loop t l = 0"
    using ok by (cases "rc_pc l") (auto simp: racey_ok_def racey_next_def racey_left_def)
  show "racey_left max_loop t (racey_resume max_loop t v l) = racey_left max_loop t l - 1"
    using ok by (cases "rc_pc l") (auto simp: racey_ok_def racey_resume_def racey_left_def Let_def)
qed (simp add: racey_ok_def racey_start_def)

lemma calc_objid_elem:
  assumes "0 \<le> i" "i < 64"
  shows "calc_objid_racey g_m (g_m + 64 * i) = Some i"
proof -
  have "(64 * i) mod 2 ^ 64 div 64 = i" using assms by simp
  moreover have "signed_take_bit 31 i = i" using assms by (intro signed_take_bit_int_eq_self) simp_all
  ultimately show ?thesis using assms by (simp add: calc_objid_racey_def MAX_ELEM_def)
qed

lemma racey_next_elem:
  assumes "racey_ok max_loop t l" "racey_next max_loop g_m t l \<noteq> Finish"
  shows "\<exists>i. 0 \<le> i \<and> i < 64 \<and> act_addr (racey_next max_loop g_m t l) = g_m + 64 * i"
  using assms pos_mod_bound [of 64 "uint (rc_sigval l)"] pos_mod_sign [of 64 "uint (rc_sigval l)"]
  by (cases "rc_pc l") (auto simp: racey_next_def racey_ok_def g_m_addr_def mod_elem split: if_splits)

section \<open>Properties\<close>

text \<open>C33: Whatever values its reads return, a thread of racey accesses elements of \<open>g_m\<close> only, at
  the start of the element; the assertion of \<open>calc_objid_racey\<close> holds for each of them and yields the
  element's index; and it writes only values below \<open>PRIME1\<close>.\<close>

theorem racey_accesses:
  "case tp_code (racey_prog max_loop NumProcs g_m) t vs of
     Read a \<Rightarrow> \<exists>i. calc_objid_racey g_m a = Some i \<and> 0 \<le> i \<and> i < int MAX_ELEM \<and> a = g_m + 64 * i
   | Write a v \<Rightarrow> \<exists>i. calc_objid_racey g_m a = Some i \<and> 0 \<le> i \<and> i < int MAX_ELEM \<and> a = g_m + 64 * i \<and>
       v < PRIME1
   | Finish \<Rightarrow> True"
proof -
  obtain l where l: "racey_ok max_loop t l"
    "tp_code (racey_prog max_loop NumProcs g_m) t vs = racey_next max_loop g_m t l"
    using racey.code_ok [of max_loop t g_m vs] by (auto simp: racey_prog_def)
  have w: "racey_next max_loop g_m t l = Write a v \<Longrightarrow> v < PRIME1" for a v
    using l(1) by (auto simp: racey_next_def racey_ok_def word_less_def split: racey_pc.splits if_splits)
  show ?thesis
    unfolding l(2) using racey_next_elem [OF l(1), of g_m] w calc_objid_elem [of _ g_m]
    by (cases "racey_next max_loop g_m t l") (auto simp: MAX_ELEM_def)
qed

lemma racey_prog_ok: "prog_ok (racey_prog max_loop NumProcs g_m)"
proof (rule racey.code_prog_ok)
  show "tp_code (racey_prog max_loop NumProcs g_m) = thr_code racey_start (racey_next max_loop g_m) (racey_resume max_loop)"
    by (simp add: racey_prog_def)
next
  fix t l assume "racey_ok max_loop t l" "racey_next max_loop g_m t l \<noteq> Finish"
  then obtain i where "0 \<le> i" "i < 64" "act_addr (racey_next max_loop g_m t l) = g_m + 64 * i"
    using racey_next_elem by blast
  then show "tp_cid (racey_prog max_loop NumProcs g_m) (act_addr (racey_next max_loop g_m t l)) <
      tp_nobj (racey_prog max_loop NumProcs g_m)"
    by (simp add: racey_prog_def calc_objid_elem MAX_ELEM_def)
qed

text \<open>Every thread of racey ends: whatever values its reads return, it ends after exactly three
  accesses in each round.\<close>

lemma racey_ends:
  "tp_code (racey_prog max_loop NumProcs g_m) t vs = Finish \<longleftrightarrow> 3 * max_loop \<le> length vs"
  using racey.code_finish [of max_loop g_m t vs] by (simp add: racey_prog_def racey_left_def racey_start_def)

lemma racey_prog_ends: "ends (racey_prog max_loop NumProcs g_m) (racey_left max_loop 0 \<circ> racey_start)"
  using racey.code_ends [of "racey_prog max_loop NumProcs g_m" max_loop g_m]
  by (simp add: racey_prog_def racey_left_def comp_def)

text \<open>A replay that has shown every thread the values of the recording prints its signature.\<close>

lemma mix_sig_cong:
  "0 < n \<Longrightarrow> (\<And>t. t < n \<Longrightarrow> vals t = vals' t) \<Longrightarrow> mix_sig max_loop n vals = mix_sig max_loop n vals'"
  unfolding mix_sig_def by (intro fold_cong) (auto simp: g_sig_def)

lemma racey_signature:
  assumes "replays (racey_prog max_loop n g_m) q s" "all_done (racey_prog max_loop n g_m) s" "0 < n"
  shows "mix_sig max_loop n (\<lambda>t. rt_vals (rp_thr s t)) = mix_sig max_loop n (\<lambda>t. qt_vals (qs_thr q t))"
  using replaysD(2) [OF assms(1,2)] assms(3) by (intro mix_sig_cong) (simp_all add: racey_prog_def)

text \<open>The 32-bit counter of the commit replayer is wide enough for racey's accesses, and so are the fields of
  the entries of the order logs.\<close>

lemma racey_commit_ok: "0 < n \<Longrightarrow> n < 16 \<Longrightarrow> commit_prog_ok (racey_prog MAX_LOOP n g_m)"
  by (simp add: commit_prog_ok_def racey_prog_def thr_code_def racey_next_def racey_start_def MAX_LOOP_def)

lemma racey_accesses_few:
  "\<forall>t < tp_nthr P. (racey_left MAX_LOOP 0 \<circ> racey_start) t < 2 ^ 31"
  by (simp add: racey_left_def racey_start_def MAX_LOOP_def)

lemma racey_entries_few:
  "n < 16 \<Longrightarrow> (\<Sum>t<n. (racey_left MAX_LOOP 0 \<circ> racey_start) t + MAX_ELEM + 1) < 2 ^ 31"
  by (simp add: racey_left_def racey_start_def MAX_LOOP_def MAX_ELEM_def)

lemma racey_commit_signature:
  assumes "commit_replays (racey_prog max_loop n g_m) (recorded_view q) s"
    and "commit_replay_done (racey_prog max_loop n g_m) s" "0 < n"
  shows "mix_sig max_loop n (\<lambda>t. kt_vals (ks_thr s t)) = mix_sig max_loop n (\<lambda>t. ct_vals (cs_thr q t))"
  using assms by (intro mix_sig_cong) (simp_all add: commit_replays_def recorded_view_def, simp add: racey_prog_def)

end
