(* ===== verification/Addcnt.thy ===== *)
theory Addcnt
  imports Thread_Code
begin

text \<open>
  The test program \<open>src/addcnt.c\<close>: the threads add to ten shared counters in four patterns. The
  address of the counters and their contents at the start (the program does not initialise them) are
  parameters, and so is the number of rounds, which is \<open>NITER\<close> in the program. A counter has 64
  bits, of which the threads access the lower 32.
\<close>

definition NOBJS :: int where "NOBJS = 10"
definition NITER :: nat where "NITER = 20000"

definition g_obj_addr :: "addr_t \<Rightarrow> int \<Rightarrow> addr_t" where
  "g_obj_addr g_obj j = g_obj + 8 * j"

text \<open>\<open>>>\<close> on a signed \<open>long\<close>, narrowed to \<open>int\<close>.\<close>

definition calc_objid_addcnt :: "addr_t \<Rightarrow> addr_t \<Rightarrow> int" where
  "calc_objid_addcnt g_obj addr = signed_take_bit 31 (drop_bit 3 (addr - g_obj))"

section \<open>The thread functions\<close>

text \<open>The local variables of a thread function; \<open>ac_pc\<close> numbers the accesses of the inner loop's body.\<close>

record addcnt_thr =
  ac_i :: nat
  ac_j :: int
  ac_val :: val_t
  ac_pc :: nat

record addcnt_fn =
  af_start :: addcnt_thr
  af_next :: "addcnt_thr \<Rightarrow> action"
  af_resume :: "val_t \<Rightarrow> addcnt_thr \<Rightarrow> addcnt_thr"

definition thr_begin :: "int \<Rightarrow> addcnt_thr" where
  "thr_begin j = \<lparr>ac_i = 0, ac_j = j, ac_val = 0, ac_pc = 0\<rparr>"

text \<open>The end of the body of the inner loop: on to the next \<open>j\<close>, or to the next round.\<close>

definition next_j :: "bool \<Rightarrow> int \<Rightarrow> int \<Rightarrow> addcnt_thr \<Rightarrow> addcnt_thr" where
  "next_j again j j0 l =
     (if again then l\<lparr>ac_j := j, ac_pc := 0\<rparr> else l\<lparr>ac_i := ac_i l + 1, ac_j := j0, ac_pc := 0\<rparr>)"

text \<open>\<open>val = mem_read(addr); mem_write(addr, val + 1)\<close>\<close>

definition incr_next :: "nat \<Rightarrow> addr_t \<Rightarrow> addcnt_thr \<Rightarrow> action" where
  "incr_next niter g_obj l =
     (if \<not> ac_i l < niter then Finish
      else if ac_pc l = 0 then Read (g_obj_addr g_obj (ac_j l))
      else Write (g_obj_addr g_obj (ac_j l)) (ac_val l + 1))"

definition access_thr_fn1 :: "nat \<Rightarrow> addr_t \<Rightarrow> addcnt_fn" where
  "access_thr_fn1 niter g_obj =
     \<lparr>af_start = thr_begin 0,
      af_next = incr_next niter g_obj,
      af_resume = (\<lambda>v l.
        if \<not> ac_i l < niter then l
        else if ac_pc l = 0 then l\<lparr>ac_val := v, ac_pc := 1\<rparr>
        else next_j (ac_j l + 1 < NOBJS) (ac_j l + 1) 0 l)\<rparr>"

definition access_thr_fn2 :: "nat \<Rightarrow> addr_t \<Rightarrow> addcnt_fn" where
  "access_thr_fn2 niter g_obj =
     \<lparr>af_start = thr_begin (NOBJS - 1),
      af_next = incr_next niter g_obj,
      af_resume = (\<lambda>v l.
        if \<not> ac_i l < niter then l
        else if ac_pc l = 0 then l\<lparr>ac_val := v, ac_pc := 1\<rparr>
        else next_j (ac_j l - 1 > -1) (ac_j l - 1) (NOBJS - 1) l)\<rparr>"

text \<open>\<open>val = mem_read(addrj); mem_write(addrj1, val + 1); val = mem_read(addrj1); mem_write(addrj, val + 2)\<close>\<close>

definition pair_next :: "nat \<Rightarrow> addr_t \<Rightarrow> int \<Rightarrow> addcnt_thr \<Rightarrow> action" where
  "pair_next niter g_obj d l =
     (let addrj = g_obj_addr g_obj (ac_j l); addrj1 = g_obj_addr g_obj (ac_j l + d)
      in if \<not> ac_i l < niter then Finish
         else if ac_pc l = 0 then Read addrj
         else if ac_pc l = 1 then Write addrj1 (ac_val l + 1)
         else if ac_pc l = 2 then Read addrj1
         else Write addrj (ac_val l + 2))"

definition access_thr_fn3 :: "nat \<Rightarrow> addr_t \<Rightarrow> addcnt_fn" where
  "access_thr_fn3 niter g_obj =
     \<lparr>af_start = thr_begin 0,
      af_next = pair_next niter g_obj 1,
      af_resume = (\<lambda>v l.
        if \<not> ac_i l < niter then l
        else if ac_pc l = 0 then l\<lparr>ac_val := v, ac_pc := 1\<rparr>
        else if ac_pc l = 1 then l\<lparr>ac_pc := 2\<rparr>
        else if ac_pc l = 2 then l\<lparr>ac_val := v, ac_pc := 3\<rparr>
        else next_j (ac_j l + 2 < NOBJS - 1) (ac_j l + 2) 0 l)\<rparr>"

definition access_thr_fn4 :: "nat \<Rightarrow> addr_t \<Rightarrow> addcnt_fn" where
  "access_thr_fn4 niter g_obj =
     \<lparr>af_start = thr_begin (NOBJS - 1),
      af_next = pair_next niter g_obj (-1),
      af_resume = (\<lambda>v l.
        if \<not> ac_i l < niter then l
        else if ac_pc l = 0 then l\<lparr>ac_val := v, ac_pc := 1\<rparr>
        else if ac_pc l = 1 then l\<lparr>ac_pc := 2\<rparr>
        else if ac_pc l = 2 then l\<lparr>ac_val := v, ac_pc := 3\<rparr>
        else next_j (ac_j l - 2 > 0) (ac_j l - 2) (NOBJS - 1) l)\<rparr>"

definition thr_fn :: "nat \<Rightarrow> addr_t \<Rightarrow> addcnt_fn list" where
  "thr_fn niter g_obj =
     [access_thr_fn1 niter g_obj, access_thr_fn2 niter g_obj, access_thr_fn3 niter g_obj, access_thr_fn4 niter g_obj]"

section \<open>main\<close>

text \<open>\<open>i % sizeof(thr_fn)/sizeof(thr_fn[0])\<close>, with 8-byte pointers: \<open>%\<close> and \<open>/\<close> associate to the left.\<close>

definition thr_fn_index :: "tid_t \<Rightarrow> nat" where
  "thr_fn_index i = i mod 32 div 8"

definition addcnt_prog :: "nat \<Rightarrow> nat \<Rightarrow> addr_t \<Rightarrow> mem \<Rightarrow> test_prog" where
  "addcnt_prog niter nthr g_obj mem0 =
     (let fn = (\<lambda>t. thr_fn niter g_obj ! thr_fn_index t)
      in \<lparr>tp_code = thr_code (\<lambda>t. af_start (fn t)) (\<lambda>t. af_next (fn t)) (\<lambda>t. af_resume (fn t)),
          tp_cid = (\<lambda>a. if calc_objid_addcnt g_obj a < 0 then nat NOBJS else nat (calc_objid_addcnt g_obj a)),
          tp_nobj = nat NOBJS, tp_nthr = nthr, tp_mem = mem0\<rparr>)"

text \<open>The numbers that \<open>print_g_obj\<close> prints: 64-bit values, the lower half first in memory.\<close>

definition print_g_obj :: "addr_t \<Rightarrow> mem \<Rightarrow> 64 word list" where
  "print_g_obj g_obj m =
     map (\<lambda>i. ucast (m (g_obj_addr g_obj i)) + ucast (m (g_obj_addr g_obj i + 4)) * 2 ^ 32) [0..NOBJS - 1]"

section \<open>The patterns\<close>

text \<open>What the four functions are for, access by access: the \<open>k\<close>-th access, where \<open>k\<close> is the number of
  values seen. The first two read and increment the counters upwards and downwards; the other two
  go through pairs of neighbours.\<close>

definition incr_pattern :: "addr_t \<Rightarrow> int \<Rightarrow> val_t list \<Rightarrow> action" where
  "incr_pattern g_obj j vs =
     (if even (length vs) then Read (g_obj_addr g_obj j) else Write (g_obj_addr g_obj j) (last vs + 1))"

definition pair_pattern :: "addr_t \<Rightarrow> int \<Rightarrow> int \<Rightarrow> val_t list \<Rightarrow> action" where
  "pair_pattern g_obj j j1 vs =
     (let r = length vs mod 4
      in if r = 0 then Read (g_obj_addr g_obj j) else if r = 1 then Write (g_obj_addr g_obj j1) (last vs + 1)
         else if r = 2 then Read (g_obj_addr g_obj j1) else Write (g_obj_addr g_obj j) (last vs + 2))"

definition addcnt_pattern :: "nat \<Rightarrow> nat \<Rightarrow> addr_t \<Rightarrow> val_t list \<Rightarrow> action" where
  "addcnt_pattern fn niter g_obj vs =
     (let k = length vs; j = int (k div 2 mod 10); p = 2 * int (k div 4 mod 5)
      in if 20 * niter \<le> k then Finish
         else if fn = 0 then incr_pattern g_obj j vs
         else if fn = 1 then incr_pattern g_obj (9 - j) vs
         else if fn = 2 then pair_pattern g_obj p (p + 1) vs
         else pair_pattern g_obj (9 - p) (8 - p) vs)"

text \<open>Where the local variables stand after the accesses \<open>vs\<close>: \<open>w\<close> is the number of accesses in the
  inner loop's body and \<open>jq q\<close> the \<open>j\<close> of its \<open>q\<close>-th turn.\<close>

definition fn_at :: "nat \<Rightarrow> nat \<Rightarrow> (nat \<Rightarrow> int) \<Rightarrow> val_t list \<Rightarrow> addcnt_thr \<Rightarrow> bool" where
  "fn_at niter w jq vs l \<longleftrightarrow>
     (if length vs < 20 * niter
      then ac_i l < niter \<and> ac_pc l < w \<and> (odd (ac_pc l) \<longrightarrow> ac_val l = last vs) \<and>
        (\<exists>q. ac_j l = jq q \<and> w * q < 20 \<and> length vs = 20 * ac_i l + w * q + ac_pc l)
      else ac_i l = niter)"

lemma fn_at_running: "fn_at niter w jq vs l \<Longrightarrow> ac_i l < niter \<longleftrightarrow> length vs < 20 * niter"
  by (auto simp: fn_at_def split: if_splits)

lemma fn_at_over: "fn_at niter w jq vs l \<Longrightarrow> \<not> ac_i l < niter \<Longrightarrow> fn_at niter w jq (vs @ [v]) l"
  by (auto simp: fn_at_def split: if_splits)

text \<open>The next access of the body.\<close>

lemma fn_at_body:
  assumes at: "fn_at niter w jq vs l" and r: "ac_i l < niter" and w: "w = 2 \<or> w = 4"
    and pc: "Suc (ac_pc l) < w" and x: "odd (Suc (ac_pc l)) \<Longrightarrow> x = v"
  shows "fn_at niter w jq (vs @ [v]) (l\<lparr>ac_val := x, ac_pc := Suc (ac_pc l)\<rparr>)"
proof -
  obtain q where q: "ac_j l = jq q" "w * q < 20" "length vs = 20 * ac_i l + w * q + ac_pc l"
    using at fn_at_running [OF at] r by (auto simp: fn_at_def)
  have "w * q + w \<le> 20" using w q(2) by auto
  then have "Suc (length vs) < 20 * niter" using q(3) pc r by linarith
  then show ?thesis using q r pc x by (auto simp: fn_at_def)
qed

text \<open>From the last access of the body to the next turn or round.\<close>

lemma fn_at_next:
  assumes at: "fn_at niter w jq vs l" and r: "ac_i l < niter" and w: "w = 2 \<or> w = 4" and pc: "Suc (ac_pc l) = w"
    and turn: "\<And>q. ac_j l = jq q \<Longrightarrow> w * q < 20 \<Longrightarrow> (again \<longleftrightarrow> w * Suc q < 20) \<and> j = jq (Suc q)" and j0: "j0 = jq 0"
  shows "fn_at niter w jq (vs @ [v]) (next_j again j j0 l)"
proof -
  obtain q where q: "ac_j l = jq q" "w * q < 20" "length vs = 20 * ac_i l + w * q + ac_pc l"
    using at fn_at_running [OF at] r by (auto simp: fn_at_def)
  note n = turn [OF q(1,2)]
  have len: "Suc (length vs) = 20 * ac_i l + w * Suc q" using q(3) pc by simp
  show ?thesis
  proof (cases again)
    case True
    then have "Suc (length vs) < 20 * niter" using len n r by linarith
    with True n r w len show ?thesis unfolding fn_at_def next_j_def by auto
  next
    case False
    then have "w * Suc q = 20" using n w q(2) by auto
    with len False j0 r w show ?thesis
      unfolding fn_at_def next_j_def by (auto intro!: exI [of _ 0])
  qed
qed

lemma fn_at_fold:
  assumes "fn_at niter w jq [] s" "\<And>vs v l. fn_at niter w jq vs l \<Longrightarrow> fn_at niter w jq (vs @ [v]) (resume v l)"
  shows "fn_at niter w jq vs (fold resume vs s)"
  using assms by (induction vs rule: rev_induct) simp_all

lemma fn_at_begin: "w = 2 \<or> w = 4 \<Longrightarrow> j = jq 0 \<Longrightarrow> fn_at niter w jq [] (thr_begin j)"
  by (auto simp: fn_at_def thr_begin_def)

lemma fn_at_pc: "fn_at niter w jq vs l \<Longrightarrow> ac_i l < niter \<Longrightarrow> ac_pc l < w"
  using fn_at_running by (fastforce simp: fn_at_def)

lemma fn_at_skip:
  assumes "fn_at niter 4 jq vs l" "ac_i l < niter" "ac_pc l = 1"
  shows "fn_at niter 4 jq (vs @ [v]) (l\<lparr>ac_pc := 2\<rparr>)"
  using fn_at_body [OF assms(1,2), of "ac_val l" v] assms(3) by (cases l) (simp add: numeral_2_eq_2)

text \<open>The two bodies, with any range of \<open>j\<close>.\<close>

lemma incr_resume_at:
  assumes at: "fn_at niter 2 jq vs l" and j0: "j0 = jq 0"
    and turn: "\<And>q. ac_j l = jq q \<Longrightarrow> 2 * q < 20 \<Longrightarrow> (again \<longleftrightarrow> 2 * Suc q < 20) \<and> j = jq (Suc q)"
  shows "fn_at niter 2 jq (vs @ [v])
    (if \<not> ac_i l < niter then l else if ac_pc l = 0 then l\<lparr>ac_val := v, ac_pc := 1\<rparr> else next_j again j j0 l)"
  using fn_at_over [OF at, of v] fn_at_body [OF at, of v v] fn_at_next [OF at _ _ _ turn j0, of v] fn_at_pc [OF at]
  by (auto simp: less_2_cases_iff)

lemma pair_resume_at:
  assumes at: "fn_at niter 4 jq vs l" and j0: "j0 = jq 0"
    and turn: "\<And>q. ac_j l = jq q \<Longrightarrow> 4 * q < 20 \<Longrightarrow> (again \<longleftrightarrow> 4 * Suc q < 20) \<and> j = jq (Suc q)"
  shows "fn_at niter 4 jq (vs @ [v])
    (if \<not> ac_i l < niter then l
     else if ac_pc l = 0 then l\<lparr>ac_val := v, ac_pc := 1\<rparr>
     else if ac_pc l = 1 then l\<lparr>ac_pc := 2\<rparr>
     else if ac_pc l = 2 then l\<lparr>ac_val := v, ac_pc := 3\<rparr>
     else next_j again j j0 l)"
proof (cases "ac_i l < niter")
  case r: True
  consider "ac_pc l = 0" | "ac_pc l = 1" | "ac_pc l = 2" | "ac_pc l = 3" using fn_at_pc [OF at r] by linarith
  then show ?thesis
    using r fn_at_body [OF at r, of v v] fn_at_skip [OF at r, of v] fn_at_next [OF at r _ _ turn j0, of v]
    by cases (simp_all add: numeral_3_eq_3 [symmetric])
qed (simp add: fn_at_over [OF at])

lemma fn1_at: "fn_at niter 2 int vs (fold (af_resume (access_thr_fn1 niter g_obj)) vs (af_start (access_thr_fn1 niter g_obj)))"
  unfolding access_thr_fn1_def addcnt_fn.simps
  by (rule fn_at_fold, (rule fn_at_begin; simp add: NOBJS_def), (rule incr_resume_at; auto simp: NOBJS_def))

lemma fn2_at:
  "fn_at niter 2 (\<lambda>q. 9 - int q) vs (fold (af_resume (access_thr_fn2 niter g_obj)) vs (af_start (access_thr_fn2 niter g_obj)))"
  unfolding access_thr_fn2_def addcnt_fn.simps
  by (rule fn_at_fold, (rule fn_at_begin; simp add: NOBJS_def), (rule incr_resume_at; auto simp: NOBJS_def))

lemma fn3_at:
  "fn_at niter 4 (\<lambda>q. 2 * int q) vs (fold (af_resume (access_thr_fn3 niter g_obj)) vs (af_start (access_thr_fn3 niter g_obj)))"
  unfolding access_thr_fn3_def addcnt_fn.simps
  by (rule fn_at_fold, (rule fn_at_begin; simp add: NOBJS_def), (rule pair_resume_at; auto simp: NOBJS_def))

lemma fn4_at:
  "fn_at niter 4 (\<lambda>q. 9 - 2 * int q) vs (fold (af_resume (access_thr_fn4 niter g_obj)) vs (af_start (access_thr_fn4 niter g_obj)))"
  unfolding access_thr_fn4_def addcnt_fn.simps
  by (rule fn_at_fold, (rule fn_at_begin; simp add: NOBJS_def), (rule pair_resume_at; auto simp: NOBJS_def))

text \<open>The access a function makes next is that of its pattern.\<close>

lemma incr_at:
  assumes at: "fn_at niter 2 jq vs l"
  shows "incr_next niter g_obj l =
    (if 20 * niter \<le> length vs then Finish else incr_pattern g_obj (jq (length vs div 2 mod 10)) vs)"
proof (cases "length vs < 20 * niter")
  case True
  then obtain q where q: "ac_j l = jq q" "q < 10" "length vs = 20 * ac_i l + 2 * q + ac_pc l"
    using at by (auto simp: fn_at_def)
  have pc: "ac_pc l < 2" using fn_at_pc [OF at] fn_at_running [OF at] True by simp
  have "length vs div 2 = 10 * ac_i l + q" using q(3) pc by linarith
  then have "length vs div 2 mod 10 = q" "(ac_pc l = 0) = even (length vs)" using q(2,3) pc by auto
  then show ?thesis
    using True q(1) at by (auto simp: incr_next_def incr_pattern_def fn_at_def)
qed (use fn_at_running [OF at] in \<open>simp add: incr_next_def\<close>)

lemma pair_at:
  assumes at: "fn_at niter 4 jq vs l"
  shows "pair_next niter g_obj d l =
    (if 20 * niter \<le> length vs then Finish
     else pair_pattern g_obj (jq (length vs div 4 mod 5)) (jq (length vs div 4 mod 5) + d) vs)"
proof (cases "length vs < 20 * niter")
  case True
  then obtain q where q: "ac_j l = jq q" "q < 5" "length vs = 20 * ac_i l + 4 * q + ac_pc l"
    using at by (auto simp: fn_at_def)
  have pc: "ac_pc l < 4" using fn_at_pc [OF at] fn_at_running [OF at] True by simp
  have eq: "length vs = 4 * (5 * ac_i l + q) + ac_pc l" using q(3) by simp
  have "length vs div 4 = 5 * ac_i l + q" "length vs mod 4 = ac_pc l"
    unfolding eq mod_mult_self4 using pc by simp_all
  then have r: "length vs div 4 mod 5 = q" "length vs mod 4 = ac_pc l" using q(2) by simp_all
  have "ac_pc l = 1 \<or> ac_pc l = 3 \<longrightarrow> ac_val l = last vs" using True at by (auto simp: fn_at_def)
  then show ?thesis
    using True r q(1) pc fn_at_running [OF at] by (auto simp: pair_next_def pair_pattern_def Let_def)
qed (use fn_at_running [OF at] in \<open>simp add: pair_next_def\<close>)

lemma addcnt_code:
  "tp_code (addcnt_prog niter nthr g_obj mem0) t vs = addcnt_pattern (t mod 32 div 8) niter g_obj vs"
proof -
  have "t mod 32 div 8 < 4" using mod_less_divisor [of 32 t] by (intro less_mult_imp_div_less) simp
  then have idx: "t mod 32 div 8 = 0 \<or> t mod 32 div 8 = 1 \<or> t mod 32 div 8 = 2 \<or> t mod 32 div 8 = 3" by linarith
  note f = incr_at [OF fn1_at [of niter vs g_obj], of g_obj] incr_at [OF fn2_at [of niter vs g_obj], of g_obj]
    pair_at [OF fn3_at [of niter vs g_obj], of g_obj 1] pair_at [OF fn4_at [of niter vs g_obj], of g_obj "-1"]
  have n: "af_next (access_thr_fn1 niter g_obj) = incr_next niter g_obj"
    "af_next (access_thr_fn2 niter g_obj) = incr_next niter g_obj"
    "af_next (access_thr_fn3 niter g_obj) = pair_next niter g_obj 1"
    "af_next (access_thr_fn4 niter g_obj) = pair_next niter g_obj (-1)"
    by (simp_all add: access_thr_fn1_def access_thr_fn2_def access_thr_fn3_def access_thr_fn4_def)
  show ?thesis
    using idx
    by (elim disjE) (simp_all add: addcnt_prog_def thr_code_def thr_fn_def thr_fn_index_def addcnt_pattern_def Let_def n f)
qed
text \<open>C34: Thread \<open>t\<close> of addcnt runs the pattern number \<open>t mod 32 div 8\<close>, access by access and for
  every value its reads return, and ends after 20 accesses in each round. In particular the first
  eight threads all run the first pattern.\<close>

theorem addcnt_patterns:
  "tp_code (addcnt_prog niter nthr g_obj mem0) t vs = addcnt_pattern (t mod 32 div 8) niter g_obj vs"
  by (rule addcnt_code)

section \<open>Objects and output\<close>

lemma calc_objid_counter:
  assumes "0 \<le> j" "j < NOBJS" "0 \<le> c" "c < 8"
  shows "calc_objid_addcnt g_obj (g_obj_addr g_obj j + c) = j"
proof -
  have "drop_bit 3 (8 * j + c) = j" using assms(3,4) by (simp add: drop_bit_eq_div)
  moreover have "signed_take_bit 31 j = j" using assms(1,2) by (intro signed_take_bit_int_eq_self) (simp_all add: NOBJS_def)
  ultimately show ?thesis by (simp add: calc_objid_addcnt_def g_obj_addr_def)
qed

lemma pattern_addr:
  "addcnt_pattern fn niter g_obj vs \<noteq> Finish \<Longrightarrow>
   \<exists>j. 0 \<le> j \<and> j < NOBJS \<and> act_addr (addcnt_pattern fn niter g_obj vs) = g_obj_addr g_obj j"
  using mod_less_divisor [of 10 "length vs div 2"] mod_less_divisor [of 5 "length vs div 4"]
  by (simp add: addcnt_pattern_def incr_pattern_def pair_pattern_def NOBJS_def Let_def) (intro conjI impI exI conjI refl; simp)

lemma addcnt_prog_ok: "prog_ok (addcnt_prog niter nthr g_obj mem0)"
  unfolding prog_ok_def
proof (intro allI impI)
  fix t vs assume "tp_code (addcnt_prog niter nthr g_obj mem0) t vs \<noteq> Finish"
  then obtain j where j: "0 \<le> j" "j < NOBJS"
    "act_addr (tp_code (addcnt_prog niter nthr g_obj mem0) t vs) = g_obj_addr g_obj j"
    using pattern_addr unfolding addcnt_code by blast
  then show "tp_cid (addcnt_prog niter nthr g_obj mem0) (act_addr (tp_code (addcnt_prog niter nthr g_obj mem0) t vs)) <
      tp_nobj (addcnt_prog niter nthr g_obj mem0)"
    using calc_objid_counter [OF j(1,2), of 0 g_obj] by (simp add: addcnt_prog_def Let_def)
qed

text \<open>Both halves of a counter belong to its object, so a replay leaves what \<open>print_g_obj\<close> prints.\<close>

lemma addcnt_output:
  assumes "replays (addcnt_prog niter nthr g_obj mem0) q s" "all_done (addcnt_prog niter nthr g_obj mem0) s"
  shows "print_g_obj g_obj (rp_mem s) = print_g_obj g_obj (qs_mem q)"
proof -
  have "rp_mem s (g_obj_addr g_obj j + c) = qs_mem q (g_obj_addr g_obj j + c)"
    if "0 \<le> j" "j < NOBJS" "0 \<le> c" "c < 8" for j c
    using assms calc_objid_counter [OF that, of g_obj] that by (simp add: replays_def addcnt_prog_def Let_def)
  from this [of _ 0] this [of _ 4] show ?thesis by (simp add: print_g_obj_def)
qed

lemma addcnt_prog_ends: "ends (addcnt_prog niter nthr g_obj mem0) (\<lambda>t. 20 * niter)"
  by (simp add: ends_def addcnt_code addcnt_pattern_def Let_def)

lemma addcnt_entries_few: "n < (128 :: nat) \<Longrightarrow> (\<Sum>t<n. 20 * NITER + nat NOBJS + 1) < 2 ^ 31"
  by (simp add: NOBJS_def NITER_def)

end
