(* ===== verification/Relay.thy ===== *)
theory Relay
  imports Thread_Barrier
begin

text \<open>
  \<open>src/relay.c\<close>: the threads count to \<open>FinishingLine\<close> together. Thread \<open>i\<close> waits until the shared
  counter \<open>step\<close> has reached \<open>floor[i]\<close> and then counts it up to \<open>ceiling[i]\<close>, with no lock and no
  atomic instruction. One step of the machine is one access of a thread to \<open>step\<close> or to the
  barrier's flag; \<open>step++\<close> is a load and a store.
\<close>

definition FinishingLine :: int where
  "FinishingLine = 10000000"

definition relay_floor :: "nat \<Rightarrow> tid_t \<Rightarrow> int" where
  "relay_floor NumProcs i = FinishingLine div int NumProcs * int i"

definition relay_ceiling :: "nat \<Rightarrow> tid_t \<Rightarrow> int" where
  "relay_ceiling NumProcs i = FinishingLine div int NumProcs * (int i + 1)"

datatype relay_pc = RSpin | RTest | RLoad | RStore int | RDone

record relay =
  rl_bar :: barrier
  rl_step :: int
  rl_pc :: "tid_t \<Rightarrow> relay_pc"

definition relay_init :: relay where
  "relay_init = \<lparr>rl_bar = barrier_init, rl_step = 0, rl_pc = (\<lambda>t. RSpin)\<rparr>"

definition relay_goto :: "tid_t \<Rightarrow> relay_pc \<Rightarrow> relay \<Rightarrow> relay" where
  "relay_goto t pc s = s\<lparr>rl_pc := (rl_pc s)(t := pc)\<rparr>"

definition relay_body :: "nat \<Rightarrow> tid_t \<Rightarrow> relay \<Rightarrow> relay" where
  "relay_body NumProcs t s =
     (if \<not> passed (bar_pc (rl_bar s) t) then s\<lparr>rl_bar := sync_thread NumProcs t (rl_bar s)\<rparr>
      else case rl_pc s t of
        RSpin \<Rightarrow> if rl_step s < relay_floor NumProcs t then s else relay_goto t RTest s
      | RTest \<Rightarrow> relay_goto t (if rl_step s < relay_ceiling NumProcs t then RLoad else RDone) s
      | RLoad \<Rightarrow> relay_goto t (RStore (rl_step s)) s
      | RStore v \<Rightarrow> relay_goto t RTest (s\<lparr>rl_step := v + 1\<rparr>)
      | RDone \<Rightarrow> s)"

definition relay_done :: "nat \<Rightarrow> relay \<Rightarrow> bool" where
  "relay_done n s \<longleftrightarrow> (\<forall>t < n. rl_pc s t = RDone)"

inductive relay_reach :: "nat \<Rightarrow> relay \<Rightarrow> bool" for n where
  init: "relay_reach n relay_init"
| step: "relay_reach n s \<Longrightarrow> t < n \<Longrightarrow> relay_reach n (relay_body n t s)"

section \<open>Invariant\<close>

text \<open>A thread whose turn it is finds the counter in its own range, so its load and store are never
  interrupted by another thread's.\<close>

fun in_increment :: "relay_pc \<Rightarrow> bool" where
  "in_increment RLoad = True"
| "in_increment (RStore v) = True"
| "in_increment pc = False"

definition relay_thr_inv :: "nat \<Rightarrow> int \<Rightarrow> tid_t \<Rightarrow> relay_pc \<Rightarrow> bool" where
  "relay_thr_inv n x t pc \<longleftrightarrow>
     (pc \<noteq> RSpin \<longrightarrow> relay_floor n t \<le> x) \<and> (in_increment pc \<longrightarrow> x < relay_ceiling n t) \<and>
     (\<forall>v. pc = RStore v \<longrightarrow> v = x) \<and> (pc = RDone \<longrightarrow> relay_ceiling n t \<le> x)"

definition relay_inv :: "nat \<Rightarrow> relay \<Rightarrow> bool" where
  "relay_inv n s \<longleftrightarrow>
     bar_inv n (rl_bar s) \<and> 0 \<le> rl_step s \<and> rl_step s \<le> relay_floor n n \<and>
     (\<forall>t < n. relay_thr_inv n (rl_step s) t (rl_pc s t)) \<and>
     (\<forall>t < n. rl_pc s t \<noteq> RSpin \<longrightarrow> passed (bar_pc (rl_bar s) t))"

lemma share_nonneg: "0 \<le> FinishingLine div int n"
  by (cases "n = 0") (simp_all add: FinishingLine_def pos_imp_zdiv_nonneg_iff)

lemma ceiling_floor: "relay_ceiling n t = relay_floor n (Suc t)"
  by (simp add: relay_ceiling_def relay_floor_def algebra_simps)

lemma floor_mono: "t \<le> u \<Longrightarrow> relay_floor n t \<le> relay_floor n u"
  using share_nonneg [of n] by (simp add: relay_floor_def mult_left_mono)

text \<open>The ranges of the threads are disjoint.\<close>

lemma ranges_disjoint:
  assumes "relay_floor n t \<le> x" "x < relay_ceiling n t" "relay_floor n u \<le> x" "x < relay_ceiling n u"
  shows "t = u"
  using assms floor_mono [of "Suc t" u n] floor_mono [of "Suc u" t n]
  by (cases t u rule: linorder_cases) (auto simp: ceiling_floor)

lemma relay_invD:
  assumes "relay_inv n s" "t < n"
  shows "bar_inv n (rl_bar s)" "0 \<le> rl_step s" "rl_step s \<le> relay_floor n n"
    "relay_thr_inv n (rl_step s) t (rl_pc s t)" "rl_pc s t \<noteq> RSpin \<Longrightarrow> passed (bar_pc (rl_bar s) t)"
  using assms unfolding relay_inv_def by blast+

lemma relay_inv_init: "relay_inv n relay_init"
  using floor_mono [of 0 n n]
  by (simp add: relay_inv_def relay_init_def relay_thr_inv_def bar_inv_init) (simp add: relay_floor_def)

lemma sync_keeps_passed: "passed (bar_pc b t) \<Longrightarrow> passed (bar_pc (sync_thread n u b) t)"
  by (auto simp: sync_thread_def split: bar_pc.splits)

lemma relay_inv_goto:
  assumes "relay_inv n s" "t < n" "passed (bar_pc (rl_bar s) t)" "relay_thr_inv n (rl_step s) t pc"
  shows "relay_inv n (relay_goto t pc s)"
  using assms by (simp add: relay_inv_def relay_goto_def)

lemma relay_inv_store:
  assumes inv: "relay_inv n s" and t: "t < n" and pc: "rl_pc s t = RStore v"
  shows "relay_inv n (relay_goto t RTest (s\<lparr>rl_step := v + 1\<rparr>))" (is "relay_inv n ?s")
proof -
  note I = relay_invD [OF inv t]
  have v: "v = rl_step s" "relay_floor n t \<le> v" "v < relay_ceiling n t"
    using I(4) pc by (auto simp: relay_thr_inv_def)
  have le: "v + 1 \<le> relay_floor n n" using v(3) floor_mono [of "Suc t" n n] t by (simp add: ceiling_floor)
  have others: "relay_thr_inv n (v + 1) u (rl_pc s u)" if u: "u < n" "u \<noteq> t" for u
  proof -
    have iu: "relay_thr_inv n v u (rl_pc s u)" using relay_invD(4) [OF inv u(1)] v(1) by simp
    have "\<not> in_increment (rl_pc s u)"
    proof
      assume c: "in_increment (rl_pc s u)"
      then have "relay_floor n u \<le> v" "v < relay_ceiling n u"
        using iu by (cases "rl_pc s u"; simp add: relay_thr_inv_def)+
      with ranges_disjoint [OF v(2,3)] u(2) show False by blast
    qed
    with iu show ?thesis by (cases "rl_pc s u") (auto simp: relay_thr_inv_def)
  qed
  have "\<forall>u < n. relay_thr_inv n (rl_step ?s) u (rl_pc ?s u)"
    using others v(2) by (simp add: relay_goto_def) (simp add: relay_thr_inv_def)
  then show ?thesis
    using inv le v I(2,5) pc by (simp add: relay_inv_def) (simp add: relay_goto_def)
qed

lemma relay_body_inv:
  assumes inv: "relay_inv n s" and t: "t < n"
  shows "relay_inv n (relay_body n t s)"
proof (cases "passed (bar_pc (rl_bar s) t)")
  case False
  then show ?thesis
    using inv t sync_thread_inv [of n "rl_bar s" t] sync_keeps_passed
    by (simp add: relay_body_def relay_inv_def)
next
  case True
  note goto = relay_inv_goto [OF inv t True]
  show ?thesis
    using True inv relay_invD(4) [OF inv t] goto relay_inv_store [OF inv t]
    by (cases "rl_pc s t") (auto simp: relay_body_def relay_thr_inv_def)
qed

lemma relay_reach_inv: "relay_reach n s \<Longrightarrow> relay_inv n s"
  by (induction rule: relay_reach.induct) (auto intro: relay_inv_init relay_body_inv)

section \<open>Progress\<close>

fun relay_todo :: "relay_pc \<Rightarrow> nat" where
  "relay_todo RSpin = 4"
| "relay_todo RTest = 3"
| "relay_todo RLoad = 2"
| "relay_todo (RStore v) = 1"
| "relay_todo RDone = 0"

definition relay_left :: "nat \<Rightarrow> relay \<Rightarrow> nat" where
  "relay_left n s =
     bar_left n (rl_bar s) + 3 * nat (relay_floor n n - rl_step s) + (\<Sum>t<n. relay_todo (rl_pc s t))"

lemma relay_goto_left:
  assumes "t < n" "relay_todo pc < relay_todo (rl_pc s t)"
  shows "relay_left n (relay_goto t pc s) < relay_left n s"
proof -
  have "(\<Sum>u<n. relay_todo (((rl_pc s)(t := pc)) u)) < (\<Sum>u<n. relay_todo (rl_pc s u))"
    using assms by (intro sum_lessThan_dec [of t]) simp_all
  then show ?thesis by (simp add: relay_left_def relay_goto_def)
qed

lemma relay_store_left:
  assumes inv: "relay_inv n s" and t: "t < n" and pc: "rl_pc s t = RStore v"
  shows "relay_left n (relay_goto t RTest (s\<lparr>rl_step := v + 1\<rparr>)) < relay_left n s"
proof -
  have v: "v = rl_step s" "v < relay_ceiling n t"
    using relay_invD(4) [OF inv t] pc by (auto simp: relay_thr_inv_def)
  have le: "v < relay_floor n n" using v(2) floor_mono [of "Suc t" n n] t by (simp add: ceiling_floor)
  have "(\<Sum>u<n. relay_todo (((rl_pc s)(t := RTest)) u)) + 1 = (\<Sum>u<n. relay_todo (rl_pc s u)) + 3"
    using sum_lessThan_upd [of t n "\<lambda>u. relay_todo (((rl_pc s)(t := RTest)) u)" "\<lambda>u. relay_todo (rl_pc s u)"] t pc
    by simp
  then show ?thesis using le v(1) by (simp add: relay_left_def relay_goto_def)
qed

lemma relay_body_left:
  assumes inv: "relay_inv n s" and t: "t < n" and move: "relay_body n t s \<noteq> s"
  shows "relay_left n (relay_body n t s) < relay_left n s"
proof (cases "passed (bar_pc (rl_bar s) t)")
  case False
  then have "sync_thread n t (rl_bar s) \<noteq> rl_bar s" using move by (auto simp: relay_body_def)
  with False sync_thread_left [OF t this] show ?thesis by (simp add: relay_body_def relay_left_def)
next
  case True
  then show ?thesis
    using move relay_store_left [OF inv t]
    by (cases "rl_pc s t") (auto simp: relay_body_def intro: relay_goto_left [OF t] split: if_splits)
qed

lemma relay_goto_moves: "pc \<noteq> rl_pc s t \<Longrightarrow> relay_goto t pc s' \<noteq> s"
  by (auto simp: relay_goto_def)

lemma relay_moves_passed:
  assumes "passed (bar_pc (rl_bar s) t)" "rl_pc s t \<noteq> RDone" "relay_floor n t \<le> rl_step s"
  shows "relay_body n t s \<noteq> s"
  using assms by (cases "rl_pc s t") (auto simp: relay_body_def intro!: relay_goto_moves)

lemma relay_moves:
  assumes inv: "relay_inv n s" and nd: "\<not> relay_done n s"
  shows "\<exists>t < n. relay_body n t s \<noteq> s"
proof (cases "all_passed n (rl_bar s)")
  case False
  have b: "bar_inv n (rl_bar s)" using inv by (simp add: relay_inv_def)
  obtain t where t: "t < n" "sync_thread n t (rl_bar s) \<noteq> rl_bar s" using barrier_moves [OF b False] by blast
  then have "\<not> passed (bar_pc (rl_bar s) t)" by (cases "bar_pc (rl_bar s) t") (auto simp: sync_thread_def)
  then have "rl_bar (relay_body n t s) \<noteq> rl_bar s" using t(2) by (simp add: relay_body_def)
  with t(1) show ?thesis by metis
next
  case True
  let ?P = "\<lambda>t. t < n \<and> rl_pc s t \<noteq> RDone"
  define t where "t = (LEAST t. ?P t)"
  have t: "t < n" "rl_pc s t \<noteq> RDone" using nd LeastI_ex [of ?P] by (auto simp: relay_done_def t_def)
  have "relay_floor n t \<le> rl_step s"
  proof (cases t)
    case 0 then show ?thesis using relay_invD(2) [OF inv t(1)] by (simp add: relay_floor_def)
  next
    case (Suc u)
    then have "rl_pc s u = RDone" using not_less_Least [of u ?P] t(1) by (auto simp: t_def)
    then show ?thesis using relay_invD(4) [OF inv, of u] Suc t(1) by (simp add: relay_thr_inv_def ceiling_floor)
  qed
  then show ?thesis using relay_moves_passed [of s t n] True t by (auto simp: all_passed_def)
qed

interpretation relay: spin_machine "relay_body n" n "relay_inv n" "relay_done n" "relay_left n"
  by unfold_locales (auto intro: relay_body_inv relay_body_left relay_moves)

section \<open>Properties\<close>

lemma relay_done_step:
  assumes inv: "relay_inv n s" and d: "relay_done n s" and n: "0 < n"
  shows "rl_step s = FinishingLine div int n * int n"
proof -
  have "relay_floor n n \<le> rl_step s"
    using relay_invD(4) [OF inv, of "n - 1"] d n by (simp add: relay_thr_inv_def relay_done_def ceiling_floor)
  then show ?thesis using relay_invD(3) [OF inv n] by (simp add: relay_floor_def)
qed

text \<open>C31: No two threads of relay are in their increment at the same time, and a thread that is
  about to store loaded the value the counter still has: no increment is lost.\<close>

theorem relay_exclusive:
  assumes "relay_reach n s" "t < n" "in_increment (rl_pc s t)"
  shows "relay_floor n t \<le> rl_step s \<and> rl_step s < relay_ceiling n t \<and>
    (\<forall>u < n. in_increment (rl_pc s u) \<longrightarrow> u = t) \<and> (\<forall>v. rl_pc s t = RStore v \<longrightarrow> v = rl_step s)"
proof -
  have range: "relay_floor n u \<le> rl_step s \<and> rl_step s < relay_ceiling n u"
    if "u < n" "in_increment (rl_pc s u)" for u
    using relay_invD(4) [OF relay_reach_inv [OF assms(1)] that(1)] that(2)
    by (cases "rl_pc s u") (simp_all add: relay_thr_inv_def)
  moreover have "rl_pc s t = RStore v \<Longrightarrow> v = rl_step s" for v
    using relay_invD(4) [OF relay_reach_inv [OF assms(1)] assms(2)] by (simp add: relay_thr_inv_def)
  ultimately show ?thesis using assms(2,3) ranges_disjoint by blast
qed

text \<open>C32: Under every fair schedule relay ends, with the counter at the number of threads times the
  share of each; that is \<open>FinishingLine\<close> when the number of threads divides it.\<close>

theorem relay_finishes:
  assumes "fair n f" "0 < n"
  shows "\<exists>k. relay_done n (sched_state (relay_body n) f relay_init k) \<and>
    rl_step (sched_state (relay_body n) f relay_init k) = FinishingLine div int n * int n"
  using relay.fair_finishes [OF relay_inv_init assms(1)] relay_done_step [OF _ _ assms(2)] by blast

definition relay_trip :: relay where
  "relay_trip = fold (relay_body 2) [0, 1, 0, 0, 0, 0] relay_init"

theorem relay_exclusive_witness:
  "relay_reach 2 relay_trip \<and> rl_pc relay_trip 0 = RStore 0 \<and> \<not> in_increment (rl_pc relay_trip 1)"
proof -
  have r: "relay_reach 2 relay_trip"
    unfolding relay_trip_def by (simp, intro relay_reach.init relay_reach.step) simp_all
  have p: "rl_pc relay_trip 0 = RStore 0" by code_simp
  have "(0::nat) < 2" "in_increment (rl_pc relay_trip 0)" using p by simp_all
  note ex = relay_exclusive [OF r this]
  then have "in_increment (rl_pc relay_trip 1) \<longrightarrow> 1 = (0::nat)" by (metis one_less_numeral_iff semiring_norm(76))
  with r p show ?thesis by simp
qed

theorem relay_finishes_witness:
  "\<exists>k. rl_step (sched_state (relay_body 4) (\<lambda>n. n mod 4) relay_init k) = 10000000"
  using relay_finishes [OF fair_round_robin [of 4]] by (simp add: FinishingLine_def) blast

end
