(* ===== verification/Test_Mains.thy ===== *)
theory Test_Mains
  imports Disk_Logs Racey Addcnt Relay
begin

text \<open>
  The \<open>main\<close> functions of the test programs \<open>src/racey.c\<close>, \<open>src/addcnt.c\<close> and \<open>src/relay.c\<close>, from the
  command line to the output: arguments, allocations, the creation of the threads and the printing
  of the result. racey and addcnt are linked with a recorder or a replayer: its \<open>mem_init\<close> and what the
  threads do with it are arguments here, which the theory \<open>Linked_Runs\<close> instantiates by the models of
  the recorders and replayers.
\<close>

section \<open>Output\<close>

text \<open>The conversions \<open>%lx\<close> and \<open>%08x\<close>.\<close>

definition hex_digit :: "nat \<Rightarrow> char" where
  "hex_digit d = (if d < 10 then char_of (48 + d) else char_of (87 + d))"

fun hex :: "nat \<Rightarrow> string" where
  "hex n = (if n < 16 then [hex_digit n] else hex (n div 16) @ [hex_digit (n mod 16)])"

declare hex.simps [simp del]

definition format_08x :: "32 word \<Rightarrow> string" where
  "format_08x w = replicate (8 - length (hex (unat w))) CHR ''0'' @ hex (unat w)"

definition format_lx :: "64 word \<Rightarrow> string" where
  "format_lx w = hex (unat w)"

section \<open>Threads\<close>

text \<open>\<open>bind_core\<close>: the set of processors has the thread's own number only.\<close>

definition bind_core :: "kernel \<Rightarrow> nat \<Rightarrow> os \<Rightarrow> unit outcome" where
  "bind_core k threadid s =
     os_bind (perror_exit (''tid: '' @ decimal threadid @ '' Set affinity failed'') (sys_plain k s)) (\<lambda>_ s. Ret () s)"

text \<open>The loops over \<open>pthread_create\<close> and \<open>pthread_join\<close>; \<open>msg\<close> is what the program exits with when a call
  fails. A thread that binds itself to a processor does so before the barrier.\<close>

fun create_threads :: "kernel \<Rightarrow> string \<Rightarrow> bool \<Rightarrow> nat list \<Rightarrow> os \<Rightarrow> unit outcome" where
  "create_threads k msg bind [] s = Ret () s"
| "create_threads k msg bind (i # is) s =
     os_bind (perror_exit msg (sys_plain k s)) (\<lambda>_ s.
     os_bind (if bind then bind_core k i s else Ret () s) (\<lambda>_ s.
     create_threads k msg bind is s))"

fun join_threads :: "kernel \<Rightarrow> bool \<Rightarrow> nat list \<Rightarrow> os \<Rightarrow> unit outcome" where
  "join_threads k check [] s = Ret () s"
| "join_threads k check (i # is) s =
     (case sys_plain k s of (ret, s) \<Rightarrow>
        if check \<and> ret \<noteq> 0 then Exit ''assert'' s else join_threads k check is s)"

section \<open>The main functions\<close>

definition racey_output :: "val_t \<Rightarrow> string" where
  "racey_output sig = ''Short signature: '' @ format_08x sig @ ''\<newline>''"


text \<open>The arguments of racey and relay: one number of processors below 16.\<close>

definition num_procs :: "string list \<Rightarrow> os \<Rightarrow> int outcome" where
  "num_procs argv s =
     (if length argv \<noteq> 2 then Exit (hd argv @ '' <numProcesors>'') s
      else let NumProcs = atoi (argv ! 1)
           in if NumProcs > 0 \<and> NumProcs < 16 then Ret NumProcs s else Exit ''assert'' s)"

text \<open>\<open>mem_init\<close> returns the data it sets up for the threads. \<open>threads\<close> runs the thread functions, with
  their \<open>mem_init_thr\<close> and \<open>mem_finish_thr\<close>, from that data on; it returns the values that each thread
  has read and written and the memory, or exits. The calls that bind a thread to a processor are made
  when it is created.\<close>

type_synonym thr_results = "(tid_t \<Rightarrow> val_t list) \<times> mem"

definition racey_main ::
  "kernel \<Rightarrow> (int \<Rightarrow> nat \<Rightarrow> os \<Rightarrow> 'g outcome) \<Rightarrow> ('g \<Rightarrow> test_prog \<Rightarrow> os \<Rightarrow> thr_results outcome) \<Rightarrow> addr_t \<Rightarrow>
     string list \<Rightarrow> os \<Rightarrow> string outcome" where
  "racey_main k mem_init threads g_m argv s =
     os_bind (num_procs argv s) (\<lambda>NumProcs s.
     os_bind (mem_init (to_tid_t NumProcs) MAX_ELEM s) (\<lambda>g s.
     os_bind (perror_exit ''assert'' (sys_plain k s)) (\<lambda>_ s.
     os_bind (create_threads k ''assert'' True [0..<nat NumProcs] s) (\<lambda>_ s.
     os_bind (threads g (racey_prog MAX_LOOP (nat NumProcs) g_m) s) (\<lambda>(vals, m) s.
     os_bind (join_threads k True [0..<nat NumProcs] s) (\<lambda>_ s.
     Ret (racey_output (mix_sig MAX_LOOP (nat NumProcs) vals)) s))))))"

text \<open>addcnt does not check the number; a negative one fails in \<open>calloc_check\<close>.\<close>

definition addcnt_output :: "addr_t \<Rightarrow> mem \<Rightarrow> string" where
  "addcnt_output g_obj m = concat (map (\<lambda>w. format_lx w @ ''\<newline>'') (print_g_obj g_obj m))"

definition addcnt_main ::
  "kernel \<Rightarrow> (int \<Rightarrow> nat \<Rightarrow> os \<Rightarrow> 'g outcome) \<Rightarrow> ('g \<Rightarrow> test_prog \<Rightarrow> os \<Rightarrow> thr_results outcome) \<Rightarrow> addr_t \<Rightarrow> mem \<Rightarrow>
     string list \<Rightarrow> os \<Rightarrow> string outcome" where
  "addcnt_main k mem_init threads g_obj mem0 argv s =
     (if length argv \<noteq> 2 then Exit (''Usage: '' @ hd argv @ '' <no of threads>'') s
      else
      os_bind (perror_exit ''memory allocation for objs failed'' (sys_plain k s)) (\<lambda>_ s.
      let nthr = atoi (argv ! 1) in
      os_bind (calloc_check k nthr ''pthread_t array thr'' s) (\<lambda>_ s.
      os_bind (mem_init (to_tid_t nthr) (nat NOBJS) s) (\<lambda>g s.
      os_bind (create_threads k ''thread creation failed'' False [0..<nat nthr] s) (\<lambda>_ s.
      os_bind (threads g (addcnt_prog NITER (nat nthr) g_obj mem0) s) (\<lambda>(vals, m) s.
      os_bind (join_threads k False [0..<nat nthr] s) (\<lambda>_ s.
      Ret (addcnt_output g_obj m) s)))))))"

text \<open>relay, with the arrays \<open>floor\<close> and \<open>ceiling\<close>, which are filled while the threads are created.
  Their allocation is not checked.\<close>

fun relay_create :: "kernel \<Rightarrow> int \<Rightarrow> nat list \<Rightarrow> os \<Rightarrow> (int \<times> int) list outcome" where
  "relay_create k NumProcs [] s = Ret [] s"
| "relay_create k NumProcs (i # is) s =
     (let fl = FinishingLine div NumProcs * int i; ce = FinishingLine div NumProcs * (int i + 1)
      in os_bind (perror_exit ''assert'' (sys_plain k s)) (\<lambda>_ s.
         os_bind (bind_core k i s) (\<lambda>_ s.
         os_bind (relay_create k NumProcs is s) (\<lambda>ranges s. Ret ((fl, ce) # ranges) s))))"

definition relay_main :: "kernel \<Rightarrow> string list \<Rightarrow> os \<Rightarrow> (int \<times> int) list outcome" where
  "relay_main k argv s =
     os_bind (num_procs argv s) (\<lambda>NumProcs s.
     os_bind (perror_exit ''assert'' (sys_plain k s)) (\<lambda>threads s.
     case sys_plain k s of (floor, s) \<Rightarrow>
     case sys_plain k s of (ceiling, s) \<Rightarrow>
     if floor = -1 \<or> ceiling = -1 then Exit ''Segmentation fault'' s
     else
     os_bind (relay_create k NumProcs [0..<nat NumProcs] s) (\<lambda>ranges s.
     os_bind (join_threads k True [0..<nat NumProcs] s) (\<lambda>_ s. Ret ranges s))))"

section \<open>Outcomes\<close>

text \<open>\<open>I\<close> stays true when a call is made, and a call that is refused in a state with \<open>I\<close> gives \<open>E\<close>.\<close>

definition tick_inv :: "kernel \<Rightarrow> (os \<Rightarrow> bool) \<Rightarrow> (os \<Rightarrow> bool) \<Rightarrow> bool" where
  "tick_inv k I E \<longleftrightarrow> (\<forall>s. I s \<longrightarrow> I (tick s) \<and> (k_refuse k (os_calls s) \<longrightarrow> E (tick s)))"

lemma plain_rule: "tick_inv k I E \<Longrightarrow> I s \<Longrightarrow> os_wp (\<lambda>_. I) (\<lambda>_. E) (perror_exit msg (sys_plain k s))"
  by (simp add: tick_inv_def perror_exit_def sys_plain_def sys_call_def)

lemma calloc_rule: "tick_inv k I E \<Longrightarrow> I s \<Longrightarrow> 0 \<le> n \<Longrightarrow> os_wp (\<lambda>_. I) (\<lambda>_. E) (calloc_check k n msg s)"
  by (simp add: tick_inv_def calloc_check_def sys_call_def)

lemma os_wp_bind:
  "os_wp Q E m \<Longrightarrow> (\<And>x s. Q x s \<Longrightarrow> os_wp R E (f x s)) \<Longrightarrow> os_wp R E (os_bind m f)"
  by (cases m) simp_all

lemma create_threads_rule:
  assumes "tick_inv k I E"
  shows "I s \<Longrightarrow> os_wp (\<lambda>_. I) (\<lambda>_. E) (create_threads k msg bind is s)"
proof (induction "is" arbitrary: s)
  case (Cons i "is")
  have "os_wp (\<lambda>_. I) (\<lambda>_. E) (if bind then bind_core k i s else Ret () s)" if "I s" for s
    using that plain_rule [OF assms that] by (simp add: bind_core_def)
  with Cons show ?case
    unfolding create_threads.simps by (blast intro: os_wp_bind plain_rule [OF assms])
qed simp

lemma join_threads_rule:
  assumes "tick_inv k I E"
  shows "I s \<Longrightarrow> os_wp (\<lambda>_. I) (\<lambda>_. E) (join_threads k check is s)"
proof (induction "is" arbitrary: s)
  case (Cons i "is")
  then have "I (tick s)" "k_refuse k (os_calls s) \<longrightarrow> E (tick s)" using assms by (simp_all add: tick_inv_def)
  with Cons.IH [of "tick s"] show ?case by (cases check) (simp_all add: sys_plain_def sys_call_def)
qed simp

text \<open>The outcome of a main function, from those of \<open>mem_init\<close> and of the threads.\<close>

lemma racey_main_rule:
  assumes args: "num_procs argv s = Ret (int n) s" "n < 16"
    and mi: "os_wp (\<lambda>g s1. g = g0 \<and> I s1) (\<lambda>_. E) (mem_init (int n) MAX_ELEM s)"
    and th: "\<And>s1. I s1 \<Longrightarrow> os_wp R (\<lambda>_. E) (threads g0 (racey_prog MAX_LOOP n g_m) s1)"
    and t: "tick_inv k I E" "\<And>w. tick_inv k (R w) E"
  shows "os_wp (\<lambda>out s1. \<exists>w. R w s1 \<and> out = racey_output (mix_sig MAX_LOOP n (fst w))) (\<lambda>_. E)
    (racey_main k mem_init threads g_m argv s)"
proof -
  let ?Q = "\<lambda>out s1. \<exists>w. R w s1 \<and> out = racey_output (mix_sig MAX_LOOP n (fst w))"
  have threads: "os_wp ?Q (\<lambda>_. E) (os_bind (threads g0 (racey_prog MAX_LOOP n g_m) s) (\<lambda>(vals, m) s.
      os_bind (join_threads k True [0..<n] s) (\<lambda>_ s. Ret (racey_output (mix_sig MAX_LOOP n vals)) s)))" if "I s" for s
  proof (rule os_wp_bind [OF th [OF that]], clarify)
    fix vals m s assume "R (vals, m) s"
    from join_threads_rule [where I = "R (vals, m)", OF t(2) this]
    show "os_wp ?Q (\<lambda>_. E) (os_bind (join_threads k True [0..<n] s) (\<lambda>_ s. Ret (racey_output (mix_sig MAX_LOOP n vals)) s))"
      by (rule os_wp_bind) (auto intro: exI [of _ "(vals, m)"])
  qed
  have "to_tid_t (int n) = int n" using args(2) by (simp add: to_tid_t_small)
  then show ?thesis
    unfolding racey_main_def args(1) os_bind.simps nat_int
    by (simp only:) (rule os_wp_bind [OF mi], elim conjE, hypsubst,
      rule os_wp_bind [OF plain_rule [OF t(1)]], assumption, rule os_wp_bind [OF create_threads_rule [OF t(1)]], assumption, rule threads)
qed

lemma addcnt_main_rule:
  assumes n: "n < 128"
    and mi: "\<And>s1. J s1 \<Longrightarrow> os_wp (\<lambda>g s2. g = g0 \<and> I s2) (\<lambda>_. E) (mem_init (int n) (nat NOBJS) s1)"
    and th: "\<And>s1. I s1 \<Longrightarrow> os_wp R (\<lambda>_. E) (threads g0 (addcnt_prog NITER n g_obj mem0) s1)"
    and t: "tick_inv k J E" "tick_inv k I E" "\<And>w. tick_inv k (R w) E" and s: "J s"
  shows "os_wp (\<lambda>out s1. \<exists>w. R w s1 \<and> out = addcnt_output g_obj (snd w)) (\<lambda>_. E)
    (addcnt_main k mem_init threads g_obj mem0 [prog, decimal n] s)"
proof -
  let ?Q = "\<lambda>out s1. \<exists>w. R w s1 \<and> out = addcnt_output g_obj (snd w)"
  have threads: "os_wp ?Q (\<lambda>_. E) (os_bind (threads g0 (addcnt_prog NITER n g_obj mem0) s) (\<lambda>(vals, m) s.
      os_bind (join_threads k False [0..<n] s) (\<lambda>_ s. Ret (addcnt_output g_obj m) s)))" if "I s" for s
  proof (rule os_wp_bind [OF th [OF that]], clarify)
    fix vals m s assume "R (vals, m) s"
    from join_threads_rule [where I = "R (vals, m)", OF t(3) this]
    show "os_wp ?Q (\<lambda>_. E) (os_bind (join_threads k False [0..<n] s) (\<lambda>_ s. Ret (addcnt_output g_obj m) s))"
      by (rule os_wp_bind) (auto intro: exI [of _ "(vals, m)"])
  qed
  have "to_tid_t (int n) = int n" "length [prog, decimal n] = 2" "atoi ([prog, decimal n] ! 1) = int n" "0 \<le> int n"
    using n by (simp_all add: to_tid_t_small atoi_decimal)
  then show ?thesis
    unfolding addcnt_main_def Let_def
    by (simp only: simp_thms if_False nat_int) (rule os_wp_bind [OF plain_rule [OF t(1) s]], rule os_wp_bind [OF calloc_rule [OF t(1)]],
      assumption, simp, rule os_wp_bind [OF mi], assumption, elim conjE, hypsubst,
      rule os_wp_bind [OF create_threads_rule [OF t(2)]], assumption, rule threads)
qed

text \<open>The ranges of relay's threads.\<close>

lemma relay_main_ok:
  assumes k: "\<forall>n. \<not> k_refuse k n" and n: "0 < n" "n < 16"
  shows "\<exists>s1. relay_main k [prog, decimal n] s = Ret (map (\<lambda>i. (relay_floor n i, relay_ceiling n i)) [0..<n]) s1"
proof -
  have c: "\<exists>s1. relay_create k (int n) is s = Ret (map (\<lambda>i. (relay_floor n i, relay_ceiling n i)) is) s1" for "is" s
  proof (induction "is" arbitrary: s)
    case (Cons i "is")
    then obtain s1 where "relay_create k (int n) is (tick (tick s)) = Ret (map (\<lambda>i. (relay_floor n i, relay_ceiling n i)) is) s1" by blast
    then show ?case
      using k by (simp add: bind_core_def perror_exit_def sys_plain_def sys_call_def relay_floor_def relay_ceiling_def Let_def)
  qed simp
  have j: "\<exists>s1. join_threads k True is s = Ret () s1" for "is" s
    using k by (induction "is" arbitrary: s) (simp_all add: sys_plain_def sys_call_def)
  have args: "num_procs [prog, decimal n] s = Ret (int n) s" using n by (simp add: num_procs_def atoi_decimal)
  obtain s1 where s1: "relay_create k (int n) [0..<n] (tick (tick (tick s))) = Ret (map (\<lambda>i. (relay_floor n i, relay_ceiling n i)) [0..<n]) s1"
    using c by blast
  then show ?thesis
    using k j [of "[0..<n]" s1] by (auto simp: relay_main_def args perror_exit_def sys_plain_def sys_call_def)
qed

end
