(* ===== verification/Linked_Runs.thy ===== *)
theory Linked_Runs
  imports Test_Mains Disk_Test Commit_Files
begin

text \<open>
  The test programs linked with the recorders and the replayers: \<open>mem_init\<close> and the calls that the
  threads make on the operating system, for \<open>src/mem-record.c\<close>, \<open>src/mem-replay.c\<close>,
  \<open>src/mem-record-rtmcommit.c\<close> and \<open>src/mem-replay-rtmcommit.c\<close>. The theory shows in what states the
  files are between the programs of a test, and how a linked program ends when calls are refused.
\<close>

section \<open>A recorder of the order\<close>

definition record_mem_init_os :: "kernel \<Rightarrow> int \<Rightarrow> nat \<Rightarrow> os \<Rightarrow> unit outcome" where
  "record_mem_init_os k nthr nobj s = calloc_check k (int nobj) ''g_objinfo'' s"

text \<open>The calls of the threads: \<open>calloc_check\<close> of \<open>g_last\<close> in \<open>mem_init_thr\<close>, and the calls on the logs.\<close>

datatype thr_call = Calloc_last tid_t | Log_call log_event

fun thr_calls_os ::
  "kernel \<Rightarrow> nat \<Rightarrow> thr_call list \<Rightarrow> (log_key \<Rightarrow> log_ptr option) \<Rightarrow> os \<Rightarrow> (log_key \<Rightarrow> log_ptr option) outcome" where
  "thr_calls_os k nobj [] ls s = Ret ls s"
| "thr_calls_os k nobj (Calloc_last t # cs) ls s =
     os_bind (calloc_check k (int nobj) ''prev_info[tid]'' s) (\<lambda>_ s. thr_calls_os k nobj cs ls s)"
| "thr_calls_os k nobj (Log_call e # cs) ls s = os_bind (log_event_os k e ls s) (thr_calls_os k nobj cs)"

fun log_calls :: "thr_call list \<Rightarrow> log_event list" where
  "log_calls [] = []"
| "log_calls (Calloc_last t # cs) = log_calls cs"
| "log_calls (Log_call e # cs) = e # log_calls cs"

text \<open>The calls that make up the \<open>mem_init_thr\<close> of a thread.\<close>

fun init_call :: "tid_t \<Rightarrow> thr_call \<Rightarrow> bool" where
  "init_call t (Calloc_last u) \<longleftrightarrow> u = t"
| "init_call t (Log_call (Open key)) \<longleftrightarrow> snd key = int t"
| "init_call t c \<longleftrightarrow> False"

definition init_thr_calls :: "tid_t \<Rightarrow> thr_call list" where
  "init_thr_calls t = [Calloc_last t, Log_call (Open (''version'', int t)), Log_call (Open (''memop'', int t))]"

text \<open>The calls of all threads in some interleaving: each thread makes those of \<open>mem_init_thr\<close> in their
  order, and every log is opened, gets its entries and is closed.\<close>

definition order_calls :: "nat \<Rightarrow> (tid_t \<Rightarrow> thr_rec) \<Rightarrow> thr_call list \<Rightarrow> bool" where
  "order_calls n lg cs \<longleftrightarrow>
     logs_used (set (order_log_keys n)) (order_log_bytes lg) (log_calls cs) \<and>
     (\<forall>t < n. filter (init_call t) cs = init_thr_calls t) \<and> (\<forall>t. Calloc_last t \<in> set cs \<longrightarrow> t < n)"

text \<open>The threads of a recording that the schedule \<open>f\<close> has brought to the state \<open>q\<close> in \<open>j\<close> steps.
  \<open>pthread_join\<close> returns when they have ended.\<close>

definition record_threads_os ::
  "kernel \<Rightarrow> (tacc \<Rightarrow> 's \<Rightarrow> 's) \<Rightarrow> (nat \<Rightarrow> 's) \<Rightarrow> (tid_t \<Rightarrow> 's recording \<Rightarrow> bool) \<Rightarrow> (nat \<Rightarrow> tid_t) \<Rightarrow> nat \<Rightarrow> thr_call list \<Rightarrow>
     unit \<Rightarrow> test_prog \<Rightarrow> os \<Rightarrow> thr_results outcome" where
  "record_threads_os k lg ini tx f j cs g P s =
     (let q = rec_sched lg (ini (tp_nobj P)) P tx f j
      in os_bind (thr_calls_os k (tp_nobj P) cs Map.empty s) (\<lambda>_ s.
         if rec_done P q then Ret (\<lambda>t. qt_vals (qs_thr q t), qs_mem q) s else Exit ''in pthread_join'' s))"

section \<open>The other programs\<close>

text \<open>The replayer: the threads open their version logs and run; a failed assertion ends the program.\<close>

definition replay_threads_os ::
  "kernel \<Rightarrow> (nat \<Rightarrow> tid_t) \<Rightarrow> nat \<Rightarrow> replay_wait_memop_log list \<Rightarrow> test_prog \<Rightarrow> os \<Rightarrow> thr_results outcome" where
  "replay_threads_os k f m rls P s =
     os_bind (replay_init_thrs_os k rls P s) (\<lambda>s0 s.
     let r = sched_state (replay_step P) f s0 m
     in if \<not> no_fault P r then Exit ''assert'' s
        else if all_done P r then Ret (\<lambda>t. rt_vals (rp_thr r t), rp_mem r) s
        else Exit ''in pthread_join'' s)"

text \<open>The recorder of transactions: \<open>mem_init\<close> makes no call, the threads write their commit logs.\<close>

definition commit_mem_init_os :: "int \<Rightarrow> nat \<Rightarrow> os \<Rightarrow> unit outcome" where
  "commit_mem_init_os nthr nobj s = Ret () s"

definition commit_threads_os ::
  "kernel \<Rightarrow> (tid_t \<Rightarrow> cstate \<Rightarrow> bool) \<Rightarrow> (nat \<Rightarrow> tid_t) \<Rightarrow> nat \<Rightarrow> log_event list \<Rightarrow> unit \<Rightarrow> test_prog \<Rightarrow> os \<Rightarrow> thr_results outcome" where
  "commit_threads_os k tx f j es g P s =
     (let q = commit_sched P tx f j
      in os_bind (log_events_os k es Map.empty s) (\<lambda>_ s.
         if commit_done P q then Ret (\<lambda>t. ct_vals (cs_thr q t), cs_mem q) s else Exit ''in pthread_join'' s))"

text \<open>The replayer of transactions, whose threads make no calls.\<close>

definition commit_replay_threads_os ::
  "(nat \<Rightarrow> tid_t) \<Rightarrow> nat \<Rightarrow> tid_t list option \<Rightarrow> test_prog \<Rightarrow> os \<Rightarrow> thr_results outcome" where
  "commit_replay_threads_os f m file P s =
     (case commit_replay_init P file of
        None \<Rightarrow> Exit ''mmap'' s
      | Some s0 \<Rightarrow>
          (let r = sched_state (commit_replay_step P) f s0 m
           in if \<exists>t < tp_nthr P. kt_pc (ks_thr r t) = KFault then Exit ''assert'' s
              else if commit_replay_done P r then Ret (\<lambda>t. kt_vals (ks_thr r t), ks_mem r) s
              else Exit ''in pthread_join'' s))"

section \<open>The calls of the threads\<close>

lemma log_calls_append [simp]: "log_calls (cs @ cs') = log_calls cs @ log_calls cs'"
  by (induction cs rule: log_calls.induct) auto

lemma log_calls_map [simp]: "log_calls (map Log_call es) = es"
  by (induction es) auto

lemma logs_inv_tick:
  assumes "logs_inv k s0 K es ls s"
  shows "logs_inv k s0 K es ls (tick s)"
proof -
  have s: "os_ok s" using assms by (simp add: logs_inv_def)
  have "key_inv k s0 es ls (tick s) key" if "key_inv k s0 es ls s key" for key
    using that written_ext [OF _ ext_tick s, of "path_of key"] file_begins_other [of "path_of key" _ s "tick s"]
    by (auto simp: key_inv_def refused_def less_Suc_eq)
  then show ?thesis using assms ext_ok [OF ext_tick s] by (auto simp: logs_inv_def)
qed

lemma calloc_inv:
  assumes "logs_inv k s0 K es ls s"
  shows "os_wp (\<lambda>_. logs_inv k s0 K es ls) (\<lambda>_ s1. refused k s0 s1) (calloc_check k (int n) msg s)"
  using assms logs_inv_tick [OF assms] by (auto simp: calloc_check_def sys_call_def logs_inv_def)

lemma thr_calls_inv:
  assumes k: "k_aligned k" and K: "log_keys_ok K" and u: "logs_used K B (es @ log_calls cs)" and inv: "logs_inv k s0 K es ls s"
  shows "os_wp (logs_inv k s0 K (es @ log_calls cs)) (\<lambda>_ s1. refused k s0 s1) (thr_calls_os k nobj cs ls s)"
  using u inv
proof (induction cs arbitrary: es ls s rule: log_calls.induct)
  case (2 t cs)
  then show ?case
    unfolding thr_calls_os.simps log_calls.simps by (intro os_wp_bind [OF calloc_inv]) auto
next
  case (3 e cs)
  have e: "event_key e \<in> K" "event_ok es e" using used_event_ok [of K B es e "log_calls cs"] 3(2) by auto
  have "os_wp (logs_inv k s0 K (es @ [e])) (\<lambda>_ s1. refused k s0 s1) (log_event_os k e ls s)"
    by (rule os_wp_mono [OF log_event_inv [OF k K e(1) 3(3) e(2)]]) simp_all
  then show ?case
    unfolding thr_calls_os.simps
  proof (rule os_wp_bind)
    fix ls1 s1 assume "logs_inv k s0 K (es @ [e]) ls1 s1"
    then show "os_wp (logs_inv k s0 K (es @ log_calls (Log_call e # cs))) (\<lambda>_ s1. refused k s0 s1) (thr_calls_os k nobj cs ls1 s1)"
      using 3(1) [of "es @ [e]"] 3(2) by simp
  qed
qed simp

lemma thr_calls_outcome:
  assumes "k_aligned k" "log_keys_ok K" and u: "logs_used K B (log_calls cs)" and s: "os_ok s"
  shows "os_wp (\<lambda>_ s1. os_ok s1 \<and> os_calls s \<le> os_calls s1 \<and> (\<forall>p. p \<notin> path_of ` K \<longrightarrow> os_file s1 p = os_file s p) \<and>
      (\<forall>key \<in> K. file_begins (path_of key) (concat (B key)) s1 \<and>
         (refused k s s1 \<or> os_file s1 (path_of key) = Some (concat (B key)))))
    (\<lambda>_ s1. refused k s s1) (thr_calls_os k nobj cs ls s)"
proof -
  have i0: "logs_inv k s K [] ls s" using s by (simp add: logs_inv_def key_inv_def)
  have "os_wp (logs_inv k s K (log_calls cs)) (\<lambda>_ s1. refused k s s1) (thr_calls_os k nobj cs ls s)"
    using thr_calls_inv [OF assms(1,2) _ i0, of B cs] u by simp
  then show ?thesis
  proof (rule os_wp_mono)
    fix ls1 s1 assume i: "logs_inv k s K (log_calls cs) ls1 s1"
    then show "os_ok s1 \<and> os_calls s \<le> os_calls s1 \<and> (\<forall>p. p \<notin> path_of ` K \<longrightarrow> os_file s1 p = os_file s p) \<and>
      (\<forall>key \<in> K. file_begins (path_of key) (concat (B key)) s1 \<and>
         (refused k s s1 \<or> os_file s1 (path_of key) = Some (concat (B key))))"
      using logs_inv_done [OF u i] by (simp add: logs_inv_def)
  qed
qed

text \<open>One of the orders: the threads run one after the other.\<close>

definition calls_in_turn :: "nat \<Rightarrow> (tid_t \<Rightarrow> thr_rec) \<Rightarrow> thr_call list" where
  "calls_in_turn n lg =
     concat (map (\<lambda>t. Calloc_last t #
       map Log_call (log_use (''version'', int t) (order_log_bytes lg (''version'', int t)) @
                     log_use (''memop'', int t) (order_log_bytes lg (''memop'', int t)))) [0..<n])"

lemma calls_in_turn_ok: "order_calls n lg (calls_in_turn n lg)"
proof -
  let ?ks = "concat (map (\<lambda>t. [(''version'', int t), (''memop'', int t)]) [0..<n])"
  have l: "log_calls (calls_in_turn n lg) = concat (map (\<lambda>key. log_use key (order_log_bytes lg key)) ?ks)"
    unfolding calls_in_turn_def by (induction n) simp_all
  have "distinct ?ks" by (induction n) auto
  from logs_used_in_turn [OF this, of "order_log_bytes lg"]
  have "logs_used (set ?ks) (order_log_bytes lg) (log_calls (calls_in_turn n lg))"
    unfolding l by (auto simp: order_log_bytes_def)
  moreover have "set ?ks = set (order_log_keys n)" by (auto simp: order_log_keys_def)
  ultimately have u: "logs_used (set (order_log_keys n)) (order_log_bytes lg) (log_calls (calls_in_turn n lg))" by simp
  have e: "filter (init_call t) (map Log_call (log_use (name, int u) bs)) = (if u = t then [Log_call (Open (name, int u))] else [])" for t u name bs
    by (auto simp: log_use_def filter_empty_conv)
  have "filter (init_call t) (calls_in_turn n lg) = (if t < n then init_thr_calls t else [])" for t
    unfolding calls_in_turn_def by (induction n) (auto simp: e init_thr_calls_def less_Suc_eq)
  moreover have "t < n" if "Calloc_last t \<in> set (calls_in_turn n lg)" for t using that by (auto simp: calls_in_turn_def)
  ultimately show ?thesis using u by (simp add: order_calls_def)
qed

section \<open>The files between the programs of a test\<close>

lemma os_wp_Ret: "os_wp R (\<lambda>_ _. False) r \<Longrightarrow> \<exists>x s. r = Ret x s \<and> R x s"
  by (cases r) simp_all

definition recorded_results :: "'s recording \<Rightarrow> thr_results" where
  "recorded_results q = (\<lambda>t. qt_vals (qs_thr q t), qs_mem q)"

definition replayed_results :: "replay \<Rightarrow> thr_results" where
  "replayed_results r = (\<lambda>t. rt_vals (rp_thr r t), rp_mem r)"

text \<open>The threads of a recorder write the files of its logs.\<close>

lemma record_threads_ok:
  assumes k: "willing k" "k_aligned k" and n: "tp_nthr P \<le> 1000" and s: "no_old_files P s"
    and q: "q = rec_sched lg (ini (tp_nobj P)) P tx f j" "rec_done P q" and cs: "order_calls (tp_nthr P) (rec_logs fin P q) cs"
  shows "os_wp (\<lambda>w s1. w = recorded_results q \<and> logs_on_disk P (rec_logs fin P q) s1) (\<lambda>_ _. False)
    (record_threads_os k lg ini tx f j cs g P s)"
proof -
  have "os_ok s" using s by (simp add: no_old_files_def)
  note out = thr_calls_outcome [OF k(2) order_log_keys_ok [OF n] _ this]
  have "os_wp (\<lambda>_ s1. logs_on_disk P (rec_logs fin P q) s1) (\<lambda>_ _. False) (thr_calls_os k (tp_nobj P) cs Map.empty s)"
    using cs willing_refused [OF k(1)]
    by (intro os_wp_mono [OF out]) (auto simp: order_calls_def intro!: order_files_on_disk [OF n s])
  then show ?thesis
    unfolding record_threads_os_def Let_def q(1) [symmetric]
    by (rule os_wp_bind) (simp add: q(2) recorded_results_def)
qed

lemma replay_threads_ok:
  assumes k: "willing k" and n: "tp_nthr P < 128" and V: "version_logs_on_disk P V s"
    and r: "r = sched_state (replay_step P) f (replay_start P V rls) m" "all_done P r" "no_fault P r"
  shows "os_wp (\<lambda>w _. w = replayed_results r) (\<lambda>_ _. False) (replay_threads_os k f m rls P s)"
  unfolding replay_threads_os_def
  by (rule os_wp_bind [OF replay_init_thrs_ok [OF k n V]]) (simp add: r(1) [symmetric] r(2,3) replayed_results_def)

text \<open>What \<open>process_memorder_log\<close> leaves: the files from which the replay of \<open>q\<close> comes to its end under \<open>g\<close>.\<close>

definition replayable :: "test_prog \<Rightarrow> 's recording \<Rightarrow> (nat \<Rightarrow> tid_t) \<Rightarrow> os \<Rightarrow> bool" where
  "replayable P q g s \<longleftrightarrow>
     (\<exists>V rls m. version_logs_on_disk P V s \<and> readers_on_disk P rls s \<and>
        all_done P (sched_state (replay_step P) g (replay_start P V rls) m) \<and>
        replays P q (sched_state (replay_step P) g (replay_start P V rls) m))"

context order_recorder
begin

lemma process_replayable:
  assumes k: "willing k" and q: "min_queue memop_key que_gt sel" and n: "tp_nthr P < 128" and ok: "prog_ok P"
    and r: "rec_reach rtm rec_acc (rec_init (tp_nobj P)) P q" "rec_done P q"
    and size: "tp_nobj P < 2 ^ 31" "rec_size P q < 2 ^ 31" and d: "logs_on_disk P (rec_logs rec_finish P q) d"
    and g: "fair (tp_nthr P) g"
  shows "os_wp (\<lambda>_. replayable P q g) (\<lambda>_ _. False) (process_memorder_log_os k v0 sel (tp_nobj P) (tp_nthr P) d)"
proof -
  obtain es where es: "recording_inv rec_acc (rec_init (tp_nobj P)) P es q" "run_of P es" "complete P es"
    "spec_logs P es (rec_logs rec_finish P q)" "logs_fit P (rec_logs rec_finish P q)"
    using recording_logs_fit [OF ok r size] by blast
  show ?thesis
  proof (rule os_wp_mono [OF process_logs_ok [OF k q n es(2,4,5) d]])
    fix s1
    assume "\<exists>rls. version_logs_on_disk P (\<lambda>t. log_version (rec_logs rec_finish P q t)) s1 \<and> readers_on_disk P rls s1 \<and>
      replay_inv P es (replay_start P (\<lambda>t. log_version (rec_logs rec_finish P q t)) rls)"
    then obtain V rls where s1: "version_logs_on_disk P V s1" "readers_on_disk P rls s1" "replay_inv P es (replay_start P V rls)" by blast
    obtain m where m: "all_done P (sched_state (replay_step P) g (replay_start P V rls) m)"
      using replayer.fair_finishes [of P es "replay_start P V rls" g] s1(3) es(2,3) g by blast
    have "replays P q (sched_state (replay_step P) g (replay_start P V rls) m)"
      using replay_reach_inv [OF replay_reach_sched [OF g] es(2,3) s1(3)] by (rule inv_replays [OF es(1) r(2)])
    with m s1(1,2) show "replayable P q g s1" by (auto simp: replayable_def)
  qed simp
qed

end

section \<open>The main functions\<close>

lemma tick_inv_willing: "willing k \<Longrightarrow> (\<And>s. I s \<Longrightarrow> I (tick s)) \<Longrightarrow> tick_inv k I (\<lambda>_. False)"
  by (simp add: tick_inv_def willing_def)

lemma num_procs_ok: "0 < n \<Longrightarrow> n < 16 \<Longrightarrow> num_procs [prog, decimal n] s = Ret (int n) s"
  by (simp add: num_procs_def atoi_decimal)

lemma no_old_files_tick: "no_old_files P s \<Longrightarrow> no_old_files P (tick s)"
  by (simp add: no_old_files_def ext_ok [OF ext_tick])

lemma on_disk_tick:
  "logs_on_disk P lg s \<Longrightarrow> logs_on_disk P lg (tick s)"
  "version_logs_on_disk P V s \<Longrightarrow> version_logs_on_disk P V (tick s)"
  "readers_on_disk P rls s \<Longrightarrow> readers_on_disk P rls (tick s)"
proof -
  have "files_on_disk files (tick s) = files_on_disk files s" for files
    by (cases files) (auto simp: files_on_disk_def)
  then show "readers_on_disk P rls s \<Longrightarrow> readers_on_disk P rls (tick s)" by (simp add: readers_on_disk_def ext_ok [OF ext_tick])
qed (simp_all add: logs_on_disk_def version_logs_on_disk_def ext_ok [OF ext_tick])

lemma record_mem_init_ok:
  "willing k \<Longrightarrow> no_old_files P s \<Longrightarrow>
     os_wp (\<lambda>g s1. g = () \<and> no_old_files P s1) (\<lambda>_ _. False) (record_mem_init_os k nthr nobj s)"
  by (simp add: record_mem_init_os_def calloc_ok no_old_files_tick)

lemma replay_mem_init_loads:
  assumes "willing k" "version_logs_on_disk P V s" "readers_on_disk P rls s"
  shows "os_wp (\<lambda>r s1. r = rls \<and> version_logs_on_disk P V s1) (\<lambda>_ _. False) (replay_mem_init_os k (int n) (tp_nobj P) s)"
  by (rule os_wp_mono [OF replay_mem_init_ok [OF assms(1,3)]]) (use assms(2) later_version_logs in auto)

text \<open>racey, recording and replaying.\<close>

lemma racey_records:
  assumes k: "willing k" "k_aligned k" and n: "0 < n" "n < 16" and P: "P = racey_prog MAX_LOOP n g_m" and s: "no_old_files P s"
    and q: "q = rec_sched lg (ini MAX_ELEM) P tx f j" "rec_done P q" and cs: "order_calls n (rec_logs fin P q) cs"
  shows "os_wp (\<lambda>out s1. out = racey_output (mix_sig MAX_LOOP n (\<lambda>t. qt_vals (qs_thr q t))) \<and> logs_on_disk P (rec_logs fin P q) s1)
    (\<lambda>_ _. False) (racey_main k (record_mem_init_os k) (record_threads_os k lg ini tx f j cs) g_m [prog, decimal n] s)"
proof -
  have nP: "tp_nthr P = n" "tp_nobj P = MAX_ELEM" by (simp_all add: P racey_prog_def)
  have th: "os_wp (\<lambda>w s2. w = recorded_results q \<and> logs_on_disk P (rec_logs fin P q) s2) (\<lambda>_ _. False)
      (record_threads_os k lg ini tx f j cs () (racey_prog MAX_LOOP n g_m) s1)" if "no_old_files P s1" for s1
    unfolding P [symmetric] using that q cs n(2) by (intro record_threads_ok [OF k]) (simp_all add: nP)
  show ?thesis
    by (rule os_wp_mono [OF racey_main_rule [where E = "\<lambda>_. False" and mem_init = "record_mem_init_os k"
        and threads = "record_threads_os k lg ini tx f j cs", OF num_procs_ok [OF n] n(2) record_mem_init_ok [OF k(1) s] th]])
      (auto simp: recorded_results_def intro!: tick_inv_willing [OF k(1)] no_old_files_tick on_disk_tick)
qed

lemma racey_replays:
  assumes k: "willing k" and n: "0 < n" "n < 16" and P: "P = racey_prog MAX_LOOP n g_m" and s: "replayable P q g s"
  shows "\<exists>m s1. racey_main k (replay_mem_init_os k) (replay_threads_os k g m) g_m [prog, decimal n] s =
    Ret (racey_output (mix_sig MAX_LOOP n (\<lambda>t. qt_vals (qs_thr q t)))) s1"
proof -
  obtain V rls m where d: "version_logs_on_disk P V s" "readers_on_disk P rls s"
    and r: "all_done P (sched_state (replay_step P) g (replay_start P V rls) m)"
      "replays P q (sched_state (replay_step P) g (replay_start P V rls) m)"
    using s by (auto simp: replayable_def)
  let ?r = "sched_state (replay_step P) g (replay_start P V rls) m"
  have nP: "tp_nthr P < 128" "tp_nobj P = MAX_ELEM" using n(2) by (simp_all add: P racey_prog_def)
  have th: "os_wp (\<lambda>w s2. w = replayed_results ?r) (\<lambda>_ _. False) (replay_threads_os k g m rls (racey_prog MAX_LOOP n g_m) s1)"
    if "version_logs_on_disk P V s1" for s1
    unfolding P [symmetric] by (rule replay_threads_ok [OF k nP(1) that refl r(1) replaysD(1) [OF r(2)]])
  have "os_wp (\<lambda>out _. out = racey_output (mix_sig MAX_LOOP n (\<lambda>t. rt_vals (rp_thr ?r t)))) (\<lambda>_ _. False)
      (racey_main k (replay_mem_init_os k) (replay_threads_os k g m) g_m [prog, decimal n] s)"
    by (rule os_wp_mono [OF racey_main_rule [where E = "\<lambda>_. False" and mem_init = "replay_mem_init_os k" and threads = "replay_threads_os k g m",
        OF num_procs_ok [OF n] n(2) replay_mem_init_loads [OF k d, of n, unfolded nP(2)] th]])
      (auto simp: replayed_results_def intro!: tick_inv_willing [OF k] on_disk_tick)
  then show ?thesis
    using racey_signature [OF r(2,1) [unfolded P] n(1)]
    by (cases "racey_main k (replay_mem_init_os k) (replay_threads_os k g m) g_m [prog, decimal n] s") (auto simp: P)
qed

text \<open>addcnt, recording and replaying.\<close>

lemma addcnt_records:
  assumes k: "willing k" "k_aligned k" and n: "n < 128" and P: "P = addcnt_prog NITER n g_obj mem0" and s: "no_old_files P s"
    and q: "q = rec_sched lg (ini (nat NOBJS)) P tx f j" "rec_done P q" and cs: "order_calls n (rec_logs fin P q) cs"
  shows "os_wp (\<lambda>out s1. out = addcnt_output g_obj (qs_mem q) \<and> logs_on_disk P (rec_logs fin P q) s1)
    (\<lambda>_ _. False) (addcnt_main k (record_mem_init_os k) (record_threads_os k lg ini tx f j cs) g_obj mem0 [prog, decimal n] s)"
proof -
  have nP: "tp_nthr P = n" "tp_nobj P = nat NOBJS" by (simp_all add: P addcnt_prog_def Let_def)
  have th: "os_wp (\<lambda>w s2. w = recorded_results q \<and> logs_on_disk P (rec_logs fin P q) s2) (\<lambda>_ _. False)
      (record_threads_os k lg ini tx f j cs () (addcnt_prog NITER n g_obj mem0) s1)" if "no_old_files P s1" for s1
    unfolding P [symmetric] using that q cs n by (intro record_threads_ok [OF k]) (simp_all add: nP)
  show ?thesis
    by (rule os_wp_mono [OF addcnt_main_rule [where E = "\<lambda>_. False" and J = "no_old_files P" and mem_init = "record_mem_init_os k"
        and threads = "record_threads_os k lg ini tx f j cs", OF n record_mem_init_ok [OF k(1)] th]])
      (use s in \<open>auto simp: recorded_results_def intro!: tick_inv_willing [OF k(1)] no_old_files_tick on_disk_tick\<close>)
qed

lemma addcnt_replays:
  assumes k: "willing k" and n: "n < 128" and P: "P = addcnt_prog NITER n g_obj mem0" and s: "replayable P q g s"
  shows "\<exists>m s1. addcnt_main k (replay_mem_init_os k) (replay_threads_os k g m) g_obj mem0 [prog, decimal n] s =
    Ret (addcnt_output g_obj (qs_mem q)) s1"
proof -
  obtain V rls m where d: "version_logs_on_disk P V s" "readers_on_disk P rls s"
    and r: "all_done P (sched_state (replay_step P) g (replay_start P V rls) m)"
      "replays P q (sched_state (replay_step P) g (replay_start P V rls) m)"
    using s by (auto simp: replayable_def)
  let ?r = "sched_state (replay_step P) g (replay_start P V rls) m"
  have nP: "tp_nthr P < 128" "tp_nobj P = nat NOBJS" using n by (simp_all add: P addcnt_prog_def Let_def)
  have mi: "os_wp (\<lambda>r s2. r = rls \<and> version_logs_on_disk P V s2) (\<lambda>_ _. False) (replay_mem_init_os k (int n) (nat NOBJS) s1)"
    if "version_logs_on_disk P V s1 \<and> readers_on_disk P rls s1" for s1
    using replay_mem_init_loads [OF k, of P V s1 rls n] that by (simp add: nP(2))
  have th: "os_wp (\<lambda>w s2. w = replayed_results ?r) (\<lambda>_ _. False) (replay_threads_os k g m rls (addcnt_prog NITER n g_obj mem0) s1)"
    if "version_logs_on_disk P V s1" for s1
    unfolding P [symmetric] by (rule replay_threads_ok [OF k nP(1) that refl r(1) replaysD(1) [OF r(2)]])
  have "os_wp (\<lambda>out _. out = addcnt_output g_obj (rp_mem ?r)) (\<lambda>_ _. False)
      (addcnt_main k (replay_mem_init_os k) (replay_threads_os k g m) g_obj mem0 [prog, decimal n] s)"
    by (rule os_wp_mono [OF addcnt_main_rule [where E = "\<lambda>_. False" and J = "\<lambda>s. version_logs_on_disk P V s \<and> readers_on_disk P rls s"
        and mem_init = "replay_mem_init_os k" and threads = "replay_threads_os k g m",
        OF n mi th]])
      (use d in \<open>auto simp: replayed_results_def intro!: tick_inv_willing [OF k] on_disk_tick\<close>)
  then show ?thesis
    using addcnt_output [OF r(2,1) [unfolded P]]
    by (cases "addcnt_main k (replay_mem_init_os k) (replay_threads_os k g m) g_obj mem0 [prog, decimal n] s")
      (auto simp: P addcnt_output_def)
qed

text \<open>A test with racey or addcnt: what the recording writes is processed, and the replay prints the same.\<close>

context order_recorder
begin

lemma racey_test_run:
  assumes k: "willing k" "k_aligned k" and q: "min_queue memop_key que_gt sel" and n: "0 < n" "n < 16" and f: "fair n f" "fair n g"
    and P: "P = racey_prog MAX_LOOP n g_m" and d: "no_old_files P d"
  shows "\<exists>j. rec_done P (rec_sched rec_acc (rec_init MAX_ELEM) P tx f j) \<and>
    (\<forall>cs. order_calls n (rec_logs rec_finish P (rec_sched rec_acc (rec_init MAX_ELEM) P tx f j)) cs \<longrightarrow>
      (\<exists>out d1 d2 m d3.
         racey_main k (record_mem_init_os k) (record_threads_os k rec_acc rec_init tx f j cs) g_m [prog, decimal n] d = Ret out d1 \<and>
         process_memorder_log_os k v0 sel MAX_ELEM n d1 = Ret () d2 \<and>
         racey_main k (replay_mem_init_os k) (replay_threads_os k g m) g_m [prog, decimal n] d2 = Ret out d3))"
proof -
  have nP: "tp_nthr P = n" "tp_nobj P = MAX_ELEM" by (simp_all add: P racey_prog_def)
  have ok: "prog_ok P" "ends P (racey_left MAX_LOOP 0 \<circ> racey_start)" by (simp_all only: P racey_prog_ok racey_prog_ends)
  have h: "tp_nthr P < 128" "fair (tp_nthr P) f" "fair (tp_nthr P) g" "tp_nobj P < 2 ^ 31"
    "(\<Sum>t<tp_nthr P. (racey_left MAX_LOOP 0 \<circ> racey_start) t + tp_nobj P + 1) < 2 ^ 31"
    using n f racey_entries_few [OF n(2)] by (simp_all add: nP MAX_ELEM_def)
  obtain j where j: "rec_done P (rec_sched rec_acc (rec_init (tp_nobj P)) P tx f j)"
    "rec_reach True rec_acc (rec_init (tp_nobj P)) P (rec_sched rec_acc (rec_init (tp_nobj P)) P tx f j)"
    "rec_size P (rec_sched rec_acc (rec_init (tp_nobj P)) P tx f j) < 2 ^ 31"
    by (rule recording_small [OF ok h(5,2)])
  let ?q = "rec_sched rec_acc (rec_init MAX_ELEM) P tx f j"
  have "\<exists>out d1 d2 m d3.
      racey_main k (record_mem_init_os k) (record_threads_os k rec_acc rec_init tx f j cs) g_m [prog, decimal n] d = Ret out d1 \<and>
      process_memorder_log_os k v0 sel MAX_ELEM n d1 = Ret () d2 \<and>
      racey_main k (replay_mem_init_os k) (replay_threads_os k g m) g_m [prog, decimal n] d2 = Ret out d3"
    if cs: "order_calls n (rec_logs rec_finish P ?q) cs" for cs
  proof -
    obtain d1 where d1: "racey_main k (record_mem_init_os k) (record_threads_os k rec_acc rec_init tx f j cs) g_m [prog, decimal n] d =
        Ret (racey_output (mix_sig MAX_LOOP n (\<lambda>t. qt_vals (qs_thr ?q t)))) d1" "logs_on_disk P (rec_logs rec_finish P ?q) d1"
      using os_wp_Ret [OF racey_records [where ini = rec_init, OF k n P d refl j(1) [unfolded nP] cs]] by blast
    obtain d2 where d2: "process_memorder_log_os k v0 sel MAX_ELEM n d1 = Ret () d2" "replayable P ?q g d2"
      using os_wp_Ret [OF process_replayable [OF k(1) q h(1) ok(1) j(2,1) h(4) j(3) _ h(3), of d1 v0]] d1(2) unfolding nP by auto
    from racey_replays [OF k(1) n P d2(2)] d1(1) d2(1) show ?thesis by blast
  qed
  with j(1) show ?thesis unfolding nP by blast
qed

lemma addcnt_test_run:
  assumes k: "willing k" "k_aligned k" and q: "min_queue memop_key que_gt sel" and n: "n < 128" and f: "fair n f" "fair n g"
    and P: "P = addcnt_prog NITER n g_obj mem0" and d: "no_old_files P d"
  shows "\<exists>j. rec_done P (rec_sched rec_acc (rec_init (nat NOBJS)) P tx f j) \<and>
    (\<forall>cs. order_calls n (rec_logs rec_finish P (rec_sched rec_acc (rec_init (nat NOBJS)) P tx f j)) cs \<longrightarrow>
      (\<exists>out d1 d2 m d3.
         addcnt_main k (record_mem_init_os k) (record_threads_os k rec_acc rec_init tx f j cs) g_obj mem0 [prog, decimal n] d = Ret out d1 \<and>
         process_memorder_log_os k v0 sel (nat NOBJS) n d1 = Ret () d2 \<and>
         addcnt_main k (replay_mem_init_os k) (replay_threads_os k g m) g_obj mem0 [prog, decimal n] d2 = Ret out d3))"
proof -
  have nP: "tp_nthr P = n" "tp_nobj P = nat NOBJS" by (simp_all add: P addcnt_prog_def Let_def)
  have ok: "prog_ok P" "ends P (\<lambda>t. 20 * NITER)" by (simp_all only: P addcnt_prog_ok addcnt_prog_ends)
  have h: "tp_nthr P < 128" "fair (tp_nthr P) f" "fair (tp_nthr P) g" "tp_nobj P < 2 ^ 31"
    "(\<Sum>t<tp_nthr P. 20 * NITER + tp_nobj P + 1) < 2 ^ 31"
    using n f addcnt_entries_few [OF n] unfolding nP by (simp_all add: NOBJS_def)
  obtain j where j: "rec_done P (rec_sched rec_acc (rec_init (tp_nobj P)) P tx f j)"
    "rec_reach True rec_acc (rec_init (tp_nobj P)) P (rec_sched rec_acc (rec_init (tp_nobj P)) P tx f j)"
    "rec_size P (rec_sched rec_acc (rec_init (tp_nobj P)) P tx f j) < 2 ^ 31"
    by (rule recording_small [OF ok h(5,2)])
  let ?q = "rec_sched rec_acc (rec_init (nat NOBJS)) P tx f j"
  have "\<exists>out d1 d2 m d3.
      addcnt_main k (record_mem_init_os k) (record_threads_os k rec_acc rec_init tx f j cs) g_obj mem0 [prog, decimal n] d = Ret out d1 \<and>
      process_memorder_log_os k v0 sel (nat NOBJS) n d1 = Ret () d2 \<and>
      addcnt_main k (replay_mem_init_os k) (replay_threads_os k g m) g_obj mem0 [prog, decimal n] d2 = Ret out d3"
    if cs: "order_calls n (rec_logs rec_finish P ?q) cs" for cs
  proof -
    obtain d1 where d1: "addcnt_main k (record_mem_init_os k) (record_threads_os k rec_acc rec_init tx f j cs) g_obj mem0 [prog, decimal n] d =
        Ret (addcnt_output g_obj (qs_mem ?q)) d1" "logs_on_disk P (rec_logs rec_finish P ?q) d1"
      using os_wp_Ret [OF addcnt_records [where ini = rec_init, OF k n P d refl j(1) [unfolded nP] cs]] by blast
    obtain d2 where d2: "process_memorder_log_os k v0 sel (nat NOBJS) n d1 = Ret () d2" "replayable P ?q g d2"
      using os_wp_Ret [OF process_replayable [OF k(1) q h(1) ok(1) j(2,1) h(4) j(3) _ h(3), of d1 v0]] d1(2) unfolding nP by auto
    from addcnt_replays [OF k(1) n P d2(2)] d1(1) d2(1) show ?thesis by blast
  qed
  with j(1) show ?thesis unfolding nP by blast
qed

end

section \<open>A test of transactions\<close>

lemma commit_on_disk_tick: "commit_logs_on_disk P q s \<Longrightarrow> commit_logs_on_disk P q (tick s)"
  by (simp add: commit_logs_on_disk_def ext_ok [OF ext_tick])

lemma racey_commit_records:
  assumes k: "willing k" "k_aligned k" and n: "0 < n" "n < 16" and P: "P = racey_prog MAX_LOOP n g_m" and s: "os_ok s"
    and q: "q = commit_sched P tx f j" "commit_done P q" and es: "logs_used (set (commit_log_keys n)) (commit_log_bytes q) es"
  shows "os_wp (\<lambda>out s1. out = racey_output (mix_sig MAX_LOOP n (\<lambda>t. ct_vals (cs_thr q t))) \<and> commit_logs_on_disk P q s1)
    (\<lambda>_ _. False) (racey_main k commit_mem_init_os (commit_threads_os k tx f j es) g_m [prog, decimal n] s)"
proof -
  have nP: "tp_nthr P = n" "tp_nthr P \<le> 1000" using n(2) by (simp_all add: P racey_prog_def)
  have mi: "os_wp (\<lambda>g s1. g = () \<and> os_ok s1) (\<lambda>_ _. False) (commit_mem_init_os (int n) MAX_ELEM s)"
    using s by (simp add: commit_mem_init_os_def)
  have th: "os_wp (\<lambda>w s2. w = recorded_view q \<and> commit_logs_on_disk P q s2) (\<lambda>_ _. False)
      (commit_threads_os k tx f j es () (racey_prog MAX_LOOP n g_m) s1)" if "os_ok s1" for s1
    using commit_logs_written [OF k nP(2) that, of q es Map.empty] es
    unfolding P [symmetric] commit_threads_os_def Let_def q(1) [symmetric]
    by (auto simp: nP(1) q(2) recorded_view_def)
  show ?thesis
    by (rule os_wp_mono [OF racey_main_rule [where E = "\<lambda>_. False" and mem_init = commit_mem_init_os
        and threads = "commit_threads_os k tx f j es", OF num_procs_ok [OF n] n(2) mi th]])
      (auto simp: recorded_view_def ext_ok [OF ext_tick] intro!: tick_inv_willing [OF k(1)] commit_on_disk_tick)
qed

lemma racey_commit_replays:
  assumes k: "willing k" and n: "0 < n" "n < 16" and P: "P = racey_prog MAX_LOOP n g_m"
    and s: "os_file s (LOGDIR @ ''commit'') = Some (concat (map store_tid bs))" and bs: "bs \<noteq> []" "\<forall>t \<in> set bs. t < 128"
    and s0: "commit_replay_init P (Some bs) = Some s0"
    and r: "commit_replay_done P (sched_state (commit_replay_step P) g s0 m)"
      "commit_replays P (recorded_view q) (sched_state (commit_replay_step P) g s0 m)"
  shows "\<exists>s1. racey_main k (commit_replay_mem_init_os k) (commit_replay_threads_os g m) g_m [prog, decimal n] s =
    Ret (racey_output (mix_sig MAX_LOOP n (\<lambda>t. ct_vals (cs_thr q t)))) s1"
proof -
  let ?r = "sched_state (commit_replay_step P) g s0 m"
  have mi: "os_wp (\<lambda>f s1. f = Some bs \<and> True) (\<lambda>_ _. False) (commit_replay_mem_init_os k (int n) MAX_ELEM s)"
    using commit_mem_init_ok [OF k s bs] by simp
  have "\<not> (\<exists>t < tp_nthr P. kt_pc (ks_thr ?r t) = KFault)" using r(1) by (auto simp: commit_replay_done_def)
  then have th: "os_wp (\<lambda>w s2. fst w = (\<lambda>t. kt_vals (ks_thr ?r t))) (\<lambda>_ _. False)
      (commit_replay_threads_os g m (Some bs) (racey_prog MAX_LOOP n g_m) s1)" for s1
    unfolding P [symmetric] commit_replay_threads_os_def s0 by (simp add: Let_def r(1))
  have "os_wp (\<lambda>out _. out = racey_output (mix_sig MAX_LOOP n (\<lambda>t. kt_vals (ks_thr ?r t)))) (\<lambda>_ _. False)
      (racey_main k (commit_replay_mem_init_os k) (commit_replay_threads_os g m) g_m [prog, decimal n] s)"
    by (rule os_wp_mono [OF racey_main_rule [where E = "\<lambda>_. False" and I = "\<lambda>_. True" and mem_init = "commit_replay_mem_init_os k"
        and threads = "commit_replay_threads_os g m", OF num_procs_ok [OF n] n(2) mi th]])
      (auto intro!: tick_inv_willing [OF k])
  from os_wp_Ret [OF this] racey_commit_signature [OF r(2,1) [unfolded P] n(1)] show ?thesis by (auto simp: P)
qed

lemma racey_commit_test_run:
  assumes k: "willing k" "k_aligned k" and q: "min_queue id ts_gt sel" and n: "0 < n" "n < 16" and f: "fair n f" "fair n g"
    and P: "P = racey_prog MAX_LOOP n g_m" and d: "os_ok d"
  shows "\<exists>j. commit_done P (commit_sched P tx f j) \<and>
    (\<forall>es. logs_used (set (commit_log_keys n)) (commit_log_bytes (commit_sched P tx f j)) es \<longrightarrow>
      (\<exists>out d1 d2 m d3.
         racey_main k commit_mem_init_os (commit_threads_os k tx f j es) g_m [prog, decimal n] d = Ret out d1 \<and>
         merge_commit_main_os k sel v0 [''./merge-commit'', decimal n] d1 = Ret () d2 \<and>
         racey_main k (commit_replay_mem_init_os k) (commit_replay_threads_os g m) g_m [prog, decimal n] d2 = Ret out d3))"
proof -
  have nP: "tp_nthr P = n" by (simp add: P racey_prog_def)
  have ok: "commit_prog_ok P" unfolding P by (rule racey_commit_ok [OF n])
  have fP: "fair (tp_nthr P) f" "fair (tp_nthr P) g" using f by (simp_all add: nP)
  obtain j where j: "commit_done P (commit_sched P tx f j)" "commit_reach P (commit_sched P tx f j)"
    "few_accesses P (commit_sched P tx f j)"
    using commit_recording_small [OF ok _ racey_accesses_few fP(1)] racey_prog_ends [of MAX_LOOP n g_m] unfolding P by blast
  let ?q = "commit_sched P tx f j"
  have "\<exists>out d1 d2 m d3.
      racey_main k commit_mem_init_os (commit_threads_os k tx f j es) g_m [prog, decimal n] d = Ret out d1 \<and>
      merge_commit_main_os k sel v0 [''./merge-commit'', decimal n] d1 = Ret () d2 \<and>
      racey_main k (commit_replay_mem_init_os k) (commit_replay_threads_os g m) g_m [prog, decimal n] d2 = Ret out d3"
    if es: "logs_used (set (commit_log_keys n)) (commit_log_bytes ?q) es" for es
  proof -
    obtain d1 where d1: "racey_main k commit_mem_init_os (commit_threads_os k tx f j es) g_m [prog, decimal n] d =
        Ret (racey_output (mix_sig MAX_LOOP n (\<lambda>t. ct_vals (cs_thr ?q t)))) d1" "commit_logs_on_disk P ?q d1"
      using os_wp_Ret [OF racey_commit_records [OF k n P d refl j(1) es]] by blast
    obtain bs s0 where bs: "commit_seen P bs ?q" and s0: "start_commit_replay sel P ?q = Some s0"
      using commit_chain [OF q ok j(2,1,3)] by blast
    note c = commit_seenD [OF bs ok] and few = few_accessesD(2) [OF bs ok j(3)]
    obtain d2 where d2: "merge_commit_main_os k sel v0 [''./merge-commit'', decimal n] d1 = Ret () d2"
      "os_file d2 (LOGDIR @ ''commit'') = Some (concat (map store_tid bs))"
      using os_wp_Ret [OF commit_main_os_ok [OF k q ok bs few d1(2), of v0]] by (auto simp: nP)
    obtain m where m: "commit_replay_done P (sched_state (commit_replay_step P) g s0 m)"
      "commit_replays P (recorded_view ?q) (sched_state (commit_replay_step P) g s0 m)"
      using commit_started_ends [OF q ok j(2,1,3) s0 fP(2)] by blast
    have init: "commit_replay_init P (Some bs) = Some s0"
      using s0 commit_logs_merge(1) [OF q ok bs few] by (simp add: start_commit_replay_def)
    have "\<forall>t \<in> set bs. t < 128" using c(1) n(2) by (simp add: nP)
    from racey_commit_replays [OF k(1) n P d2(2) c(4) this init m] d1(1) d2(1) show ?thesis by blast
  qed
  with j(1) show ?thesis by blast
qed

section \<open>When calls are refused\<close>

text \<open>What the log files hold after the calls of the threads, in the state \<open>s1\<close>.\<close>

definition order_logs_kept :: "kernel \<Rightarrow> os \<Rightarrow> nat \<Rightarrow> (tid_t \<Rightarrow> thr_rec) \<Rightarrow> os \<Rightarrow> bool" where
  "order_logs_kept k s n lg s1 \<longleftrightarrow>
     (\<forall>key \<in> set (order_log_keys n). file_begins (path_of key) (concat (order_log_bytes lg key)) s1 \<and>
        (refused k s s1 \<or> os_file s1 (path_of key) = Some (concat (order_log_bytes lg key))))"

lemma order_logs_kept_tick: "order_logs_kept k s n lg s1 \<Longrightarrow> order_logs_kept k s n lg (tick s1)"
  by (auto simp: order_logs_kept_def file_begins_def refused_def less_Suc_eq)

lemma order_logs_kept_earlier: "order_logs_kept k s n lg s1 \<Longrightarrow> os_calls s0 \<le> os_calls s \<Longrightarrow> order_logs_kept k s0 n lg s1"
  by (auto simp: order_logs_kept_def intro: refused_mono)

lemma tick_inv_refused: "(\<And>s1. I s1 \<Longrightarrow> os_calls s \<le> os_calls s1 \<and> I (tick s1)) \<Longrightarrow> tick_inv k I (refused k s)"
  by (auto simp: tick_inv_def)

lemma racey_main_refusals:
  assumes k: "k_aligned k" and s: "os_ok s" and n: "num_procs argv s = Ret (int n) s" "n < 16" and P: "P = racey_prog MAX_LOOP n g_m"
    and q: "q = rec_sched lg (ini MAX_ELEM) P tx f j" "rec_done P q" and cs: "order_calls n (rec_logs fin P q) cs"
  shows "os_wp (\<lambda>out s1. out = racey_output (mix_sig MAX_LOOP n (\<lambda>t. qt_vals (qs_thr q t))) \<and>
      order_logs_kept k s n (rec_logs fin P q) s1)
    (\<lambda>_ s1. refused k s s1) (racey_main k (record_mem_init_os k) (record_threads_os k lg ini tx f j cs) g_m argv s)"
proof -
  have nP: "tp_nobj P = MAX_ELEM" by (simp add: P racey_prog_def)
  let ?I = "\<lambda>s1. os_ok s1 \<and> os_calls s \<le> os_calls s1"
  let ?R = "\<lambda>w s1. w = recorded_results q \<and> os_calls s \<le> os_calls s1 \<and> order_logs_kept k s n (rec_logs fin P q) s1"
  have I: "tick_inv k ?I (refused k s)" by (rule tick_inv_refused) (simp add: ext_ok [OF ext_tick])
  have R: "tick_inv k (?R w) (refused k s)" for w by (rule tick_inv_refused) (simp add: order_logs_kept_tick)
  have mi: "os_wp (\<lambda>g s1. g = () \<and> ?I s1) (\<lambda>_. refused k s) (record_mem_init_os k (int n) MAX_ELEM s)"
    unfolding record_mem_init_os_def by (rule os_wp_mono [OF calloc_rule [OF I]]) (use s in simp_all)
  have th: "os_wp ?R (\<lambda>_. refused k s) (record_threads_os k lg ini tx f j cs () (racey_prog MAX_LOOP n g_m) s1)" if s1: "?I s1" for s1
  proof -
    have K: "n \<le> 1000" using n(2) by simp
    have "os_wp (\<lambda>_ s2. os_calls s \<le> os_calls s2 \<and> order_logs_kept k s n (rec_logs fin P q) s2) (\<lambda>_. refused k s)
        (thr_calls_os k (tp_nobj P) cs Map.empty s1)"
      using s1 cs refused_mono [of k s1 _ s]
      by (intro os_wp_mono [OF thr_calls_outcome [OF k order_log_keys_ok [OF K]]])
        (auto simp: order_calls_def intro!: order_logs_kept_earlier [of k s1] simp: order_logs_kept_def)
    then show ?thesis
      unfolding P [symmetric] record_threads_os_def Let_def nP q(1) [symmetric]
      by (rule os_wp_bind) (simp add: q(2) recorded_results_def)
  qed
  show ?thesis
    by (rule os_wp_mono [OF racey_main_rule [where E = "refused k s" and mem_init = "record_mem_init_os k"
        and threads = "record_threads_os k lg ini tx f j cs", OF n mi th I R]]) (auto simp: recorded_results_def)
qed

text \<open>C38: the main function of racey when it records, whatever the command line and whatever calls are
  refused, at the start, while threads are created, or in a thread that opens, writes or closes its
  logs: it exits without any call when there is not exactly one argument or the number in it is not
  between 1 and 15; it exits later only when a call was refused; and otherwise it prints the signature
  of the recording of that many threads, and every log file begins with all entries of its log and,
  unless a call was refused, holds nothing else.\<close>

theorem racey_main_outcome:
  assumes "k_aligned k" "os_ok s"
    and "\<forall>n. atoi (argv ! 1) = int n \<longrightarrow>
      (let P = racey_prog MAX_LOOP n g_m; q = rec_sched lg (ini MAX_ELEM) P tx f j in rec_done P q \<and> order_calls n (rec_logs fin P q) cs)"
  shows "case racey_main k (record_mem_init_os k) (record_threads_os k lg ini tx f j cs) g_m argv s of
      Exit msg s1 \<Rightarrow> refused k s s1 \<or> s1 = s \<and> (length argv \<noteq> 2 \<or> atoi (argv ! 1) \<notin> {1..15})
    | Ret out s1 \<Rightarrow> (\<exists>n. length argv = 2 \<and> atoi (argv ! 1) = int n \<and> n \<in> {1..15} \<and>
        (let P = racey_prog MAX_LOOP n g_m; q = rec_sched lg (ini MAX_ELEM) P tx f j
         in out = racey_output (mix_sig MAX_LOOP n (\<lambda>t. qt_vals (qs_thr q t))) \<and> order_logs_kept k s n (rec_logs fin P q) s1))"
proof (cases "num_procs argv s")
  case (Exit msg s1)
  then have "s1 = s \<and> (length argv \<noteq> 2 \<or> atoi (argv ! 1) \<notin> {1..15})" by (auto simp: num_procs_def Let_def split: if_splits)
  with Exit show ?thesis by (simp add: racey_main_def)
next
  case (Ret i s1)
  then have i: "s1 = s" "length argv = 2" "atoi (argv ! 1) = i" "0 < i" "i < 16" by (auto simp: num_procs_def Let_def split: if_splits)
  define n where "n = nat i"
  have n: "s1 = s" "i = int n" "length argv = 2" "atoi (argv ! 1) = int n" "n \<in> {1..15}" "n < 16" using i by (auto simp: n_def)
  let ?P = "racey_prog MAX_LOOP n g_m" and ?q = "rec_sched lg (ini MAX_ELEM) (racey_prog MAX_LOOP n g_m) tx f j"
  have h: "rec_done ?P ?q" "order_calls n (rec_logs fin ?P ?q) cs" using assms(3) n(4) unfolding Let_def by blast+
  have "num_procs argv s = Ret (int n) s" using Ret n(1,2) by simp
  from racey_main_refusals [where ini = ini, OF assms(1,2) this n(6) refl refl h] n(3-5)
  show ?thesis unfolding Let_def os_wp_def by (auto split: outcome.split)
qed

theorem racey_main_outcome_witness:
  "\<exists>j cs s1. racey_main \<lparr>k_refuse = (\<lambda>_. False), k_addr = (\<lambda>_ _. 8192)\<rparr>
      (record_mem_init_os \<lparr>k_refuse = (\<lambda>_. False), k_addr = (\<lambda>_ _. 8192)\<rparr>)
      (record_threads_os \<lparr>k_refuse = (\<lambda>_. False), k_addr = (\<lambda>_ _. 8192)\<rparr> seqlock_acc mem_init_thr (\<lambda>_ _. False) (\<lambda>i. i mod 12) j cs)
      4096 [''racey'', ''12''] \<lparr>os_file = Map.empty, os_fd = Map.empty, os_calls = 0\<rparr> =
    Ret (racey_output (mix_sig MAX_LOOP 12 (\<lambda>t. qt_vals (qs_thr
      (rec_sched seqlock_acc (mem_init_thr MAX_ELEM) (racey_prog MAX_LOOP 12 4096) (\<lambda>_ _. False) (\<lambda>i. i mod 12) j) t)))) s1"
proof -
  let ?k = "\<lparr>k_refuse = (\<lambda>_. False), k_addr = (\<lambda>_ _. 8192)\<rparr>" and ?s = "\<lparr>os_file = Map.empty, os_fd = Map.empty, os_calls = 0\<rparr>"
  let ?P = "racey_prog MAX_LOOP 12 4096"
  let ?q = "rec_sched seqlock_acc (mem_init_thr MAX_ELEM) ?P (\<lambda>_ _. False) (\<lambda>i. i mod 12)"
  have f: "fair (tp_nthr ?P) (\<lambda>i. i mod 12)" using fair_round_robin [of 12] by (simp add: racey_prog_def)
  obtain j where j: "rec_done ?P (?q j)"
    using recording_ends [OF racey_prog_ok racey_prog_ends f, of "\<lambda>_ _. False" False seqlock_acc "mem_init_thr MAX_ELEM"] by auto
  let ?cs = "calls_in_turn 12 (rec_logs (\<lambda>nobj. mem_finish_thr nobj before_finish_thr_default) ?P (?q j))"
  have a: "atoi ''12'' = 12" by code_simp
  have k: "k_aligned ?k" "os_ok ?s" "\<not> refused ?k ?s s1" for s1
    by (simp_all add: k_aligned_def mmap_aligned_def PAGE_SIZE_def os_ok_def refused_def)
  have h: "\<forall>n. atoi ([''racey'', ''12''] ! 1) = int n \<longrightarrow>
      (let P = racey_prog MAX_LOOP n 4096; q = rec_sched seqlock_acc (mem_init_thr MAX_ELEM) P (\<lambda>_ _. False) (\<lambda>i. i mod 12) j
       in rec_done P q \<and> order_calls n (rec_logs (\<lambda>nobj. mem_finish_thr nobj before_finish_thr_default) P q) ?cs)"
  proof (intro allI impI)
    fix n assume "atoi ([''racey'', ''12''] ! 1) = int n"
    then have n: "n = 12" using a by simp
    show "let P = racey_prog MAX_LOOP n 4096; q = rec_sched seqlock_acc (mem_init_thr MAX_ELEM) P (\<lambda>_ _. False) (\<lambda>i. i mod 12) j
       in rec_done P q \<and> order_calls n (rec_logs (\<lambda>nobj. mem_finish_thr nobj before_finish_thr_default) P q) ?cs"
      unfolding n Let_def using j calls_in_turn_ok by blast
  qed
  show ?thesis
    using racey_main_outcome [where argv = "[''racey'', ''12'']" and ini = mem_init_thr, OF k(1,2) h] k(3) a
    by (cases "racey_main ?k (record_mem_init_os ?k) (record_threads_os ?k seqlock_acc mem_init_thr (\<lambda>_ _. False) (\<lambda>i. i mod 12) j ?cs)
        4096 [''racey'', ''12''] ?s") (auto simp: Let_def)
qed

end
