(* ===== verification/Tsx.thy ===== *)
theory Tsx
  imports Record_Machine Log_Files
begin

text \<open>
  Hardware transactions on the level of their instructions (\<open>src/tsx\<close>): the wrappers of
  \<open>src/tsx/rtm.h\<close> on a processor with nested transactions and aborts, the detection of
  \<open>src/tsx/cpuid.h\<close>, and the assertion of \<open>src/tsx/tsx-assert.c\<close>, which reports from inside a
  transaction. The transactions of \<open>src/mem-record-rtmseq.c\<close>, instruction by instruction, are the
  transaction steps of the recording machine. Last, the clock of \<open>src/time.c\<close>.
\<close>

unbundle bit_operations_syntax

section \<open>The instructions\<close>

definition XBEGIN_STARTED :: "32 word" where "XBEGIN_STARTED = NOT 0"
definition XABORT_EXPLICIT :: "32 word" where "XABORT_EXPLICIT = push_bit 0 1"
definition XABORT_RETRY :: "32 word" where "XABORT_RETRY = push_bit 1 1"
definition XABORT_CONFLICT :: "32 word" where "XABORT_CONFLICT = push_bit 2 1"
definition XABORT_CAPACITY :: "32 word" where "XABORT_CAPACITY = push_bit 3 1"
definition XABORT_DEBUG :: "32 word" where "XABORT_DEBUG = push_bit 4 1"
definition XABORT_NESTED :: "32 word" where "XABORT_NESTED = push_bit 5 1"

definition XABORT_CODE :: "32 word \<Rightarrow> 32 word" where
  "XABORT_CODE x = drop_bit 24 x AND 0xff"

text \<open>A processor: memory and registers, how many transactions are open, what an abort restores, and
  the lines of standard error, which are not part of a transaction. An abort closes all transactions
  and goes on behind the outermost \<open>xbegin\<close> with the status in \<open>eax\<close>.\<close>

record 'm cpu =
  cpu_mem :: 'm
  cpu_nest :: nat
  cpu_saved :: 'm
  cpu_err :: "string list"

datatype ('a, 'm) flow = Go 'a "'m cpu" | Resume "32 word" "'m cpu" | Aborted "'m cpu" | GPFault "'m cpu"

definition tx_abort :: "32 word \<Rightarrow> 'm cpu \<Rightarrow> ('a, 'm) flow" where
  "tx_abort status c =
     Resume (status OR (if 1 < cpu_nest c then XABORT_NESTED else 0)) (c\<lparr>cpu_mem := cpu_saved c, cpu_nest := 0\<rparr>)"

definition xbegin :: "'m cpu \<Rightarrow> (32 word, 'm) flow" where
  "xbegin c =
     Go XBEGIN_STARTED (c\<lparr>cpu_nest := Suc (cpu_nest c), cpu_saved := (if cpu_nest c = 0 then cpu_mem c else cpu_saved c)\<rparr>)"

text \<open>\<open>xend\<close> itself commits; an abort by the processor comes before an instruction, and is the choice of the
  runs further down. The loop of \<open>tsx_assert_fail\<close> is modelled without such aborts: one of them takes the
  thread back to its \<open>xbegin\<close>, where the assertion is not reached or is reached again.\<close>

definition xend :: "'m cpu \<Rightarrow> (unit, 'm) flow" where
  "xend c = (if cpu_nest c = 0 then GPFault c else Go () (c\<lparr>cpu_nest := cpu_nest c - 1\<rparr>))"

text \<open>\<open>xabort\<close> has an operand of one byte, and does nothing outside a transaction.\<close>

definition xabort :: "32 word \<Rightarrow> 'm cpu \<Rightarrow> (unit, 'm) flow" where
  "xabort status c =
     (if cpu_nest c = 0 then Go () c else tx_abort (XABORT_EXPLICIT OR push_bit 24 (status AND 0xff)) c)"

definition xtest :: "'m cpu \<Rightarrow> bool" where
  "xtest c \<longleftrightarrow> cpu_nest c \<noteq> 0"

text \<open>Output is a system call, which aborts a transaction.\<close>

definition fprintf_stderr :: "string \<Rightarrow> 'm cpu \<Rightarrow> (unit, 'm) flow" where
  "fprintf_stderr msg c = (if xtest c then tx_abort 0 c else Go () (c\<lparr>cpu_err := cpu_err c @ [msg]\<rparr>))"

section \<open>Which processors have transactions\<close>

text \<open>What \<open>__get_cpuid_max\<close> and \<open>__cpuid_count\<close> return are parameters; the second gives the register
  \<open>ebx\<close> for a leaf and a subleaf.\<close>

definition CPUID_RTM :: "32 word" where "CPUID_RTM = push_bit 11 1"
definition CPUID_HLE :: "32 word" where "CPUID_HLE = push_bit 4 1"

definition cpu_has_rtm :: "32 word \<Rightarrow> (32 word \<Rightarrow> 32 word \<Rightarrow> 32 word) \<Rightarrow> bool" where
  "cpu_has_rtm cpuid_max cpuid_count = (if 7 \<le> cpuid_max then cpuid_count 7 0 AND CPUID_RTM \<noteq> 0 else False)"

definition cpu_has_hle :: "32 word \<Rightarrow> (32 word \<Rightarrow> 32 word \<Rightarrow> 32 word) \<Rightarrow> bool" where
  "cpu_has_hle cpuid_max cpuid_count = (if 7 \<le> cpuid_max then cpuid_count 7 0 AND CPUID_HLE \<noteq> 0 else False)"

section \<open>Assertions inside transactions\<close>

text \<open>\<open>while (_xtest()) _xend();\<close>\<close>

function xend_all :: "'m cpu \<Rightarrow> (unit, 'm) flow" where
  "xend_all c = (if xtest c then (case xend c of Go u c1 \<Rightarrow> xend_all c1 | r \<Rightarrow> r) else Go () c)"
  by pat_completeness auto
termination
  by (relation "measure cpu_nest") (auto simp: xend_def xtest_def split: if_splits)

declare xend_all.simps [simp del]

definition assert_message :: "string \<Rightarrow> int \<Rightarrow> string \<Rightarrow> string" where
  "assert_message file line expr =
     ''Assertation failure: '' @ file @ '':'' @ format_ld line @ '': '' @ expr @ ''\<newline>''"

definition tsx_assert_fail :: "bool \<Rightarrow> string \<Rightarrow> int \<Rightarrow> string \<Rightarrow> 'm cpu \<Rightarrow> (unit, 'm) flow" where
  "tsx_assert_fail has_rtm file line expr c =
     (case (if has_rtm then xend_all c else Go () c) of
        Go _ c1 \<Rightarrow> (case fprintf_stderr (assert_message file line expr) c1 of Go _ c2 \<Rightarrow> Aborted c2 | r \<Rightarrow> r)
      | r \<Rightarrow> r)"

text \<open>The macro \<open>tsx_assert\<close>, and \<open>assert\<close> of the C library, which prints without leaving the
  transaction.\<close>

definition tsx_assert :: "bool \<Rightarrow> bool \<Rightarrow> string \<Rightarrow> int \<Rightarrow> string \<Rightarrow> 'm cpu \<Rightarrow> (unit, 'm) flow" where
  "tsx_assert has_rtm x file line expr c = (if \<not> x then tsx_assert_fail has_rtm file line expr c else Go () c)"

definition libc_assert :: "bool \<Rightarrow> string \<Rightarrow> 'm cpu \<Rightarrow> (unit, 'm) flow" where
  "libc_assert x msg c = (if \<not> x then (case fprintf_stderr msg c of Go _ c1 \<Rightarrow> Aborted c1 | r \<Rightarrow> r) else Go () c)"

section \<open>The transactions of the rtmseq recorder\<close>

text \<open>Instructions run one after the other. \<open>ab i\<close> says whether the processor itself aborts the
  transaction before the \<open>i\<close>-th instruction, and with which status.\<close>

type_synonym 'm instr = "'m cpu \<Rightarrow> (unit, 'm) flow"

fun xrun :: "(nat \<Rightarrow> 32 word option) \<Rightarrow> nat \<Rightarrow> 'm instr list \<Rightarrow> 'm instr" where
  "xrun ab i [] c = Go () c"
| "xrun ab i (f # fs) c =
     (if xtest c \<and> ab i \<noteq> None then tx_abort (the (ab i)) c
      else (case f c of Go _ c1 \<Rightarrow> xrun ab (Suc i) fs c1 | r \<Rightarrow> r))"

text \<open>\<open>if ((ret = _xbegin()) == _XBEGIN_STARTED) body else fallback\<close>: an abort comes back to the test
  with another value of \<open>ret\<close>.\<close>

definition rtm_if :: "(nat \<Rightarrow> 32 word option) \<Rightarrow> 'm instr list \<Rightarrow> 'm instr \<Rightarrow> 'm instr" where
  "rtm_if ab body fallback c =
     (case xbegin c of
        Go ret c1 \<Rightarrow>
          (case (if ret = XBEGIN_STARTED then xrun ab 0 body c1 else fallback c1) of
             Resume ret c2 \<Rightarrow> if ret = XBEGIN_STARTED then xrun ab (length body) body c2 else fallback c2
           | r \<Rightarrow> r)
      | Resume ret c2 \<Rightarrow> Resume ret c2 | Aborted c2 \<Rightarrow> Aborted c2 | GPFault c2 \<Rightarrow> GPFault c2)"

definition mov :: "('m \<Rightarrow> 'm) \<Rightarrow> 'm instr" where
  "mov f c = Go () (c\<lparr>cpu_mem := f (cpu_mem c)\<rparr>)"

text \<open>The state of a recording with the local variables \<open>version\<close> and \<open>val\<close>.\<close>

type_synonym 's rtm_mem = "'s recording \<times> version_t \<times> val_t"

definition cpu_start :: "'s recording \<Rightarrow> val_t \<Rightarrow> 's rtm_mem cpu" where
  "cpu_start s val = \<lparr>cpu_mem = (s, 0, val), cpu_nest = 0, cpu_saved = (s, 0, val), cpu_err = []\<rparr>"

definition load_version :: "objid_t \<Rightarrow> 's rtm_mem instr" where
  "load_version objid = mov (\<lambda>(s, _, val). (s, oi_version (g_objinfo s ! objid), val))"

definition read_tx_body :: "objid_t \<Rightarrow> addr_t \<Rightarrow> 's rtm_mem instr list" where
  "read_tx_body objid addr =
     [load_version objid,
      mov (\<lambda>(s, version, _). (s, version, qs_mem s addr)),
      (\<lambda>c. case cpu_mem c of (_, version, _) \<Rightarrow> if odd version then xabort 1 c else Go () c),
      xend]"

definition write_tx_body :: "objid_t \<Rightarrow> addr_t \<Rightarrow> 's rtm_mem instr list" where
  "write_tx_body objid addr =
     [load_version objid,
      mov (\<lambda>(s, version, val). (set_mem addr val s, version, val)),
      mov (\<lambda>(s, version, val). (set_version objid (oi_version (g_objinfo s ! objid) + 2) s, version, val)),
      (\<lambda>c. case cpu_mem c of (s, _, _) \<Rightarrow> if oi_write_lock (g_objinfo s ! objid) \<noteq> 0 then xabort 2 c else Go () c),
      xend]"

text \<open>Up to the log taking after the transaction, or to the fallback.\<close>

definition rtm_access :: "(nat \<Rightarrow> 32 word option) \<Rightarrow> 's rtm_mem instr list \<Rightarrow> qpc \<Rightarrow> tid_t \<Rightarrow> 's recording \<Rightarrow> val_t \<Rightarrow> (unit, 's rtm_mem) flow" where
  "rtm_access ab body fallback t s val =
     rtm_if ab (body @ [mov (\<lambda>(s, version, val). (qgoto t (LogAcc version val) s, version, val))])
       (mov (\<lambda>(s, version, val). (qgoto t fallback s, version, val))) (cpu_start s val)"

definition rtmseq_read :: "(nat \<Rightarrow> 32 word option) \<Rightarrow> test_prog \<Rightarrow> tid_t \<Rightarrow> addr_t \<Rightarrow> 's recording \<Rightarrow> (unit, 's rtm_mem) flow" where
  "rtmseq_read ab P t addr s = rtm_access ab (read_tx_body (tp_cid P addr) addr) RdVersion t s 0"

definition rtmseq_write ::
  "(nat \<Rightarrow> 32 word option) \<Rightarrow> test_prog \<Rightarrow> tid_t \<Rightarrow> addr_t \<Rightarrow> val_t \<Rightarrow> 's recording \<Rightarrow> (unit, 's rtm_mem) flow" where
  "rtmseq_write ab P t addr val s = rtm_access ab (write_tx_body (tp_cid P addr) addr) LockXchg t s val"

section \<open>The clock\<close>

text \<open>\<open>rdtscp\<close> leaves the halves of the counter in \<open>edx\<close> and \<open>eax\<close>.\<close>

definition get_tsc :: "64 word \<Rightarrow> 64 word \<Rightarrow> 64 word" where
  "get_tsc h l = push_bit 32 h OR l"

text \<open>The variables of \<open>src/time.c\<close>; \<open>enable\<close> is the macro \<open>ENABLE_TIME\<close>. \<open>end_clock\<close> also gives the
  number of ticks, which it prints as a time.\<close>

record clock =
  begin_tsc :: "64 word"
  end_tsc :: "64 word"

definition begin_clock :: "bool \<Rightarrow> 64 word \<Rightarrow> clock \<Rightarrow> clock" where
  "begin_clock enable tsc c = (if enable then c\<lparr>begin_tsc := tsc\<rparr> else c)"

definition end_clock :: "bool \<Rightarrow> 64 word \<Rightarrow> clock \<Rightarrow> clock \<times> 64 word option" where
  "end_clock enable tsc c =
     (if enable then (c\<lparr>end_tsc := tsc\<rparr>, Some (tsc - begin_tsc c)) else (c, None))"

section \<open>Assertions are reported\<close>

lemma xend_all_commits: "xend_all c = Go () (c\<lparr>cpu_nest := 0\<rparr>)"
proof (induction c rule: xend_all.induct)
  case (1 c)
  then show ?case by (subst xend_all.simps) (auto simp: xtest_def xend_def)
qed

lemma tsx_assert_fail_eq:
  assumes "has_rtm \<or> cpu_nest c = 0"
  shows "tsx_assert_fail has_rtm file line expr c =
    Aborted (c\<lparr>cpu_nest := 0, cpu_err := cpu_err c @ [assert_message file line expr]\<rparr>)"
  using assms by (auto simp: tsx_assert_fail_def xend_all_commits fprintf_stderr_def xtest_def)

lemma assert_discarded:
  assumes "xtest c"
  shows "libc_assert False msg c = tx_abort 0 c"
  using assms by (simp add: libc_assert_def fprintf_stderr_def tx_abort_def)

text \<open>A status that the processor gives has the reserved bits clear.\<close>

definition abort_status :: "32 word \<Rightarrow> bool" where
  "abort_status st \<longleftrightarrow> st AND 0x00FFFFC0 = 0"

lemma abort_not_started: "abort_status st \<Longrightarrow> st \<noteq> XBEGIN_STARTED"
  by (auto simp: abort_status_def XBEGIN_STARTED_def)

lemma abort_status_or: "abort_status (a OR b) \<longleftrightarrow> abort_status a \<and> abort_status b"
  by (auto simp: abort_status_def bit.conj_disj_distrib2 or_eq_0_iff)

section \<open>Transactions are steps\<close>

text \<open>The instructions of a transaction that does not abort itself, and that ends with \<open>xend\<close>: it runs
  to its end, or the processor aborts it.\<close>

lemma explicit_status: "abort_status (XABORT_EXPLICIT OR push_bit 24 (n AND 0xff))"
proof -
  have "push_bit 24 (n AND 0xff) AND (0x00FFFFC0 :: 32 word) = 0"
    by (simp add: push_bit_and and.assoc)
  then show ?thesis by (simp add: abort_status_or) (simp add: abort_status_def XABORT_EXPLICIT_def)
qed

definition aborts_ok :: "(nat \<Rightarrow> 32 word option) \<Rightarrow> bool" where
  "aborts_ok ab \<longleftrightarrow> (\<forall>i st. ab i = Some st \<longrightarrow> abort_status st)"

text \<open>A transaction that runs in its own memory is undone by an abort.\<close>

lemma rtm_if_resume:
  assumes "xrun ab 0 body (c\<lparr>cpu_nest := 1, cpu_saved := cpu_mem c\<rparr>) = Resume st c2" "cpu_nest c = 0" "abort_status st"
  shows "rtm_if ab body fallback c = fallback c2"
  using assms abort_not_started by (simp add: rtm_if_def xbegin_def)

lemma rtm_if_go:
  assumes "xrun ab 0 body (c\<lparr>cpu_nest := 1, cpu_saved := cpu_mem c\<rparr>) = Go () c2" "cpu_nest c = 0"
  shows "rtm_if ab body fallback c = Go () c2"
  using assms by (simp add: rtm_if_def xbegin_def)

lemma rtm_access_cases:
  fixes t s val body
  defines "b \<equiv> body @ [mov (\<lambda>(s, version, val). (qgoto t (LogAcc version val) s, version, val))]"
    and "c \<equiv> \<lparr>cpu_mem = (s, 0, val), cpu_nest = 1, cpu_saved = (s, 0, val), cpu_err = []\<rparr>"
  shows "\<exists>r c2. xrun ab 0 b c = Resume r c2 \<and> abort_status r \<and> fst (cpu_mem c2) = s \<Longrightarrow>
      \<exists>c1. rtm_access ab body fb t s val = Go () c1 \<and> fst (cpu_mem c1) = qgoto t fb s"
    and "\<exists>c2. xrun ab 0 b c = Go () c2 \<and> fst (cpu_mem c2) = s1 \<Longrightarrow>
      \<exists>c1. rtm_access ab body fb t s val = Go () c1 \<and> fst (cpu_mem c1) = s1"
proof -
  have c: "(cpu_start s val)\<lparr>cpu_nest := 1, cpu_saved := cpu_mem (cpu_start s val)\<rparr> = c" "cpu_nest (cpu_start s val) = 0"
    by (simp_all add: cpu_start_def c_def)
  {
    assume "\<exists>r c2. xrun ab 0 b c = Resume r c2 \<and> abort_status r \<and> fst (cpu_mem c2) = s"
    then obtain r c2 where r: "xrun ab 0 b c = Resume r c2" "abort_status r" "fst (cpu_mem c2) = s" by blast
    have "rtm_access ab body fb t s val = mov (\<lambda>(s, version, val). (qgoto t fb s, version, val)) c2"
      unfolding rtm_access_def b_def [symmetric] by (rule rtm_if_resume [OF _ c(2) r(2)]) (use r(1) c(1) in simp)
    then show "\<exists>c1. rtm_access ab body fb t s val = Go () c1 \<and> fst (cpu_mem c1) = qgoto t fb s"
      using r(3) by (auto simp: mov_def split: prod.split)
  next
    assume "\<exists>c2. xrun ab 0 b c = Go () c2 \<and> fst (cpu_mem c2) = s1"
    then show "\<exists>c1. rtm_access ab body fb t s val = Go () c1 \<and> fst (cpu_mem c1) = s1"
      unfolding rtm_access_def b_def [symmetric] using rtm_if_go [OF _ c(2)] c(1) by fastforce
  }
qed

lemmas tx_instrs = load_version_def mov_def tx_abort_def xtest_def xabort_def xend_def numeral_eq_Suc

lemma aborts_okD: "aborts_ok ab \<Longrightarrow> ab i = Some st \<Longrightarrow> abort_status st"
  by (auto simp: aborts_ok_def)

lemma small_ex:
  "(\<exists>i < 4. ab i \<noteq> None) \<longleftrightarrow> ab 0 \<noteq> None \<or> ab 1 \<noteq> None \<or> ab 2 \<noteq> None \<or> ab (3::nat) \<noteq> None"
  "(\<exists>i < 5. ab i \<noteq> None) \<longleftrightarrow> ab 0 \<noteq> None \<or> ab 1 \<noteq> None \<or> ab 2 \<noteq> None \<or> ab 3 \<noteq> None \<or> ab (4::nat) \<noteq> None"
  by (simp_all add: numeral_eq_Suc less_Suc_eq) blast+

lemma read_tx_instrs:
  assumes "aborts_ok ab"
  shows "\<exists>c. rtmseq_read ab P t a s = Go () c \<and> fst (cpu_mem c) =
    (if \<exists>i < 4. ab i \<noteq> None then qgoto t RdVersion s else read_tx P t a s)"
proof (cases "(\<exists>i < 4. ab i \<noteq> None) \<or> odd (oi_version (g_objinfo s ! tp_cid P a))")
  case True
  have "\<exists>c. rtmseq_read ab P t a s = Go () c \<and> fst (cpu_mem c) = qgoto t RdVersion s"
    unfolding rtmseq_read_def
    by (rule rtm_access_cases(1))
      (use True [unfolded small_ex] aborts_okD [OF assms] explicit_status [of 1] in \<open>auto simp: read_tx_body_def tx_instrs\<close>)
  then show ?thesis using True by (auto simp: read_tx_def)
next
  case False
  have "\<exists>c. rtmseq_read ab P t a s = Go () c \<and> fst (cpu_mem c) = read_tx P t a s"
    unfolding rtmseq_read_def
    by (rule rtm_access_cases(2)) (use False in \<open>auto simp: small_ex read_tx_body_def tx_instrs read_tx_def\<close>)
  then show ?thesis using False by auto
qed

lemma write_tx_instrs:
  assumes "aborts_ok ab"
  shows "\<exists>c. rtmseq_write ab P t a v s = Go () c \<and> fst (cpu_mem c) =
    (if \<exists>i < 5. ab i \<noteq> None then qgoto t LockXchg s else write_tx P t a v s)"
proof (cases "(\<exists>i < 5. ab i \<noteq> None) \<or>
    oi_write_lock (g_objinfo (set_version (tp_cid P a) (oi_version (g_objinfo s ! tp_cid P a) + 2) (set_mem a v s)) ! tp_cid P a) \<noteq> 0")
  case True
  have "\<exists>c. rtmseq_write ab P t a v s = Go () c \<and> fst (cpu_mem c) = qgoto t LockXchg s"
    unfolding rtmseq_write_def
    by (rule rtm_access_cases(1))
      (use True [unfolded small_ex] aborts_okD [OF assms] explicit_status [of 2] in \<open>auto simp: write_tx_body_def tx_instrs set_mem_def\<close>)
  then show ?thesis using True by (auto simp: write_tx_def Let_def)
next
  case False
  have "\<exists>c. rtmseq_write ab P t a v s = Go () c \<and> fst (cpu_mem c) = write_tx P t a v s"
    unfolding rtmseq_write_def
    by (rule rtm_access_cases(2)) (use False in \<open>auto simp: small_ex write_tx_body_def tx_instrs write_tx_def set_mem_def Let_def\<close>)
  then show ?thesis using False by auto
qed

section \<open>Codes and counters\<close>

lemma take_bit_small: "unat (x :: 'a :: len word) < 2 ^ n \<Longrightarrow> take_bit n x = x"
  by (intro word_unat_eq_iff [THEN iffD2]) (simp add: unsigned_take_bit_eq take_bit_nat_eq_self)

lemma low_byte: "status < (256 :: 32 word) \<Longrightarrow> status AND 0xff = status"
  using take_bit_small [of status 8] by (simp add: word_less_nat_alt take_bit_eq_mask mask_eq_exp_minus_1)

lemma push_drop_byte: "drop_bit 24 (push_bit 24 x) AND (0xff :: 32 word) = x AND 0xff"
proof -
  have m: "(0xff :: 32 word) = mask 8" by (simp add: mask_eq_exp_minus_1)
  show ?thesis unfolding m by (rule bit_word_eqI) (auto simp: bit_simps)
qed

text \<open>The code given to \<open>xabort\<close> comes back in the status.\<close>

lemma xabort_code:
  assumes "status < 256" "xtest c"
  shows "\<exists>st c1. xabort status c = Resume st c1 \<and> XABORT_CODE st = status \<and> st AND XABORT_EXPLICIT = XABORT_EXPLICIT"
proof -
  let ?st = "XABORT_EXPLICIT OR push_bit 24 (status AND 0xff) OR (if 1 < cpu_nest c then XABORT_NESTED else 0)"
  have "XABORT_CODE ?st = status"
    using low_byte [OF assms(1)]
    by (simp add: push_drop_byte XABORT_CODE_def XABORT_EXPLICIT_def XABORT_NESTED_def drop_bit_or bit.conj_disj_distrib2)
  moreover have "?st AND XABORT_EXPLICIT = XABORT_EXPLICIT"
    by (rule bit_word_eqI) (auto simp: bit_simps)
  ultimately show ?thesis using assms(2) by (auto simp: xabort_def tx_abort_def xtest_def or.assoc)
qed

text \<open>The halves of the time stamp counter.\<close>

lemma get_tsc_halves:
  assumes "unat h < 2 ^ 32" "unat l < 2 ^ 32"
  shows "unat (get_tsc h l) = unat h * 2 ^ 32 + unat l"
proof -
  have "push_bit 32 h AND take_bit 32 l = 0" by (rule bit_word_eqI) (auto simp: bit_simps)
  then have "get_tsc h l = push_bit 32 h + l"
    using take_bit_small [OF assms(2)] by (simp add: get_tsc_def disjunctive_add_eq_or)
  then show ?thesis using assms by (simp add: push_bit_eq_mult unat_word_ariths)
qed

text \<open>The ticks between the two calls, also when the counter wraps in between.\<close>

lemma elapsed_ticks: "snd (end_clock True (tsc + of_nat n) (begin_clock True tsc c)) = Some (of_nat n)"
  by (simp add: end_clock_def begin_clock_def)

text \<open>C22: the transactions of \<open>src/mem-record-rtmseq.c\<close> are steps of the recording machine. Whatever the
  instructions at which the processor aborts, and whatever its abort codes (with the reserved bits
  clear), an access that begins with a transaction comes to the log taking or to the fallback with
  the memory of one step of the machine; without an abort by the processor it is the step in which the
  transaction succeeds.\<close>

theorem rtmseq_transactions:
  assumes "aborts_ok ab" and "qt_pc (qs_thr s t) = QRun"
    and "tp_code P t (qt_vals (qs_thr s t)) = (if w then Write a v else Read a)"
  shows "\<exists>c tx. (if w then rtmseq_write ab P t a v s else rtmseq_read ab P t a s) = Go () c \<and>
    fst (cpu_mem c) = rec_step lg P tx t s \<and> (tx \<longleftrightarrow> (\<forall>i < (if w then 5 else 4). ab i = None))"
proof (cases w)
  case True
  define tx where "tx \<longleftrightarrow> (\<forall>i < 5. ab i = None)"
  have "rec_step lg P tx t s = (if tx then write_tx P t a v s else qgoto t LockXchg s)"
    using assms(2,3) True by (simp add: rec_step_def rec_write_def)
  then show ?thesis using write_tx_instrs [OF assms(1), of P t a v s] True unfolding tx_def by fastforce
next
  case False
  define tx where "tx \<longleftrightarrow> (\<forall>i < 4. ab i = None)"
  have "rec_step lg P tx t s = (if tx then read_tx P t a s else qgoto t RdVersion s)"
    using assms(2,3) False by (simp add: rec_step_def rec_read_def)
  then show ?thesis using read_tx_instrs [OF assms(1), of P t a s] False unfolding tx_def by fastforce
qed

text \<open>C37: an assertion that fails inside transactions, however deeply nested, is reported with the
  memory as it is at that point: all transactions are committed, the message is printed and the program
  aborts. The assertion of the C library in its place loses its message and the memory: control is back
  behind the outermost \<open>xbegin\<close>, with a status that is not the one of a transaction that has begun.
  \<open>has_rtm\<close> is what \<open>cpu_has_rtm\<close> found, and there are transactions only when it is true.\<close>

theorem tsx_assert_reports:
  assumes "cpu_has_rtm cpuid_max cpuid_count \<or> \<not> xtest c"
  shows "tsx_assert (cpu_has_rtm cpuid_max cpuid_count) False file line expr c =
      Aborted (c\<lparr>cpu_nest := 0, cpu_err := cpu_err c @ [assert_message file line expr]\<rparr>) \<and>
    (xtest c \<longrightarrow> (\<exists>st. libc_assert False msg c = Resume st (c\<lparr>cpu_mem := cpu_saved c, cpu_nest := 0\<rparr>) \<and> st \<noteq> XBEGIN_STARTED))"
proof -
  have "has_rtm \<or> cpu_nest c = 0 \<Longrightarrow> tsx_assert has_rtm False file line expr c =
      Aborted (c\<lparr>cpu_nest := 0, cpu_err := cpu_err c @ [assert_message file line expr]\<rparr>)" for has_rtm
    by (simp add: tsx_assert_def tsx_assert_fail_eq)
  moreover have "XABORT_NESTED \<noteq> XBEGIN_STARTED" by (simp add: XABORT_NESTED_def XBEGIN_STARTED_def)
  moreover have "(0 :: 32 word) \<noteq> XBEGIN_STARTED" by (simp add: XBEGIN_STARTED_def)
  ultimately show ?thesis using assms assert_discarded [of c msg] by (auto simp: tx_abort_def xtest_def)
qed

theorem tsx_assert_reports_witness:
  "tsx_assert (cpu_has_rtm 7 (\<lambda>_ _. 0x800)) False ''mem.c'' 12 ''ver''
     \<lparr>cpu_mem = (5 :: int), cpu_nest = 2, cpu_saved = 3, cpu_err = []\<rparr> =
   Aborted \<lparr>cpu_mem = 5, cpu_nest = 0, cpu_saved = 3, cpu_err = [assert_message ''mem.c'' 12 ''ver'']\<rparr> \<and>
   (\<exists>st. libc_assert False ''msg'' \<lparr>cpu_mem = (5 :: int), cpu_nest = 2, cpu_saved = 3, cpu_err = []\<rparr> =
     Resume st \<lparr>cpu_mem = 3, cpu_nest = 0, cpu_saved = 3, cpu_err = []\<rparr> \<and> st \<noteq> XBEGIN_STARTED)"
  using tsx_assert_reports [of 7 "\<lambda>_ _. 0x800" "\<lparr>cpu_mem = (5 :: int), cpu_nest = 2, cpu_saved = 3, cpu_err = []\<rparr>" "''mem.c''" 12
    "''ver''" "''msg''"]
  by (simp add: cpu_has_rtm_def CPUID_RTM_def xtest_def)

text \<open>A program that reads one object, and a processor that aborts before the third instruction.\<close>

definition tx_prog :: test_prog where
  "tx_prog = \<lparr>tp_code = (\<lambda>_ vs. if vs = [] then Read 0 else Finish), tp_cid = nat, tp_nobj = 1, tp_nthr = 2, tp_mem = (\<lambda>_. 1)\<rparr>"

definition third_aborts :: "nat \<Rightarrow> 32 word option" where
  "third_aborts i = (if i = 2 then Some XABORT_CONFLICT else None)"

theorem rtmseq_transactions_witness:
  "\<exists>c tx. rtmseq_read third_aborts tx_prog 0 0 (recording_init tx_prog ()) = Go () c \<and>
     fst (cpu_mem c) = rec_step (\<lambda>_ u. u) tx_prog tx 0 (recording_init tx_prog ()) \<and> \<not> tx"
proof -
  have ab: "aborts_ok third_aborts" by (simp add: aborts_ok_def third_aborts_def abort_status_def XABORT_CONFLICT_def)
  have s: "qt_pc (qs_thr (recording_init tx_prog ()) 0) = QRun"
    "tp_code tx_prog 0 (qt_vals (qs_thr (recording_init tx_prog ()) 0)) = (if False then Write 0 0 else Read 0)"
    by (simp_all add: recording_init_def tx_prog_def)
  have "third_aborts 2 \<noteq> None" by (simp add: third_aborts_def)
  then have "\<not> (\<forall>i < 4. third_aborts i = None)" by (metis numeral_less_iff semiring_norm(76,78))
  moreover obtain c tx where "rtmseq_read third_aborts tx_prog 0 0 (recording_init tx_prog ()) = Go () c"
    "fst (cpu_mem c) = rec_step (\<lambda>_ u. u) tx_prog tx 0 (recording_init tx_prog ())" "tx \<longleftrightarrow> (\<forall>i < 4. third_aborts i = None)"
    using rtmseq_transactions [OF ab s, of "\<lambda>_ u. u"] unfolding if_False by blast
  ultimately show ?thesis by metis
qed

end
