(* ===== verification/Tsx_Rules.thy ===== *)
theory Tsx_Rules
  imports Tsx
begin

text \<open>
  Rules for code inside a transaction (\<open>src/tsx/rtm.h\<close>): what a list of instructions does when the
  transaction is not aborted, which is all that has to be said of it, because an abort by the processor
  at any instruction and an abort by the code itself have the same effect.
\<close>

section \<open>Instructions\<close>

text \<open>An instruction under a condition, and the test that ends in \<open>_xabort\<close>.\<close>

definition instr_if :: "('m \<Rightarrow> bool) \<Rightarrow> 'm instr \<Rightarrow> 'm instr" where
  "instr_if b f c = (if b (cpu_mem c) then f c else Go () c)"

definition abort_if :: "('m \<Rightarrow> bool) \<Rightarrow> 32 word \<Rightarrow> 'm instr" where
  "abort_if b status c = (if b (cpu_mem c) then xabort status c else Go () c)"

text \<open>A processor with a given memory and no open transaction.\<close>

definition cpu_at :: "'m \<Rightarrow> 'm cpu" where
  "cpu_at m = \<lparr>cpu_mem = m, cpu_nest = 0, cpu_saved = m, cpu_err = []\<rparr>"

section \<open>Rules for code inside a transaction\<close>

definition rolled_back :: "'m cpu \<Rightarrow> ('a, 'm) flow \<Rightarrow> bool" where
  "rolled_back c r \<longleftrightarrow> (\<exists>st. abort_status st \<and> r = Resume st (c\<lparr>cpu_mem := cpu_saved c, cpu_nest := 0\<rparr>))"

text \<open>\<open>tx_code fs m r\<close>: in a transaction and with memory \<open>m\<close>, the instructions lead to the memory \<open>r\<close>, or
  abort themselves when \<open>r\<close> is \<open>None\<close>, unless the processor aborts the transaction.\<close>

definition tx_result :: "'m cpu \<Rightarrow> bool \<Rightarrow> 'm option \<Rightarrow> (unit, 'm) flow \<Rightarrow> bool" where
  "tx_result c aborted r x \<longleftrightarrow>
     (if aborted \<or> r = None then rolled_back c x else x = Go () (c\<lparr>cpu_mem := the r\<rparr>))"

definition tx_code :: "'m instr list \<Rightarrow> 'm \<Rightarrow> 'm option \<Rightarrow> bool" where
  "tx_code fs m r \<longleftrightarrow>
     (\<forall>ab i c. aborts_ok ab \<longrightarrow> cpu_nest c = 1 \<longrightarrow> cpu_mem c = m \<longrightarrow>
        tx_result c (\<exists>j < length fs. ab (i + j) \<noteq> None) r (xrun ab i fs c))"

lemma tx_codeI:
  assumes "\<And>ab i c. aborts_ok ab \<Longrightarrow> cpu_nest c = 1 \<Longrightarrow> cpu_mem c = m \<Longrightarrow>
    tx_result c (\<exists>j < length fs. ab (i + j) \<noteq> None) r (xrun ab i fs c)"
  shows "tx_code fs m r"
  using assms unfolding tx_code_def by blast

lemma tx_codeD:
  "tx_code fs m r \<Longrightarrow> aborts_ok ab \<Longrightarrow> cpu_nest c = 1 \<Longrightarrow> cpu_mem c = m \<Longrightarrow>
     tx_result c (\<exists>j < length fs. ab (i + j) \<noteq> None) r (xrun ab i fs c)"
  unfolding tx_code_def by blast

lemma tx_result_mem [simp]: "tx_result (c\<lparr>cpu_mem := m\<rparr>) a r x \<longleftrightarrow> tx_result c a r x"
  by (simp add: tx_result_def rolled_back_def)

lemma tx_abort_rolled: "cpu_nest c = 1 \<Longrightarrow> abort_status st \<Longrightarrow> rolled_back c (tx_abort st c)"
  by (auto simp: rolled_back_def tx_abort_def)

lemma xrun_append:
  "xrun ab i (fs @ gs) c = (case xrun ab i fs c of Go _ c1 \<Rightarrow> xrun ab (i + length fs) gs c1 | r \<Rightarrow> r)"
  by (induction ab i fs c rule: xrun.induct) (auto simp: tx_abort_def split: flow.splits)

lemma rolled_back_append: "rolled_back c (xrun ab i fs c1) \<Longrightarrow> rolled_back c (xrun ab i (fs @ gs) c1)"
  by (auto simp: rolled_back_def xrun_append)

lemma ex_less_add:
  "(\<exists>j < m + n. P j) \<longleftrightarrow> (\<exists>j < m. P j) \<or> (\<exists>j < n. P (m + j))" for m n :: nat
  by (metis add_less_cancel_left le_add_diff_inverse not_less trans_less_add1)

lemma tx_append:
  assumes "tx_code fs m (Some m1)" "tx_code gs m1 r"
  shows "tx_code (fs @ gs) m r"
proof (rule tx_codeI)
  fix ab i and c :: "'a cpu"
  assume h: "aborts_ok ab" "cpu_nest c = 1" "cpu_mem c = m"
  have gs: "tx_result c (\<exists>j < length gs. ab (i + length fs + j) \<noteq> None) r (xrun ab (i + length fs) gs (c\<lparr>cpu_mem := m1\<rparr>))"
    using tx_codeD [OF assms(2) h(1), of "c\<lparr>cpu_mem := m1\<rparr>" "i + length fs"] h(2) by simp
  show "tx_result c (\<exists>j < length (fs @ gs). ab (i + j) \<noteq> None) r (xrun ab i (fs @ gs) c)"
  proof (cases "\<exists>j < length fs. ab (i + j) \<noteq> None")
    case True
    then have "rolled_back c (xrun ab i fs c)" using tx_codeD [OF assms(1) h, of i] by (simp add: tx_result_def)
    then show ?thesis using True rolled_back_append by (auto simp: tx_result_def ex_less_add)
  next
    case False
    then have "xrun ab i fs c = Go () (c\<lparr>cpu_mem := m1\<rparr>)" using tx_codeD [OF assms(1) h, of i] by (simp add: tx_result_def)
    moreover have "(\<exists>j < length (fs @ gs). ab (i + j) \<noteq> None) \<longleftrightarrow> (\<exists>j < length gs. ab (i + length fs + j) \<noteq> None)"
      using False by (auto simp: ex_less_add add.assoc)
    ultimately show ?thesis using gs by (simp add: xrun_append)
  qed
qed

lemma tx_append_None:
  assumes "tx_code fs m None"
  shows "tx_code (fs @ gs) m None"
  by (rule tx_codeI) (use tx_codeD [OF assms] in \<open>simp add: tx_result_def rolled_back_append\<close>)

text \<open>Single instructions.\<close>

lemma tx_Nil: "tx_code [] m (Some m)"
  by (rule tx_codeI) (simp add: tx_result_def)

lemma tx_one:
  assumes "\<And>c. cpu_nest c = 1 \<Longrightarrow> cpu_mem c = m \<Longrightarrow> tx_result c False r (f c)"
  shows "tx_code [f] m r"
proof (rule tx_codeI)
  fix ab i and c :: "'a cpu"
  assume h: "aborts_ok ab" "cpu_nest c = 1" "cpu_mem c = m"
  show "tx_result c (\<exists>j < length [f]. ab (i + j) \<noteq> None) r (xrun ab i [f] c)"
  proof (cases "ab i")
    case None
    have "xrun ab i [f] c = f c" using None by (simp split: flow.splits)
    then show ?thesis using assms [OF h(2,3)] None by simp
  next
    case (Some st)
    then show ?thesis using tx_abort_rolled [OF h(2) aborts_okD [OF h(1) Some]] h(2) by (simp add: tx_result_def xtest_def)
  qed
qed

lemma tx_Cons: "tx_code [f] m (Some m1) \<Longrightarrow> tx_code fs m1 r \<Longrightarrow> tx_code (f # fs) m r"
  using tx_append [of "[f]"] by simp

lemma tx_mov: "tx_code fs (g m) r \<Longrightarrow> tx_code (mov g # fs) m r"
  by (rule tx_Cons [OF tx_one]) (simp_all add: mov_def tx_result_def)

lemma tx_if_not: "\<not> b m \<Longrightarrow> tx_code fs m r \<Longrightarrow> tx_code (instr_if b f # fs) m r"
  by (rule tx_Cons [OF tx_one]) (simp_all add: instr_if_def tx_result_def)

lemma tx_abort_not: "\<not> b m \<Longrightarrow> tx_code fs m r \<Longrightarrow> tx_code (abort_if b n # fs) m r"
  by (rule tx_Cons [OF tx_one]) (simp_all add: abort_if_def tx_result_def)

lemma tx_abort_if:
  assumes "b m"
  shows "tx_code (abort_if b n # fs) m None"
proof -
  have "tx_code [abort_if b n] m None"
    using assms tx_abort_rolled [OF _ explicit_status, of _ n]
    by (intro tx_one) (simp add: tx_result_def abort_if_def xabort_def)
  from tx_append_None [OF this] show ?thesis by simp
qed

lemma xrun_if: "b (cpu_mem c) \<Longrightarrow> xrun ab i (instr_if b f # fs) c = xrun ab i (f # fs) c"
  by (cases "ab i") (simp_all add: instr_if_def)

lemma tx_if: "b m \<Longrightarrow> tx_code (f # fs) m r \<Longrightarrow> tx_code (instr_if b f # fs) m r"
  by (rule tx_codeI) (use tx_codeD [of "f # fs"] in \<open>simp add: xrun_if del: xrun.simps\<close>)

text \<open>Code behind the end of the transaction.\<close>

definition out_code :: "'m instr list \<Rightarrow> 'm \<Rightarrow> 'm \<Rightarrow> bool" where
  "out_code fs m m1 \<longleftrightarrow> (\<forall>ab i c. cpu_nest c = 0 \<longrightarrow> cpu_mem c = m \<longrightarrow> xrun ab i fs c = Go () (c\<lparr>cpu_mem := m1\<rparr>))"

lemma out_Nil: "out_code [] m m"
  by (simp add: out_code_def)

lemma out_mov: "out_code fs (g m) m1 \<Longrightarrow> out_code (mov g # fs) m m1"
  by (simp add: out_code_def mov_def xtest_def)

lemma out_if: "b m \<Longrightarrow> out_code (f # fs) m m1 \<Longrightarrow> out_code (instr_if b f # fs) m m1"
  unfolding out_code_def by (simp add: xrun_if del: xrun.simps)

lemma out_if_not: "\<not> b m \<Longrightarrow> out_code fs m m1 \<Longrightarrow> out_code (instr_if b f # fs) m m1"
  by (simp add: out_code_def instr_if_def xtest_def)

lemma out_append: "out_code fs m m1 \<Longrightarrow> out_code gs m1 m2 \<Longrightarrow> out_code (fs @ gs) m m2"
  by (simp add: out_code_def xrun_append)

text \<open>A whole transaction: up to its end, its end, and what follows.\<close>

lemma rtm_if_tx:
  assumes ab: "aborts_ok ab" and pre: "tx_code pre m r"
    and xe: "\<And>m1 c. r = Some m1 \<Longrightarrow> cpu_mem c = m1 \<Longrightarrow> f c = xend c"
    and post: "\<And>m1. r = Some m1 \<Longrightarrow> out_code post m1 m2"
  shows "\<exists>c. rtm_if ab (pre @ f # post) (mov fb) (cpu_at m) = Go () c \<and>
    cpu_mem c = (if (\<exists>i \<le> length pre. ab i \<noteq> None) \<or> r = None then fb m else m2)"
proof -
  let ?c = "(cpu_at m)\<lparr>cpu_nest := 1, cpu_saved := m\<rparr>"
  have b: "cpu_nest (cpu_at m) = 0" "cpu_mem (cpu_at m) = m" by (simp_all add: cpu_at_def)
  have out: "\<exists>c. rtm_if ab (pre @ f # post) (mov fb) (cpu_at m) = Go () c \<and> cpu_mem c = fb m"
    if "rolled_back ?c (xrun ab 0 (pre @ f # post) ?c)"
  proof -
    from that obtain st where st: "abort_status st" "xrun ab 0 (pre @ f # post) ?c = Resume st (?c\<lparr>cpu_mem := m, cpu_nest := 0\<rparr>)"
      by (auto simp: rolled_back_def)
    have "rtm_if ab (pre @ f # post) (mov fb) (cpu_at m) = mov fb (?c\<lparr>cpu_mem := m, cpu_nest := 0\<rparr>)"
      using st(2) b by (intro rtm_if_resume [OF _ b(1) st(1)]) simp
    then show ?thesis by (simp add: mov_def)
  qed
  have pre': "tx_result ?c (\<exists>j < length pre. ab j \<noteq> None) r (xrun ab 0 pre ?c)"
    using tx_codeD [OF pre ab, of ?c 0] b by simp
  show ?thesis
  proof (cases "(\<exists>j < length pre. ab j \<noteq> None) \<or> r = None")
    case True
    with pre' have "rolled_back ?c (xrun ab 0 (pre @ f # post) ?c)"
      by (auto simp: tx_result_def xrun_append rolled_back_def)
    with True out show ?thesis by (auto dest: less_imp_le)
  next
    case False
    then obtain m1 where m1: "r = Some m1" by auto
    with False pre' have run: "xrun ab 0 (pre @ f # post) ?c = xrun ab (length pre) (f # post) (?c\<lparr>cpu_mem := m1\<rparr>)"
      by (auto simp: tx_result_def xrun_append)
    show ?thesis
    proof (cases "ab (length pre)")
      case None
      have "xrun ab (length pre) (f # post) (?c\<lparr>cpu_mem := m1\<rparr>) = Go () (?c\<lparr>cpu_nest := 0, cpu_mem := m2\<rparr>)"
        using post [OF m1] xe [OF m1] None by (simp add: xend_def out_code_def)
      with run rtm_if_go [of ab "pre @ f # post" "cpu_at m"] b
      have "rtm_if ab (pre @ f # post) (mov fb) (cpu_at m) = Go () (?c\<lparr>cpu_nest := 0, cpu_mem := m2\<rparr>)" by simp
      then show ?thesis using False None by (auto simp: le_less)
    next
      case (Some st)
      have "rolled_back ?c (xrun ab 0 (pre @ f # post) ?c)"
        using run Some aborts_okD [OF ab Some] tx_abort_rolled [of "?c\<lparr>cpu_mem := m1\<rparr>" st]
        by (simp add: xtest_def rolled_back_def)
      with Some out show ?thesis by auto
    qed
  qed
qed

lemmas tx_rules = tx_mov tx_if tx_if_not tx_abort_not tx_abort_if tx_Nil out_mov out_if out_if_not out_Nil

text \<open>Such a transaction is one step, which takes effect (\<open>s1\<close>) or does not (\<open>a\<close>).\<close>

lemma one_step:
  assumes "\<exists>c. X = Go () c \<and> f (cpu_mem c) = (if (\<exists>i \<le> n. ab i \<noteq> None) \<or> \<not> L then a else b)" "s1 = (if L then b else a)"
  shows "\<exists>c tx. X = Go () c \<and> f (cpu_mem c) = (if tx then s1 else a) \<and> ((\<forall>i. ab i = None) \<longrightarrow> tx)"
  using assms by (cases "\<exists>i \<le> n. ab i \<noteq> None") auto

lemma third_aborts_ok: "aborts_ok third_aborts"
  by (simp add: aborts_ok_def third_aborts_def abort_status_def XABORT_CONFLICT_def)

end
