(* ===== verification/Commit_Tx.thy ===== *)
theory Commit_Tx
  imports Tsx_Rules Commit_Record
begin

text \<open>
  The transactions of \<open>src/mem-record-rtmcommit.c\<close> on the level of their instructions. They begin in the
  first access of a block and end in the last one, or when the thread ends: in between the thread
  returns to the test program and calls the recorder again. A block in a transaction, which the
  processor may abort at every instruction, is one step of the machine of \<open>Commit_Record\<close>.
\<close>

section \<open>The instructions\<close>

text \<open>The state of a recording with the local variables \<open>val\<close> of the access and \<open>ts\<close> of \<open>bb_end\<close>.\<close>

type_synonym commit_mem = "cstate \<times> val_t \<times> 64 word"

text \<open>The branch of \<open>bb_end\<close> inside a transaction, called under a condition on the thread.\<close>

definition thr_if :: "tid_t \<Rightarrow> (cthr \<Rightarrow> bool) \<Rightarrow> commit_mem instr \<Rightarrow> commit_mem instr" where
  "thr_if t b = instr_if (\<lambda>(s, _, _). b (cs_thr s t))"

definition bb_end_tx :: "tid_t \<Rightarrow> (cthr \<Rightarrow> bool) \<Rightarrow> commit_mem instr list" where
  "bb_end_tx t b =
     map (thr_if t b)
       [abort_if (\<lambda>(s, _, _). \<not> ticket_lockable (g_lock s)) 1,
        mov (\<lambda>(s, val, _). (s, val, g_time s)),
        mov (\<lambda>(s, val, ts). (s\<lparr>g_time := ts + 1\<rparr>, val, ts)),
        xend,
        mov (\<lambda>(s, val, ts). (set_cthr t (log_commit ts (cs_thr s t)) s, val, ts))]"

text \<open>\<open>mem_read\<close> and \<open>mem_write\<close> after \<open>bb_start\<close>: the access, the end of the block in its last access,
  the count and the return. A thread at its end makes no access.\<close>

definition commit_running :: "test_prog \<Rightarrow> tid_t \<Rightarrow> cthr \<Rightarrow> bool" where
  "commit_running P t r \<longleftrightarrow> tp_code P t (ct_vals r) \<noteq> Finish"

definition acc_load :: "test_prog \<Rightarrow> tid_t \<Rightarrow> commit_mem \<Rightarrow> commit_mem" where
  "acc_load P t = (\<lambda>(s, val, ts).
     case tp_code P t (ct_vals (cs_thr s t)) of
       Read a \<Rightarrow> (s, cs_mem s a, ts)
     | Write a v \<Rightarrow> (s\<lparr>cs_mem := (cs_mem s)(a := v)\<rparr>, v, ts)
     | Finish \<Rightarrow> (s, val, ts))"

definition block_last :: "cthr \<Rightarrow> bool" where
  "block_last r \<longleftrightarrow> g_sim_bbcnt r mod RTM_BATCH_N = RTM_BATCH_N - 1"

definition acc_return :: "tid_t \<Rightarrow> commit_mem \<Rightarrow> commit_mem" where
  "acc_return t = (\<lambda>(s, val, ts).
     (let r = cs_thr s t
      in (set_cthr t (r\<lparr>ct_vals := ct_vals r @ [val], g_sim_bbcnt := g_sim_bbcnt r + 1\<rparr>) s, val, ts)))"

definition commit_acc_instrs :: "test_prog \<Rightarrow> tid_t \<Rightarrow> commit_mem instr list" where
  "commit_acc_instrs P t =
     mov (acc_load P t) # bb_end_tx t (\<lambda>r. commit_running P t r \<and> block_last r) @
     [thr_if t (commit_running P t) (mov (acc_return t))]"

text \<open>\<open>mem_finish_thr\<close> of a thread that ends inside a block.\<close>

definition commit_finish_instrs :: "test_prog \<Rightarrow> tid_t \<Rightarrow> commit_mem instr list" where
  "commit_finish_instrs P t =
     (let b = (\<lambda>r. \<not> commit_running P t r \<and> g_sim_bbcnt r mod RTM_BATCH_N \<noteq> 0)
      in bb_end_tx t b @ [thr_if t b (mov (\<lambda>(s, val, ts). (cgoto t CDone s, val, ts)))])"

definition commit_block :: "(nat \<Rightarrow> 32 word option) \<Rightarrow> test_prog \<Rightarrow> tid_t \<Rightarrow> cstate \<Rightarrow> (unit, commit_mem) flow" where
  "commit_block ab P t s =
     rtm_if ab (concat (replicate RTM_BATCH_N (commit_acc_instrs P t)) @ commit_finish_instrs P t)
       (mov (\<lambda>(s, val, ts). (cgoto t CLock s, val, ts))) (cpu_at (s, 0, 0))"

section \<open>A block of the rtmcommit recorder\<close>

text \<open>One access of a block, with its value and its return.\<close>

definition acc_state :: "test_prog \<Rightarrow> tid_t \<Rightarrow> commit_mem \<Rightarrow> commit_mem" where
  "acc_state P t m = (if commit_running P t (cs_thr (fst m) t) then acc_return t (acc_load P t m) else m)"

lemma acc_load_same [simp]:
  "cs_thr (fst (acc_load P t m)) = cs_thr (fst m)" "g_lock (fst (acc_load P t m)) = g_lock (fst m)"
  "g_time (fst (acc_load P t m)) = g_time (fst m)"
  by (cases m; simp add: acc_load_def split: action.split)+

lemma acc_load_thr: "acc_load P t m = (s, val, ts) \<Longrightarrow> cs_thr s = cs_thr (fst m)"
  using acc_load_same(1) [of P t m] by simp

lemma bb_end_tx_skip:
  assumes "\<not> b (cs_thr (fst m) t)"
  shows "tx_code (bb_end_tx t b) m (Some m)" "out_code (bb_end_tx t b) m m"
  using assms by (cases m; simp add: bb_end_tx_def thr_if_def tx_rules)+

lemma thr_if_tx:
  "b (cs_thr (fst m) t) \<Longrightarrow> tx_code (f # fs) m r \<Longrightarrow> tx_code (thr_if t b f # fs) m r"
  "\<not> b (cs_thr (fst m) t) \<Longrightarrow> tx_code fs m r \<Longrightarrow> tx_code (thr_if t b f # fs) m r"
  "b (cs_thr (fst m) t) \<Longrightarrow> out_code (f # fs) m m1 \<Longrightarrow> out_code (thr_if t b f # fs) m m1"
  "\<not> b (cs_thr (fst m) t) \<Longrightarrow> out_code fs m m1 \<Longrightarrow> out_code (thr_if t b f # fs) m m1"
  by (cases m; simp add: thr_if_def tx_rules)+

lemma acc_load_idle: "\<not> commit_running P t (cs_thr (fst m) t) \<Longrightarrow> acc_load P t m = m"
  by (cases m) (simp add: acc_load_def commit_running_def)

text \<open>An access that is not the last of its block.\<close>

lemma commit_acc_mid:
  assumes "commit_running P t (cs_thr (fst m) t) \<Longrightarrow> \<not> block_last (cs_thr (fst m) t)"
  shows "tx_code (commit_acc_instrs P t) m (Some (acc_state P t m))"
proof -
  have bb: "tx_code (bb_end_tx t (\<lambda>r. commit_running P t r \<and> block_last r)) (acc_load P t m) (Some (acc_load P t m))"
    using assms by (intro bb_end_tx_skip(1)) auto
  have "tx_code [thr_if t (commit_running P t) (mov (acc_return t))] (acc_load P t m) (Some (acc_state P t m))"
    by (cases "commit_running P t (cs_thr (fst m) t)") (simp_all add: tx_mov tx_Nil thr_if_tx acc_state_def acc_load_idle)
  then show ?thesis unfolding commit_acc_instrs_def by (intro tx_mov tx_append [OF bb])
qed

text \<open>The end of a block: up to \<open>_xend\<close> and after it.\<close>

definition bb_end_pre :: "tid_t \<Rightarrow> (cthr \<Rightarrow> bool) \<Rightarrow> commit_mem instr list" where
  "bb_end_pre t b = take 3 (bb_end_tx t b)"

definition bb_end_post :: "tid_t \<Rightarrow> (cthr \<Rightarrow> bool) \<Rightarrow> commit_mem instr list" where
  "bb_end_post t b = drop 4 (bb_end_tx t b)"

lemma bb_end_split: "bb_end_tx t b = bb_end_pre t b @ thr_if t b xend # bb_end_post t b"
  by (simp add: bb_end_pre_def bb_end_post_def bb_end_tx_def)

definition stamped :: "commit_mem \<Rightarrow> commit_mem option" where
  "stamped = (\<lambda>(s, val, _). if ticket_lockable (g_lock s) then Some (s\<lparr>g_time := g_time s + 1\<rparr>, val, g_time s) else None)"

definition logged :: "tid_t \<Rightarrow> commit_mem \<Rightarrow> commit_mem" where
  "logged t = (\<lambda>(s, val, ts). (set_cthr t (log_commit ts (cs_thr s t)) s, val, ts))"

lemma bb_end_pre_tx:
  assumes "b (cs_thr (fst m) t)"
  shows "tx_code (bb_end_pre t b) m (stamped m)"
  using assms
  by (cases m) (auto simp: bb_end_pre_def bb_end_tx_def stamped_def thr_if_def intro!: tx_if tx_abort_not tx_abort_if tx_mov tx_Nil)

lemma bb_end_post_out:
  assumes "b (cs_thr (fst m) t)" "out_code fs (logged t m) m1"
  shows "out_code (bb_end_post t b @ fs) m m1"
  using assms by (cases m) (auto simp: bb_end_post_def bb_end_tx_def logged_def intro!: thr_if_tx(3) out_mov)

lemma stamped_thr:
  assumes "stamped m = Some m1"
  shows "cs_thr (fst m1) = cs_thr (fst m)"
  using assms by (cases m) (auto simp: stamped_def split: if_splits)

text \<open>The accesses of a block.\<close>

lemma part_block_strict:
  "tp_code P t (fst vm) \<noteq> Finish \<Longrightarrow> length (fst vm) < length (fst (part_block P t (Suc k) vm))"
  by (induction k) (auto simp: part_block_Suc do_access_length)

lemma part_block_len:
  "length (fst vm) \<le> length (fst (part_block P t k vm)) \<and> length (fst (part_block P t k vm)) \<le> length (fst vm) + k"
  by (induction k) (auto simp: part_block_Suc do_access_length)

definition acc_states :: "test_prog \<Rightarrow> tid_t \<Rightarrow> nat \<Rightarrow> commit_mem \<Rightarrow> commit_mem" where
  "acc_states P t k = acc_state P t ^^ k"

lemma acc_states_Suc: "acc_states P t (Suc k) m = acc_state P t (acc_states P t k m)"
  by (simp add: acc_states_def)

lemma acc_state_cnt:
  "g_sim_bbcnt (cs_thr (fst (acc_state P t m)) t) =
     (if commit_running P t (cs_thr (fst m) t) then Suc (g_sim_bbcnt (cs_thr (fst m) t)) else g_sim_bbcnt (cs_thr (fst m) t))"
  using acc_load_thr [of P t m] by (auto simp: acc_state_def acc_return_def Let_def split: prod.split)

lemma acc_states_cnt:
  "commit_running P t (cs_thr (fst (acc_states P t k m)) t) \<Longrightarrow>
     g_sim_bbcnt (cs_thr (fst (acc_states P t k m)) t) = g_sim_bbcnt (cs_thr (fst m) t) + k"
proof (induction k)
  case (Suc k)
  then have "commit_running P t (cs_thr (fst (acc_states P t k m)) t)" by (auto simp: acc_states_Suc acc_state_def split: if_splits)
  with Suc.IH show ?case by (simp add: acc_states_Suc acc_state_cnt)
qed (simp add: acc_states_def)

lemma commit_accs_tx:
  assumes "g_sim_bbcnt (cs_thr (fst m) t) mod RTM_BATCH_N = 0" "k < RTM_BATCH_N"
  shows "tx_code (concat (replicate k (commit_acc_instrs P t))) m (Some (acc_states P t k m))"
  using assms(2)
proof (induction k)
  case 0
  then show ?case by (simp add: acc_states_def tx_Nil)
next
  case (Suc k)
  have "\<not> block_last (cs_thr (fst (acc_states P t k m)) t)" if "commit_running P t (cs_thr (fst (acc_states P t k m)) t)"
    using acc_states_cnt [OF that] assms(1) Suc.prems mod_add_left_eq [of "g_sim_bbcnt (cs_thr (fst m) t)" RTM_BATCH_N k]
    by (simp add: block_last_def)
  from tx_append [OF Suc.IH commit_acc_mid [OF this]] Suc.prems show ?case
    by (simp add: acc_states_Suc replicate_append_same [symmetric])
qed

lemma acc_states_view:
  fixes P s t k
  defines "vm \<equiv> part_block P t k (ct_vals (cs_thr s t), cs_mem s)"
  shows "fst (acc_states P t k (s, val, ts)) =
    set_cthr t ((cs_thr s t)\<lparr>ct_vals := fst vm,
        g_sim_bbcnt := g_sim_bbcnt (cs_thr s t) + (length (fst vm) - length (ct_vals (cs_thr s t)))\<rparr>) (s\<lparr>cs_mem := snd vm\<rparr>)"
  unfolding vm_def
proof (induction k)
  case 0
  show ?case by (simp add: acc_states_def set_cthr_def)
next
  case (Suc k)
  obtain s1 val1 ts1 where m: "acc_states P t k (s, val, ts) = (s1, val1, ts1)" by (cases "acc_states P t k (s, val, ts)")
  have "length (ct_vals (cs_thr s t)) \<le> length (fst (part_block P t k (ct_vals (cs_thr s t), cs_mem s)))"
    using part_block_len [of "(ct_vals (cs_thr s t), cs_mem s)" P t k] by simp
  with Suc show ?case
    by (auto simp: m acc_states_Suc acc_state_def acc_load_def acc_return_def commit_running_def part_block_Suc do_access_def
        set_cthr_def Let_def Suc_diff_le split: action.splits)
qed

lemma commit_tx_result:
  assumes "aborts_ok ab" "tx_code pre (s, 0, 0) r"
    and "\<And>m1. r = Some m1 \<Longrightarrow> b (cs_thr (fst m1) t)" "\<And>m1. r = Some m1 \<Longrightarrow> out_code post m1 (F m1)"
  shows "\<exists>c. rtm_if ab (pre @ thr_if t b xend # post) (mov (\<lambda>(s, val, ts). (cgoto t CLock s, val, ts))) (cpu_at (s, 0, 0)) = Go () c \<and>
    fst (cpu_mem c) = (if (\<exists>i \<le> length pre. ab i \<noteq> None) \<or> r = None then cgoto t CLock s else fst (F (the r)))"
proof -
  have "thr_if t b xend c = xend c" if "r = Some m1" "cpu_mem c = m1" for m1 c
    using assms(3) [OF that(1)] that(2) by (cases m1) (simp add: thr_if_def instr_if_def)
  then have "\<exists>c. rtm_if ab (pre @ thr_if t b xend # post) (mov (\<lambda>(s, val, ts). (cgoto t CLock s, val, ts))) (cpu_at (s, 0, 0)) = Go () c \<and>
    cpu_mem c = (if (\<exists>i \<le> length pre. ab i \<noteq> None) \<or> r = None then (\<lambda>(s, val, ts). (cgoto t CLock s, val, ts)) (s, 0, 0) else F (the r))"
    using assms(4) by (intro rtm_if_tx [OF assms(1,2)]) auto
  then show ?thesis by auto
qed

text \<open>The two ways in which a block comes to its end: with the last access, and with the thread.\<close>

lemma commit_block_last:
  fixes P t s
  defines "m \<equiv> acc_states P t (RTM_BATCH_N - 1) (s, 0, 0)"
  assumes "aborts_ok ab" "g_sim_bbcnt (cs_thr s t) mod RTM_BATCH_N = 0" "commit_running P t (cs_thr (fst m) t)"
  shows "\<exists>c. commit_block ab P t s = Go () c \<and> fst (cpu_mem c) =
    (if (\<exists>i \<le> length (concat (replicate (RTM_BATCH_N - 1) (commit_acc_instrs P t))) + 4. ab i \<noteq> None) \<or> stamped (acc_load P t m) = None
     then cgoto t CLock s else fst (acc_return t (logged t (the (stamped (acc_load P t m))))))"
proof -
  let ?A = "commit_acc_instrs P t" and ?b = "\<lambda>r. commit_running P t r \<and> block_last r"
  let ?fin = "\<lambda>r. \<not> commit_running P t r \<and> g_sim_bbcnt r mod RTM_BATCH_N \<noteq> 0"
  let ?pre = "concat (replicate (RTM_BATCH_N - 1) ?A) @ mov (acc_load P t) # bb_end_pre t ?b"
  let ?post = "bb_end_post t ?b @ thr_if t (commit_running P t) (mov (acc_return t)) # commit_finish_instrs P t"
  have "replicate RTM_BATCH_N ?A = replicate (RTM_BATCH_N - 1) ?A @ [?A]"
    by (metis N_pos(1) Suc_diff_1 replicate_append_same replicate_Suc)
  then have code: "concat (replicate RTM_BATCH_N ?A) @ commit_finish_instrs P t = ?pre @ thr_if t ?b xend # ?post"
    by (simp add: commit_acc_instrs_def bb_end_split)
  have len: "length ?pre = length (concat (replicate (RTM_BATCH_N - 1) ?A)) + 4" by (simp add: bb_end_pre_def bb_end_tx_def)
  have cnt: "g_sim_bbcnt (cs_thr (fst m) t) mod RTM_BATCH_N = RTM_BATCH_N - 1"
    using acc_states_cnt [OF assms(4) [unfolded m_def]] assms(3)
      mod_add_left_eq [of "g_sim_bbcnt (cs_thr s t)" RTM_BATCH_N "RTM_BATCH_N - 1"] by (simp add: m_def)
  then have b: "?b (cs_thr (fst (acc_load P t m)) t)" using assms(4) by (simp add: block_last_def)
  have accs: "tx_code (concat (replicate (RTM_BATCH_N - 1) ?A)) (s, 0, 0) (Some m)"
    unfolding m_def using assms(3) by (intro commit_accs_tx) simp_all
  have pre: "tx_code ?pre (s, 0, 0) (stamped (acc_load P t m))"
    using bb_end_pre_tx [of ?b, OF b] by (intro tx_append [OF accs] tx_mov)
  have post: "out_code ?post m1 (acc_return t (logged t m1))" "?b (cs_thr (fst m1) t)" if "stamped (acc_load P t m) = Some m1" for m1
  proof -
    obtain s1 val ts where m1: "m1 = (s1, val, ts)" by (cases m1)
    have thr: "cs_thr s1 = cs_thr (fst m)" using stamped_thr [OF that] by (simp add: m1)
    show b1: "?b (cs_thr (fst m1) t)" using b thr by (simp add: m1)
    have "\<not> ?fin (cs_thr (fst (acc_return t (logged t m1))) t)"
      using cnt by (simp add: m1 logged_def acc_return_def log_commit_def thr mod_Suc Let_def)
    then have "out_code (commit_finish_instrs P t) (acc_return t (logged t m1)) (acc_return t (logged t m1))"
      unfolding commit_finish_instrs_def Let_def
      by (intro out_append [OF bb_end_tx_skip(2)] thr_if_tx(4) out_Nil)
    moreover have "commit_running P t (cs_thr (fst (logged t m1)) t)"
      using assms(4) by (simp add: m1 logged_def log_commit_def thr commit_running_def)
    ultimately show "out_code ?post m1 (acc_return t (logged t m1))"
      by (intro bb_end_post_out [of ?b, OF b1] thr_if_tx(3) out_mov)
  qed
  from commit_tx_result [where b = ?b, OF assms(2) pre post(2,1)] show ?thesis unfolding commit_block_def code len .
qed

lemma commit_block_finish:
  fixes P t s
  defines "m \<equiv> acc_states P t (RTM_BATCH_N - 1) (s, 0, 0)"
  assumes "aborts_ok ab" "g_sim_bbcnt (cs_thr s t) mod RTM_BATCH_N = 0" "\<not> commit_running P t (cs_thr (fst m) t)"
    and "g_sim_bbcnt (cs_thr (fst m) t) mod RTM_BATCH_N \<noteq> 0"
  shows "\<exists>c. commit_block ab P t s = Go () c \<and> fst (cpu_mem c) =
    (if (\<exists>i \<le> length (concat (replicate RTM_BATCH_N (commit_acc_instrs P t))) + 3. ab i \<noteq> None) \<or> stamped m = None
     then cgoto t CLock s else cgoto t CDone (fst (logged t (the (stamped m)))))"
proof -
  let ?A = "commit_acc_instrs P t" and ?b = "\<lambda>r. \<not> commit_running P t r \<and> g_sim_bbcnt r mod RTM_BATCH_N \<noteq> 0"
  let ?fin = "\<lambda>(s, val, ts). (cgoto t CDone s, val, ts)"
  let ?pre = "concat (replicate RTM_BATCH_N ?A) @ bb_end_pre t ?b"
  let ?post = "bb_end_post t ?b @ [thr_if t ?b (mov ?fin)]"
  have rep: "replicate RTM_BATCH_N ?A = replicate (RTM_BATCH_N - 1) ?A @ [?A]"
    by (metis N_pos(1) Suc_diff_1 replicate_append_same replicate_Suc)
  have code: "concat (replicate RTM_BATCH_N ?A) @ commit_finish_instrs P t = ?pre @ thr_if t ?b xend # ?post"
    by (simp add: commit_finish_instrs_def bb_end_split Let_def)
  have len: "length ?pre = length (concat (replicate RTM_BATCH_N ?A)) + 3" by (simp add: bb_end_pre_def bb_end_tx_def)
  have b: "?b (cs_thr (fst m) t)" using assms(4,5) by simp
  have "tx_code ?A m (Some m)" using commit_acc_mid [of P t m] assms(4) by (simp add: acc_state_def)
  then have "tx_code (concat (replicate RTM_BATCH_N ?A)) (s, 0, 0) (Some m)"
    using tx_append [OF commit_accs_tx [of "(s, 0, 0)" t "RTM_BATCH_N - 1" P]] assms(3) unfolding rep m_def by simp
  then have pre: "tx_code ?pre (s, 0, 0) (stamped m)"
    using bb_end_pre_tx [of ?b, OF b] by (rule tx_append)
  have post: "out_code ?post m1 (?fin (logged t m1))" "?b (cs_thr (fst m1) t)" if "stamped m = Some m1" for m1
  proof -
    obtain s1 val ts where m1: "m1 = (s1, val, ts)" by (cases m1)
    have thr: "cs_thr s1 = cs_thr (fst m)" using stamped_thr [OF that] by (simp add: m1)
    show b1: "?b (cs_thr (fst m1) t)" using b thr by (simp add: m1)
    have "?b (cs_thr (fst (logged t m1)) t)" using b by (simp add: m1 logged_def log_commit_def thr commit_running_def)
    then show "out_code ?post m1 (?fin (logged t m1))"
      by (intro bb_end_post_out [of ?b, OF b1] thr_if_tx(3) out_mov out_Nil)
  qed
  have fin: "fst (?fin x) = cgoto t CDone (fst x)" for x by (cases x) simp
  from commit_tx_result [where b = ?b, OF assms(2) pre post(2,1)] show ?thesis
    unfolding commit_block_def code len fin .
qed

text \<open>What the machine does in one step.\<close>

lemma stamped_eq: "stamped m = (if ticket_lockable (g_lock (fst m)) then
    Some ((fst m)\<lparr>g_time := g_time (fst m) + 1\<rparr>, fst (snd m), g_time (fst m)) else None)"
  by (simp add: stamped_def case_prod_unfold)

lemma acc_states_lock: "g_lock (fst (acc_states P t k (s, val, ts))) = g_lock s" "g_time (fst (acc_states P t k (s, val, ts))) = g_time s"
  by (simp_all add: acc_states_view)

lemma commit_tx_eq:
  "commit_tx P t s =
     (if ticket_lockable (g_lock s)
      then let s1 = fst (logged t (the (stamped (acc_states P t RTM_BATCH_N (s, val, ts)))))
           in cgoto t (if g_sim_bbcnt (cs_thr (fst (acc_states P t RTM_BATCH_N (s, val, ts))) t) mod RTM_BATCH_N \<noteq> 0
                then CDone else CRun) s1
      else cgoto t CLock s)"
  by (cases "cs_thr s t")
    (simp add: commit_tx_def run_block_def stamped_eq logged_def acc_states_view Let_def case_prod_unfold
      cgoto_def set_cthr_def log_commit_def)

lemma acc_states_short:
  assumes "g_sim_bbcnt (cs_thr s t) mod RTM_BATCH_N = 0" "tp_code P t (ct_vals (cs_thr s t)) \<noteq> Finish"
  shows "g_sim_bbcnt (cs_thr (fst (acc_states P t (RTM_BATCH_N - 1) (s, val, ts))) t) mod RTM_BATCH_N \<noteq> 0"
proof -
  define d where "d = length (fst (part_block P t (RTM_BATCH_N - 1) (ct_vals (cs_thr s t), cs_mem s))) - length (ct_vals (cs_thr s t))"
  have "RTM_BATCH_N - 1 = Suc (RTM_BATCH_N - 2)" by (simp add: RTM_BATCH_N_def)
  then have "0 < d" using part_block_strict [of P t "(ct_vals (cs_thr s t), cs_mem s)" "RTM_BATCH_N - 2"] assms(2) by (simp add: d_def)
  moreover have "d < RTM_BATCH_N"
    using part_block_len [of "(ct_vals (cs_thr s t), cs_mem s)" P t "RTM_BATCH_N - 1"] by (auto simp: d_def RTM_BATCH_N_def)
  moreover have "g_sim_bbcnt (cs_thr (fst (acc_states P t (RTM_BATCH_N - 1) (s, val, ts))) t) = g_sim_bbcnt (cs_thr s t) + d"
    by (simp add: acc_states_view d_def)
  ultimately show ?thesis using assms(1) mod_add_left_eq [of "g_sim_bbcnt (cs_thr s t)" RTM_BATCH_N d] by simp
qed

lemma acc_return_late:
  assumes "commit_running P t (cs_thr (fst m) t)" "ticket_lockable (g_lock (fst m))"
  shows "fst (acc_return t (logged t (the (stamped (acc_load P t m))))) = fst (logged t (the (stamped (acc_state P t m))))"
proof -
  obtain s val ts where l: "acc_load P t m = (s, val, ts)" by (cases "acc_load P t m")
  have "ticket_lockable (g_lock s)" using assms(2) acc_load_same(2) [of P t m] by (simp add: l)
  then show ?thesis using assms(1)
    by (cases "cs_thr s t") (simp add: l acc_state_def stamped_eq logged_def acc_return_def log_commit_def set_cthr_def)
qed

lemma stamped_None: "stamped m = None \<longleftrightarrow> \<not> ticket_lockable (g_lock (fst m))"
  by (simp add: stamped_eq)

text \<open>C23: the transactions of \<open>src/mem-record-rtmcommit.c\<close> are steps of the machine. A block begins with
  \<open>_xbegin\<close> in its first access and ends with \<open>_xend\<close> in its last one or in \<open>mem_finish_thr\<close>; whatever the
  instructions in between at which the processor aborts it, and whatever the abort codes (with the reserved
  bits clear), the thread comes to the state of one step of the machine, in which the whole block has
  taken effect at once or the thread is about to draw a ticket of the lock. Without an abort by the
  processor it is the step in which the transaction succeeds.\<close>

theorem commit_transactions:
  assumes "aborts_ok ab" "ct_pc (cs_thr s t) = CRun" "g_sim_bbcnt (cs_thr s t) mod RTM_BATCH_N = 0"
    and "tp_code P t (ct_vals (cs_thr s t)) \<noteq> Finish"
  shows "\<exists>c tx. commit_block ab P t s = Go () c \<and> fst (cpu_mem c) = commit_step P tx t s \<and> ((\<forall>i. ab i = None) \<longrightarrow> tx)"
proof -
  let ?m = "acc_states P t (RTM_BATCH_N - 1) (s, 0, 0)" and ?M = "acc_states P t RTM_BATCH_N (s, 0, 0)"
  let ?s1 = "fst (logged t (the (stamped ?M)))"
  have step: "commit_step P tx t s = (if tx then commit_tx P t s else cgoto t CLock s)" for tx
    using assms by (simp add: commit_step_def)
  have M: "?M = acc_state P t ?m" using acc_states_Suc [of P t "RTM_BATCH_N - 1"] by simp
  note lock = acc_states_lock(1) [of P t _ s 0 0]
  have tx: "commit_tx P t s = (if ticket_lockable (g_lock s)
      then cgoto t (if g_sim_bbcnt (cs_thr (fst ?M) t) mod RTM_BATCH_N \<noteq> 0 then CDone else CRun) ?s1 else cgoto t CLock s)"
    using commit_tx_eq [of P t s 0 0] by (simp add: Let_def)
  show ?thesis
  proof (cases "commit_running P t (cs_thr (fst ?m) t)")
    case True
    have "g_sim_bbcnt (cs_thr (fst ?M) t) = g_sim_bbcnt (cs_thr s t) + RTM_BATCH_N"
      using acc_states_cnt [OF True] True by (simp add: M acc_state_cnt)
    then have "commit_tx P t s = ?s1" if "ticket_lockable (g_lock s)"
      using that assms(2,3) unfolding tx
      by (cases "cs_thr s t") (simp add: cgoto_def set_cthr_def stamped_eq lock logged_def log_commit_def acc_states_view)
    then have "commit_tx P t s = (if ticket_lockable (g_lock s)
        then fst (acc_return t (logged t (the (stamped (acc_load P t ?m))))) else cgoto t CLock s)"
      using acc_return_late [OF True] by (simp add: lock M tx)
    from one_step [OF commit_block_last [OF assms(1,3) True, unfolded stamped_None acc_load_same lock] this] show ?thesis
      unfolding step .
  next
    case False
    note short = acc_states_short [OF assms(3,4)]
    have "?M = ?m" using M False by (simp add: acc_state_def)
    then have "commit_tx P t s = (if ticket_lockable (g_lock s)
        then cgoto t CDone (fst (logged t (the (stamped ?m)))) else cgoto t CLock s)"
      using short [of 0 0] by (simp add: tx)
    from one_step [OF commit_block_finish [OF assms(1,3) False short, unfolded stamped_None lock] this] show ?thesis
      unfolding step .
  qed
qed

theorem commit_transactions_witness:
  "\<exists>c tx. commit_block third_aborts tx_prog 0 (commit_init tx_prog) = Go () c \<and>
     fst (cpu_mem c) = commit_step tx_prog tx 0 (commit_init tx_prog)"
  using commit_transactions [OF third_aborts_ok, of "commit_init tx_prog" 0 tx_prog]
  by (auto simp: commit_init_def tx_prog_def)

end
