(* ===== verification/Cluster_Tx.thy ===== *)
theory Cluster_Tx
  imports Tsx_Rules Cluster_Machine Commit_Blocks
begin

text \<open>
  The transactions of \<open>src/mem-record-rtmcluster.c\<close> on the level of their instructions. As in
  \<open>src/mem-record-rtmcommit.c\<close> they reach over several calls of \<open>mem_read\<close> and \<open>mem_write\<close>; every access
  looks for a writer in the fallback code and aborts the transaction when there is one. A block in a
  transaction is one step of the machine of \<open>Cluster_Machine\<close>.
\<close>

section \<open>The count of accesses\<close>

text \<open>The value of \<open>g_sim_bbcnt\<close> after \<open>n\<close> accesses.\<close>

definition bbcnt :: "nat \<Rightarrow> int" where
  "bbcnt n = sint (of_nat n :: 32 word)"

lemma bbcnt_range: "- (2 ^ 31) \<le> bbcnt n" "bbcnt n < 2 ^ 31"
  using sint_ge [of "of_nat n :: 32 word"] sint_lt [of "of_nat n :: 32 word"] by (simp_all add: bbcnt_def)

lemma bbcnt_Suc: "bbcnt (Suc n) = (if bbcnt n = 2 ^ 31 - 1 then - (2 ^ 31) else bbcnt n + 1)"
proof -
  have "bbcnt m = signed_take_bit 31 (int m)" for m
    unfolding bbcnt_def by (simp add: signed_of_nat del: of_nat_Suc)
  then have c: "bbcnt (Suc n) = signed_take_bit 31 (bbcnt n + 1)"
    using signed_take_bit_add [of 31 "int n" 1] by (simp add: add.commute)
  show ?thesis
  proof (cases "bbcnt n = 2 ^ 31 - 1")
    case True
    then show ?thesis using c by simp
  next
    case False
    then have "signed_take_bit 31 (bbcnt n + 1) = bbcnt n + 1" using bbcnt_range [of n] by (simp add: signed_take_bit_int_eq_self_iff)
    then show ?thesis using c False by simp
  qed
qed

lemma bbcnt_add: "i \<le> 7 \<Longrightarrow> bbcnt (n + i) = (if bbcnt n + int i < 2 ^ 31 then bbcnt n + int i else bbcnt n + int i - 2 ^ 32)"
proof (induction i)
  case 0
  then show ?case using bbcnt_range [of n] by simp
next
  case (Suc i)
  then show ?case using bbcnt_range [of n] by (auto simp: bbcnt_Suc split: if_splits)
qed

lemma bb_rem_bbcnt: "bb_rem n = (if bbcnt n < 0 then - ((- bbcnt n) mod 7) else bbcnt n mod 7)"
  by (auto simp add: bb_rem_def bbcnt_def signed_modulo_int_def RTM_BATCH_N_def sgn_if)

lemma less_7: "i < 7 \<longleftrightarrow> i \<in> {0, 1, 2, 3, 4, 5, 6}" for i :: nat
  by auto

lemma bb_rem_last: "bb_rem n = int RTM_BATCH_N - 1 \<Longrightarrow> bb_rem (Suc n) = 0"
proof -
  assume r: "bb_rem n = int RTM_BATCH_N - 1"
  have "0 \<le> bbcnt n"
    using r pos_mod_sign [of 7 "- bbcnt n"] by (auto simp: bb_rem_bbcnt RTM_BATCH_N_def split: if_splits)
  then have "bbcnt n mod 7 = 6" using r by (simp add: bb_rem_bbcnt RTM_BATCH_N_def)
  then have "bbcnt n \<noteq> 2 ^ 31 - 1" "(bbcnt n + 1) mod 7 = 0" by (auto simp: mod_eq_0_iff_dvd) presburger
  then show ?thesis using \<open>0 \<le> bbcnt n\<close> bbcnt_Suc [of n] by (simp add: bb_rem_bbcnt)
qed

text \<open>From the start of a block on, the remainders are those of a whole block, or the counter is negative or
  comes to wrap around: then the last one is never reached and a block would begin too early.\<close>

lemma bb_block:
  assumes "bb_rem n = 0"
  shows "(\<forall>i < 7. bb_rem (n + i) = int i) \<or> (\<forall>i < 7. bb_rem (n + i) \<noteq> 6) \<and> (\<exists>i < 7. bb_rem (n + Suc i) = 0)"
proof -
  have "7 dvd bbcnt n" using assms by (auto simp: bb_rem_bbcnt split: if_splits)
  then obtain k where k: "bbcnt n = 7 * k" by (rule dvdE)
  have add: "bbcnt (n + i) = (if 7 * k + int i < 2 ^ 31 then 7 * k + int i else 7 * k + int i - 2 ^ 32)" if "i \<le> 7" for i
    using bbcnt_add [OF that, of n] k by simp
  consider (whole) "0 \<le> k" "7 * k + 6 < 2 ^ 31" | (wrapped) "k < 0" | (wraps) "7 * k = 2 ^ 31 - 2"
    using bbcnt_range [of n] k by fastforce
  then show ?thesis
  proof cases
    case whole
    have "bb_rem (n + i) = int i" if "i < 7" for i
      using whole that add [of i] by (simp add: bb_rem_bbcnt)
    then show ?thesis by blast
  next
    case wrapped
    have "bb_rem (n + i) \<noteq> 6" if "i < 7" for i
    proof -
      have "bbcnt (n + i) < 0" using wrapped that add [of i] by simp
      then show ?thesis using pos_mod_sign [of 7 "- bbcnt (n + i)"] by (simp add: bb_rem_bbcnt)
    qed
    moreover have "bb_rem (n + Suc 6) = 0" using wrapped add [of 7] by (simp add: bb_rem_bbcnt)
    ultimately show ?thesis by (intro disjI2 conjI exI [of _ 6]) simp_all
  next
    case wraps
    have "bb_rem (n + i) \<noteq> 6" if "i < 7" for i
      using wraps that add [of i] unfolding less_7 by (auto simp: bb_rem_bbcnt)
    moreover have "bb_rem (n + Suc 3) = 0" using wraps add [of 4] by (simp add: bb_rem_bbcnt)
    ultimately show ?thesis by (intro disjI2 conjI exI [of _ 3]) simp_all
  qed
qed

section \<open>The instructions\<close>

text \<open>The state of a recording with the local variables \<open>version\<close> and \<open>val\<close> is the memory, as for the
  rtmseq recorder. The access that comes next, and its object:\<close>

definition acc_next :: "test_prog \<Rightarrow> tid_t \<Rightarrow> 's rtm_mem \<Rightarrow> action" where
  "acc_next P t = (\<lambda>(s, _, _). tp_code P t (qt_vals (qs_thr s t)))"

definition acc_info :: "test_prog \<Rightarrow> tid_t \<Rightarrow> 's rtm_mem \<Rightarrow> objinfo" where
  "acc_info P t m = g_objinfo (fst m) ! tp_cid P (act_addr (acc_next P t m))"

fun is_read :: "action \<Rightarrow> bool" where
  "is_read (Read a) = True"
| "is_read x = False"

fun is_write :: "action \<Rightarrow> bool" where
  "is_write (Write a v) = True"
| "is_write x = False"

text \<open>\<open>mem_read\<close> and \<open>mem_write\<close> inside a transaction, up to the end of the block: the version, the test
  for a writer in the fallback code, the load or the store, and the new version. A thread at its end makes
  no access.\<close>

definition cluster_body :: "test_prog \<Rightarrow> tid_t \<Rightarrow> 's rtm_mem instr list" where
  "cluster_body P t =
     [mov (\<lambda>m. case m of (s, version, val) \<Rightarrow> if acc_next P t m = Finish then m else (s, oi_version (acc_info P t m), val)),
      abort_if (\<lambda>m. is_read (acc_next P t m) \<and> odd (fst (snd m))) 1,
      abort_if (\<lambda>m. is_write (acc_next P t m) \<and> oi_write_lock (acc_info P t m) \<noteq> 0) 3,
      mov (\<lambda>m. case m of (s, version, val) \<Rightarrow>
        (case acc_next P t m of
           Read a \<Rightarrow> (s, version, qs_mem s a) | Write a v \<Rightarrow> (set_mem a v s, version, v) | Finish \<Rightarrow> m)),
      mov (\<lambda>m. case m of (s, version, val) \<Rightarrow>
        if is_write (acc_next P t m)
        then (set_version (tp_cid P (act_addr (acc_next P t m))) (oi_version (acc_info P t m) + 2) s, version, val) else m)]"

text \<open>The end of the transaction in the last access of a block, the log taking and the return.\<close>

definition cluster_cnt :: "tid_t \<Rightarrow> 's rtm_mem \<Rightarrow> int" where
  "cluster_cnt t m = bb_rem (length (qt_vals (qs_thr (fst m) t)))"

definition cluster_log :: "(tacc \<Rightarrow> 's \<Rightarrow> 's) \<Rightarrow> test_prog \<Rightarrow> tid_t \<Rightarrow> 's rtm_mem \<Rightarrow> 's rtm_mem" where
  "cluster_log lg P t m = (case m of (s, version, val) \<Rightarrow>
     if acc_next P t m = Finish then m
     else (log_step lg t \<lparr>ta_write = is_write (acc_next P t m), ta_obj = tp_cid P (act_addr (acc_next P t m)), ta_ver = version\<rparr>
             val s, version, val))"

text \<open>A transaction that is still open where a block begins: \<open>assert(!_xtest())\<close> fails and prints, or the
  thread goes on to its end, and the system call aborts the transaction.\<close>

definition begin_check :: "tid_t \<Rightarrow> 's rtm_mem instr" where
  "begin_check t c = (if xtest c \<and> cluster_cnt t (cpu_mem c) = 0 then tx_abort 0 c else Go () c)"

definition cluster_acc_instrs :: "(tacc \<Rightarrow> 's \<Rightarrow> 's) \<Rightarrow> test_prog \<Rightarrow> tid_t \<Rightarrow> 's rtm_mem instr list" where
  "cluster_acc_instrs lg P t =
     cluster_body P t @
     [instr_if (\<lambda>m. acc_next P t m \<noteq> Finish \<and> cluster_cnt t m = int RTM_BATCH_N - 1) xend,
      mov (cluster_log lg P t),
      begin_check t]"

text \<open>\<open>before_finish_thr\<close> of a thread that ends inside a block, and the block. After an abort the access
  goes on in the fallback code.\<close>

definition cluster_finish_instrs :: "test_prog \<Rightarrow> tid_t \<Rightarrow> 's rtm_mem instr list" where
  "cluster_finish_instrs P t = [instr_if (\<lambda>m. acc_next P t m = Finish \<and> cluster_cnt t m \<noteq> 0) xend]"

definition cluster_fallback :: "test_prog \<Rightarrow> tid_t \<Rightarrow> 's rtm_mem \<Rightarrow> 's rtm_mem" where
  "cluster_fallback P t m = (case m of (s, version, val) \<Rightarrow>
     (case acc_next P t m of
        Read a \<Rightarrow> (qgoto t RdVersion s, version, val) | Write a v \<Rightarrow> (qgoto t LockXchg s, version, val) | Finish \<Rightarrow> m))"

definition cluster_block ::
  "(nat \<Rightarrow> 32 word option) \<Rightarrow> (tacc \<Rightarrow> 's \<Rightarrow> 's) \<Rightarrow> test_prog \<Rightarrow> tid_t \<Rightarrow> 's recording \<Rightarrow> (unit, 's rtm_mem) flow" where
  "cluster_block ab lg P t s =
     rtm_if ab (concat (replicate RTM_BATCH_N (cluster_acc_instrs lg P t)) @ cluster_finish_instrs P t)
       (mov (cluster_fallback P t)) (cpu_at (s, 0, 0))"

section \<open>One access\<close>

text \<open>What the instructions up to the end of the block do.\<close>

definition body_result :: "test_prog \<Rightarrow> tid_t \<Rightarrow> 's rtm_mem \<Rightarrow> 's rtm_mem option" where
  "body_result P t m = (case m of (s, version, val) \<Rightarrow>
     (let v = oi_version (acc_info P t m)
      in case acc_next P t m of
           Read a \<Rightarrow> if odd v then None else Some (s, v, qs_mem s a)
         | Write a x \<Rightarrow>
             if oi_write_lock (acc_info P t m) \<noteq> 0 then None
             else Some (set_version (tp_cid P a) (v + 2) (set_mem a x s), v, x)
         | Finish \<Rightarrow> Some m))"

lemma set_version_thr [simp]: "qs_thr (set_version o' v s) = qs_thr s"
  by (simp add: set_version_def)

lemma cluster_body_tx: "tx_code (cluster_body P t) m (body_result P t m)"
proof -
  obtain s version val where m: "m = (s, version, val)" by (cases m)
  note defs = m cluster_body_def body_result_def acc_next_def acc_info_def Let_def tx_rules
  show ?thesis
  proof (cases "acc_next P t m")
    case (Read a)
    then show ?thesis by (cases "odd (oi_version (acc_info P t m))") (simp_all add: defs)
  next
    case (Write a x)
    then show ?thesis by (cases "oi_write_lock (acc_info P t m) \<noteq> 0") (simp_all add: defs)
  next
    case Finish
    then show ?thesis by (simp add: defs)
  qed
qed

lemma body_result_next:
  assumes "body_result P t m = Some m1"
  shows "acc_next P t m1 = acc_next P t m" "cluster_cnt t m1 = cluster_cnt t m" "acc_next P t m = Finish \<Longrightarrow> m1 = m"
  using assms by (auto simp: body_result_def acc_next_def cluster_cnt_def Let_def split: prod.splits action.splits if_splits)

text \<open>The access as a step of \<open>cluster_accs\<close>.\<close>

definition acc_result :: "(tacc \<Rightarrow> 's \<Rightarrow> 's) \<Rightarrow> test_prog \<Rightarrow> tid_t \<Rightarrow> 's rtm_mem \<Rightarrow> 's rtm_mem option" where
  "acc_result lg P t m =
     (if acc_next P t m \<noteq> Finish \<and> left_open (length (qt_vals (qs_thr (fst m) t))) then None
      else map_option (cluster_log lg P t) (body_result P t m))"

lemma cluster_accs_1: "map_option fst (acc_result lg P t m) = cluster_accs lg P t 1 (fst m)"
proof -
  obtain s version val where m: "m = (s, version, val)" by (cases m)
  show ?thesis
    by (cases "acc_next P t m")
      (simp_all add: m acc_result_def body_result_def cluster_log_def cluster_read_def cluster_write_def acc_next_def
        acc_info_def log_step_def Let_def)
qed

lemma cluster_accs_Suc:
  "cluster_accs lg P t (Suc n) s = Option.bind (cluster_accs lg P t 1 s) (cluster_accs lg P t n)"
proof (cases "tp_code P t (qt_vals (qs_thr s t))")
  case Finish
  then show ?thesis by (cases n) simp_all
qed (simp_all split: option.splits)

lemma log_len:
  assumes "body_result P t m = Some m1"
  shows "length (qt_vals (qs_thr (fst (cluster_log lg P t m1)) t)) =
    (if acc_next P t m = Finish then length (qt_vals (qs_thr (fst m) t)) else Suc (length (qt_vals (qs_thr (fst m) t))))"
  using assms
  by (auto simp: body_result_def cluster_log_def acc_next_def log_step_def Let_def
      split: prod.splits action.splits if_splits)

lemma tx_check_not: "cluster_cnt t m \<noteq> 0 \<Longrightarrow> tx_code [begin_check t] m (Some m)"
  by (rule tx_one) (simp add: begin_check_def tx_result_def)

lemma tx_check: "cluster_cnt t m = 0 \<Longrightarrow> tx_code [begin_check t] m None"
  by (rule tx_one) (simp add: begin_check_def tx_result_def xtest_def tx_abort_rolled abort_status_def)

lemma out_check: "out_code fs m m1 \<Longrightarrow> out_code (begin_check t # fs) m m1"
  by (simp add: out_code_def begin_check_def xtest_def)

text \<open>An access that is not the last of its block.\<close>

lemma cluster_acc_mid:
  assumes "acc_next P t m = Finish \<Longrightarrow> cluster_cnt t m \<noteq> 0"
    and "acc_next P t m \<noteq> Finish \<Longrightarrow> cluster_cnt t m \<noteq> int RTM_BATCH_N - 1"
  shows "tx_code (cluster_acc_instrs lg P t) m (acc_result lg P t m)"
proof (cases "body_result P t m")
  case None
  then show ?thesis using tx_append_None [of "cluster_body P t" m] cluster_body_tx [of P t m]
    by (simp add: cluster_acc_instrs_def acc_result_def)
next
  case (Some m1)
  have "cluster_cnt t (cluster_log lg P t m1) = 0 \<longleftrightarrow> acc_result lg P t m = None"
    using assms Some by (auto simp: cluster_cnt_def log_len [OF Some] acc_result_def left_open_def)
  then have "tx_code [begin_check t] (cluster_log lg P t m1) (acc_result lg P t m)"
    using tx_check [of t "cluster_log lg P t m1"] tx_check_not [of t "cluster_log lg P t m1"] Some by (auto simp: acc_result_def)
  then have "tx_code [instr_if (\<lambda>m. acc_next P t m \<noteq> Finish \<and> cluster_cnt t m = int RTM_BATCH_N - 1) xend, mov (cluster_log lg P t),
      begin_check t] m1 (acc_result lg P t m)"
    using assms(2) body_result_next [OF Some] by (intro tx_if_not tx_mov) auto
  then show ?thesis unfolding cluster_acc_instrs_def by (rule tx_append [OF cluster_body_tx [of P t m, unfolded Some]])
qed

lemma acc_result_next:
  assumes "acc_result lg P t m = Some m1"
  shows "acc_next P t m = Finish \<Longrightarrow> m1 = m"
    and "acc_next P t m \<noteq> Finish \<Longrightarrow> length (qt_vals (qs_thr (fst m1) t)) = Suc (length (qt_vals (qs_thr (fst m) t)))"
    and "acc_next P t m \<noteq> Finish \<Longrightarrow> \<not> left_open (length (qt_vals (qs_thr (fst m) t)))"
proof -
  from assms obtain m2 where m2: "body_result P t m = Some m2" "m1 = cluster_log lg P t m2"
    by (auto simp: acc_result_def split: if_splits)
  show "acc_next P t m = Finish \<Longrightarrow> m1 = m"
    using body_result_next [OF m2(1)] m2(2) by (auto simp: cluster_log_def split: prod.splits)
  show "acc_next P t m \<noteq> Finish \<Longrightarrow> length (qt_vals (qs_thr (fst m1) t)) = Suc (length (qt_vals (qs_thr (fst m) t)))"
    using log_len [OF m2(1)] m2(2) by simp
  show "acc_next P t m \<noteq> Finish \<Longrightarrow> \<not> left_open (length (qt_vals (qs_thr (fst m) t)))"
    using assms by (auto simp: acc_result_def split: if_splits)
qed

text \<open>The state in which \<open>k\<close> accesses have left the transaction open, none of them the last of its block.\<close>

definition still_open :: "test_prog \<Rightarrow> tid_t \<Rightarrow> nat \<Rightarrow> 's rtm_mem \<Rightarrow> 's rtm_mem \<Rightarrow> bool" where
  "still_open P t k m m1 \<longleftrightarrow>
     (acc_next P t m = Finish \<longrightarrow> m1 = m) \<and>
     (if acc_next P t m1 = Finish then cluster_cnt t m1 \<noteq> 0
      else length (qt_vals (qs_thr (fst m1) t)) = length (qt_vals (qs_thr (fst m) t)) + k \<and>
        (\<forall>j < k. \<not> left_open (length (qt_vals (qs_thr (fst m) t)) + j)))"

lemma still_open_Suc:
  assumes "acc_result lg P t m = Some m1" "still_open P t k m1 m2"
  shows "still_open P t (Suc k) m m2"
proof (cases "acc_next P t m = Finish")
  case True
  then show ?thesis using acc_result_next(1) [OF assms(1)] assms(2) by (auto simp: still_open_def split: if_splits)
next
  case False
  then show ?thesis
    using acc_result_next(2,3) [OF assms(1)] assms(2) by (auto simp: still_open_def less_Suc_eq_0_disj split: if_splits)
qed

lemma cluster_accs_tx:
  assumes "acc_next P t m = Finish \<Longrightarrow> cluster_cnt t m \<noteq> 0"
    and "\<forall>j < k. bb_rem (length (qt_vals (qs_thr (fst m) t)) + j) \<noteq> int RTM_BATCH_N - 1"
  shows "\<exists>r. tx_code (concat (replicate k (cluster_acc_instrs lg P t))) m r \<and> map_option fst r = cluster_accs lg P t k (fst m) \<and>
    (\<forall>m1. r = Some m1 \<longrightarrow> still_open P t k m m1)"
  using assms
proof (induction k arbitrary: m)
  case 0
  then show ?case using tx_Nil [of m] by (intro exI [of _ "Some m"]) (simp add: still_open_def)
next
  case (Suc k)
  have mid: "tx_code (cluster_acc_instrs lg P t) m (acc_result lg P t m)"
    using Suc.prems by (intro cluster_acc_mid) (auto simp: cluster_cnt_def)
  note acc = cluster_accs_1 [of lg P t m] cluster_accs_Suc [of lg P t k "fst m"]
  show ?case
  proof (cases "acc_result lg P t m")
    case None
    then show ?thesis using acc tx_append_None [OF mid [unfolded None]] by (intro exI [of _ None]) simp
  next
    case (Some m1)
    note m1 = acc_result_next [OF Some]
    have "acc_next P t m1 = Finish \<Longrightarrow> cluster_cnt t m1 \<noteq> 0"
      using Suc.prems m1 by (cases "acc_next P t m = Finish") (auto simp: cluster_cnt_def left_open_def)
    moreover have "\<forall>j < k. bb_rem (length (qt_vals (qs_thr (fst m1) t)) + j) \<noteq> int RTM_BATCH_N - 1"
      using Suc.prems(2) m1 by (cases "acc_next P t m = Finish") auto
    ultimately obtain r where r: "tx_code (concat (replicate k (cluster_acc_instrs lg P t))) m1 r"
      "map_option fst r = cluster_accs lg P t k (fst m1)" "\<forall>m2. r = Some m2 \<longrightarrow> still_open P t k m1 m2"
      using Suc.IH [of m1] by blast
    have "cluster_accs lg P t (Suc k) (fst m) = cluster_accs lg P t k (fst m1)" using acc Some by (metis bind.bind_lunit option.map(2))
    moreover have "still_open P t (Suc k) m m2" if "r = Some m2" for m2
      using still_open_Suc [OF Some] r(3) that by blast
    ultimately show ?thesis using r tx_append [OF mid [unfolded Some] r(1)] by (auto intro!: exI [of _ r])
  qed
qed

section \<open>A block\<close>

lemma cluster_accs_add: "cluster_accs lg P t (n + k) s = Option.bind (cluster_accs lg P t n s) (cluster_accs lg P t k)"
proof (induction n arbitrary: s)
  case (Suc n)
  have "cluster_accs lg P t (Suc n + k) s =
      Option.bind (cluster_accs lg P t 1 s) (\<lambda>s. Option.bind (cluster_accs lg P t n s) (cluster_accs lg P t k))"
    unfolding add_Suc cluster_accs_Suc [of lg P t "n + k" s] Suc.IH ..
  then show ?case by (simp only: cluster_accs_Suc [of lg P t n s] Option.bind_assoc)
qed simp

lemma block_code: "concat (replicate RTM_BATCH_N fs) = concat (replicate (RTM_BATCH_N - 1) fs) @ fs"
  by (metis N_pos(1) Suc_diff_1 replicate_append_same replicate_Suc concat_append concat.simps append_Nil2)

text \<open>The block ends with its last access.\<close>

lemma cluster_block_last:
  assumes "aborts_ok ab" "tx_code (concat (replicate (RTM_BATCH_N - 1) (cluster_acc_instrs lg P t))) (s, 0, 0) r"
    and "\<And>m. r = Some m \<Longrightarrow> acc_next P t m \<noteq> Finish \<and> cluster_cnt t m = int RTM_BATCH_N - 1"
  shows "\<exists>c. cluster_block ab lg P t s = Go () c \<and> cpu_mem c =
    (if (\<exists>i \<le> length (concat (replicate (RTM_BATCH_N - 1) (cluster_acc_instrs lg P t))) + 5. ab i \<noteq> None) \<or>
        Option.bind r (body_result P t) = None
     then cluster_fallback P t (s, 0, 0) else cluster_log lg P t (the (Option.bind r (body_result P t))))"
proof -
  let ?A = "cluster_acc_instrs lg P t"
  let ?b = "\<lambda>m. acc_next P t m \<noteq> Finish \<and> cluster_cnt t m = int RTM_BATCH_N - 1"
  let ?pre = "concat (replicate (RTM_BATCH_N - 1) ?A) @ cluster_body P t"
  let ?post = "mov (cluster_log lg P t) # begin_check t # cluster_finish_instrs P t"
  have code: "concat (replicate RTM_BATCH_N ?A) @ cluster_finish_instrs P t = ?pre @ instr_if ?b xend # ?post"
    unfolding block_code by (simp add: cluster_acc_instrs_def)
  have len: "length ?pre = length (concat (replicate (RTM_BATCH_N - 1) ?A)) + 5" by (simp add: cluster_body_def)
  have pre: "tx_code ?pre (s, 0, 0) (Option.bind r (body_result P t))"
    using assms(2) by (cases r) (simp_all add: tx_append_None tx_append [OF _ cluster_body_tx])
  have b: "?b m1" "cluster_cnt t (cluster_log lg P t m1) = 0" if h: "Option.bind r (body_result P t) = Some m1" for m1
  proof -
    obtain m where m: "r = Some m" "body_result P t m = Some m1" using h by (auto simp: bind_eq_Some_conv)
    show "?b m1" using assms(3) [OF m(1)] body_result_next [OF m(2)] by simp
    show "cluster_cnt t (cluster_log lg P t m1) = 0"
      using assms(3) [OF m(1)] log_len [OF m(2)] bb_rem_last by (simp add: cluster_cnt_def)
  qed
  have post: "out_code ?post m1 (cluster_log lg P t m1)" if "Option.bind r (body_result P t) = Some m1" for m1
    unfolding cluster_finish_instrs_def using b(2) [OF that] by (intro out_mov out_check out_if_not out_Nil) simp
  show ?thesis unfolding cluster_block_def code len [symmetric]
    by (rule rtm_if_tx [OF assms(1) pre]) (use b post in \<open>simp_all add: instr_if_def\<close>)
qed

text \<open>The block has no last access: the thread ends inside it, or the transaction has been aborted.\<close>

lemma cluster_block_open:
  assumes "aborts_ok ab" "tx_code (concat (replicate RTM_BATCH_N (cluster_acc_instrs lg P t))) (s, 0, 0) r"
    and "\<And>m. r = Some m \<Longrightarrow> acc_next P t m = Finish \<and> cluster_cnt t m \<noteq> 0"
  shows "\<exists>c. cluster_block ab lg P t s = Go () c \<and> cpu_mem c =
    (if (\<exists>i \<le> length (concat (replicate RTM_BATCH_N (cluster_acc_instrs lg P t))). ab i \<noteq> None) \<or> r = None
     then cluster_fallback P t (s, 0, 0) else the r)"
  unfolding cluster_block_def cluster_finish_instrs_def
  by (rule rtm_if_tx [OF assms(1,2)]) (use assms(3) in \<open>simp_all add: instr_if_def out_Nil\<close>)

text \<open>Both are steps of the machine.\<close>

lemma cluster_step_block:
  assumes "qt_pc (qs_thr s t) = QRun" "bb_rem (length (qt_vals (qs_thr s t))) = 0" "tp_code P t (qt_vals (qs_thr s t)) \<noteq> Finish"
  shows "cluster_step lg P tx t s =
    (if tx then case cluster_accs lg P t RTM_BATCH_N s of None \<Rightarrow> fst (cluster_fallback P t (s, 0, 0)) | Some s1 \<Rightarrow> s1
     else fst (cluster_fallback P t (s, 0, 0)))"
proof -
  have "rec_step lg P False t s = fst (cluster_fallback P t (s, 0, 0))"
    using assms(1,3)
    by (cases "tp_code P t (qt_vals (qs_thr s t))") (simp_all add: rec_step_def rec_read_def rec_write_def cluster_fallback_def acc_next_def)
  then show ?thesis using assms by (simp add: cluster_step_def split: option.split)
qed

lemma open_block_step:
  assumes "aborts_ok ab" "qt_pc (qs_thr s t) = QRun" "bb_rem (length (qt_vals (qs_thr s t))) = 0"
    and "tp_code P t (qt_vals (qs_thr s t)) \<noteq> Finish"
    and r: "tx_code (concat (replicate RTM_BATCH_N (cluster_acc_instrs lg P t))) (s, 0, 0) r"
      "map_option fst r = cluster_accs lg P t RTM_BATCH_N s" "\<And>m. r = Some m \<Longrightarrow> acc_next P t m = Finish \<and> cluster_cnt t m \<noteq> 0"
  shows "\<exists>c tx. cluster_block ab lg P t s = Go () c \<and> fst (cpu_mem c) = cluster_step lg P tx t s \<and> ((\<forall>i. ab i = None) \<longrightarrow> tx)"
  using cluster_block_open [OF assms(1) r(1,3)] unfolding cluster_step_block [OF assms(2-4)] r(2) [symmetric]
  by (intro one_step [where L = "r \<noteq> None" and b = "fst (the r)" and n = "length (concat (replicate RTM_BATCH_N (cluster_acc_instrs lg P t)))"])
    (auto split: option.split)

lemma last_block_step:
  assumes "aborts_ok ab" "qt_pc (qs_thr s t) = QRun" "bb_rem (length (qt_vals (qs_thr s t))) = 0"
    and "tp_code P t (qt_vals (qs_thr s t)) \<noteq> Finish"
    and r: "tx_code (concat (replicate (RTM_BATCH_N - 1) (cluster_acc_instrs lg P t))) (s, 0, 0) r"
      "map_option fst r = cluster_accs lg P t (RTM_BATCH_N - 1) s"
      "\<And>m. r = Some m \<Longrightarrow> acc_next P t m \<noteq> Finish \<and> cluster_cnt t m = int RTM_BATCH_N - 1"
  shows "\<exists>c tx. cluster_block ab lg P t s = Go () c \<and> fst (cpu_mem c) = cluster_step lg P tx t s \<and> ((\<forall>i. ab i = None) \<longrightarrow> tx)"
proof -
  have N: "cluster_accs lg P t RTM_BATCH_N s = Option.bind (cluster_accs lg P t (RTM_BATCH_N - 1) s) (cluster_accs lg P t 1)"
    using cluster_accs_add [of lg P t "RTM_BATCH_N - 1" 1 s] by simp
  have acc: "cluster_accs lg P t RTM_BATCH_N s = map_option (\<lambda>m. fst (cluster_log lg P t m)) (Option.bind r (body_result P t))"
  proof (cases r)
    case (Some m)
    have "cluster_accs lg P t RTM_BATCH_N s = cluster_accs lg P t 1 (fst m)" unfolding N r(2) [symmetric] Some by simp
    moreover have "acc_result lg P t m = map_option (cluster_log lg P t) (body_result P t m)"
      using r(3) [OF Some] by (simp add: acc_result_def left_open_def cluster_cnt_def)
    ultimately show ?thesis unfolding Some cluster_accs_1 [of lg P t m, symmetric] by (simp add: option.map_comp comp_def)
  qed (use r(2) N in simp)
  from cluster_block_last [OF assms(1) r(1,3)] show ?thesis
    unfolding cluster_step_block [OF assms(2-4)] acc
    by (intro one_step [where L = "Option.bind r (body_result P t) \<noteq> None" and
          b = "fst (cluster_log lg P t (the (Option.bind r (body_result P t))))" and
          n = "length (concat (replicate (RTM_BATCH_N - 1) (cluster_acc_instrs lg P t))) + 5"])
      (auto split: option.split)
qed

lemma finish_block_step:
  assumes "aborts_ok ab" "qt_pc (qs_thr s t) = QRun" "bb_rem (length (qt_vals (qs_thr s t))) = 0"
    and "tp_code P t (qt_vals (qs_thr s t)) \<noteq> Finish"
    and m: "tx_code (concat (replicate (RTM_BATCH_N - 1) (cluster_acc_instrs lg P t))) (s, 0, 0) (Some m)"
      "map_option fst (Some m) = cluster_accs lg P t (RTM_BATCH_N - 1) s" "acc_next P t m = Finish" "cluster_cnt t m \<noteq> 0"
  shows "\<exists>c tx. cluster_block ab lg P t s = Go () c \<and> fst (cpu_mem c) = cluster_step lg P tx t s \<and> ((\<forall>i. ab i = None) \<longrightarrow> tx)"
proof (rule open_block_step [OF assms(1-4), where r = "Some m"])
  have "acc_result lg P t m = Some m"
    using m(3) by (auto simp: acc_result_def body_result_def cluster_log_def split: prod.splits)
  then have "tx_code (cluster_acc_instrs lg P t) m (Some m)" using cluster_acc_mid [of P t m lg] m(3,4) by simp
  from tx_append [OF m(1) this] show "tx_code (concat (replicate RTM_BATCH_N (cluster_acc_instrs lg P t))) (s, 0, 0) (Some m)"
    by (simp add: block_code)
  have "cluster_accs lg P t RTM_BATCH_N s = Option.bind (cluster_accs lg P t (RTM_BATCH_N - 1) s) (cluster_accs lg P t 1)"
    using cluster_accs_add [of lg P t "RTM_BATCH_N - 1" 1 s] by simp
  then show "map_option fst (Some m) = cluster_accs lg P t RTM_BATCH_N s"
    unfolding m(2) [symmetric] using m(3) by (simp add: acc_next_def case_prod_unfold)
qed (use m in simp)

text \<open>C24: the transactions of \<open>src/mem-record-rtmcluster.c\<close> are steps of the machine. A block begins with
  \<open>_xbegin\<close> where the counter of accesses is a multiple of \<open>RTM_BATCH_N\<close>, and ends with \<open>_xend\<close> in its last
  access or in \<open>before_finish_thr\<close>, unless the counter, an \<open>int\<close>, has wrapped around and the end is never reached; whatever
  the instructions in between at which the processor aborts it, and whatever the abort codes (with the
  reserved bits clear), the thread comes to the state of one step of the machine: all accesses of the
  block have taken effect at once, or the first one goes on in the fallback code. Without an abort by the
  processor it is the step in which the transaction is not disturbed.\<close>

theorem cluster_transactions:
  assumes "aborts_ok ab" "qt_pc (qs_thr s t) = QRun" "bb_rem (length (qt_vals (qs_thr s t))) = 0"
    and "tp_code P t (qt_vals (qs_thr s t)) \<noteq> Finish"
  shows "\<exists>c tx. cluster_block ab lg P t s = Go () c \<and> fst (cpu_mem c) = cluster_step lg P tx t s \<and> ((\<forall>i. ab i = None) \<longrightarrow> tx)"
proof -
  let ?l = "length (qt_vals (qs_thr s t))" and ?A = "cluster_acc_instrs lg P t"
  have N: "RTM_BATCH_N = 7" by (simp add: RTM_BATCH_N_def)
  have nf: "acc_next P t (s, 0, 0) \<noteq> Finish" using assms(4) by (simp add: acc_next_def)
  show ?thesis
  proof (cases "\<forall>i < 7. bb_rem (?l + i) = int i")
    case True
    then have "\<forall>j < 6. bb_rem (?l + j) \<noteq> int RTM_BATCH_N - 1" by (simp add: N)
    then obtain r where r: "tx_code (concat (replicate (RTM_BATCH_N - 1) ?A)) (s, 0, 0) r"
      "map_option fst r = cluster_accs lg P t (RTM_BATCH_N - 1) s" "\<forall>m. r = Some m \<longrightarrow> still_open P t 6 (s, 0, 0) m"
      using cluster_accs_tx [of P t "(s, 0, 0)" 6 lg] nf by (auto simp: N)
    show ?thesis
    proof (cases "\<exists>m. r = Some m \<and> acc_next P t m = Finish")
      case True
      then obtain m where m: "r = Some m" "acc_next P t m = Finish" by blast
      have c: "cluster_cnt t m \<noteq> 0" using r(3) m by (simp add: still_open_def)
      from finish_block_step [OF assms r(1,2) [unfolded m(1)] m(2) c] show ?thesis .
    next
      case nofin: False
      have "acc_next P t m \<noteq> Finish \<and> cluster_cnt t m = int RTM_BATCH_N - 1" if "r = Some m" for m
        using nofin that r(3) True by (auto simp: still_open_def cluster_cnt_def N)
      with r(1,2) show ?thesis by (rule last_block_step [OF assms])
    qed
  next
    case False
    then have b: "\<forall>i < 7. bb_rem (?l + i) \<noteq> 6" "\<exists>i < 7. left_open (?l + i)"
      using bb_block [OF assms(3)] by (auto simp: left_open_def N)
    obtain r where r: "tx_code (concat (replicate RTM_BATCH_N ?A)) (s, 0, 0) r"
      "map_option fst r = cluster_accs lg P t RTM_BATCH_N s" "\<forall>m. r = Some m \<longrightarrow> still_open P t 7 (s, 0, 0) m"
      using cluster_accs_tx [of P t "(s, 0, 0)" 7 lg] nf b(1) by (auto simp: N)
    have "acc_next P t m = Finish \<and> cluster_cnt t m \<noteq> 0" if "r = Some m" for m
      using r(3) b(2) that by (auto simp: still_open_def split: if_splits)
    with r(1,2) show ?thesis by (rule open_block_step [OF assms])
  qed
qed

theorem cluster_transactions_witness:
  "\<exists>c tx. cluster_block third_aborts (\<lambda>_ u. u) tx_prog 0 (recording_init tx_prog ()) = Go () c \<and>
     fst (cpu_mem c) = cluster_step (\<lambda>_ u. u) tx_prog tx 0 (recording_init tx_prog ())"
  using cluster_transactions [OF third_aborts_ok, of "recording_init tx_prog ()" 0 tx_prog "\<lambda>_ u. u"]
  by (auto simp: recording_init_def tx_prog_def bb_rem_def signed_modulo_int_def)

end
