(* ===== verification/Mmap_Test.thy ===== *)
theory Mmap_Test
  imports Log_Calls
begin

text \<open>
  The experiment \<open>src/replay-log/mmap-test.c\<close>, which fills a file with ones, through a mapping or by
  \<open>write\<close>: both ways leave the same file, except that an empty file cannot be mapped. Its functions
  return \<open>1\<close> on a failing call instead of exiting.
\<close>

section \<open>More calls\<close>

text \<open>\<open>write\<close> at the start of the file may take a part of the bytes only: \<open>part n\<close> of \<open>n\<close>.\<close>

definition sys_write :: "kernel \<Rightarrow> (nat \<Rightarrow> nat) \<Rightarrow> int \<Rightarrow> byte list \<Rightarrow> os \<Rightarrow> int \<times> os" where
  "sys_write k part fd bs s =
     sys_call k (fd_file s fd \<noteq> None)
       (\<lambda>s1. let n = min (part (length bs)) (length bs)
              in (int n, set_fd_file fd (take n bs @ drop n (the (fd_file s fd))) s1)) s"

definition sys_close :: "kernel \<Rightarrow> int \<Rightarrow> os \<Rightarrow> int \<times> os" where
  "sys_close k fd s = sys_call k (os_fd s fd \<noteq> None) (\<lambda>s1. (0, s1\<lparr>os_fd := (os_fd s1)(fd := None)\<rparr>)) s"

text \<open>A store of \<open>n\<close> bytes through a mapping of the file, which outlives the descriptor; past the end of
  the file there is nothing to store to.\<close>

definition memset_mapped :: "string \<Rightarrow> byte \<Rightarrow> nat \<Rightarrow> os \<Rightarrow> unit outcome" where
  "memset_mapped path b n s =
     (case os_file s path of
        None \<Rightarrow> Exit ''Bus error'' s
      | Some f \<Rightarrow> if n \<le> length f then Ret () (s\<lparr>os_file := (os_file s)(path \<mapsto> replicate n b @ drop n f)\<rparr>) else Exit ''Bus error'' s)"

section \<open>The program\<close>

definition mapped_write :: "kernel \<Rightarrow> int \<Rightarrow> nat \<Rightarrow> os \<Rightarrow> int outcome" where
  "mapped_write k fd len s =
     (let path = the (os_fd s fd)
      in case sys_mmap k fd len 0 s of (buf, s) \<Rightarrow>
         if buf = -1 then Ret 1 s
         else case sys_close k fd s of (r, s) \<Rightarrow>
           if r = -1 then Ret 1 s
           else os_bind (memset_mapped path 1 len s) (\<lambda>_ s.
             case sys_munmap k s of (r, s) \<Rightarrow> if r = -1 then Ret 1 s else Ret 0 s))"

text \<open>\<open>malloc\<close> is not checked: without memory the \<open>memset\<close> stores to address \<open>0\<close>.\<close>

definition direct_write :: "kernel \<Rightarrow> (nat \<Rightarrow> nat) \<Rightarrow> int \<Rightarrow> nat \<Rightarrow> os \<Rightarrow> int outcome" where
  "direct_write k part fd len s =
     (case sys_plain k s of (buf, s) \<Rightarrow>
        if buf = -1 \<and> 0 < len then Exit ''Segmentation fault'' s
        else case sys_write k part fd (replicate len 1) s of (n, s) \<Rightarrow>
          if n \<noteq> int len then Ret 1 s
          else case sys_close k fd s of (r, s) \<Rightarrow> if r = -1 then Ret 1 s else Ret 0 s)"

definition mmap_test_main :: "kernel \<Rightarrow> (nat \<Rightarrow> nat) \<Rightarrow> os \<Rightarrow> int outcome" where
  "mmap_test_main k part s =
     (case sys_open k ''./file'' False s of (fd, s) \<Rightarrow>
        if fd = -1 then Ret 1 s
        else case sys_fstat k fd s of (st_size, s) \<Rightarrow>
          if st_size = -1 then Ret 1 s else direct_write k part fd (nat st_size) s)"

section \<open>What it does\<close>

lemmas mmap_test_defs = mapped_write_def direct_write_def memset_mapped_def sys_mmap_def sys_close_def sys_plain_def
  sys_write_def sys_call_def fd_file_def set_fd_file_def Let_def

text \<open>The two ways to fill a file agree. On a file with at least one byte, with no call refused and
  whole writes, both functions return \<open>0\<close> and leave a file of the same length full of ones, and all
  other files as they were. An empty file makes the mapping fail with \<open>1\<close>, while the write succeeds.\<close>

lemma mapped_direct_write:
  assumes "\<forall>n. \<not> k_refuse k n" "\<forall>n. part n = n" "os_fd s fd = Some path" "os_file s path = Some f"
  shows "\<exists>s1 s2. direct_write k part fd (length f) s = Ret 0 s1 \<and>
      os_file s1 = (os_file s)(path \<mapsto> replicate (length f) 1) \<and>
      (f \<noteq> [] \<longrightarrow> mapped_write k fd (length f) s = Ret 0 s2 \<and> os_file s2 = os_file s1) \<and>
      (f = [] \<longrightarrow> mapped_write k fd (length f) s = Ret 1 s2 \<and> os_file s2 = os_file s1)"
  using assms by (cases f) (auto simp: mmap_test_defs)

theorem mapped_direct_write_witness:
  "\<exists>s1 s2. direct_write \<lparr>k_refuse = (\<lambda>_. False), k_addr = (\<lambda>_ _. 8192)\<rparr> (\<lambda>n. n) 3 2
        \<lparr>os_file = [''./file'' \<mapsto> [7, 9]], os_fd = [3 \<mapsto> ''./file''], os_calls = 4\<rparr> = Ret 0 s1 \<and>
      mapped_write \<lparr>k_refuse = (\<lambda>_. False), k_addr = (\<lambda>_ _. 8192)\<rparr> 3 2
        \<lparr>os_file = [''./file'' \<mapsto> [7, 9]], os_fd = [3 \<mapsto> ''./file''], os_calls = 4\<rparr> = Ret 0 s2 \<and>
      os_file s1 = [''./file'' \<mapsto> [1, 1]] \<and> os_file s2 = os_file s1"
  using mapped_direct_write [of "\<lparr>k_refuse = (\<lambda>_. False), k_addr = (\<lambda>_ _. 8192)\<rparr>" "\<lambda>n. n"
    "\<lparr>os_file = [''./file'' \<mapsto> [7, 9]], os_fd = [3 \<mapsto> ''./file''], os_calls = 4\<rparr>" 3 "''./file''" "[7, 9]"]
  by (auto simp: numeral_2_eq_2)

text \<open>A run of the program without refused calls fills the file.\<close>

lemma mmap_test_main_ok:
  assumes "\<forall>n. \<not> k_refuse k n" "\<forall>n. part n = n" "os_file s ''./file'' = Some f"
  shows "\<exists>s1. mmap_test_main k part s = Ret 0 s1 \<and> os_file s1 = (os_file s)(''./file'' \<mapsto> replicate (length f) 1)"
  using assms by (simp add: mmap_test_main_def sys_open_def sys_fstat_def mmap_test_defs)

text \<open>Without the file nothing is written.\<close>

lemma mmap_test_main_missing:
  assumes "os_file s ''./file'' = None"
  shows "mmap_test_main k part s = Ret 1 (tick s)"
  using assms by (simp add: mmap_test_main_def sys_open_def sys_call_def)

end
