(* ===== verification/Infer.thy ===== *)
theory Infer
  imports Mem_Prelude
begin

text \<open>
  \<open>src/infer.c\<close>: from the log of a thread's reads, one line for each read that was logged, it infers
  which reads a writer has to wait for: for every line that names an earlier read, that read at the
  version of the line before it on the same object. The array of last versions has \<open>g_nobj\<close> elements
  and is not initialised; its contents are a parameter.
\<close>

text \<open>A line of the log, as \<open>fscanf\<close> reads it, and a line of the output.\<close>

record infer_line =
  in_objid :: int
  in_version :: int
  in_read_memop :: int
  in_last_read_memop :: int

type_synonym war_line = "int \<times> int \<times> int \<times> int"

text \<open>The loop of \<open>main\<close>; \<open>None\<close> is an access outside the array.\<close>

fun infer_loop :: "int \<Rightarrow> int list \<Rightarrow> infer_line list \<Rightarrow> war_line list option" where
  "infer_loop tid last_read_version [] = Some []"
| "infer_loop tid last_read_version (l # rlog) =
     (let objid = nat (in_objid l); updated = last_read_version[objid := in_version l]
      in if in_objid l < 0 \<or> length last_read_version \<le> objid then None
         else if in_last_read_memop l = -1 then infer_loop tid updated rlog
         else map_option (Cons (in_objid l, last_read_version ! objid, in_last_read_memop l, tid))
                (infer_loop tid updated rlog))"

text \<open>\<open>g_nobj\<close> is a global of \<open>src/mem.c\<close> that only \<open>mem_init\<close> sets, which this program does not call.\<close>

definition infer_g_nobj :: nat where
  "infer_g_nobj = 0"

definition infer_main :: "int \<Rightarrow> (nat \<Rightarrow> int) \<Rightarrow> infer_line list \<Rightarrow> war_line list option" where
  "infer_main tid heap rlog = infer_loop tid (map heap [0..<infer_g_nobj]) rlog"

section \<open>What the loop computes\<close>

text \<open>The version of the last line on an object.\<close>

definition last_version :: "(int \<Rightarrow> int) \<Rightarrow> infer_line list \<Rightarrow> int \<Rightarrow> int" where
  "last_version v0 ls o' = fold (\<lambda>l v. if in_objid l = o' then in_version l else v) ls (v0 o')"

definition war_of :: "int \<Rightarrow> (int \<Rightarrow> int) \<Rightarrow> infer_line list \<Rightarrow> nat \<Rightarrow> war_line" where
  "war_of tid v0 ls i =
     (in_objid (ls ! i), last_version v0 (take i ls) (in_objid (ls ! i)), in_last_read_memop (ls ! i), tid)"

definition dependent :: "infer_line list \<Rightarrow> nat \<Rightarrow> bool" where
  "dependent ls i \<longleftrightarrow> in_last_read_memop (ls ! i) \<noteq> -1"

text \<open>The first line of every object names no earlier read.\<close>

definition starts_fresh :: "infer_line list \<Rightarrow> bool" where
  "starts_fresh ls \<longleftrightarrow>
     (\<forall>i < length ls. dependent ls i \<longrightarrow> (\<exists>j < i. in_objid (ls ! j) = in_objid (ls ! i)))"

lemma infer_loop_war:
  assumes "\<forall>l \<in> set ls. 0 \<le> in_objid l \<and> in_objid l < int (length a)"
  shows "infer_loop tid a ls =
    Some (map (war_of tid (\<lambda>o'. a ! nat o') ls) (filter (dependent ls) [0..<length ls]))"
  using assms
proof (induction ls arbitrary: a)
  case (Cons l ls)
  let ?a = "a[nat (in_objid l) := in_version l]"
  have l: "0 \<le> in_objid l" "nat (in_objid l) < length a" using Cons.prems by auto
  have up: "[0..<length (l # ls)] = 0 # map Suc [0..<length ls]" by (simp add: map_Suc_upt upt_conv_Cons del: upt_Suc)
  have dep: "dependent (l # ls) (Suc i) = dependent ls i" for i by (simp add: dependent_def)
  have war: "war_of tid (\<lambda>o'. a ! nat o') (l # ls) (Suc i) = war_of tid (\<lambda>o'. ?a ! nat o') ls i" if "i < length ls" for i
  proof -
    have "0 \<le> in_objid (ls ! i)" using Cons.prems that by simp
    then show ?thesis using l by (auto simp: war_of_def last_version_def nth_list_update nat_eq_iff2)
  qed
  have IH: "infer_loop tid ?a ls =
      Some (map (war_of tid (\<lambda>o'. a ! nat o') (l # ls)) (map Suc (filter (dependent ls) [0..<length ls])))"
    using Cons.IH [of ?a] Cons.prems war by (simp cong: map_cong)
  have eq: "filter (dependent (l # ls)) [0..<length (l # ls)] =
      (if dependent (l # ls) 0 then [0] else []) @ map Suc (filter (dependent ls) [0..<length ls])"
    unfolding up by (simp add: filter_map comp_def dep)
  show ?case
    unfolding eq using l IH by (auto simp: dependent_def war_of_def last_version_def Let_def)
qed simp

text \<open>A line on an object with an earlier line does not depend on the initial contents.\<close>

lemma last_version_seen:
  assumes "\<exists>l \<in> set ls. in_objid l = o'"
  shows "last_version v0 ls o' = last_version v1 ls o'"
  using assms by (induction ls rule: rev_induct) (auto simp: last_version_def)

text \<open>With room for all objects, the loop of infer writes for every line that names an earlier
  read that read with the version of the line before it on the same object, in the order of the log;
  if the first line of every object names no earlier read, the uninitialised contents of the array
  do not matter.\<close>

lemma infer_output:
  assumes "\<forall>l \<in> set ls. 0 \<le> in_objid l \<and> in_objid l < int (length a)" "starts_fresh ls"
  shows "infer_loop tid a ls =
    Some (map (war_of tid (\<lambda>o'. 0) ls) (filter (dependent ls) [0..<length ls]))"
proof -
  have "war_of tid (\<lambda>o'. a ! nat o') ls i = war_of tid (\<lambda>o'. 0) ls i"
    if i: "i < length ls" "dependent ls i" for i
  proof -
    obtain j where "j < i" "in_objid (ls ! j) = in_objid (ls ! i)" using assms(2) i unfolding starts_fresh_def by blast
    then have "\<exists>l \<in> set (take i ls). in_objid l = in_objid (ls ! i)"
      using i(1) by (intro bexI [of _ "ls ! j"]) (auto simp: in_set_conv_nth intro!: exI [of _ j])
    from last_version_seen [OF this] show ?thesis by (simp add: war_of_def)
  qed
  then show ?thesis unfolding infer_loop_war [OF assms(1)] by simp
qed

text \<open>As \<open>main\<close> calls it the loop has no room: every log with a line makes it access memory outside
  the array.\<close>

lemma infer_main_out_of_bounds: "infer_main tid heap rlog = (if rlog = [] then Some [] else None)"
  by (cases rlog) (simp_all add: infer_main_def infer_g_nobj_def Let_def)

end
