(* ===== verification/Spec2Isabelle.thy ===== *)
theory Spec2Isabelle
  imports Tls Cluster_Progress Debug_Access Example_Files Thread_Start Plain_Run Linked_Runs Commit_Tx Cluster_Tx Mmap_Test Infer_Main
begin

text \<open>
  \<^bold>\<open>What is verified.\<close> The repository records the order in which the threads of a program access
  shared memory and replays the program in that order. A test program (\<open>src/racey.c\<close>,
  \<open>src/addcnt.c\<close>) makes its shared accesses through \<open>mem_read\<close> and \<open>mem_write\<close> of \<open>src/mem.h\<close>,
  which is linked with one of five recorders or one of two replayers, or plain loads and stores in a
  build with \<open>DUMMY\<close>:
  \<^item> The order recorders (\<open>src/mem-record-seqlock.c\<close>, \<open>-rtmseq.c\<close>, \<open>-seqbatch.c\<close>, \<open>-rtmcluster.c\<close> over
    \<open>src/mem-record.c\<close>) give every object a version and log, per thread, the versions a thread has to
    wait for and the reads a writer has to wait for. \<open>src/reorder-memop.cpp\<close> and
    \<open>src/merge-memop.cpp\<close> turn the second kind of log into one list per object, and
    \<open>src/mem-replay.c\<close> follows both.
  \<^item> The commit recorder (\<open>src/mem-record-rtmcommit.c\<close>) runs blocks of accesses atomically and logs a
    time stamp per block; \<open>src/merge-commit.cpp\<close> merges the stamps into one order of threads, which
    \<open>src/mem-replay-rtmcommit.c\<close> follows.

  The central theorems say that a replay of a recording reads and writes what the recording read and
  wrote, whatever the schedules of the two runs, that no assertion fails, that it is never stuck, and
  that recording and replay come to their end under fair schedules; together they give the outcome of
  \<open>src/test.sh\<close> for its test programs, from their command lines to their output. They hold for the logs
  as lists of entries and, with the bytes, files and system calls of the programs written out, for the
  logs on disk. The recordings themselves show what the plain program shows when none of its stores waits
  in a store buffer, no more and no less.

  \<^bold>\<open>Theories.\<close>
  \<^item> \<open>Mem_Prelude\<close>: the integer types and log structures of \<open>src/mem.h\<close>, lemmas on lists, multisets and
    sums. \<open>Fair_Schedule\<close>: schedules, fairness, and the contract \<open>spin_machine\<close> of machines whose
    threads wait in spin loops; the two replayers, the two recording machines, the barrier, relay and the
    machines with the start of their threads are interpretations of it.
  \<^item> \<open>Recorder\<close> (\<open>src/mem-record.c\<close>): log taking of one thread, and the contract \<open>order_recorder\<close>.
    \<open>Record_Log_Impl\<close>: the direct and the batched log taking meet it. \<open>Spin_Locks\<close>
    (\<open>src/spinlock.h\<close>, \<open>src/ticket-spinlock.h\<close>): both locks on machine words, contract \<open>fifo_lock\<close>.
  \<^item> \<open>Trace\<close>, \<open>Test_Program\<close>: sequences of accesses, programs as functions from the values seen to the
    next access, and when a sequence is a run of a program.
  \<^item> \<open>Record_Machine\<close>, \<open>Record_Inv\<close>, \<open>Record_Progress\<close>: recording with sequence locks and transactions
    as a step machine; it is linearisable and it ends. \<open>Cluster_Machine\<close>, \<open>Cluster_Progress\<close>: the
    rtmcluster recorder refines it and ends. \<open>Plain_Run\<close>: the plain loads and stores of the \<open>DUMMY\<close>
    build, with the store buffers of the processors. The results of the recordings are those of its
    runs in which no store waits; a program of two threads shows more when stores wait.
  \<^item> \<open>Tsx\<close> (\<open>src/tsx\<close>, \<open>src/time.c\<close>): transactions instruction by instruction, which the processor may abort
    at each of them, assertions inside transactions, the clock, and the transactions of the rtmseq recorder.
    \<open>Tsx_Rules\<close>: rules for sequences of instructions before and after the end of a transaction.
    \<open>Commit_Tx\<close>, \<open>Cluster_Tx\<close>: the transactions of the other two recorders, which reach over several calls.
    All are steps of the recording machines.
  \<^item> \<open>Kway_Merge\<close>, \<open>Reorder_Memop\<close>, \<open>Merge_Memop\<close>, \<open>Order_Logs\<close>: the priority-queue merge, the two log
    processors, and what the processed logs of a run contain.
  \<^item> \<open>Replay\<close>, \<open>Replay_Inv\<close>, \<open>Replay_Correct\<close>, \<open>Replay_Steps\<close>, \<open>Replay_Progress\<close>: the replayer
    \<open>src/mem-replay.c\<close>, its invariant relative to the recorded run, and its progress. \<open>Record_Replay\<close>,
    \<open>Test_Run\<close>: from a recording to its replay, and the whole of a test. \<open>Debug_Access\<close>: the
    self-check under \<open>DEBUG_ACCESS\<close>. \<open>Example\<close>: a small program used by the witnesses.
  \<^item> \<open>Commit_Blocks\<close> (the abstract specification: a sequence of atomic blocks), \<open>Commit_Record\<close>,
    \<open>Merge_Commit\<close>, \<open>Commit_Replay\<close>, \<open>Commit_Chain\<close>, \<open>Commit_Progress\<close>: the same chain for the commit
    recorder.
  \<^item> \<open>Mapped_Log\<close>, \<open>Log_Files\<close>, \<open>Log_Entries\<close> (\<open>src/log.c\<close>, \<open>src/log.h\<close>): the memory-mapped logs
    with their moving window, the directory of the log files of all threads, and the bytes of the
    order logs' entries, which the other theories have as lists. \<open>Log_Calls\<close>: the same functions with
    every system call, any of which may be refused; \<open>Write_Logs\<close>: the logs of all threads while they are
    written, and what the files hold when a call fails.
  \<^item> \<open>Arguments\<close>, \<open>Memop_Files\<close>, \<open>Commit_Files\<close>: the log processors and the loading of the logs by the
    replayers, from the command line on the files. \<open>Disk_Logs\<close>, \<open>Disk_Replay\<close>: on willing kernels they
    compute what the programs on lists compute, so a replay that starts from the files replays the
    recording. \<open>Disk_Test\<close>: the numbers in the logs are bounded by the number of accesses, so they fit
    their fields, and the whole of a test goes through the files. \<open>Example_Files\<close>: the files of the example.
  \<^item> \<open>Thread_Barrier\<close>: the barrier at the start of the threads; \<open>Thread_Start\<close>: creation of the threads and
    \<open>mem_init_thr\<close> in front of a recording or a replay, contract \<open>thread_start\<close>, with the array of pointers
    to the threads' counters. \<open>Tls\<close> (\<open>src/tls.h\<close>): the emulation of thread-local variables.
  \<^item> \<open>Thread_Code\<close>, \<open>Racey\<close>, \<open>Addcnt\<close>, \<open>Relay\<close>: the test programs; \<open>Test_Mains\<close>: their
    \<open>main\<close> functions, which take the \<open>mem_init\<close> and the threads of the library they are linked with as
    arguments. \<open>Linked_Runs\<close> gives these their values: \<open>mem_init\<close> and the calls of the threads of the order
    recorders, the replayer, the commit recorder and its replayer. In it a test is three programs one after
    the other on the same disk, the recording, the log processing and the replay, and it is shown that
    both runs print the same, and how a recording ends when calls are refused. \<open>Infer\<close>, \<open>Infer_Main\<close> (\<open>src/infer.c\<close>). \<open>Mmap_Test\<close> (\<open>src/replay-log/mmap-test.c\<close>).

  \<^bold>\<open>State and steps.\<close> The step machines have a record of the shared data and, for each thread, a
  program counter and the thread-local variables; one step is one access of one thread to shared data.
  Steps take effect in their order (sequential consistency, which the barriers of the recorders and
  replayers are there to provide on their processors; the plain program has none, and its model has store
  buffers), and a hardware transaction is one step that commits or aborts, with
  the choice left open. Failed assertions, aborts and reads past a log are values (\<open>Fault\<close>, \<open>Inl\<close>,
  \<open>None\<close>). The order of equal entries in a priority queue and the addresses that \<open>mmap\<close> returns are
  parameters; the only assumption on the queue (\<open>min_queue\<close>) is that it yields a least entry. The
  operating system is a record of the files, the open descriptors and the number of calls so far, and a
  \<open>kernel\<close> says which calls it refuses; a function on it returns or exits with a message (\<open>outcome\<close>), and
  \<open>os_wp\<close> states what holds in either case. \<open>willing\<close> kernels refuse nothing.

  \<^bold>\<open>Bounds.\<close> Versions and access counters (\<open>version_t\<close>, \<open>memop_t\<close>) are 64-bit in the code and unbounded
  here. Two counters of accesses are narrower and are modelled as 32-bit words that wrap around:
  \<open>g_sim_bbcnt\<close> of the commit replayer (\<open>bb_pos\<close>), on which the theorems assume fewer than \<open>2 ^ 31\<close> accesses
  of each thread (\<open>few_accesses\<close>), since the 64-bit counter of its recorder goes on where it overflows; and
  \<open>g_sim_bbcnt\<close> of the rtmcluster recorder (\<open>bb_rem\<close>), which only says where blocks begin and end, so that
  no bound is needed. Thread numbers are kept at 8 bits where the code narrows them, hence at most 127 threads for the log processors; ticket
  numbers have 16 bits and time stamps 64 bits, with fewer than 65536 threads and fewer than \<open>2 ^ 64\<close>
  blocks where they are compared. The counters of \<open>merge-memop\<close> and the positions in the merged logs are
  C's \<open>int\<close>, in whose range they are shown to be for fewer than \<open>2 ^ 31\<close> entries (\<open>merged_in_range\<close>). Values
  are 32-bit words. The machines begin
  when all threads are initialised; that none makes an access before is shown in \<open>Thread_Start\<close>. On disk, numbers
  have the width of their fields, and fit them (\<open>logs_fit\<close>) when there are fewer than \<open>2 ^ 31\<close> accesses
  (\<open>rec_size\<close>). Loops that wait
  are steps that change nothing, so no machine has fuel: that they end is proved from fairness. The threads of a linked program run for
  a given number of steps of a schedule, after which \<open>pthread_join\<close> returns if they have ended; that some
  number is enough is part of the theorems. The
  numbers of rounds of racey and addcnt are parameters, instantiated by \<open>MAX_LOOP\<close> and \<open>NITER\<close> in the
  theorems on the tests.

  \<^bold>\<open>Not modelled.\<close> Debug output (\<open>src/debug.h\<close>), abort statistics and the signal handler of addcnt, which change no result; the
  floating-point number that the clock prints; processor aborts in the loop of \<open>tsx_assert_fail\<close>; isolation of a transaction from the other threads is
  the hardware's and is assumed where a transaction is one step; failures of \<open>fprintf\<close> and \<open>fclose\<close>,
  which the code does not look at; scripts (their order of calls is part of the definitions) and the Go
  tools.
\<close>

text \<open>C1: record and replay with \<open>src/mem-record-seqlock.c\<close> and \<open>src/mem-record-rtmseq.c\<close> (\<open>rtm\<close> says
  whether there are transactions). Take any recording of a test program that has come to its end,
  process its logs, start the replay, and look at any state the replay can reach, whatever the
  schedules of the two runs: no assertion has failed and no log has been read past its end; every
  thread has read and written the same values as in the recording, as far as it has come; and a
  replay that is over has left the memory of the objects as the recording left it.\<close>

theorem record_replay_seqlock:
  assumes "min_queue memop_key que_gt sel" "tp_nthr P < 128" "prog_ok P"
    and "rec_reach rtm seqlock_acc (mem_init_thr (tp_nobj P)) P q" "rec_done P q"
    and "start_replay sel P (rec_logs (\<lambda>nobj. mem_finish_thr nobj before_finish_thr_default) P q) = Some s0"
    and "replay_reach P s0 s"
  shows "replays P q s"
  using assms by (rule seqlock.recording_replays)

theorem record_replay_seqlock_witness:
  "replays demo_prog demo_rec (replay_run demo_prog [1, 0, 1, 1, 0, 0] demo_start)"
  by (rule record_replay_seqlock [OF memop_queue.min_queue_axioms demo_nthr demo_ok demo_rec_reach demo_rec_done
      demo_start_eq]) (rule replay_reach_run [OF replay_reach.init], simp add: demo_prog_def)

text \<open>The same holds with \<open>src/mem-record-seqbatch.c\<close>, where the log taking is batched.\<close>

lemma record_replay_seqbatch:
  assumes "min_queue memop_key que_gt sel" "tp_nthr P < 128" "prog_ok P"
    and "rec_reach False (batch_acc BATCH_LOG_SIZE) (batch_init BATCH_LOG_SIZE (tp_nobj P)) P q" "rec_done P q"
    and "start_replay sel P (rec_logs batch_finish P q) = Some s0" "replay_reach P s0 s"
  shows "replays P q s"
  using assms by (rule seqbatch.recording_replays)

text \<open>C10: record and replay with \<open>src/mem-record-rtmcluster.c\<close>, where one transaction protects up to
  \<open>RTM_BATCH_N\<close> accesses to different objects and the logs are batched: every state that a replay of
  a finished recording can reach agrees with the recording, as for the other recorders.\<close>

theorem record_replay_rtmcluster:
  assumes "min_queue memop_key que_gt sel" "tp_nthr P < 128" "prog_ok P"
    and "cluster_reach (batch_acc RTM_BATCH_N) (batch_init RTM_BATCH_N (tp_nobj P)) P q" "rec_done P q"
    and "start_replay sel P (rec_logs batch_finish P q) = Some s0" "replay_reach P s0 s"
  shows "replays P q s"
  using rtmcluster.recording_replays [OF assms(1-3) cluster_rec_reach [OF assms(4,3)] assms(5-7)] .

theorem record_replay_rtmcluster_witness:
  "replays demo_prog demo_cluster (replay_run demo_prog [0, 1, 1, 0, 0] demo_cluster_start)"
  by (rule record_replay_rtmcluster [OF memop_queue.min_queue_axioms demo_nthr demo_ok demo_cluster_reach
      demo_cluster_done demo_cluster_start_eq]) (rule replay_reach_run [OF replay_reach.init], simp add: demo_prog_def)

text \<open>C8: record and replay through the files. The threads of a recording open the files of their version
  and memop logs, write the entries and close the files, in any interleaving, as long as each does so
  in its order; there are fewer than \<open>2 ^ 31\<close> accesses and objects, no system call is refused and no files
  of an earlier run are left. Then \<open>reorder-memop\<close> and \<open>merge-memop\<close> run on the files, the replayer maps
  what they have written, and in every state that the replay can reach it has read and written what the
  recording read and wrote; under every fair schedule it comes to its end.\<close>

theorem record_replay_on_disk:
  assumes "willing k" "k_aligned k" "min_queue memop_key que_gt sel" "tp_nthr P < 128" "prog_ok P"
    and "rec_reach rtm seqlock_acc (mem_init_thr (tp_nobj P)) P q" "rec_done P q"
    and "tp_nobj P < 2 ^ 31" "rec_size P q < 2 ^ 31"
    and "logs_used (set (order_log_keys (tp_nthr P)))
      (order_log_bytes (rec_logs (\<lambda>nobj. mem_finish_thr nobj before_finish_thr_default) P q)) es"
    and "no_old_files P d"
  shows "\<exists>ls d1 s0 d2. log_events_os k es Map.empty d = Ret ls d1 \<and> start_replay_os k v0 sel P d1 = Ret s0 d2 \<and>
    (\<forall>s. replay_reach P s0 s \<longrightarrow> replays P q s) \<and>
    (\<forall>g. fair (tp_nthr P) g \<longrightarrow> (\<exists>m. all_done P (sched_state (replay_step P) g s0 m)))"
  using assms by (rule seqlock.recording_through_files)

theorem record_replay_on_disk_witness:
  "\<exists>ls d1 s0 d2 m. log_events_os demo_kernel demo_events Map.empty demo_disk = Ret ls d1 \<and>
     start_replay_os demo_kernel 0 (first_least que_gt) demo_prog d1 = Ret s0 d2 \<and>
     replays demo_prog demo_rec (replay_run demo_prog [1, 0, 1, 1, 0, 0] s0) \<and>
     all_done demo_prog (sched_state (replay_step demo_prog) demo_turns s0 m)"
proof -
  have n: "tp_nthr demo_prog = 2" by (simp add: demo_prog_def)
  have "\<exists>ls d1 s0 d2. log_events_os demo_kernel demo_events Map.empty demo_disk = Ret ls d1 \<and>
     start_replay_os demo_kernel 0 (first_least que_gt) demo_prog d1 = Ret s0 d2 \<and>
     (\<forall>s. replay_reach demo_prog s0 s \<longrightarrow> replays demo_prog demo_rec s) \<and>
     (\<forall>g. fair (tp_nthr demo_prog) g \<longrightarrow> (\<exists>m. all_done demo_prog (sched_state (replay_step demo_prog) g s0 m)))"
    by (rule record_replay_on_disk [OF demo_kernel_ok(1,2) memop_queue.min_queue_axioms demo_nthr demo_ok demo_rec_reach
      demo_rec_done demo_size demo_events_used [unfolded demo_logs_def, folded n] demo_disk_ok(2)])
  moreover have "replay_reach demo_prog s0 (replay_run demo_prog [1, 0, 1, 1, 0, 0] s0)" for s0
    by (rule replay_reach_run [OF replay_reach.init], simp add: demo_prog_def)
  ultimately show ?thesis using demo_fair by metis
qed

text \<open>C21: system calls that fail while logs are written. Whatever calls are refused at whatever time, and
  in whatever order the threads open, write and close their logs: when the program exits, a call was
  refused in the event at which it stopped, and the file of every log that was opened begins with all
  the entries that were written to it before. When it does not exit, every file begins with all entries
  of its log and, unless a call was refused, holds nothing else (the result of \<open>unmap_truncate_log\<close> is
  not looked at, so a file may have been left longer).\<close>

theorem log_write_failures:
  assumes "k_aligned k" "log_keys_ok K" "logs_used K B es" "os_ok s"
  shows "case log_events_os k es ls s of
      Ret ls1 s1 \<Rightarrow> \<forall>key \<in> K. file_begins (path_of key) (concat (B key)) s1 \<and>
        (refused k s s1 \<or> os_file s1 (path_of key) = Some (concat (B key)))
    | Exit msg s1 \<Rightarrow> refused k s s1 \<and>
        (\<exists>es1 e es2 ls1 s2. es = es1 @ e # es2 \<and> log_events_os k es1 ls s = Ret ls1 s2 \<and>
           log_event_os k e ls1 s2 = Exit msg s1 \<and> refused k s2 s1 \<and> logs_safe K es1 s1)"
  using log_events_outcome [OF assms, of ls] by (cases "log_events_os k es ls s") simp_all

theorem log_write_failures_witness:
  "\<exists>msg s1. log_events_os (full_kernel 5) small_use Map.empty demo_disk = Exit msg s1 \<and> refused (full_kernel 5) demo_disk s1"
  using log_write_failures [OF demo_kernel_ok(3) [of 5] small_use_keys small_use_used demo_disk_ok(1), of Map.empty] small_use_exits
  by auto

text \<open>C3: a recording is always a run of the program: there is one order of the accesses, in which
  every thread makes its accesses in its program's order, every read returns the last value written
  to its address, the threads have seen the values of that order, the memory is what it leaves, and
  the recorders have been given every access with the version it has in that order. This is what the
  sequence locks and the transactions are for.\<close>

theorem recording_is_run:
  assumes "prog_ok P" "rec_reach rtm lg ini P q" "rec_done P q"
  shows "\<exists>es. run_of P es \<and> complete P es \<and> (\<forall>a. qs_mem q a = mem_after (tp_mem P) es a) \<and>
    (\<forall>t < tp_nthr P. qt_vals (qs_thr q t) = map ev_val (thr_evs t es) \<and>
       qt_rec (qs_thr q t) = fold lg (taccs (tp_cid P) t es) ini)"
proof -
  obtain es where "recording_inv lg ini P es q" using rec_reach_inv [OF assms(2,1)] by blast
  from rec_done_run [OF this assms(3)] show ?thesis by blast
qed

theorem recording_is_run_witness:
  "\<exists>es. run_of demo_prog es \<and> complete demo_prog es \<and>
     qt_vals (qs_thr demo_rec 1) = map ev_val (thr_evs 1 es)"
  using recording_is_run [OF demo_ok demo_rec_reach demo_rec_done] by (auto simp: demo_prog_def)

text \<open>C7: what a recorder shows of a program. The build with \<open>DUMMY\<close> makes plain loads and stores without
  barriers, and a store may wait in the store buffer of its processor. The values that the threads see
  and the memory they leave, in all finished recordings with any log taking and with or without
  transactions, are the ones of the finished runs of that build in which every store reaches the memory
  before the next access: every recording is such a run, so a recorder adds no behaviour, and every such
  run can be recorded. (The runs in which stores wait can show more: the lemma \<open>dummy_shows_more\<close> has the
  program of the comment in \<open>src/mem-record-seqlock.c\<close>, whose both threads can read 0 in the build with
  \<open>DUMMY\<close> and in no recording.)\<close>

theorem recording_transparent:
  assumes "prog_ok P"
  shows "(\<exists>q. rec_reach rtm lg ini P q \<and> rec_done P q \<and> (\<forall>t < tp_nthr P. qt_vals (qs_thr q t) = vs t) \<and> qs_mem q = m) \<longleftrightarrow>
    (\<exists>ts. (\<forall>t \<in> set ts. t < tp_nthr P) \<and> plain_done P (plain_run P (at_once ts)) \<and>
       (\<forall>t < tp_nthr P. pl_vals (plain_run P (at_once ts)) t = vs t) \<and> pl_mem (plain_run P (at_once ts)) = m)"
  (is "?rec \<longleftrightarrow> ?plain")
proof
  assume ?rec
  then obtain q where q: "rec_reach rtm lg ini P q" "rec_done P q" "\<forall>t < tp_nthr P. qt_vals (qs_thr q t) = vs t" "qs_mem q = m" by blast
  from recording_is_seq [OF assms q(1,2)] q(3,4) show ?plain by (auto simp: plain_at_once plain_done_at_once)
next
  assume ?plain
  then obtain ts where ts: "\<forall>t \<in> set ts. t < tp_nthr P" "seq_done P (seq_run P ts)"
    "\<forall>t < tp_nthr P. sq_vals (seq_run P ts) t = vs t" "sq_mem (seq_run P ts) = m" by (auto simp: plain_at_once plain_done_at_once)
  from seq_is_recording [OF assms ts(1,2), of rtm lg ini] ts(3,4) show ?rec by auto
qed

theorem recording_transparent_witness:
  "\<exists>q. rec_reach False seqlock_acc (mem_init_thr 2) demo_prog q \<and> rec_done demo_prog q \<and>
     (\<forall>t < tp_nthr demo_prog. qt_vals (qs_thr q t) = pl_vals (plain_run demo_prog (at_once [0, 1, 0, 1, 0, 1, 1, 0])) t) \<and>
     qs_mem q = pl_mem (plain_run demo_prog (at_once [0, 1, 0, 1, 0, 1, 1, 0]))"
proof (rule recording_transparent [OF demo_ok, THEN iffD2])
  have "plain_done demo_prog (plain_run demo_prog (at_once [0, 1, 0, 1, 0, 1, 1, 0]))" by code_simp
  then show "\<exists>ts. (\<forall>t \<in> set ts. t < tp_nthr demo_prog) \<and> plain_done demo_prog (plain_run demo_prog (at_once ts)) \<and>
     (\<forall>t < tp_nthr demo_prog.
        pl_vals (plain_run demo_prog (at_once ts)) t = pl_vals (plain_run demo_prog (at_once [0, 1, 0, 1, 0, 1, 1, 0])) t) \<and>
     pl_mem (plain_run demo_prog (at_once ts)) = pl_mem (plain_run demo_prog (at_once [0, 1, 0, 1, 0, 1, 1, 0]))"
    by (intro exI [of _ "[0, 1, 0, 1, 0, 1, 1, 0]"]) (simp add: demo_prog_def)
qed

text \<open>C19: in every state of a recording, at most one thread is in the critical section of
  \<open>mem_write\<close> of an object, an object is locked exactly when there is one, and a version is odd only
  while the object is locked.\<close>

theorem recording_exclusion:
  assumes "prog_ok P" "rec_reach rtm lg ini P q"
  shows "locks_inv P q"
proof -
  obtain es where "recording_inv lg ini P es q" using rec_reach_inv [OF assms(2,1)] by blast
  then show ?thesis by (rule recording_invD(6))
qed

theorem recording_exclusion_witness: "locks_inv demo_prog demo_rec"
  by (rule recording_exclusion [OF demo_ok demo_rec_reach])

text \<open>C2: a replay comes to its end: whatever the recording and whatever the schedule, as long as every
  thread gets its turn again and again, all threads finish, with the values and the memory of the
  recording.\<close>

theorem replay_terminates:
  assumes "min_queue memop_key que_gt sel" "tp_nthr P < 128" "prog_ok P"
    and "rec_reach rtm seqlock_acc (mem_init_thr (tp_nobj P)) P q" "rec_done P q"
    and "start_replay sel P (rec_logs (\<lambda>nobj. mem_finish_thr nobj before_finish_thr_default) P q) = Some s0"
    and "fair (tp_nthr P) f"
  shows "\<exists>n. all_done P (sched_state (replay_step P) f s0 n) \<and> replays P q (sched_state (replay_step P) f s0 n)"
  using assms by (rule seqlock.recording_fair)

theorem replay_terminates_witness:
  "\<exists>n. all_done demo_prog (sched_state (replay_step demo_prog) demo_turns demo_start n) \<and>
     replays demo_prog demo_rec (sched_state (replay_step demo_prog) demo_turns demo_start n)"
  by (rule replay_terminates [OF memop_queue.min_queue_axioms demo_nthr demo_ok demo_rec_reach demo_rec_done
      demo_start_eq demo_fair])

text \<open>C4: a replay is never stuck: in every state it can reach that is not final, some thread can make
  a step that changes the state. In particular the waits of different threads never form a cycle.\<close>

theorem replay_no_deadlock:
  assumes "min_queue memop_key que_gt sel" "tp_nthr P < 128" "prog_ok P"
    and "rec_reach rtm seqlock_acc (mem_init_thr (tp_nobj P)) P q" "rec_done P q"
    and "start_replay sel P (rec_logs (\<lambda>nobj. mem_finish_thr nobj before_finish_thr_default) P q) = Some s0"
    and "replay_reach P s0 s" "\<not> all_done P s"
  shows "\<exists>t < tp_nthr P. replay_step P t s \<noteq> s"
  using assms by (rule seqlock.recording_no_deadlock)

theorem replay_no_deadlock_witness:
  "\<exists>t < tp_nthr demo_prog. replay_step demo_prog t (replay_run demo_prog [0, 1, 1] demo_start) \<noteq>
     replay_run demo_prog [0, 1, 1] demo_start"
proof (rule replay_no_deadlock [OF memop_queue.min_queue_axioms demo_nthr demo_ok demo_rec_reach demo_rec_done
      demo_start_eq])
  show "replay_reach demo_prog demo_start (replay_run demo_prog [0, 1, 1] demo_start)"
    by (rule replay_reach_run [OF replay_reach.init]) (simp add: demo_prog_def)
  show "\<not> all_done demo_prog (replay_run demo_prog [0, 1, 1] demo_start)" by code_simp
qed

text \<open>C20: the steps of a replay that change its state cannot go on forever, fair schedule or not: they
  form a well-founded relation on the states a replay of a recording can reach.\<close>

theorem replay_steps_wf:
  assumes "min_queue memop_key que_gt sel" "tp_nthr P < 128" "prog_ok P"
    and "rec_reach rtm seqlock_acc (mem_init_thr (tp_nobj P)) P q" "rec_done P q"
    and "start_replay sel P (rec_logs (\<lambda>nobj. mem_finish_thr nobj before_finish_thr_default) P q) = Some s0"
  shows "wf {(s', s). replay_reach P s0 s \<and> (\<exists>t < tp_nthr P. s' = replay_step P t s) \<and> s' \<noteq> s}"
  using assms by (rule seqlock.recording_wf)

theorem replay_steps_wf_witness:
  "wf {(s', s). replay_reach demo_prog demo_start s \<and> (\<exists>t < tp_nthr demo_prog. s' = replay_step demo_prog t s) \<and> s' \<noteq> s}"
  by (rule replay_steps_wf [OF memop_queue.min_queue_axioms demo_nthr demo_ok demo_rec_reach demo_rec_done
      demo_start_eq])

text \<open>C11: a recording comes to its end: whatever the schedule, as long as every thread gets its turn
  again and again, and whatever transactions commit, all threads of a program whose threads end do
  end, although readers start over when a writer interferes and writers wait for locks. This holds
  for every log taking.\<close>

theorem recording_terminates:
  assumes "prog_ok P" "ends P N" "fair (tp_nthr P) f"
  shows "\<exists>k. rec_done P (rec_sched lg ini P tx f k)"
  using recording_ends [OF assms, of tx True] by blast

theorem recording_terminates_witness:
  "\<exists>k. rec_done demo_prog (rec_sched seqlock_acc (mem_init_thr 2) demo_prog (\<lambda>t s. t = 1) demo_turns k)"
proof (rule recording_terminates [OF demo_ok _ demo_fair])
  show "ends demo_prog (\<lambda>t. 3)" by (simp add: ends_def demo_prog_def demo_code_def)
qed

text \<open>C13: a test from the start of its threads, with the seqlock or rtmseq recorder. The threads of both runs
  are created in any order; each calls \<open>mem_init_thr\<close>, waits in the barrier and then makes its accesses.
  Under fair schedules the recording comes to its end and its logs can be processed and loaded. In the
  replay no thread leaves the barrier before all have run \<open>mem_init_thr\<close>, no wait for another thread
  reads a pointer of \<open>memop_cnt\<close> that is out of range or not yet set, and the replay comes to its end with
  the values and the memory of the recording.\<close>

theorem test_from_thread_start:
  assumes "min_queue memop_key que_gt sel" "0 < tp_nthr P" "tp_nthr P < 128" "prog_ok P" "ends P N"
    and "fair (tp_nthr P) f" "fair (tp_nthr P) g"
  shows "\<exists>k rls. let q = st_base (rec_started seqlock_acc (mem_init_thr (tp_nobj P)) raw P tx f k);
      lgs = rec_logs (\<lambda>nobj. mem_finish_thr nobj before_finish_thr_default) P q;
      S = replay_started P (\<lambda>t. log_version (lgs t)) rls g
    in rec_done P q \<and> start_replay sel P lgs = Some (replay_init P (\<lambda>t. log_version (lgs t)) rls) \<and>
      (\<forall>j. st_base (S j) \<noteq> None \<and> (\<forall>t < tp_nthr P. passed (bar_pc (st_bar (S j)) t) \<longrightarrow> all_ready (tp_nthr P) (S j))) \<and>
      (\<exists>m s memop_cnt. st_base (S m) = Some (s, memop_cnt) \<and> all_done P s \<and> replays P q s)"
  using assms by (rule seqlock.test_run_from_start)

theorem test_from_thread_start_witness:
  "\<exists>k. rec_done demo_prog (st_base (rec_started seqlock_acc (mem_init_thr (tp_nobj demo_prog))
     \<lparr>qt_pc = QRun, qt_vals = [], qt_rec = mem_init_thr 0\<rparr> demo_prog (\<lambda>t s. t = 1) demo_turns k))"
proof -
  have n: "0 < tp_nthr demo_prog" by (simp add: demo_prog_def)
  have "ends demo_prog (\<lambda>t. 3)" by (simp add: ends_def demo_prog_def demo_code_def)
  from test_from_thread_start [OF memop_queue.min_queue_axioms n demo_nthr demo_ok this demo_fair demo_fair,
      where tx = "\<lambda>t s. t = 1" and raw = "\<lparr>qt_pc = QRun, qt_vals = [], qt_rec = mem_init_thr 0\<rparr>"]
  show ?thesis unfolding Let_def by blast
qed

text \<open>C18: the whole of a test with \<open>src/mem-record-rtmcluster.c\<close>: for every program whose threads end,
  under fair schedules of the two runs and whatever transactions commit, the recording comes to its
  end, \<open>reorder-memop\<close>, \<open>merge-memop\<close> and the replayer's loading succeed on its logs, and the replay
  comes to its end with the values and the memory of the recording.\<close>

theorem rtmcluster_test:
  assumes "min_queue memop_key que_gt sel" "tp_nthr P < 128" "prog_ok P" "ends P N"
    and "fair (tp_nthr P) f" "fair (tp_nthr P) g"
  shows "\<exists>k s0 m. rec_done P (cluster_sched P tx f k) \<and>
    start_replay sel P (rec_logs batch_finish P (cluster_sched P tx f k)) = Some s0 \<and>
    all_done P (sched_state (replay_step P) g s0 m) \<and>
    replays P (cluster_sched P tx f k) (sched_state (replay_step P) g s0 m)"
  using assms by (rule cluster_test_run)

theorem rtmcluster_test_witness:
  "\<exists>k s0 m. rec_done demo_prog (cluster_sched demo_prog (\<lambda>t s. t = 1) demo_turns k) \<and>
    start_replay (first_least que_gt) demo_prog
      (rec_logs batch_finish demo_prog (cluster_sched demo_prog (\<lambda>t s. t = 1) demo_turns k)) = Some s0 \<and>
    all_done demo_prog (sched_state (replay_step demo_prog) demo_turns s0 m) \<and>
    replays demo_prog (cluster_sched demo_prog (\<lambda>t s. t = 1) demo_turns k)
      (sched_state (replay_step demo_prog) demo_turns s0 m)"
proof (rule rtmcluster_test [OF memop_queue.min_queue_axioms demo_nthr demo_ok _ demo_fair demo_fair])
  show "ends demo_prog (\<lambda>t. 3)" by (simp add: ends_def demo_prog_def demo_code_def)
qed

section \<open>The test programs\<close>

text \<open>C14: the test of \<open>src/test.sh\<close> with racey and the seqlock or rtmseq recorder: three programs on one disk.
  With a number of threads from 1 to 15 as the argument, under fair schedules of the two runs,
  whatever transactions commit, with no system call refused and no old files, the threads of the
  recording come to their end; in whatever order they have made their calls, racey prints a line and
  leaves its logs, \<open>process_memorder_log\<close> then runs on these to its end, and racey linked with the
  replayer loads what that has left, replays without a failed assertion, and prints the same line.\<close>

theorem racey_test:
  assumes "willing ker" "k_aligned ker" "min_queue memop_key que_gt sel" "0 < n" "n < 16" "fair n f" "fair n g"
    and "no_old_files (racey_prog MAX_LOOP n g_m) d"
  shows "\<exists>j. let P = racey_prog MAX_LOOP n g_m; q = rec_sched seqlock_acc (mem_init_thr MAX_ELEM) P tx f j
    in rec_done P q \<and>
      (\<forall>cs. order_calls n (rec_logs (\<lambda>nobj. mem_finish_thr nobj before_finish_thr_default) P q) cs \<longrightarrow>
        (\<exists>out d1 d2 m d3.
           racey_main ker (record_mem_init_os ker) (record_threads_os ker seqlock_acc mem_init_thr tx f j cs) g_m
             [''racey'', decimal n] d = Ret out d1 \<and>
           process_memorder_log_os ker v0 sel MAX_ELEM n d1 = Ret () d2 \<and>
           racey_main ker (replay_mem_init_os ker) (replay_threads_os ker g m) g_m [''racey'', decimal n] d2 = Ret out d3))"
  unfolding Let_def by (rule seqlock.racey_test_run [OF assms(1-7) refl assms(8)])

theorem racey_test_witness:
  "\<exists>j cs out d1 d2 m d3.
     racey_main demo_kernel (record_mem_init_os demo_kernel)
       (record_threads_os demo_kernel seqlock_acc mem_init_thr (\<lambda>t s. even t) (\<lambda>i. i mod 4) j cs) 4096
       [''racey'', decimal 4] demo_disk = Ret out d1 \<and>
     process_memorder_log_os demo_kernel 0 (first_least que_gt) MAX_ELEM 4 d1 = Ret () d2 \<and>
     racey_main demo_kernel (replay_mem_init_os demo_kernel) (replay_threads_os demo_kernel (\<lambda>i. i mod 4) m) 4096
       [''racey'', decimal 4] d2 = Ret out d3"
proof -
  have h: "0 < (4::nat)" "4 < (16::nat)" "fair 4 (\<lambda>i. i mod 4)" by (simp_all add: fair_round_robin)
  from racey_test [where tx = "\<lambda>t s. even t" and ?v0.0 = 0, OF demo_kernel_ok(1,2) memop_queue.min_queue_axioms h h(3) demo_disk_ok(2)]
  show ?thesis unfolding Let_def using calls_in_turn_ok by blast
qed

text \<open>C15: the test of \<open>src/test.sh\<close> with racey and the rtmcommit recorder: three programs on one disk. With a
  number of threads from 1 to 15, under fair schedules of the two runs, whatever transactions commit
  and with no system call refused, the threads of the recording come to their end; in whatever order
  they have written their commit logs, racey prints a line, \<open>merge-commit\<close> then runs on the logs to its
  end, and racey linked with the replayer maps the merged log, replays without a failed assertion, and
  prints the same line.\<close>

theorem racey_commit_test:
  assumes "willing ker" "k_aligned ker" "min_queue id ts_gt sel" "0 < n" "n < 16" "fair n f" "fair n g" "os_ok d"
  shows "\<exists>j. let P = racey_prog MAX_LOOP n g_m; q = commit_sched P tx f j
    in commit_done P q \<and>
      (\<forall>es. logs_used (set (commit_log_keys n)) (commit_log_bytes q) es \<longrightarrow>
        (\<exists>out d1 d2 m d3.
           racey_main ker commit_mem_init_os (commit_threads_os ker tx f j es) g_m [''racey'', decimal n] d = Ret out d1 \<and>
           merge_commit_main_os ker sel v0 [''./merge-commit'', decimal n] d1 = Ret () d2 \<and>
           racey_main ker (commit_replay_mem_init_os ker) (commit_replay_threads_os g m) g_m [''racey'', decimal n] d2 = Ret out d3))"
  unfolding Let_def by (rule racey_commit_test_run [OF assms(1-7) refl assms(8)])

theorem racey_commit_test_witness:
  "\<exists>j es out d1 d2 m d3.
     racey_main demo_kernel commit_mem_init_os (commit_threads_os demo_kernel (\<lambda>t s. even t) (\<lambda>i. i mod 3) j es) 4096
       [''racey'', decimal 3] demo_disk = Ret out d1 \<and>
     merge_commit_main_os demo_kernel (first_least ts_gt) 0 [''./merge-commit'', decimal 3] d1 = Ret () d2 \<and>
     racey_main demo_kernel (commit_replay_mem_init_os demo_kernel) (commit_replay_threads_os (\<lambda>i. i mod 3) m) 4096
       [''racey'', decimal 3] d2 = Ret out d3"
proof -
  have h: "0 < (3::nat)" "3 < (16::nat)" "fair 3 (\<lambda>i. i mod 3)" by (simp_all add: fair_round_robin)
  from racey_commit_test [where tx = "\<lambda>t s. even t" and g_m = 4096 and ?v0.0 = 0, OF demo_kernel_ok(1,2) ts_queue.min_queue_axioms h h(3) demo_disk_ok(1)]
  show ?thesis unfolding Let_def using commit_logs_in_turn [of 3] by metis
qed

text \<open>C16: the test of \<open>src/test.sh\<close> with addcnt and the seqbatch recorder: three programs on one disk. With
  fewer than 128 threads, under fair schedules of the two runs, with no system call refused and no old
  files, and if the counters hold the same at the start of both runs: the threads of the recording
  come to their end; in whatever order they have made their calls, addcnt prints its lines and leaves
  its logs, \<open>process_memorder_log\<close> then runs on these to its end, and addcnt linked with the replayer
  loads what that has left, replays without a failed assertion, and prints the same lines.\<close>

theorem addcnt_test:
  assumes "willing ker" "k_aligned ker" "min_queue memop_key que_gt sel" "n < 128" "fair n f" "fair n g"
    and "no_old_files (addcnt_prog NITER n g_obj init_mem) d"
  shows "\<exists>j. let P = addcnt_prog NITER n g_obj init_mem;
      q = rec_sched (batch_acc BATCH_LOG_SIZE) (batch_init BATCH_LOG_SIZE (nat NOBJS)) P (\<lambda>t s. False) f j
    in rec_done P q \<and>
      (\<forall>cs. order_calls n (rec_logs batch_finish P q) cs \<longrightarrow>
        (\<exists>out d1 d2 m d3.
           addcnt_main ker (record_mem_init_os ker)
             (record_threads_os ker (batch_acc BATCH_LOG_SIZE) (batch_init BATCH_LOG_SIZE) (\<lambda>t s. False) f j cs) g_obj init_mem
             [''addcnt'', decimal n] d = Ret out d1 \<and>
           process_memorder_log_os ker v0 sel (nat NOBJS) n d1 = Ret () d2 \<and>
           addcnt_main ker (replay_mem_init_os ker) (replay_threads_os ker g m) g_obj init_mem [''addcnt'', decimal n] d2 = Ret out d3))"
  unfolding Let_def by (rule seqbatch.addcnt_test_run [OF assms(1-6) refl assms(7)])

theorem addcnt_test_witness:
  "\<exists>j cs out d1 d2 m d3.
     addcnt_main demo_kernel (record_mem_init_os demo_kernel)
       (record_threads_os demo_kernel (batch_acc BATCH_LOG_SIZE) (batch_init BATCH_LOG_SIZE) (\<lambda>t s. False) (\<lambda>i. i mod 8) j cs) 8192 (\<lambda>a. 0)
       [''addcnt'', decimal 8] demo_disk = Ret out d1 \<and>
     process_memorder_log_os demo_kernel 0 (first_least que_gt) (nat NOBJS) 8 d1 = Ret () d2 \<and>
     addcnt_main demo_kernel (replay_mem_init_os demo_kernel) (replay_threads_os demo_kernel (\<lambda>i. i mod 8) m) 8192 (\<lambda>a. 0)
       [''addcnt'', decimal 8] d2 = Ret out d3"
proof -
  have h: "8 < (128::nat)" "fair 8 (\<lambda>i. i mod 8)" by (simp_all add: fair_round_robin)
  from addcnt_test [where ?v0.0 = 0, OF demo_kernel_ok(1,2) memop_queue.min_queue_axioms h h(2) demo_disk_ok(2)]
  show ?thesis unfolding Let_def using calls_in_turn_ok by blast
qed

section \<open>Recording the order of transactions\<close>

text \<open>C5: record and replay with \<open>src/mem-record-rtmcommit.c\<close>, \<open>src/merge-commit.cpp\<close> and
  \<open>src/mem-replay-rtmcommit.c\<close>. Take any recording that has come to its end, in which any transactions
  have committed or aborted and every thread has made fewer than \<open>2 ^ 31\<close> accesses (the replayer counts
  them in an \<open>int\<close>), merge its commit logs and look at any state the replay can reach: no
  assertion has failed; every thread has read and written the first of the values it read and wrote
  in the recording; and a replay that is over has shown all of them and has left the same memory.\<close>

theorem record_replay_rtmcommit:
  assumes "min_queue id ts_gt sel" "commit_prog_ok P" "commit_reach P q" "commit_done P q"
    and "few_accesses P q" "start_commit_replay sel P q = Some s0" "commit_replay_reach P s0 s"
  shows "commit_replays P (recorded_view q) s"
  using assms by (rule commit_started_replays)

theorem record_replay_rtmcommit_witness: "commit_replays bank_prog (recorded_view bank_rec) bank_play"
  by (rule record_replay_rtmcommit [OF ts_queue.min_queue_axioms bank_ok bank_reach bank_done bank_few bank_start_eq
      bank_play_reach])

text \<open>C9: the same through the files, with fewer than \<open>2 ^ 31\<close> accesses of each thread: the threads write their
  commit logs in any interleaving, \<open>merge-commit\<close> runs on them, the replayer maps its output, and what it
  reads and writes is what the recording read and wrote; under every fair schedule it comes to its end.\<close>

theorem commit_replay_on_disk:
  assumes "willing k" "k_aligned k" "min_queue id ts_gt sel" "commit_prog_ok P" "commit_reach P q" "commit_done P q"
    and "few_accesses P q" "logs_used (set (commit_log_keys (tp_nthr P))) (commit_log_bytes q) es" "os_ok d"
  shows "\<exists>ls d1 s0 d2. log_events_os k es Map.empty d = Ret ls d1 \<and> start_commit_replay_os k v0 sel P d1 = Ret s0 d2 \<and>
    (\<forall>s. commit_replay_reach P s0 s \<longrightarrow> commit_replays P (recorded_view q) s) \<and>
    (\<forall>g. fair (tp_nthr P) g \<longrightarrow> (\<exists>m. commit_replay_done P (sched_state (commit_replay_step P) g s0 m) \<and>
       commit_replays P (recorded_view q) (sched_state (commit_replay_step P) g s0 m)))"
  using assms by (rule commit_through_files)

theorem commit_replay_on_disk_witness:
  "\<exists>ls d1 s0 d2 m. log_events_os demo_kernel bank_events Map.empty demo_disk = Ret ls d1 \<and>
     start_commit_replay_os demo_kernel 0 (first_least ts_gt) bank_prog d1 = Ret s0 d2 \<and>
     commit_replays bank_prog (recorded_view bank_rec) s0 \<and>
     commit_replay_done bank_prog (sched_state (commit_replay_step bank_prog) (\<lambda>n. n mod 2) s0 m)"
proof -
  have n: "tp_nthr bank_prog = 2" by (simp add: bank_prog_def)
  have f: "fair (tp_nthr bank_prog) (\<lambda>n. n mod 2)" by (simp add: n fair_round_robin)
  have "\<exists>ls d1 s0 d2. log_events_os demo_kernel bank_events Map.empty demo_disk = Ret ls d1 \<and>
     start_commit_replay_os demo_kernel 0 (first_least ts_gt) bank_prog d1 = Ret s0 d2 \<and>
     (\<forall>s. commit_replay_reach bank_prog s0 s \<longrightarrow> commit_replays bank_prog (recorded_view bank_rec) s) \<and>
     (\<forall>g. fair (tp_nthr bank_prog) g \<longrightarrow> (\<exists>m. commit_replay_done bank_prog (sched_state (commit_replay_step bank_prog) g s0 m) \<and>
       commit_replays bank_prog (recorded_view bank_rec) (sched_state (commit_replay_step bank_prog) g s0 m)))"
    by (rule commit_replay_on_disk [OF demo_kernel_ok(1,2) ts_queue.min_queue_axioms bank_ok bank_reach bank_done bank_few
      bank_events_used [folded n] demo_disk_ok(1)])
  then show ?thesis using commit_replay_reach.init f by metis
qed

text \<open>C40: a thread without accesses. When a recording of a program with such a thread has ended and its threads
  have written their commit logs, in any interleaving and with no system call refused, the log of that
  thread is there with length zero; \<open>merge-commit\<close> opens it, \<open>mmap\<close> fails on it, and the program exits: a
  program with a thread that makes no access cannot be replayed. (A log that is missing is skipped.)\<close>

theorem merge_commit_empty_log:
  assumes "willing k" "k_aligned k" "os_ok d" "tp_nthr P < 128" "commit_reach P q" "commit_done P q"
    and "t < tp_nthr P" "tp_code P t [] = Finish" "logs_used (set (commit_log_keys (tp_nthr P))) (commit_log_bytes q) es"
  shows "\<exists>ls d1 d2. log_events_os k es Map.empty d = Ret ls d1 \<and> os_file d1 (tpath ''commit'' t) = Some [] \<and>
    merge_commit_main_os k sel v0 [''./merge-commit'', decimal (tp_nthr P)] d1 = Exit ''mmap'' d2"
  using assms by (rule idle_thread_stops_merge)

theorem merge_commit_empty_log_witness:
  "\<exists>es ls d1 d2. log_events_os demo_kernel es Map.empty demo_disk = Ret ls d1 \<and> os_file d1 (tpath ''commit'' 1) = Some [] \<and>
     merge_commit_main_os demo_kernel (first_least ts_gt) 0 [''./merge-commit'', decimal (tp_nthr idle_prog)] d1 = Exit ''mmap'' d2"
proof -
  have "tp_nthr idle_prog < 128" "1 < tp_nthr idle_prog" "tp_code idle_prog 1 [] = Finish" by (simp_all add: idle_prog_def)
  note h = merge_commit_empty_log [OF demo_kernel_ok(1,2) demo_disk_ok(1) this(1) idle_reach idle_done this(2,3)]
  obtain es where "logs_used (set (commit_log_keys (tp_nthr idle_prog))) (commit_log_bytes idle_rec) es"
    using commit_logs_in_turn by blast
  from h [OF this] show ?thesis by blast
qed

text \<open>C6: a recording of transactions is a sequence of blocks: whatever the interleaving of committed
  and aborted transactions and of threads in the fallback path, there is one order in which the
  blocks run one after the other, each in one piece, with the values, the final memory and the time
  stamps of the recording.\<close>

theorem commit_recording_serial:
  assumes "commit_reach P q" "commit_done P q" "tp_nthr P < 65536"
  shows "\<exists>bs. commit_seen P bs q"
  using assms by (rule commit_done_seen)

theorem commit_recording_serial_witness: "\<exists>bs. commit_seen bank_prog bs bank_rec"
  by (rule commit_recording_serial [OF bank_reach bank_done]) (simp add: bank_prog_def)

text \<open>C12: a recording with transactions comes to its end under every fair schedule, whatever transactions
  commit or abort, for programs whose threads end.\<close>

theorem commit_recording_terminates:
  assumes "tp_nthr P < 65536" "ends P N" "fair (tp_nthr P) f"
  shows "\<exists>k. commit_done P (commit_sched P tx f k)"
  using commit_recording_ends [OF assms] by blast

theorem commit_recording_terminates_witness:
  "\<exists>k. commit_done bank_prog (commit_sched bank_prog (\<lambda>t s. t = 0) (\<lambda>n. n mod 2) k)"
proof (rule commit_recording_terminates)
  show "tp_nthr bank_prog < 65536" "ends bank_prog (\<lambda>t. 9)" by (simp_all add: ends_def bank_prog_def bank_code_def)
  show "fair (tp_nthr bank_prog) (\<lambda>n. n mod 2)" using fair_round_robin [of 2] by (simp add: bank_prog_def)
qed

text \<open>A replay of a commit log is never stuck: some thread can always make a step that changes the
  state, until all are over.\<close>

lemma commit_replay_no_deadlock:
  assumes "min_queue id ts_gt sel" "commit_prog_ok P" "commit_reach P q" "commit_done P q"
    and "few_accesses P q" "start_commit_replay sel P q = Some s0" "commit_replay_reach P s0 s"
    and "\<not> commit_replay_done P s"
  shows "\<exists>t < tp_nthr P. commit_replay_step P t s \<noteq> s"
proof (rule commit_chain [OF assms(1-5)])
  fix bs s1
  assume bs: "blocks_complete P bs" and s1: "start_commit_replay sel P q = Some s1"
    and inv: "\<And>s. commit_replay_reach P s1 s \<Longrightarrow> \<exists>j. commit_replay_inv P bs j s"
  have "\<exists>j. commit_replay_inv P bs j s" using inv assms(6,7) s1 by auto
  with commit_replayer.not_stuck [of P bs s] bs assms(8) show ?thesis by blast
qed

text \<open>The ticket lock keeps threads in the fallback path apart: in every state of a recording at most
  one thread is inside a block under the lock, for up to 65535 threads, the numbers that 16-bit
  tickets can tell apart.\<close>

lemma commit_exclusion:
  assumes "commit_reach P s" "tp_nthr P < 65536" "t < tp_nthr P" "u < tp_nthr P"
    and "has_lock (cs_thr s t)" "has_lock (cs_thr s u)"
  shows "t = u"
proof -
  obtain bs ql where "commit_inv P bs ql s" using commit_reach_inv [OF assms(1,2)] by blast
  from holder_unique [OF commit_invD(3) [OF this] assms(4,3,6,5)] show ?thesis .
qed

end
